(* ===== verification/Prelude.thy ===== *)
theory Prelude
  imports Main "HOL-Library.Word" "HOL-Library.Multiset" "HOL-Library.Monad_Syntax"
    "HOL-Library.Signed_Division"
begin

text \<open>
  The vocabulary every component of the development shares.

  A C function is modelled by a HOL function into an \<^typ>\<open>'a option\<close>: \<open>Some v\<close> says that the
  call returns, with the value (and the new state) \<open>v\<close>; \<open>None\<close> says that the C program
  has no defined result, either because it executes undefined behaviour (an access out of
  range, a null or dangling pointer, a signed overflow, a division by zero) or because it does
  not terminate. So a statement \<open>f x = Some v\<close> is total correctness: the call terminates,
  commits no undefined behaviour and returns \<open>v\<close>. Error returns of the C code (\<open>-1\<close>, a null
  pointer, \<open>-EINVAL\<close>) are ordinary values.

  The sections: signed machine integers, arrays accessed by a C index, characters, and generic
  facts on lists that several components use.
\<close>

named_theorems cdefs \<open>definitions of the C primitives, unfolded to evaluate a model\<close>
named_theorems rd_wr \<open>reads and writes at positions known to be in range\<close>

section \<open>Signed machine integers\<close>

text \<open>
  A C \<open>int\<close> (32 bits) and a C \<open>long\<close> (64 bits) are mathematical integers; every arithmetic
  operation whose result can leave the range is written with \<open>c_int\<close> or \<open>c_long\<close>, which have
  no defined result on an overflow, as in C.
\<close>

definition INT_MAX :: int where
  "INT_MAX = 2147483647"

definition INT_MIN :: int where
  "INT_MIN = - 2147483648"

definition LONG_MAX :: int where
  "LONG_MAX = 9223372036854775807"

definition LONG_MIN :: int where
  "LONG_MIN = - 9223372036854775808"

definition in_int :: "int \<Rightarrow> bool" where
  "in_int x \<longleftrightarrow> INT_MIN \<le> x \<and> x \<le> INT_MAX"

definition in_long :: "int \<Rightarrow> bool" where
  "in_long x \<longleftrightarrow> LONG_MIN \<le> x \<and> x \<le> LONG_MAX"

definition c_int :: "int \<Rightarrow> int option" where
  "c_int x = (if in_int x then Some x else None)"

definition c_long :: "int \<Rightarrow> int option" where
  "c_long x = (if in_long x then Some x else None)"

lemmas int_range = in_int_def in_long_def INT_MAX_def INT_MIN_def LONG_MAX_def LONG_MIN_def

lemma c_int_Some [simp]: "in_int x \<Longrightarrow> c_int x = Some x"
  by (simp add: c_int_def)

lemma c_int_eq_Some: "c_int x = Some y \<longleftrightarrow> in_int x \<and> y = x"
  by (auto simp: c_int_def)

lemma c_long_Some [simp]: "in_long x \<Longrightarrow> c_long x = Some x"
  by (simp add: c_long_def)

text \<open>
  Division truncates towards zero; dividing by zero and \<open>INT_MIN / -1\<close> are undefined (and so
  is the remainder of the latter).
\<close>

definition c_div :: "int \<Rightarrow> int \<Rightarrow> int option" where
  "c_div a b = (if b = 0 then None else c_int (a sdiv b))"

definition c_mod :: "int \<Rightarrow> int \<Rightarrow> int option" where
  "c_mod a b = do { _ \<leftarrow> c_div a b; c_int (a smod b) }"

declare c_int_def [cdefs] c_long_def [cdefs] c_div_def [cdefs] c_mod_def [cdefs]

section \<open>Arrays\<close>

text \<open>An array is the list of its elements; an access outside it is undefined.\<close>

definition rd :: "'a list \<Rightarrow> int \<Rightarrow> 'a option" where
  "rd xs i = (if 0 \<le> i \<and> i < int (length xs) then Some (xs ! nat i) else None)"

definition wr :: "'a list \<Rightarrow> int \<Rightarrow> 'a \<Rightarrow> 'a list option" where
  "wr xs i v = (if 0 \<le> i \<and> i < int (length xs) then Some (xs[nat i := v]) else None)"

declare rd_def [cdefs] wr_def [cdefs]

lemma rd_in [rd_wr]: "0 \<le> i \<Longrightarrow> i < int (length xs) \<Longrightarrow> rd xs i = Some (xs ! nat i)"
  by (simp add: rd_def)

lemma wr_in [rd_wr]: "0 \<le> i \<Longrightarrow> i < int (length xs) \<Longrightarrow> wr xs i v = Some (xs[nat i := v])"
  by (simp add: wr_def)

lemma rd_nat: "rd xs (int n) = (if n < length xs then Some (xs ! n) else None)"
  by (simp add: rd_def)

lemma wr_nat: "wr xs (int n) v = (if n < length xs then Some (xs[n := v]) else None)"
  by (simp add: wr_def)

lemma rd_out: "\<not> (0 \<le> i \<and> i < int (length xs)) \<Longrightarrow> rd xs i = None"
  by (simp add: rd_def)

lemma wr_out: "\<not> (0 \<le> i \<and> i < int (length xs)) \<Longrightarrow> wr xs i v = None"
  by (simp add: wr_def)

text \<open>The element at the seam of a list cut in two: the shape loop invariants use.\<close>

lemma rd_mid: "i = int (length ys) \<Longrightarrow> rd (ys @ x # zs) i = Some x"
  by (simp add: rd_def)

lemma wr_mid: "i = int (length ys) \<Longrightarrow> wr (ys @ x # zs) i v = Some (ys @ v # zs)"
  by (simp add: wr_def)

lemma rd_SomeD: "rd xs i = Some x \<Longrightarrow> 0 \<le> i \<and> i < int (length xs) \<and> x = xs ! nat i"
  by (simp add: rd_def split: if_splits)

lemma wr_SomeD: "wr xs i v = Some ys \<Longrightarrow> 0 \<le> i \<and> i < int (length xs) \<and> ys = xs[nat i := v]"
  by (simp add: wr_def split: if_splits)

text \<open>
  \<open>calloc ok n\<close>: a zeroed array of \<open>n\<close> elements. A negative \<open>n\<close> becomes a size
  no allocator can serve, so the result is a null pointer; \<open>ok\<close> says whether the allocator has
  the memory otherwise.
\<close>

definition calloc :: "bool \<Rightarrow> int \<Rightarrow> int list option" where
  "calloc ok n = (if ok \<and> 0 \<le> n then Some (replicate (nat n) 0) else None)"

declare calloc_def [cdefs]

section \<open>Characters\<close>

text \<open>
  A \<open>char\<close> is its code; \<open>ch\<close> turns a literal into it. A byte read with \<open>getchar\<close> is \<open>0..255\<close>
  and the end of the input is \<open>EOF\<close>; stored into a \<open>char\<close> the byte becomes signed.
\<close>

abbreviation ch :: "char \<Rightarrow> int" where
  "ch c \<equiv> of_char c"

definition EOF :: int where
  "EOF = - 1"

definition schar :: "int \<Rightarrow> int" where
  "schar c = (if c \<ge> 128 then c - 256 else c)"

definition isdigit :: "int \<Rightarrow> bool" where
  "isdigit c \<longleftrightarrow> 48 \<le> c \<and> c \<le> 57"

definition isalpha :: "int \<Rightarrow> bool" where
  "isalpha c \<longleftrightarrow> (65 \<le> c \<and> c \<le> 90) \<or> (97 \<le> c \<and> c \<le> 122)"

text \<open>\<open>getchar\<close> takes the next byte off the standard input, the list of the bytes left.\<close>

fun getchar :: "int list \<Rightarrow> int \<times> int list" where
  "getchar [] = (EOF, [])"
| "getchar (c # cs) = (c, cs)"

text \<open>\<open>ungetc\<close> pushes a character, converted to a byte, back onto the input.\<close>

definition ungetc :: "int \<Rightarrow> int list \<Rightarrow> int list" where
  "ungetc c cs = (c mod 256) # cs"

declare EOF_def [cdefs] schar_def [cdefs] isdigit_def [cdefs] isalpha_def [cdefs] ungetc_def [cdefs]

text \<open>
  \<open>read_line n\<close> is what \<open>fgets\<close> with a buffer of \<open>n + 1\<close> bytes takes from the input: up to
  and including the first newline, at most \<open>n\<close> bytes. \<open>fgets_buf\<close> is a zeroed buffer after
  the call.
\<close>

fun read_line :: "nat \<Rightarrow> int list \<Rightarrow> int list \<times> int list" where
  "read_line 0 cs = ([], cs)"
| "read_line (Suc n) [] = ([], [])"
| "read_line (Suc n) (c # cs) =
     (if c = 10 then ([c], cs) else let (l, r) = read_line n cs in (c # l, r))"

definition fgets_buf :: "nat \<Rightarrow> int list \<Rightarrow> int list" where
  "fgets_buf sz inp =
     (let l = fst (read_line (sz - 1) inp) in map schar l @ replicate (sz - length l) 0)"

text \<open>The length of a string in a buffer; a buffer without a zero byte has none.\<close>

definition strlen :: "int list \<Rightarrow> int option" where
  "strlen s = (if 0 \<in> set s then Some (int (length (takeWhile (\<lambda>c. c \<noteq> 0) s))) else None)"

lemma getchar_length: "snd (getchar cs) = tl cs"
  by (cases cs) auto

section \<open>Lists\<close>


lemma list_split_at: "n < length xs \<Longrightarrow> xs = take n xs @ xs ! n # drop (Suc n) xs"
  by (simp add: id_take_nth_drop)

text \<open>Replacing the first occurrence of an element, as the list components do.\<close>

primrec replace1 :: "'a \<Rightarrow> 'a \<Rightarrow> 'a list \<Rightarrow> 'a list" where
  "replace1 x y [] = []"
| "replace1 x y (z # zs) = (if z = x then y # zs else z # replace1 x y zs)"

lemma replace1_absent [simp]: "x \<notin> set xs \<Longrightarrow> replace1 x y xs = xs"
  by (induction xs) auto

lemma length_replace1 [simp]: "length (replace1 x y xs) = length xs"
  by (induction xs) auto

lemma mset_replace1: "x \<in> set xs \<Longrightarrow> mset (replace1 x y xs) = add_mset y (mset xs - {#x#})"
  by (induction xs) auto

lemma replace1_append: "x \<notin> set ys \<Longrightarrow> replace1 x y (ys @ x # zs) = ys @ y # zs"
  by (induction ys) auto

lemma remove1_append_mid: "x \<notin> set ys \<Longrightarrow> remove1 x (ys @ x # zs) = ys @ zs"
  by (induction ys) auto

lemma take_update_nth: "n < length xs \<Longrightarrow> take (Suc n) (xs[n := v]) = take n xs @ [v]"
  by (simp add: take_Suc_conv_app_nth)

end
