(* ===== verification/SeqList.thy ===== *)
theory SeqList
  imports ListSpec
begin

text \<open>
  The array list, \<open>algorithm/list/seqlist/seqlist.c\<close>. A \<open>list_t\<close> is an array of \<open>max\<close>
  integers of which the first \<open>top\<close> are in use. A \<open>list_t *\<close> is an option: the null pointer
  or the object it owns. The two allocations of \<open>list_init\<close> succeed or fail as the parameters
  say.
\<close>

section \<open>State and operations\<close>

record list_t =
  l_buf :: "int list"
  l_max :: int
  l_top :: int

definition list_init :: "bool \<Rightarrow> bool \<Rightarrow> int \<Rightarrow> list_t option" where
  "list_init m1 m2 mx =
     (if \<not> m1 then None
      else case calloc m2 mx of
             None \<Rightarrow> None
           | Some b \<Rightarrow> Some \<lparr>l_buf = b, l_max = mx, l_top = 0\<rparr>)"

definition list_destory :: "list_t option \<Rightarrow> int \<times> list_t option" where
  "list_destory l = (case l of None \<Rightarrow> (- 1, None) | Some _ \<Rightarrow> (0, None))"

definition list_insert :: "list_t option \<Rightarrow> int \<Rightarrow> (int \<times> list_t option) option" where
  "list_insert lp data = (case lp of
     None \<Rightarrow> Some (- 1, None)
   | Some l \<Rightarrow>
       if l_top l = l_max l then Some (- 1, Some l)
       else do {
         b \<leftarrow> wr (l_buf l) (l_top l) data;
         Some (0, Some (l\<lparr>l_buf := b, l_top := l_top l + 1\<rparr>)) })"

text \<open>The inner loop of \<open>list_delete\<close>: \<open>buf[j - 1] = buf[j]\<close> for \<open>j\<close> up to \<open>top\<close>.\<close>

function shift_down :: "int list \<Rightarrow> int \<Rightarrow> int \<Rightarrow> int list option" where
  "shift_down b j tp =
     (if j < tp then do {
        x \<leftarrow> rd b j;
        b' \<leftarrow> wr b (j - 1) x;
        shift_down b' (j + 1) tp }
      else Some b)"
  by pat_completeness auto
termination
  by (relation "measure (\<lambda>(b, j, tp). nat (tp - j))") auto

function list_delete_from :: "list_t \<Rightarrow> int \<Rightarrow> int \<Rightarrow> (int \<times> list_t) option" where
  "list_delete_from l data i =
     (if i < l_top l then do {
        x \<leftarrow> rd (l_buf l) i;
        if x = data then do {
          b \<leftarrow> shift_down (l_buf l) (i + 1) (l_top l);
          Some (0, l\<lparr>l_buf := b, l_top := l_top l - 1\<rparr>) }
        else list_delete_from l data (i + 1) }
      else Some (- 1, l))"
  by pat_completeness auto
termination
  by (relation "measure (\<lambda>(l, d, i). nat (l_top l - i))") auto

definition list_delete :: "list_t option \<Rightarrow> int \<Rightarrow> (int \<times> list_t option) option" where
  "list_delete lp data = (case lp of
     None \<Rightarrow> Some (- 1, None)
   | Some l \<Rightarrow> do { (r, l') \<leftarrow> list_delete_from l data 0; Some (r, Some l') })"

function list_modify_from :: "list_t \<Rightarrow> int \<Rightarrow> int \<Rightarrow> int \<Rightarrow> (int \<times> list_t) option" where
  "list_modify_from l old new i =
     (if i < l_top l then do {
        x \<leftarrow> rd (l_buf l) i;
        if x = old then do {
          b \<leftarrow> wr (l_buf l) i new;
          Some (0, l\<lparr>l_buf := b\<rparr>) }
        else list_modify_from l old new (i + 1) }
      else Some (- 1, l))"
  by pat_completeness auto
termination
  by (relation "measure (\<lambda>(l, old, new, i). nat (l_top l - i))") auto

definition list_modify :: "list_t option \<Rightarrow> int \<Rightarrow> int \<Rightarrow> (int \<times> list_t option) option" where
  "list_modify lp old new = (case lp of
     None \<Rightarrow> Some (- 1, None)
   | Some l \<Rightarrow> do { (r, l') \<leftarrow> list_modify_from l old new 0; Some (r, Some l') })"

function list_search_from :: "list_t \<Rightarrow> int \<Rightarrow> int \<Rightarrow> int option" where
  "list_search_from l data i =
     (if i < l_top l then do {
        x \<leftarrow> rd (l_buf l) i;
        if x = data then Some 1 else list_search_from l data (i + 1) }
      else Some 0)"
  by pat_completeness auto
termination
  by (relation "measure (\<lambda>(l, d, i). nat (l_top l - i))") auto

definition list_search :: "list_t option \<Rightarrow> int \<Rightarrow> int option" where
  "list_search lp data = (case lp of None \<Rightarrow> Some 0 | Some l \<Rightarrow> list_search_from l data 0)"

text \<open>\<open>list_foreach\<close> calls \<open>visit\<close>: the model returns the sequence of visited values.\<close>

function list_foreach_from :: "list_t \<Rightarrow> int \<Rightarrow> int list option" where
  "list_foreach_from l i =
     (if i < l_top l then do {
        x \<leftarrow> rd (l_buf l) i;
        xs \<leftarrow> list_foreach_from l (i + 1);
        Some (x # xs) }
      else Some [])"
  by pat_completeness auto
termination
  by (relation "measure (\<lambda>(l, i). nat (l_top l - i))") auto

definition list_foreach :: "list_t option \<Rightarrow> (int \<times> int list) option" where
  "list_foreach lp = (case lp of
     None \<Rightarrow> Some (- 1, [])
   | Some l \<Rightarrow> do { vs \<leftarrow> list_foreach_from l 0; Some (0, vs) })"

declare shift_down.simps [simp del] list_delete_from.simps [simp del]
  list_modify_from.simps [simp del] list_search_from.simps [simp del]
  list_foreach_from.simps [simp del]

text \<open>
  The demonstration program \<open>main.c\<close>: the two printed lines, on a list of ten places.
\<close>

fun insert_all :: "list_t option \<Rightarrow> int list \<Rightarrow> list_t option option" where
  "insert_all lp [] = Some lp"
| "insert_all lp (x # xs) = do { (_, lp') \<leftarrow> list_insert lp x; insert_all lp' xs }"

definition seqlist_main :: "bool \<Rightarrow> bool \<Rightarrow> (int list \<times> int list) option" where
  "seqlist_main m1 m2 = do {
     lp \<leftarrow> insert_all (list_init m1 m2 10) [1, 2, 3, 4, 5, 6, 7, 8, 9];
     (_, out1) \<leftarrow> list_foreach lp;
     (_, lp) \<leftarrow> list_modify lp 5 50;
     (_, lp) \<leftarrow> list_delete lp 1;
     (_, out2) \<leftarrow> list_foreach lp;
     Some (out1, out2) }"

section \<open>Abstraction to a list\<close>

text \<open>The object \<open>l\<close> holds the elements \<open>xs\<close> with capacity \<open>m\<close>.\<close>

definition seq_rep :: "list_t option \<Rightarrow> int \<Rightarrow> int list \<Rightarrow> bool" where
  "seq_rep lp m xs \<longleftrightarrow> (\<exists>l rest. lp = Some l \<and> l_buf l = xs @ rest \<and>
     l_top l = int (length xs) \<and> l_max l = m \<and> int (length (l_buf l)) = m)"

lemma seq_repE:
  assumes "seq_rep lp m xs"
  obtains rest where "lp = Some \<lparr>l_buf = xs @ rest, l_max = m, l_top = int (length xs)\<rparr>"
    and "int (length xs) + int (length rest) = m"
proof -
  from assms obtain l rest where l: "lp = Some l" "l_buf l = xs @ rest" "l_top l = int (length xs)"
    "l_max l = m" "int (length (l_buf l)) = m" by (auto simp: seq_rep_def)
  then have "l = \<lparr>l_buf = xs @ rest, l_max = m, l_top = int (length xs)\<rparr>" by (cases l) simp
  with l show thesis by (intro that [of rest]) auto
qed

lemma seq_repI:
  "m = int (length xs) + int (length rest) \<Longrightarrow>
    seq_rep (Some \<lparr>l_buf = xs @ rest, l_max = m, l_top = int (length xs)\<rparr>) m xs"
  by (simp add: seq_rep_def)

lemma seq_rep_init: "0 \<le> m \<Longrightarrow> seq_rep (list_init True True m) m []"
  by (simp add: list_init_def calloc_def seq_rep_def)

lemma seq_insert_ok:
  assumes "seq_rep lp m xs" and "int (length xs) < m"
  shows "\<exists>lp'. list_insert lp x = Some (0, lp') \<and> seq_rep lp' m (xs @ [x])"
proof -
  from assms(1) obtain rest where
    lp: "lp = Some \<lparr>l_buf = xs @ rest, l_max = m, l_top = int (length xs)\<rparr>"
    and m: "int (length xs) + int (length rest) = m" by (rule seq_repE)
  from m assms(2) obtain r rest' where rest: "rest = r # rest'" by (cases rest) auto
  show ?thesis
    using m seq_repI [of m "xs @ [x]" rest']
    by (simp add: lp rest list_insert_def wr_mid assms(2) algebra_simps)
qed

lemma seq_insert_full:
  assumes "seq_rep lp m xs" and "m \<le> int (length xs)"
  shows "\<exists>lp'. list_insert lp x = Some (- 1, lp') \<and> seq_rep lp' m xs"
  using assms by (elim seq_repE) (auto simp: list_insert_def seq_rep_def)

section \<open>The loops\<close>

lemma shift_down_eq:
  "tp = int (length ys + 1 + length zs) \<Longrightarrow>
    shift_down (ys @ [g] @ zs @ rest) (int (length ys) + 1) tp = Some (ys @ zs @ [last (g # zs)] @ rest)"
proof (induction zs arbitrary: ys g)
  case Nil
  then show ?case by (simp add: shift_down.simps)
next
  case (Cons z zs)
  have r: "rd (ys @ [g] @ (z # zs) @ rest) (int (length ys) + 1) = Some z"
    using rd_mid [of "int (length ys) + 1" "ys @ [g]" z "zs @ rest"] by simp
  have w: "wr (ys @ [g] @ (z # zs) @ rest) (int (length ys)) z = Some ((ys @ [z]) @ [z] @ zs @ rest)"
    using wr_mid [of "int (length ys)" ys g "z # zs @ rest" z] by simp
  have "shift_down ((ys @ [z]) @ [z] @ zs @ rest) (int (length (ys @ [z])) + 1) tp
    = Some ((ys @ [z]) @ zs @ [last (z # zs)] @ rest)"
    by (rule Cons.IH) (simp add: Cons.prems)
  then show ?case
    using Cons.prems r w
    by (subst shift_down.simps) (simp add: add.commute)
qed

lemma delete_from_present:
  "data \<notin> set ys \<Longrightarrow> list_delete_from
     \<lparr>l_buf = us @ ys @ data # zs @ rest, l_max = m, l_top = int (length (us @ ys @ data # zs))\<rparr>
     data (int (length us))
   = Some (0, \<lparr>l_buf = (us @ ys @ zs) @ last (data # zs) # rest, l_max = m,
               l_top = int (length (us @ ys @ zs))\<rparr>)"
proof (induction ys arbitrary: us)
  case Nil
  have s: "shift_down (us @ [data] @ zs @ rest) (int (length us) + 1) (int (length us + 1 + length zs))
    = Some (us @ zs @ [last (data # zs)] @ rest)"
    by (rule shift_down_eq) simp
  show ?case
    using s by (subst list_delete_from.simps) (simp add: rd_mid add.assoc)
next
  case (Cons y ys)
  have "list_delete_from
     \<lparr>l_buf = (us @ [y]) @ ys @ data # zs @ rest, l_max = m,
      l_top = int (length ((us @ [y]) @ ys @ data # zs))\<rparr> data (int (length (us @ [y])))
   = Some (0, \<lparr>l_buf = ((us @ [y]) @ ys @ zs) @ last (data # zs) # rest, l_max = m,
               l_top = int (length ((us @ [y]) @ ys @ zs))\<rparr>)"
    by (rule Cons.IH) (use Cons.prems in simp)
  then show ?case
    using Cons.prems by (subst list_delete_from.simps) (simp add: rd_mid add.commute)
qed

lemma delete_from_absent:
  "data \<notin> set ys \<Longrightarrow> list_delete_from
     \<lparr>l_buf = us @ ys @ rest, l_max = m, l_top = int (length (us @ ys))\<rparr> data (int (length us))
   = Some (- 1, \<lparr>l_buf = us @ ys @ rest, l_max = m, l_top = int (length (us @ ys))\<rparr>)"
proof (induction ys arbitrary: us)
  case Nil
  then show ?case by (simp add: list_delete_from.simps)
next
  case (Cons y ys)
  from Cons.IH [of "us @ [y]"] Cons.prems show ?case
    by (subst list_delete_from.simps) (simp add: rd_mid add.commute)
qed

lemma modify_from_present:
  "old \<notin> set ys \<Longrightarrow> list_modify_from
     \<lparr>l_buf = us @ ys @ old # zs, l_max = m, l_top = t\<rparr> old new (int (length us))
   = (if int (length (us @ ys)) < t
      then Some (0, \<lparr>l_buf = us @ ys @ new # zs, l_max = m, l_top = t\<rparr>)
      else Some (- 1, \<lparr>l_buf = us @ ys @ old # zs, l_max = m, l_top = t\<rparr>))"
proof (induction ys arbitrary: us)
  case Nil
  then show ?case by (subst list_modify_from.simps) (simp add: rd_mid wr_mid)
next
  case (Cons y ys)
  from Cons.IH [of "us @ [y]"] Cons.prems show ?case
    by (subst list_modify_from.simps) (simp add: rd_mid add.commute)
qed

lemma modify_from_absent:
  "old \<notin> set ys \<Longrightarrow> list_modify_from
     \<lparr>l_buf = us @ ys @ rest, l_max = m, l_top = int (length (us @ ys))\<rparr> old new (int (length us))
   = Some (- 1, \<lparr>l_buf = us @ ys @ rest, l_max = m, l_top = int (length (us @ ys))\<rparr>)"
proof (induction ys arbitrary: us)
  case Nil
  then show ?case by (simp add: list_modify_from.simps)
next
  case (Cons y ys)
  from Cons.IH [of "us @ [y]"] Cons.prems show ?case
    by (subst list_modify_from.simps) (simp add: rd_mid add.commute)
qed

lemma search_from_eq:
  "list_search_from \<lparr>l_buf = us @ ys @ rest, l_max = m, l_top = int (length (us @ ys))\<rparr> data
     (int (length us)) = Some (if data \<in> set ys then 1 else 0)"
proof (induction ys arbitrary: us)
  case Nil
  then show ?case by (simp add: list_search_from.simps)
next
  case (Cons y ys)
  from Cons.IH [of "us @ [y]"] show ?case
    by (subst list_search_from.simps) (simp add: rd_mid add.commute)
qed

lemma foreach_from_eq:
  "list_foreach_from \<lparr>l_buf = us @ ys @ rest, l_max = m, l_top = int (length (us @ ys))\<rparr>
     (int (length us)) = Some ys"
proof (induction ys arbitrary: us)
  case Nil
  then show ?case by (simp add: list_foreach_from.simps)
next
  case (Cons y ys)
  from Cons.IH [of "us @ [y]"] show ?case
    by (subst list_foreach_from.simps) (simp add: rd_mid add.commute)
qed

section \<open>The operations on the abstract list\<close>

lemma seq_delete_ok:
  assumes "seq_rep lp m xs" and "x \<in> set xs"
  shows "\<exists>lp'. list_delete lp x = Some (0, lp') \<and> seq_rep lp' m (remove1 x xs)"
proof -
  from assms(1) obtain rest where
    lp: "lp = Some \<lparr>l_buf = xs @ rest, l_max = m, l_top = int (length xs)\<rparr>"
    and m: "int (length xs) + int (length rest) = m" by (rule seq_repE)
  from split_list_first [OF assms(2)] obtain ys zs where xs: "xs = ys @ x # zs" "x \<notin> set ys"
    by blast
  from delete_from_present [OF xs(2), of "[]" zs rest m]
  show ?thesis
    using m xs seq_repI [of m "ys @ zs" "last (x # zs) # rest"]
    by (simp add: lp list_delete_def remove1_append_mid)
qed

lemma seq_delete_absent:
  assumes "seq_rep lp m xs" and "x \<notin> set xs"
  shows "list_delete lp x = Some (- 1, lp)"
  using assms(1)
proof (rule seq_repE)
  fix rest
  assume "lp = Some \<lparr>l_buf = xs @ rest, l_max = m, l_top = int (length xs)\<rparr>"
  then show ?thesis
    using delete_from_absent [OF assms(2), of "[]" rest m] by (simp add: list_delete_def)
qed

lemma seq_modify_ok:
  assumes "seq_rep lp m xs" and "x \<in> set xs"
  shows "\<exists>lp'. list_modify lp x y = Some (0, lp') \<and> seq_rep lp' m (replace1 x y xs)"
proof -
  from assms(1) obtain rest where
    lp: "lp = Some \<lparr>l_buf = xs @ rest, l_max = m, l_top = int (length xs)\<rparr>"
    and m: "int (length xs) + int (length rest) = m" by (rule seq_repE)
  from split_list_first [OF assms(2)] obtain ys zs where xs: "xs = ys @ x # zs" "x \<notin> set ys"
    by blast
  from modify_from_present [OF xs(2), of "[]" "zs @ rest" m "int (length xs)" y]
  show ?thesis
    using m xs seq_repI [of m "ys @ y # zs" rest]
    by (simp add: lp list_modify_def replace1_append)
qed

lemma seq_modify_absent:
  assumes "seq_rep lp m xs" and "x \<notin> set xs"
  shows "\<exists>lp'. list_modify lp x y = Some (- 1, lp') \<and> seq_rep lp' m xs"
  using assms(1)
proof (rule seq_repE)
  fix rest
  assume "lp = Some \<lparr>l_buf = xs @ rest, l_max = m, l_top = int (length xs)\<rparr>"
  then show ?thesis
    using modify_from_absent [OF assms(2), of "[]" rest m y] assms(1) by (simp add: list_modify_def)
qed

lemma seq_search_iff:
  assumes "seq_rep lp m xs"
  shows "list_search lp x = Some (if x \<in> set xs then 1 else 0)"
  using assms
proof (rule seq_repE)
  fix rest
  assume "lp = Some \<lparr>l_buf = xs @ rest, l_max = m, l_top = int (length xs)\<rparr>"
  then show ?thesis
    using search_from_eq [of "[]" xs rest m x] by (simp add: list_search_def)
qed

lemma seq_foreach_eq:
  assumes "seq_rep lp m xs"
  shows "list_foreach lp = Some (0, xs)"
  using assms
proof (rule seq_repE)
  fix rest
  assume "lp = Some \<lparr>l_buf = xs @ rest, l_max = m, l_top = int (length xs)\<rparr>"
  then show ?thesis
    using foreach_from_eq [of "[]" xs rest m] by (simp add: list_foreach_def)
qed

interpretation sl: reporting_list seq_rep list_insert list_delete list_modify
  "\<lambda>s x. map_option (\<lambda>r. r \<noteq> 0) (list_search s x)" "\<lambda>x xs. xs @ [x]"
  by unfold_locales
    (auto simp: seq_insert_ok seq_insert_full seq_delete_ok seq_modify_ok seq_modify_absent seq_search_iff seq_delete_absent)

section \<open>Properties\<close>

text \<open>
  C5. Every operation of the array list, on a list of any length and capacity: no access leaves
  the array, an insertion below the capacity appends and one at the capacity reports -1, a
  deletion or a modification acts on the first occurrence or reports -1, a search tells whether
  the element is there, and the traversal visits the elements in order.
\<close>

theorem seqlist_operations:
  assumes "seq_rep lp m xs"
  shows "(\<exists>lp'. list_insert lp x = Some (if int (length xs) < m then 0 else - 1, lp') \<and>
      seq_rep lp' m (if int (length xs) < m then xs @ [x] else xs)) \<and>
    (\<exists>lp'. list_delete lp x = Some (if x \<in> set xs then 0 else - 1, lp') \<and>
      seq_rep lp' m (remove1 x xs)) \<and>
    (\<exists>lp'. list_modify lp x y = Some (if x \<in> set xs then 0 else - 1, lp') \<and>
      seq_rep lp' m (replace1 x y xs)) \<and>
    list_search lp x = Some (if x \<in> set xs then 1 else 0) \<and>
    list_foreach lp = Some (0, xs)"
proof (intro conjI)
  show "\<exists>lp'. list_insert lp x = Some (if int (length xs) < m then 0 else - 1, lp') \<and>
      seq_rep lp' m (if int (length xs) < m then xs @ [x] else xs)"
    using seq_insert_ok [OF assms, of x] seq_insert_full [OF assms, of x] by auto
  show "\<exists>lp'. list_delete lp x = Some (if x \<in> set xs then 0 else - 1, lp') \<and>
      seq_rep lp' m (remove1 x xs)"
    using seq_delete_ok [OF assms, of x] seq_delete_absent [OF assms, of x] assms
    by (cases "x \<in> set xs") (auto simp: remove1_idem)
  show "\<exists>lp'. list_modify lp x y = Some (if x \<in> set xs then 0 else - 1, lp') \<and>
      seq_rep lp' m (replace1 x y xs)"
    using seq_modify_ok [OF assms, of x y] seq_modify_absent [OF assms, of x y] by auto
qed (use seq_search_iff seq_foreach_eq assms in blast)+

theorem seqlist_operations_witness:
  "\<exists>lp'. list_delete (Some \<lparr>l_buf = [1, 2, 1, 0], l_max = 4, l_top = 3\<rparr>) 1 = Some (0, lp') \<and>
    seq_rep lp' 4 [2, 1]"
proof -
  have "seq_rep (Some \<lparr>l_buf = [1, 2, 1, 0], l_max = 4, l_top = 3\<rparr>) 4 [1, 2, 1]"
    by (simp add: seq_rep_def)
  from seqlist_operations [OF this, of 1 0] show ?thesis by simp
qed

end
