(* ===== verification/CHeap.thy ===== *)
theory CHeap
  imports Prelude
begin

text \<open>
  The C heap, for the components that link objects through pointers (\<open>single_linklist.c\<close>,
  \<open>linkstack.c\<close>, \<open>bitree.c\<close>). A pointer is \<open>None\<close> (null) or an address; a cell holds an object or
  nothing. \<open>malloc\<close> never hands out an address twice, so a use after a free and a double free
  find an empty cell and have no defined result. Which allocations fail is a parameter of the
  heap, \<open>oom\<close>: the \<open>k\<close>-th call of \<open>malloc\<close> returns null when \<open>oom h k\<close>.
\<close>

type_synonym ptr = "nat option"

record 'o heap =
  cells :: "nat \<Rightarrow> 'o option"
  brk :: nat
  oom :: "nat \<Rightarrow> bool"

definition empty_heap :: "(nat \<Rightarrow> bool) \<Rightarrow> 'o heap" where
  "empty_heap f = \<lparr>cells = (\<lambda>_. None), brk = 0, oom = f\<rparr>"

text \<open>\<open>malloc\<close> followed by the assignments that fill the object with \<open>ob\<close>.\<close>

definition malloc :: "'o heap \<Rightarrow> 'o \<Rightarrow> ptr \<times> 'o heap" where
  "malloc h ob =
     (if oom h (brk h) then (None, h\<lparr>brk := Suc (brk h)\<rparr>)
      else (Some (brk h), h\<lparr>cells := (cells h)(brk h \<mapsto> ob), brk := Suc (brk h)\<rparr>))"

definition load :: "'o heap \<Rightarrow> ptr \<Rightarrow> 'o option" where
  "load h p = (case p of None \<Rightarrow> None | Some a \<Rightarrow> cells h a)"

definition store :: "'o heap \<Rightarrow> ptr \<Rightarrow> 'o \<Rightarrow> 'o heap option" where
  "store h p ob = do { _ \<leftarrow> load h p; a \<leftarrow> p; Some (h\<lparr>cells := (cells h)(a \<mapsto> ob)\<rparr>) }"

definition free :: "'o heap \<Rightarrow> ptr \<Rightarrow> 'o heap option" where
  "free h p = (case p of
     None \<Rightarrow> Some h
   | Some a \<Rightarrow> (case cells h a of
       None \<Rightarrow> None
     | Some _ \<Rightarrow> Some (h\<lparr>cells := (cells h)(a := None)\<rparr>)))"

declare malloc_def [cdefs] load_def [cdefs] store_def [cdefs] free_def [cdefs]

text \<open>The invariant of the allocator: addresses not handed out yet are empty.\<close>

definition heap_ok :: "'o heap \<Rightarrow> bool" where
  "heap_ok h \<longleftrightarrow> (\<forall>a \<ge> brk h. cells h a = None)"

lemma heap_ok_empty [simp]: "heap_ok (empty_heap f)"
  by (simp add: heap_ok_def empty_heap_def)

lemma empty_heap_simps [simp]:
  "cells (empty_heap f) = (\<lambda>_. None)" "brk (empty_heap f) = 0" "oom (empty_heap f) = f"
  by (simp_all add: empty_heap_def)

lemma heap_ok_malloc: "heap_ok h \<Longrightarrow> heap_ok (snd (malloc h ob))"
  by (simp add: heap_ok_def malloc_def)

lemma heap_okD: "heap_ok h \<Longrightarrow> cells h a = Some ob \<Longrightarrow> a < brk h"
  by (rule ccontr) (simp add: heap_ok_def)

lemma heap_ok_upd: "heap_ok h \<Longrightarrow> a < brk h \<Longrightarrow> heap_ok (h\<lparr>cells := (cells h)(a := v)\<rparr>)"
  by (simp add: heap_ok_def)

lemma heap_ok_alloc:
  "heap_ok h \<Longrightarrow> heap_ok (h\<lparr>cells := (cells h)(brk h := v), brk := Suc (brk h)\<rparr>)"
  by (simp add: heap_ok_def)

lemma heap_ok_Suc: "heap_ok h \<Longrightarrow> heap_ok (h\<lparr>brk := Suc (brk h)\<rparr>)"
  by (simp add: heap_ok_def)

lemma load_Some [simp]: "load h (Some a) = cells h a"
  by (simp add: load_def)

lemma load_None [simp]: "load h None = None"
  by (simp add: load_def)

lemma store_Some: "cells h a = Some ob' \<Longrightarrow> store h (Some a) ob = Some (h\<lparr>cells := (cells h)(a \<mapsto> ob)\<rparr>)"
  by (simp add: store_def)

lemma free_Some: "cells h a = Some ob \<Longrightarrow> free h (Some a) = Some (h\<lparr>cells := (cells h)(a := None)\<rparr>)"
  by (simp add: free_def)

section \<open>Singly linked nodes\<close>

text \<open>
  The node both linked components declare, and the objects of their heaps: nodes and one kind
  of header \<open>'h\<close> (\<open>list_t\<close> or \<open>stack_t\<close>). Accessing an object as the other kind is undefined.
\<close>

record node_t =
  n_data :: int
  n_next :: ptr

datatype 'h obj = ONode node_t | OHdr 'h

definition load_node :: "'h obj heap \<Rightarrow> ptr \<Rightarrow> node_t option" where
  "load_node h p = do { ob \<leftarrow> load h p; (case ob of ONode n \<Rightarrow> Some n | OHdr _ \<Rightarrow> None) }"

definition store_node :: "'h obj heap \<Rightarrow> ptr \<Rightarrow> node_t \<Rightarrow> 'h obj heap option" where
  "store_node h p n = do { _ \<leftarrow> load_node h p; store h p (ONode n) }"

definition load_hdr :: "'h obj heap \<Rightarrow> ptr \<Rightarrow> 'h option" where
  "load_hdr h p = do { ob \<leftarrow> load h p; (case ob of ONode _ \<Rightarrow> None | OHdr l \<Rightarrow> Some l) }"

definition store_hdr :: "'h obj heap \<Rightarrow> ptr \<Rightarrow> 'h \<Rightarrow> 'h obj heap option" where
  "store_hdr h p l = do { _ \<leftarrow> load_hdr h p; store h p (OHdr l) }"

declare load_node_def [cdefs] store_node_def [cdefs] load_hdr_def [cdefs] store_hdr_def [cdefs]

lemma load_node_Some [simp]: "cells h a = Some (ONode n) \<Longrightarrow> load_node h (Some a) = Some n"
  by (simp add: load_node_def)

lemma load_node_None [simp]: "load_node h None = None"
  by (simp add: load_node_def)

lemma load_hdr_Some [simp]: "cells h a = Some (OHdr l) \<Longrightarrow> load_hdr h (Some a) = Some l"
  by (simp add: load_hdr_def)

lemma load_hdr_None [simp]: "load_hdr h None = None"
  by (simp add: load_hdr_def)

lemma store_node_Some [simp]:
  "cells h a = Some (ONode n) \<Longrightarrow>
    store_node h (Some a) n' = Some (h\<lparr>cells := (cells h)(a \<mapsto> ONode n')\<rparr>)"
  by (simp add: store_node_def store_Some)

lemma store_hdr_Some [simp]:
  "cells h a = Some (OHdr l) \<Longrightarrow>
    store_hdr h (Some a) l' = Some (h\<lparr>cells := (cells h)(a \<mapsto> OHdr l')\<rparr>)"
  by (simp add: store_hdr_def store_Some)

text \<open>
  \<open>chain c p as\<close>: following \<open>next\<close> from \<open>p\<close> visits the nodes \<open>as\<close>, each with its address
  and its data, and ends at null.
\<close>

primrec chain :: "(nat \<Rightarrow> 'h obj option) \<Rightarrow> ptr \<Rightarrow> (nat \<times> int) list \<Rightarrow> bool" where
  "chain c p [] \<longleftrightarrow> p = None"
| "chain c p (x # xs) \<longleftrightarrow> p = Some (fst x) \<and>
     (\<exists>q. c (fst x) = Some (ONode \<lparr>n_data = snd x, n_next = q\<rparr>) \<and> chain c q xs)"

lemma chain_None [simp]: "chain c None xs \<longleftrightarrow> xs = []"
  by (cases xs) auto

lemma chain_upd [simp]: "a \<notin> fst ` set xs \<Longrightarrow> chain (c(a := v)) p xs = chain c p xs"
  by (induction xs arbitrary: p) auto

lemma chain_unique: "chain c p xs \<Longrightarrow> chain c p ys \<Longrightarrow> xs = ys"
proof (induction xs arbitrary: p ys)
  case Nil
  then show ?case by simp
next
  case (Cons x xs)
  then show ?case by (cases ys) (auto simp: prod_eq_iff)
qed

lemma chain_suffix: "chain c p (xs @ ys) \<Longrightarrow> \<exists>q. chain c q ys"
  by (induction xs arbitrary: p) auto

lemma chain_distinct: "chain c p xs \<Longrightarrow> distinct (map fst xs)"
proof (induction xs arbitrary: p)
  case Nil
  then show ?case by simp
next
  case (Cons x xs)
  then obtain q where q: "c (fst x) = Some (ONode \<lparr>n_data = snd x, n_next = q\<rparr>)" "chain c q xs"
    by auto
  have "fst x \<notin> fst ` set xs"
  proof
    assume "fst x \<in> fst ` set xs"
    then obtain y where "y \<in> set xs" "fst y = fst x" by auto
    then obtain us vs where xs: "xs = us @ y # vs" by (auto simp: in_set_conv_decomp)
    with q(2) obtain r where "chain c r (y # vs)" using chain_suffix by blast
    with \<open>fst y = fst x\<close> q(1) have "chain c q vs" by auto
    with q(2) have "xs = vs" by (rule chain_unique)
    with xs show False by simp
  qed
  with Cons.IH [OF q(2)] show ?case by simp
qed

lemma chain_dom: "chain c p xs \<Longrightarrow> a \<in> fst ` set xs \<Longrightarrow> \<exists>n. c a = Some (ONode n)"
  by (induction xs arbitrary: p) auto

lemma chain_not_hdr: "chain c p xs \<Longrightarrow> c a = Some (OHdr l) \<Longrightarrow> a \<notin> fst ` set xs"
  using chain_dom by fastforce

lemma chain_not_None: "chain c p xs \<Longrightarrow> c a = None \<Longrightarrow> a \<notin> fst ` set xs"
  using chain_dom by fastforce

text \<open>Unlinking the node after the node \<open>x\<close> of a chain.\<close>

lemma chain_unlink:
  assumes "chain c p (us @ x # y # vs)"
  shows "\<exists>q. c (fst y) = Some (ONode \<lparr>n_data = snd y, n_next = q\<rparr>) \<and>
    chain (c(fst x \<mapsto> ONode \<lparr>n_data = snd x, n_next = q\<rparr>)) p (us @ x # vs)"
  using assms
proof (induction us arbitrary: p)
  case Nil
  then obtain q where q: "c (fst y) = Some (ONode \<lparr>n_data = snd y, n_next = q\<rparr>)" "chain c q vs"
    by auto
  from chain_distinct [OF Nil.prems] have "fst x \<notin> fst ` set vs" by auto
  with q Nil.prems show ?case
    by (intro exI [of _ q]) (simp del: fun_upd_apply add: fun_upd_same)
next
  case (Cons u us)
  from chain_distinct [OF Cons.prems] have "fst x \<noteq> fst u" by auto
  from Cons.prems obtain r where r: "c (fst u) = Some (ONode \<lparr>n_data = snd u, n_next = r\<rparr>)"
    "chain c r (us @ x # y # vs)" by auto
  from Cons.IH [OF r(2)] r(1) \<open>fst x \<noteq> fst u\<close> Cons.prems show ?case
    by (auto simp del: fun_upd_apply simp add: fun_upd_other)
qed

text \<open>Overwriting the data of one node of a chain.\<close>

lemma chain_set_data:
  assumes "chain c p (us @ x # vs)"
  shows "\<exists>q. c (fst x) = Some (ONode \<lparr>n_data = snd x, n_next = q\<rparr>) \<and>
    chain (c(fst x \<mapsto> ONode \<lparr>n_data = y, n_next = q\<rparr>)) p (us @ (fst x, y) # vs)"
  using assms
proof (induction us arbitrary: p)
  case Nil
  from chain_distinct [OF Nil.prems] have "fst x \<notin> fst ` set vs" by auto
  with Nil.prems show ?case by (auto simp del: fun_upd_apply simp add: fun_upd_same)
next
  case (Cons u us)
  from chain_distinct [OF Cons.prems] have "fst x \<noteq> fst u" by auto
  from Cons.prems obtain r where r: "c (fst u) = Some (ONode \<lparr>n_data = snd u, n_next = r\<rparr>)"
    "chain c r (us @ x # vs)" by auto
  from Cons.IH [OF r(2)] r(1) \<open>fst x \<noteq> fst u\<close> Cons.prems show ?case
    by (auto simp del: fun_upd_apply simp add: fun_upd_other)
qed

text \<open>Reading the node in the middle of a chain.\<close>

lemma chain_mid:
  assumes "chain c p (us @ x # vs)"
  shows "\<exists>q. c (fst x) = Some (ONode \<lparr>n_data = snd x, n_next = q\<rparr>) \<and> chain c q vs"
  using assms by (induction us arbitrary: p) auto

text \<open>Linking a fresh node in behind the first node of a chain.\<close>

lemma chain_push:
  assumes "chain c p (x # xs)" and "a \<notin> fst ` set (x # xs)"
    and "c (fst x) = Some (ONode \<lparr>n_data = snd x, n_next = q\<rparr>)"
  shows "chain (c(a \<mapsto> ONode \<lparr>n_data = d, n_next = q\<rparr>,
      fst x \<mapsto> ONode \<lparr>n_data = snd x, n_next = Some a\<rparr>)) p (x # (a, d) # xs)"
proof -
  from chain_distinct [OF assms(1)] have "fst x \<notin> fst ` set xs" by auto
  with assms show ?thesis
    by (auto simp del: fun_upd_apply simp add: fun_upd_same fun_upd_other)
qed

section \<open>Code the linked components share\<close>

text \<open>
  \<open>node_alloc\<close> and \<open>node_free\<close> stand with the same text in both files, and so do the two
  loops that walk a chain: one frees its nodes, one hands their data to \<open>visit\<close> (the model
  returns the visited values, in the order of the calls).
\<close>

definition node_alloc :: "'h obj heap \<Rightarrow> int \<Rightarrow> ptr \<times> 'h obj heap" where
  "node_alloc h data = malloc h (ONode \<lparr>n_data = data, n_next = None\<rparr>)"

definition node_free :: "'h obj heap \<Rightarrow> ptr \<Rightarrow> 'h obj heap option" where
  "node_free h node = (if node \<noteq> None then free h node else Some h)"

partial_function (option) destory_loop :: "'h obj heap \<Rightarrow> ptr \<Rightarrow> 'h obj heap option" where
  "destory_loop h node =
     (if node = None then Some h
      else do {
        n \<leftarrow> load_node h node;
        h' \<leftarrow> node_free h node;
        destory_loop h' (n_next n) })"

partial_function (option) foreach_loop :: "'h obj heap \<Rightarrow> ptr \<Rightarrow> int list option" where
  "foreach_loop h node =
     (if node = None then Some []
      else do {
        n \<leftarrow> load_node h node;
        vs \<leftarrow> foreach_loop h (n_next n);
        Some (n_data n # vs) })"

declare destory_loop.simps [code] foreach_loop.simps [code]

lemma foreach_loop_eq: "chain (cells h) p as \<Longrightarrow> foreach_loop h p = Some (map snd as)"
proof (induction as arbitrary: p)
  case Nil
  then show ?case by (simp add: foreach_loop.simps)
next
  case (Cons a as)
  then show ?case by (subst foreach_loop.simps) auto
qed

lemma destory_loop_eq:
  "chain (cells h) p as \<Longrightarrow> \<exists>h'. destory_loop h p = Some h' \<and>
    cells h' = (\<lambda>a. if a \<in> fst ` set as then None else cells h a)"
proof (induction as arbitrary: p h)
  case Nil
  then show ?case by (simp add: destory_loop.simps)
next
  case (Cons a as)
  then obtain q where q: "cells h (fst a) = Some (ONode \<lparr>n_data = snd a, n_next = q\<rparr>)"
    "chain (cells h) q as" "p = Some (fst a)" by auto
  let ?h = "h\<lparr>cells := (cells h)(fst a := None)\<rparr>"
  from chain_distinct [OF Cons.prems] have "fst a \<notin> fst ` set as" by auto
  with q(2) have "chain (cells ?h) q as" by simp
  from Cons.IH [OF this] obtain h' where h': "destory_loop ?h q = Some h'"
    "cells h' = (\<lambda>b. if b \<in> fst ` set as then None else cells ?h b)" by blast
  have "destory_loop h p = destory_loop ?h q"
    using q by (subst destory_loop.simps) (simp add: node_free_def free_Some)
  with h' show ?case by fastforce
qed

end
