(* ===== verification/SingleLinkList.thy ===== *)
theory SingleLinkList
  imports CHeap ListSpec
begin

text \<open>
  The linked list, \<open>algorithm/list/single_linklist/single_linklist.c\<close>: a header object
  \<open>list_t\<close> points to a sentinel node, behind which the elements follow, newest first. All
  objects live in the C heap of theory \<open>CHeap\<close>. The loops follow pointers, so they are
  \<^theory_text>\<open>partial_function\<close>s: that they stop is part of what is proved.
\<close>

section \<open>State and operations\<close>

record list_hdr =
  h_head :: ptr
  h_len :: int
  h_max :: int

type_synonym lheap = "list_hdr obj heap"

text \<open>
  \<open>list_init\<close> allocates the header first; its fields are assigned at the end, so the object
  is created with the values it gets (the sentinel comes from the second allocation, whose
  address is known only then; it is stored in between, and the header freed if it fails).
\<close>

definition list_init :: "lheap \<Rightarrow> int \<Rightarrow> (ptr \<times> lheap) option" where
  "list_init h mx =
     (let (lp, h1) = malloc h (OHdr \<lparr>h_head = None, h_len = 0, h_max = mx\<rparr>)
      in if lp = None then Some (None, h1)
         else let (nd, h2) = node_alloc h1 0
              in do {
                l \<leftarrow> load_hdr h2 lp;
                h3 \<leftarrow> store_hdr h2 lp (l\<lparr>h_head := nd\<rparr>);
                if nd = None then do { h4 \<leftarrow> free h3 lp; Some (None, h4) }
                else Some (lp, h3) })"

definition list_destory :: "lheap \<Rightarrow> ptr \<Rightarrow> (int \<times> lheap) option" where
  "list_destory h lp =
     (if lp = None then Some (0, h)
      else do {
        l \<leftarrow> load_hdr h lp;
        h1 \<leftarrow> destory_loop h (h_head l);
        h2 \<leftarrow> free h1 lp;
        Some (0, h2) })"

definition list_insert :: "lheap \<Rightarrow> ptr \<Rightarrow> int \<Rightarrow> (int \<times> lheap) option" where
  "list_insert h lp data =
     (let (node, h1) = node_alloc h data
      in if lp = None \<or> node = None then Some (- 1, h1)
         else do {
           l \<leftarrow> load_hdr h1 lp;
           if h_len l \<ge> h_max l then Some (- 1, h1)
           else do {
             hd \<leftarrow> load_node h1 (h_head l);
             n \<leftarrow> load_node h1 node;
             h2 \<leftarrow> store_node h1 node (n\<lparr>n_next := n_next hd\<rparr>);
             hd2 \<leftarrow> load_node h2 (h_head l);
             h3 \<leftarrow> store_node h2 (h_head l) (hd2\<lparr>n_next := node\<rparr>);
             len \<leftarrow> c_int (h_len l + 1);
             h4 \<leftarrow> store_hdr h3 lp (l\<lparr>h_len := len\<rparr>);
             Some (0, h4) } })"

text \<open>
  The loop of \<open>list_delete\<close>: the node before the first one that holds \<open>data\<close>, or the last node
  of the list.
\<close>

partial_function (option) find_prev :: "lheap \<Rightarrow> ptr \<Rightarrow> int \<Rightarrow> ptr option" where
  "find_prev h node data = do {
     n \<leftarrow> load_node h node;
     if n_next n = None then Some node
     else do {
       nx \<leftarrow> load_node h (n_next n);
       if n_data nx \<noteq> data then find_prev h (n_next n) data else Some node } }"

definition list_delete :: "lheap \<Rightarrow> ptr \<Rightarrow> int \<Rightarrow> (int \<times> lheap) option" where
  "list_delete h lp data = do {
     l \<leftarrow> load_hdr h lp;
     node \<leftarrow> find_prev h (h_head l) data;
     if node = None then Some (- 1, h)
     else do {
       n \<leftarrow> load_node h node;
       let tmp = n_next n;
       nx \<leftarrow> load_node h tmp;
       h1 \<leftarrow> store_node h node (n\<lparr>n_next := n_next nx\<rparr>);
       h2 \<leftarrow> node_free h1 tmp;
       len \<leftarrow> c_int (h_len l - 1);
       h3 \<leftarrow> store_hdr h2 lp (l\<lparr>h_len := len\<rparr>);
       Some (0, h3) } }"

text \<open>The search loop that \<open>list_modify\<close> and \<open>list_search\<close> both write out.\<close>

partial_function (option) search_loop :: "lheap \<Rightarrow> ptr \<Rightarrow> int \<Rightarrow> ptr option" where
  "search_loop h node data =
     (if node = None then Some None
      else do {
        n \<leftarrow> load_node h node;
        if n_data n \<noteq> data then search_loop h (n_next n) data else Some node })"

definition list_modify :: "lheap \<Rightarrow> ptr \<Rightarrow> int \<Rightarrow> int \<Rightarrow> (int \<times> lheap) option" where
  "list_modify h lp old new = do {
     l \<leftarrow> load_hdr h lp;
     hd \<leftarrow> load_node h (h_head l);
     node \<leftarrow> search_loop h (n_next hd) old;
     if node = None then Some (- 1, h)
     else do {
       n \<leftarrow> load_node h node;
       h1 \<leftarrow> store_node h node (n\<lparr>n_data := new\<rparr>);
       Some (0, h1) } }"

definition list_search :: "lheap \<Rightarrow> ptr \<Rightarrow> int \<Rightarrow> ptr option" where
  "list_search h lp data = do {
     l \<leftarrow> load_hdr h lp;
     hd \<leftarrow> load_node h (h_head l);
     search_loop h (n_next hd) data }"

partial_function (option) reverse_loop :: "lheap \<Rightarrow> ptr \<Rightarrow> ptr \<Rightarrow> lheap option" where
  "reverse_loop h head node =
     (if node = None then Some h
      else do {
        new \<leftarrow> load_node h node;
        hd \<leftarrow> load_node h head;
        h1 \<leftarrow> store_node h node (new\<lparr>n_next := n_next hd\<rparr>);
        hd1 \<leftarrow> load_node h1 head;
        h2 \<leftarrow> store_node h1 head (hd1\<lparr>n_next := node\<rparr>);
        reverse_loop h2 head (n_next new) })"

definition list_reverse :: "lheap \<Rightarrow> ptr \<Rightarrow> (int \<times> lheap) option" where
  "list_reverse h lp =
     (if lp = None then Some (- 1, h)
      else do {
        l \<leftarrow> load_hdr h lp;
        hd \<leftarrow> load_node h (h_head l);
        h1 \<leftarrow> store_node h (h_head l) (hd\<lparr>n_next := None\<rparr>);
        h2 \<leftarrow> reverse_loop h1 (h_head l) (n_next hd);
        Some (0, h2) })"

definition list_foreach :: "lheap \<Rightarrow> ptr \<Rightarrow> (int \<times> int list) option" where
  "list_foreach h lp = do {
     l \<leftarrow> load_hdr h lp;
     hd \<leftarrow> load_node h (h_head l);
     vs \<leftarrow> foreach_loop h (n_next hd);
     Some (0, vs) }"

partial_function (option) visit_node :: "lheap \<Rightarrow> ptr \<Rightarrow> int list option" where
  "visit_node h node =
     (if node = None then Some []
      else do {
        n \<leftarrow> load_node h node;
        vs \<leftarrow> (if n_next n \<noteq> None then visit_node h (n_next n) else Some []);
        Some (vs @ [n_data n]) })"

definition list_foreach_reversingly :: "lheap \<Rightarrow> ptr \<Rightarrow> (int \<times> int list) option" where
  "list_foreach_reversingly h lp =
     (if lp = None then Some (- 1, [])
      else do {
        l \<leftarrow> load_hdr h lp;
        hd \<leftarrow> load_node h (h_head l);
        vs \<leftarrow> visit_node h (n_next hd);
        Some (0, vs) })"

declare find_prev.simps [code] search_loop.simps [code]
  reverse_loop.simps [code] visit_node.simps [code]

text \<open>The demonstration program \<open>main.c\<close>: its five printed lines and the heap it leaves.\<close>

fun insert_all :: "lheap \<Rightarrow> ptr \<Rightarrow> int list \<Rightarrow> lheap option" where
  "insert_all h lp [] = Some h"
| "insert_all h lp (x # xs) = do { (_, h') \<leftarrow> list_insert h lp x; insert_all h' lp xs }"

definition linklist_main :: "lheap \<Rightarrow> (int list list \<times> lheap) option" where
  "linklist_main h = do {
     (lp, h) \<leftarrow> list_init h 10;
     h \<leftarrow> insert_all h lp [10, 9, 8, 7, 6, 5, 4, 3, 2, 1];
     (_, out1) \<leftarrow> list_foreach h lp;
     (_, h) \<leftarrow> list_modify h lp 5 50;
     (_, h) \<leftarrow> list_delete h lp 1;
     (_, out2) \<leftarrow> list_foreach h lp;
     (_, h) \<leftarrow> list_reverse h lp;
     (_, out3) \<leftarrow> list_foreach h lp;
     (_, out4) \<leftarrow> list_foreach_reversingly h lp;
     (_, out5) \<leftarrow> list_foreach h lp;
     (_, h) \<leftarrow> list_destory h lp;
     Some ([out1, out2, out3, out4, out5], h) }"

section \<open>Abstraction to a list\<close>

text \<open>
  \<open>list_at h la s m as\<close>: the header at \<open>la\<close> describes a list of capacity \<open>m\<close> whose sentinel
  node is \<open>s\<close> and whose nodes are \<open>as\<close> (address and value).
\<close>

definition list_at :: "lheap \<Rightarrow> nat \<Rightarrow> nat \<times> int \<Rightarrow> int \<Rightarrow> (nat \<times> int) list \<Rightarrow> bool" where
  "list_at h la s m as \<longleftrightarrow> heap_ok h \<and>
     cells h la = Some (OHdr \<lparr>h_head = Some (fst s), h_len = int (length as), h_max = m\<rparr>) \<and>
     chain (cells h) (Some (fst s)) (s # as)"

definition footprint :: "nat \<Rightarrow> nat \<times> int \<Rightarrow> (nat \<times> int) list \<Rightarrow> nat set" where
  "footprint la s as = insert la (fst ` set (s # as))"

lemma list_at_hdr:
  "list_at h la s m as \<Longrightarrow>
    load_hdr h (Some la) = Some \<lparr>h_head = Some (fst s), h_len = int (length as), h_max = m\<rparr>"
  by (simp add: list_at_def)

lemma list_at_sentinel:
  assumes "list_at h la s m as"
  obtains q where "cells h (fst s) = Some (ONode \<lparr>n_data = snd s, n_next = q\<rparr>)"
    and "chain (cells h) q as"
  using assms by (auto simp: list_at_def)

lemma list_at_la: "list_at h la s m as \<Longrightarrow> la \<notin> fst ` set (s # as)"
  using chain_not_hdr [of "cells h" "Some (fst s)" "s # as" la] unfolding list_at_def by blast

lemma list_at_below: "list_at h la s m as \<Longrightarrow> a \<in> footprint la s as \<Longrightarrow> a < brk h"
  using chain_dom [of "cells h" "Some (fst s)" "s # as" a]
  by (auto simp: list_at_def footprint_def dest: heap_okD)

text \<open>A new list.\<close>

lemma link_list_init_ok:
  assumes "heap_ok h" and "\<not> oom h (brk h)" and "\<not> oom h (Suc (brk h))"
  shows "\<exists>h'. list_init h m = Some (Some (brk h), h') \<and>
    list_at h' (brk h) (Suc (brk h), 0) m [] \<and> oom h' = oom h \<and>
    dom (cells h') = dom (cells h) \<union> footprint (brk h) (Suc (brk h), 0) []"
  using assms
  by (auto simp: list_init_def node_alloc_def malloc_def Let_def list_at_def heap_ok_def footprint_def)

section \<open>The loops over a chain\<close>

lemma search_loop_absent:
  "chain (cells h) p as \<Longrightarrow> x \<notin> snd ` set as \<Longrightarrow> search_loop h p x = Some None"
proof (induction as arbitrary: p)
  case Nil
  then show ?case by (simp add: search_loop.simps)
next
  case (Cons a as)
  then show ?case by (subst search_loop.simps) auto
qed

lemma search_loop_present:
  "chain (cells h) p (us @ (b, x) # vs) \<Longrightarrow> x \<notin> snd ` set us \<Longrightarrow>
    search_loop h p x = Some (Some b)"
proof (induction us arbitrary: p)
  case Nil
  then show ?case by (subst search_loop.simps) auto
next
  case (Cons a us)
  then show ?case by (subst search_loop.simps) auto
qed

lemma find_prev_present:
  "chain (cells h) p (s # us @ (b, x) # vs) \<Longrightarrow> x \<notin> snd ` set us \<Longrightarrow>
    find_prev h p x = Some (Some (fst (last (s # us))))"
proof (induction us arbitrary: p s)
  case Nil
  then show ?case by (subst find_prev.simps) auto
next
  case (Cons a us)
  then show ?case by (subst find_prev.simps) auto
qed

lemma find_prev_absent:
  "chain (cells h) p (s # as) \<Longrightarrow> x \<notin> snd ` set as \<Longrightarrow>
    find_prev h p x = Some (Some (fst (last (s # as))))"
proof (induction as arbitrary: p s)
  case Nil
  then show ?case by (subst find_prev.simps) auto
next
  case (Cons a us)
  then show ?case by (subst find_prev.simps) auto
qed

lemma visit_node_eq: "chain (cells h) p as \<Longrightarrow> visit_node h p = Some (rev (map snd as))"
proof (induction as arbitrary: p)
  case Nil
  then show ?case by (simp add: visit_node.simps)
next
  case (Cons a as)
  then obtain q where q: "cells h (fst a) = Some (ONode \<lparr>n_data = snd a, n_next = q\<rparr>)"
    "chain (cells h) q as" "p = Some (fst a)" by auto
  from Cons.IH [OF q(2)] q show ?case
    by (subst visit_node.simps) (cases q, auto)
qed

text \<open>
  The invariant of the reversal: the nodes still to come hang on \<open>node\<close>, the ones already
  moved hang on the sentinel in the opposite order.
\<close>

lemma reverse_loop_eq:
  "chain (cells h) p as \<Longrightarrow> chain (cells h) (Some (fst s)) (s # bs) \<Longrightarrow>
   fst ` set as \<inter> fst ` set (s # bs) = {} \<Longrightarrow>
   \<exists>h'. reverse_loop h (Some (fst s)) p = Some h' \<and> brk h' = brk h \<and> oom h' = oom h \<and>
     chain (cells h') (Some (fst s)) (s # rev as @ bs) \<and>
     (\<forall>a. a \<notin> fst ` set (s # as) \<longrightarrow> cells h' a = cells h a)"
proof (induction as arbitrary: p h bs)
  case Nil
  then show ?case by (simp add: reverse_loop.simps)
next
  case (Cons a as)
  then obtain q where q: "cells h (fst a) = Some (ONode \<lparr>n_data = snd a, n_next = q\<rparr>)"
    "chain (cells h) q as" "p = Some (fst a)" by auto
  from Cons.prems(2) obtain r where r: "cells h (fst s) = Some (ONode \<lparr>n_data = snd s, n_next = r\<rparr>)"
    "chain (cells h) r bs" by auto
  have ne: "fst a \<noteq> fst s" and a_bs: "fst a \<notin> fst ` set (s # bs)" using Cons.prems(3) by auto
  have a_as: "fst a \<notin> fst ` set as" using chain_distinct [OF Cons.prems(1)] by auto
  have s_as: "fst s \<notin> fst ` set as" using Cons.prems(3) by auto
  let ?c = "(cells h)(fst a \<mapsto> ONode \<lparr>n_data = snd a, n_next = r\<rparr>,
      fst s \<mapsto> ONode \<lparr>n_data = snd s, n_next = Some (fst a)\<rparr>)"
  let ?h = "h\<lparr>cells := ?c\<rparr>"
  have ch1: "chain (cells ?h) q as" using q(2) a_as s_as by (simp del: fun_upd_apply)
  have ch2: "chain (cells ?h) (Some (fst s)) (s # a # bs)"
    using chain_push [OF Cons.prems(2) a_bs r(1), of "snd a"] by simp
  have disj: "fst ` set as \<inter> fst ` set (s # a # bs) = {}" using Cons.prems(3) a_as by auto
  from Cons.IH [OF ch1 ch2 disj] obtain h' where h':
    "reverse_loop ?h (Some (fst s)) q = Some h'" "brk h' = brk ?h" "oom h' = oom ?h"
    "chain (cells h') (Some (fst s)) (s # rev as @ a # bs)"
    "\<forall>b. b \<notin> fst ` set (s # as) \<longrightarrow> cells h' b = cells ?h b" by blast
  have "reverse_loop h (Some (fst s)) p = reverse_loop ?h (Some (fst s)) q"
    using q r ne by (subst reverse_loop.simps) simp
  with h' show ?case by auto
qed

section \<open>The operations on the abstract list\<close>

text \<open>\<open>list_at\<close> survives a change of cells outside the footprint.\<close>

lemma link_insert_ok:
  assumes "list_at h la s m as" and "int (length as) < m" and "m \<le> INT_MAX"
    and "\<not> oom h (brk h)"
  shows "\<exists>h'. list_insert h (Some la) x = Some (0, h') \<and> list_at h' la s m ((brk h, x) # as) \<and>
    oom h' = oom h \<and> brk h' = Suc (brk h) \<and>
    dom (cells h') = insert (brk h) (dom (cells h))"
proof -
  let ?a = "brk h"
  from assms(1) obtain q where q: "cells h (fst s) = Some (ONode \<lparr>n_data = snd s, n_next = q\<rparr>)"
    by (rule list_at_sentinel)
  have hdr: "cells h la = Some (OHdr \<lparr>h_head = Some (fst s), h_len = int (length as), h_max = m\<rparr>)"
    and ch: "chain (cells h) (Some (fst s)) (s # as)" and ok: "heap_ok h"
    using assms(1) by (auto simp: list_at_def)
  have ne: "la \<noteq> fst s" "?a \<noteq> la" "?a \<noteq> fst s" "?a \<notin> fst ` set (s # as)"
    "la < brk h" "fst s < brk h" "la \<notin> fst ` set as" "fst s \<notin> fst ` set as"
    using list_at_la [OF assms(1)] list_at_below [OF assms(1)] chain_distinct [OF ch]
    by (auto simp: footprint_def)
  let ?l = "OHdr \<lparr>h_head = Some (fst s), h_len = int (length as) + 1, h_max = m\<rparr>"
  let ?c = "(cells h)(?a \<mapsto> ONode \<lparr>n_data = x, n_next = q\<rparr>,
      fst s \<mapsto> ONode \<lparr>n_data = snd s, n_next = Some ?a\<rparr>)"
  let ?h' = "h\<lparr>cells := ?c(la \<mapsto> ?l), brk := Suc ?a\<rparr>"
  have "in_int (int (length as) + 1)" using assms(2,3) by (simp add: int_range)
  then have "list_insert h (Some la) x = Some (0, ?h')"
    using assms(2,4) ne q hdr
    by (simp add: list_insert_def node_alloc_def malloc_def Let_def fun_upd_twist)
  moreover have "chain (cells ?h') (Some (fst s)) (s # (?a, x) # as)"
    using chain_push [OF ch ne(4) q, of x] ne
    by (simp del: fun_upd_apply chain.simps)
  moreover have "heap_ok ?h'" using ok ne by (simp add: heap_ok_def)
  ultimately show ?thesis
    using q hdr by (auto simp: list_at_def simp del: chain.simps)
qed

text \<open>
  On a full list the node just allocated is neither linked in nor freed: the list is unchanged
  and the heap keeps one more object than the list owns.
\<close>

lemma link_insert_full:
  assumes "list_at h la s m as" and "m \<le> int (length as)" and "\<not> oom h (brk h)"
  shows "\<exists>h'. list_insert h (Some la) x = Some (- 1, h') \<and> list_at h' la s m as \<and>
    oom h' = oom h \<and> dom (cells h') = insert (brk h) (dom (cells h)) \<and>
    brk h \<notin> footprint la s as"
proof -
  have ne: "brk h \<noteq> la" "brk h \<notin> fst ` set (s # as)" "brk h \<notin> footprint la s as"
    using list_at_below [OF assms(1), of "brk h"] by (auto simp: footprint_def)
  with assms show ?thesis
    by (auto simp: list_insert_def node_alloc_def malloc_def Let_def list_at_def heap_ok_def
        simp del: chain.simps)
qed

lemma link_insert_oom:
  assumes "list_at h la s m as" and "oom h (brk h)"
  shows "list_insert h (Some la) x = Some (- 1, h\<lparr>brk := Suc (brk h)\<rparr>)"
  using assms by (simp add: list_insert_def node_alloc_def malloc_def Let_def)

lemma link_delete_ok:
  assumes "list_at h la s m (us @ (b, x) # vs)" and "x \<notin> snd ` set us"
    and "int (length (us @ (b, x) # vs)) \<le> INT_MAX"
  shows "\<exists>h'. list_delete h (Some la) x = Some (0, h') \<and> list_at h' la s m (us @ vs) \<and>
    oom h' = oom h \<and> dom (cells h') = dom (cells h) - {b}"
proof -
  let ?as = "us @ (b, x) # vs"
  have hdr: "cells h la = Some (OHdr \<lparr>h_head = Some (fst s), h_len = int (length ?as), h_max = m\<rparr>)"
    and ch: "chain (cells h) (Some (fst s)) (s # ?as)" and ok: "heap_ok h"
    using assms(1) by (auto simp: list_at_def)
  obtain ws y where wy: "s # us = ws @ [y]" by (metis rev_exhaust list.distinct(1))
  then have ly: "last (s # us) = y" by simp
  have ch': "chain (cells h) (Some (fst s)) (ws @ y # (b, x) # vs)"
    using ch wy by (metis append.assoc append_Cons append_Nil)
  from chain_unlink [OF ch'] obtain q where
    qb: "cells h b = Some (ONode \<lparr>n_data = x, n_next = q\<rparr>)"
    and ch2: "chain ((cells h)(fst y \<mapsto> ONode \<lparr>n_data = snd y, n_next = q\<rparr>)) (Some (fst s)) (ws @ y # vs)"
    by auto
  from chain_mid [OF ch'] have qy: "cells h (fst y) = Some (ONode \<lparr>n_data = snd y, n_next = Some b\<rparr>)"
    by auto
  from chain_distinct [OF ch'] have b: "b \<notin> fst ` set (ws @ y # vs)" "b \<noteq> fst y" by auto
  have la: "la \<notin> fst ` set (ws @ y # vs)" "la \<noteq> b" "la \<noteq> fst y"
    using chain_not_hdr [OF ch' hdr] by auto
  have prev: "find_prev h (Some (fst s)) x = Some (Some (fst y))"
    using find_prev_present [of h "Some (fst s)" s us b x vs] ch assms(2) ly by simp
  let ?l = "OHdr \<lparr>h_head = Some (fst s), h_len = int (length (us @ vs)), h_max = m\<rparr>"
  let ?h' = "h\<lparr>cells := (cells h)(fst y \<mapsto> ONode \<lparr>n_data = snd y, n_next = q\<rparr>, b := None, la \<mapsto> ?l)\<rparr>"
  have "in_int (int (length us + length vs))" using assms(3) by (simp add: int_range)
  then have "list_delete h (Some la) x = Some (0, ?h')"
    using hdr qb qy b(2) la prev by (simp add: list_delete_def node_free_def free_Some add.commute)
  moreover have "chain (cells ?h') (Some (fst s)) (s # us @ vs)"
  proof -
    have "chain (cells ?h') (Some (fst s)) (ws @ y # vs)"
      using ch2 b la by (simp del: fun_upd_apply)
    with wy show ?thesis by (metis append.assoc append_Cons append_Nil)
  qed
  moreover have "heap_ok ?h'" using ok qb qy hdr by (auto simp: heap_ok_def dest: heap_okD)
  moreover have "dom (cells ?h') = dom (cells h) - {b}" using hdr qb qy la b by auto
  ultimately show ?thesis by (auto simp: list_at_def simp del: chain.simps)
qed

text \<open>
  Deleting an absent value follows the null pointer at the end of the list: the guard of the
  code tests \<open>node\<close>, which is never null, instead of \<open>node->next\<close>.
\<close>

lemma link_delete_absent:
  assumes "list_at h la s m as" and "x \<notin> snd ` set as"
  shows "list_delete h (Some la) x = None"
proof -
  have hdr: "load_hdr h (Some la) = Some \<lparr>h_head = Some (fst s), h_len = int (length as), h_max = m\<rparr>"
    using assms(1) by (rule list_at_hdr)
  have ch: "chain (cells h) (Some (fst s)) (s # as)" using assms(1) by (simp add: list_at_def)
  obtain ws y where wy: "s # as = ws @ [y]" by (metis rev_exhaust list.distinct(1))
  from ch wy have "chain (cells h) (Some (fst s)) (ws @ y # [])" by simp
  from chain_mid [OF this] have "cells h (fst y) = Some (ONode \<lparr>n_data = snd y, n_next = None\<rparr>)"
    by auto
  then have ly: "load_node h (Some (fst y)) = Some \<lparr>n_data = snd y, n_next = None\<rparr>" by simp
  have "find_prev h (Some (fst s)) x = Some (Some (fst y))"
    using find_prev_absent [OF ch assms(2)] wy by simp
  then show ?thesis using hdr ly by (simp add: list_delete_def Let_def)
qed

lemma link_modify_ok:
  assumes "list_at h la s m (us @ (b, x) # vs)" and "x \<notin> snd ` set us"
  shows "\<exists>h'. list_modify h (Some la) x y = Some (0, h') \<and>
    list_at h' la s m (us @ (b, y) # vs) \<and> oom h' = oom h \<and> dom (cells h') = dom (cells h)"
proof -
  let ?as = "us @ (b, x) # vs"
  from assms(1) obtain q where q: "cells h (fst s) = Some (ONode \<lparr>n_data = snd s, n_next = q\<rparr>)"
    "chain (cells h) q ?as" by (rule list_at_sentinel)
  have hdr: "cells h la = Some (OHdr \<lparr>h_head = Some (fst s), h_len = int (length ?as), h_max = m\<rparr>)"
    and ch: "chain (cells h) (Some (fst s)) ((s # us) @ (b, x) # vs)" and ok: "heap_ok h"
    using assms(1) by (auto simp: list_at_def)
  from chain_set_data [OF ch, of y] obtain r where
    r: "cells h b = Some (ONode \<lparr>n_data = x, n_next = r\<rparr>)"
    and ch2: "chain ((cells h)(b \<mapsto> ONode \<lparr>n_data = y, n_next = r\<rparr>)) (Some (fst s)) (s # us @ (b, y) # vs)"
    by auto
  have la: "la \<noteq> b" using hdr r by auto
  let ?h' = "h\<lparr>cells := (cells h)(b \<mapsto> ONode \<lparr>n_data = y, n_next = r\<rparr>)\<rparr>"
  have "list_modify h (Some la) x y = Some (0, ?h')"
    using hdr q r search_loop_present [OF q(2) assms(2)] by (simp add: list_modify_def)
  moreover have "heap_ok ?h'" using ok r by (auto simp: heap_ok_def)
  moreover have "dom (cells ?h') = dom (cells h)" using r by auto
  ultimately show ?thesis
    using ch2 hdr la by (auto simp: list_at_def simp del: chain.simps)
qed

lemma link_modify_absent:
  assumes "list_at h la s m as" and "x \<notin> snd ` set as"
  shows "list_modify h (Some la) x y = Some (- 1, h)"
proof -
  from assms(1) obtain q where "cells h (fst s) = Some (ONode \<lparr>n_data = snd s, n_next = q\<rparr>)"
    "chain (cells h) q as" by (rule list_at_sentinel)
  then show ?thesis
    using list_at_hdr [OF assms(1)] search_loop_absent [OF _ assms(2)] by (simp add: list_modify_def)
qed

lemma link_search_absent:
  assumes "list_at h la s m as" and "x \<notin> snd ` set as"
  shows "list_search h (Some la) x = Some None"
proof -
  from assms(1) obtain q where "cells h (fst s) = Some (ONode \<lparr>n_data = snd s, n_next = q\<rparr>)"
    "chain (cells h) q as" by (rule list_at_sentinel)
  then show ?thesis
    using list_at_hdr [OF assms(1)] search_loop_absent [OF _ assms(2)] by (simp add: list_search_def)
qed

lemma link_search_present:
  assumes "list_at h la s m (us @ (b, x) # vs)" and "x \<notin> snd ` set us"
  shows "list_search h (Some la) x = Some (Some b)"
proof -
  from assms(1) obtain q where "cells h (fst s) = Some (ONode \<lparr>n_data = snd s, n_next = q\<rparr>)"
    "chain (cells h) q (us @ (b, x) # vs)" by (rule list_at_sentinel)
  then show ?thesis
    using list_at_hdr [OF assms(1)] search_loop_present [OF _ assms(2)] by (simp add: list_search_def)
qed

lemma link_foreach_eq:
  assumes "list_at h la s m as"
  shows "list_foreach h (Some la) = Some (0, map snd as)"
    and "list_foreach_reversingly h (Some la) = Some (0, rev (map snd as))"
proof -
  from assms obtain q where "cells h (fst s) = Some (ONode \<lparr>n_data = snd s, n_next = q\<rparr>)"
    "chain (cells h) q as" by (rule list_at_sentinel)
  then show "list_foreach h (Some la) = Some (0, map snd as)"
    and "list_foreach_reversingly h (Some la) = Some (0, rev (map snd as))"
    using list_at_hdr [OF assms] foreach_loop_eq [of h q as] visit_node_eq [of h q as]
    by (simp_all add: list_foreach_def list_foreach_reversingly_def)
qed

lemma link_reverse_ok:
  assumes "list_at h la s m as"
  shows "\<exists>h'. list_reverse h (Some la) = Some (0, h') \<and> list_at h' la s m (rev as) \<and>
    oom h' = oom h \<and> dom (cells h') = dom (cells h)"
proof -
  from assms obtain q where q: "cells h (fst s) = Some (ONode \<lparr>n_data = snd s, n_next = q\<rparr>)"
    "chain (cells h) q as" by (rule list_at_sentinel)
  have ch: "chain (cells h) (Some (fst s)) (s # as)" and ok: "heap_ok h"
    and hdr: "cells h la = Some (OHdr \<lparr>h_head = Some (fst s), h_len = int (length as), h_max = m\<rparr>)"
    using assms by (auto simp: list_at_def)
  have s_as: "fst s \<notin> fst ` set as" using chain_distinct [OF ch] by auto
  let ?h = "h\<lparr>cells := (cells h)(fst s \<mapsto> ONode \<lparr>n_data = snd s, n_next = None\<rparr>)\<rparr>"
  have 1: "chain (cells ?h) q as" using q(2) s_as by simp
  have 2: "chain (cells ?h) (Some (fst s)) [s]" by simp
  have 3: "fst ` set as \<inter> fst ` set [s] = {}" using s_as by auto
  from reverse_loop_eq [OF 1 2 3] obtain h' where h':
    "reverse_loop ?h (Some (fst s)) q = Some h'" "brk h' = brk ?h" "oom h' = oom ?h"
    "chain (cells h') (Some (fst s)) (s # rev as @ [])"
    "\<forall>a. a \<notin> fst ` set (s # as) \<longrightarrow> cells h' a = cells ?h a" by blast
  have run: "list_reverse h (Some la) = Some (0, h')"
    using hdr q(1) h'(1) by (simp add: list_reverse_def)
  have la: "la \<notin> fst ` set (s # as)" using assms by (rule list_at_la)
  have hdr': "cells h' la = cells h la" using h'(5) la by auto
  have dom: "dom (cells h') = dom (cells h)"
  proof -
    have "a \<in> dom (cells h') \<longleftrightarrow> a \<in> dom (cells h)" for a
      using h'(5) chain_dom [OF ch, of a] chain_dom [OF h'(4), of a]
      by (cases "a \<in> fst ` set (s # as)") (auto simp: domIff)
    then show ?thesis by blast
  qed
  have "heap_ok h'" using ok dom h'(2) by (auto simp: heap_ok_def)
  with h' run hdr hdr' dom show ?thesis by (auto simp: list_at_def simp del: chain.simps)
qed

text \<open>\<open>list_destory\<close> frees the whole footprint, once each, and nothing else.\<close>

lemma link_destory_ok:
  assumes "list_at h la s m as"
  shows "\<exists>h'. list_destory h (Some la) = Some (0, h') \<and>
    cells h' = (\<lambda>a. if a \<in> footprint la s as then None else cells h a)"
proof -
  have ch: "chain (cells h) (Some (fst s)) (s # as)"
    and hdr: "cells h la = Some (OHdr \<lparr>h_head = Some (fst s), h_len = int (length as), h_max = m\<rparr>)"
    using assms by (auto simp: list_at_def)
  from destory_loop_eq [OF ch] obtain h1 where h1: "destory_loop h (Some (fst s)) = Some h1"
    "cells h1 = (\<lambda>a. if a \<in> fst ` set (s # as) then None else cells h a)" by blast
  have "cells h1 la = cells h la" using h1(2) list_at_la [OF assms] by simp
  with h1 hdr show ?thesis
    by (auto simp: list_destory_def free_def footprint_def fun_eq_iff)
qed

section \<open>The list contract\<close>

text \<open>
  The list as an instance of the contract of \<open>ListSpec\<close>: the state is the heap with the
  pointer, and no allocation fails.
\<close>

definition link_rep :: "lheap \<times> ptr \<Rightarrow> int \<Rightarrow> int list \<Rightarrow> bool" where
  "link_rep st m xs \<longleftrightarrow> (\<exists>la s as. snd st = Some la \<and> list_at (fst st) la s m as \<and>
     map snd as = xs \<and> (\<forall>k. \<not> oom (fst st) k) \<and> int (length as) \<le> m \<and> m \<le> INT_MAX)"

definition with_ptr :: "ptr \<Rightarrow> (int \<times> lheap) option \<Rightarrow> (int \<times> (lheap \<times> ptr)) option" where
  "with_ptr lp res = map_option (\<lambda>(r, h). (r, (h, lp))) res"

definition ins_st :: "lheap \<times> ptr \<Rightarrow> int \<Rightarrow> (int \<times> (lheap \<times> ptr)) option" where
  "ins_st st x = with_ptr (snd st) (list_insert (fst st) (snd st) x)"

definition del_st :: "lheap \<times> ptr \<Rightarrow> int \<Rightarrow> (int \<times> (lheap \<times> ptr)) option" where
  "del_st st x = with_ptr (snd st) (list_delete (fst st) (snd st) x)"

definition mod_st :: "lheap \<times> ptr \<Rightarrow> int \<Rightarrow> int \<Rightarrow> (int \<times> (lheap \<times> ptr)) option" where
  "mod_st st x y = with_ptr (snd st) (list_modify (fst st) (snd st) x y)"

definition has_st :: "lheap \<times> ptr \<Rightarrow> int \<Rightarrow> bool option" where
  "has_st st x = map_option (\<lambda>p. p \<noteq> None) (list_search (fst st) (snd st) x)"

lemmas link_st_defs = ins_st_def del_st_def mod_st_def has_st_def with_ptr_def

lemma link_repI:
  "list_at h la s m as \<Longrightarrow> \<forall>k. \<not> oom h k \<Longrightarrow> int (length as) \<le> m \<Longrightarrow> m \<le> INT_MAX \<Longrightarrow>
    link_rep (h, Some la) m (map snd as)"
  unfolding link_rep_def by (intro exI [of _ la] exI [of _ s] exI [of _ as]) simp

lemma link_repE:
  assumes "link_rep st m xs"
  obtains h la s as where "st = (h, Some la)" "list_at h la s m as" "xs = map snd as"
    "\<forall>k. \<not> oom h k" "int (length as) \<le> m" "m \<le> INT_MAX"
  using assms by (cases st) (auto simp: link_rep_def)

text \<open>The first node that holds \<open>x\<close>.\<close>

lemma split_first_node:
  assumes "x \<in> snd ` set as"
  obtains us b vs where "as = us @ (b, x) # vs" "x \<notin> snd ` set us"
proof -
  from assms have "x \<in> set (map snd as)" by simp
  from split_list_first [OF this] obtain ys zs where yz: "map snd as = ys @ x # zs" "x \<notin> set ys"
    by blast
  then obtain us w vs where "as = us @ w # vs" "map snd us = ys" "snd w = x"
    by (auto simp: map_eq_append_conv map_eq_Cons_conv)
  with yz that [of us "fst w" vs] show thesis by auto
qed

lemma map_snd_remove1:
  "x \<notin> snd ` set us \<Longrightarrow> remove1 x (map snd (us @ (b, x) # vs)) = map snd (us @ vs)"
  using remove1_append_mid [of x "map snd us"] by simp

lemma map_snd_replace1:
  "x \<notin> snd ` set us \<Longrightarrow> replace1 x y (map snd (us @ (b, x) # vs)) = map snd (us @ (b, y) # vs)"
  using replace1_append [of x "map snd us"] by simp

lemma ins_st_ok:
  assumes "link_rep st m xs" and "int (length xs) < m"
  shows "\<exists>st'. ins_st st x = Some (0, st') \<and> link_rep st' m (x # xs)"
proof -
  from assms(1) obtain h la s as where st: "st = (h, Some la)" "list_at h la s m as"
    "xs = map snd as" "\<forall>k. \<not> oom h k" "int (length as) \<le> m" "m \<le> INT_MAX" by (rule link_repE)
  from link_insert_ok [OF st(2), of x] st assms(2) obtain h' where
    "list_insert h (Some la) x = Some (0, h')" "list_at h' la s m ((brk h, x) # as)" "oom h' = oom h"
    by auto
  with st assms(2) link_repI [of h' la s m "(brk h, x) # as"] show ?thesis
    by (auto simp: link_st_defs)
qed

lemma ins_st_full:
  assumes "link_rep st m xs" and "m \<le> int (length xs)"
  shows "\<exists>st'. ins_st st x = Some (- 1, st') \<and> link_rep st' m xs"
proof -
  from assms(1) obtain h la s as where st: "st = (h, Some la)" "list_at h la s m as"
    "xs = map snd as" "\<forall>k. \<not> oom h k" "int (length as) \<le> m" "m \<le> INT_MAX" by (rule link_repE)
  from link_insert_full [OF st(2), of x] st assms(2) obtain h' where
    "list_insert h (Some la) x = Some (- 1, h')" "list_at h' la s m as" "oom h' = oom h"
    by auto
  with st link_repI [of h' la s m as] show ?thesis by (auto simp: link_st_defs)
qed

lemma del_st_ok:
  assumes "link_rep st m xs" and "x \<in> set xs"
  shows "\<exists>st'. del_st st x = Some (0, st') \<and> link_rep st' m (remove1 x xs)"
proof -
  from assms(1) obtain h la s as where st: "st = (h, Some la)" "list_at h la s m as"
    "xs = map snd as" "\<forall>k. \<not> oom h k" "int (length as) \<le> m" "m \<le> INT_MAX" by (rule link_repE)
  from assms(2) st(3) obtain us b vs where as: "as = us @ (b, x) # vs" "x \<notin> snd ` set us"
    by (metis split_first_node list.set_map)
  from link_delete_ok [of h la s m us b x vs] st as obtain h' where
    "list_delete h (Some la) x = Some (0, h')" "list_at h' la s m (us @ vs)" "oom h' = oom h"
    by auto
  with st as link_repI [of h' la s m "us @ vs"] map_snd_remove1 [OF as(2), of b vs] show ?thesis
    by (auto simp: link_st_defs)
qed

lemma mod_st_ok:
  assumes "link_rep st m xs" and "x \<in> set xs"
  shows "\<exists>st'. mod_st st x y = Some (0, st') \<and> link_rep st' m (replace1 x y xs)"
proof -
  from assms(1) obtain h la s as where st: "st = (h, Some la)" "list_at h la s m as"
    "xs = map snd as" "\<forall>k. \<not> oom h k" "int (length as) \<le> m" "m \<le> INT_MAX" by (rule link_repE)
  from assms(2) st(3) obtain us b vs where as: "as = us @ (b, x) # vs" "x \<notin> snd ` set us"
    by (metis split_first_node list.set_map)
  from link_modify_ok [of h la s m us b x vs y] st as obtain h' where
    "list_modify h (Some la) x y = Some (0, h')" "list_at h' la s m (us @ (b, y) # vs)" "oom h' = oom h"
    by auto
  with st as link_repI [of h' la s m "us @ (b, y) # vs"] map_snd_replace1 [OF as(2), of y b vs]
  show ?thesis by (auto simp: link_st_defs)
qed

lemma mod_st_absent:
  assumes "link_rep st m xs" and "x \<notin> set xs"
  shows "\<exists>st'. mod_st st x y = Some (- 1, st') \<and> link_rep st' m xs"
  using assms(1)
proof (rule link_repE)
  fix h la s as
  assume st: "st = (h, Some la)" "list_at h la s m as" "xs = map snd as"
  then have "list_modify h (Some la) x y = Some (- 1, h)"
    using assms(2) by (intro link_modify_absent) auto
  with st assms(1) show ?thesis by (auto simp: link_st_defs)
qed

lemma has_st_iff:
  assumes "link_rep st m xs"
  shows "has_st st x = Some (x \<in> set xs)"
  using assms
proof (rule link_repE)
  fix h la s as
  assume st: "st = (h, Some la)" "list_at h la s m as" "xs = map snd as"
  show ?thesis
  proof (cases "x \<in> snd ` set as")
    case True
    then obtain us b vs where as: "as = us @ (b, x) # vs" "x \<notin> snd ` set us"
      by (rule split_first_node)
    from st(2) have "list_search h (Some la) x = Some (Some b)"
      unfolding as(1) by (rule link_search_present) (rule as(2))
    with True st show ?thesis by (simp add: link_st_defs)
  next
    case False
    with st link_search_absent [OF st(2)] show ?thesis by (auto simp: link_st_defs)
  qed
qed

lemma del_st_absent:
  assumes "link_rep st m xs" and "x \<notin> set xs"
  shows "del_st st x = None"
  using assms(1)
proof (rule link_repE)
  fix h la s as
  assume st: "st = (h, Some la)" "list_at h la s m as" "xs = map snd as"
  then show ?thesis
    using assms(2) link_delete_absent [OF st(2), of x] by (auto simp: del_st_def with_ptr_def)
qed

interpretation ll: unchecked_list link_rep ins_st del_st mod_st has_st "\<lambda>x xs. x # xs"
  by unfold_locales
    (simp_all add: ins_st_ok ins_st_full del_st_ok mod_st_ok mod_st_absent has_st_iff del_st_absent
      del: split_paired_Ex)

section \<open>Memory: what the list owns\<close>

text \<open>
  \<open>owns D st m xs\<close>: beside the objects \<open>D\<close> of the rest of the program, the heap holds the
  footprint of the list and nothing more.
\<close>

definition owns :: "nat set \<Rightarrow> lheap \<times> ptr \<Rightarrow> int \<Rightarrow> int list \<Rightarrow> bool" where
  "owns D st m xs \<longleftrightarrow> (\<exists>la s as. snd st = Some la \<and> list_at (fst st) la s m as \<and> map snd as = xs \<and>
     (\<forall>k. \<not> oom (fst st) k) \<and> int (length as) \<le> m \<and> m \<le> INT_MAX \<and>
     dom (cells (fst st)) = D \<union> footprint la s as \<and> D \<inter> footprint la s as = {})"

lemma ownsE:
  assumes "owns D st m xs"
  obtains h la s as where "st = (h, Some la)" "list_at h la s m as" "xs = map snd as"
    "\<forall>k. \<not> oom h k" "int (length as) \<le> m" "m \<le> INT_MAX"
    "dom (cells h) = D \<union> footprint la s as" "D \<inter> footprint la s as = {}"
  using assms by (cases st) (auto simp: owns_def)

lemma ownsI:
  "list_at h la s m as \<Longrightarrow> \<forall>k. \<not> oom h k \<Longrightarrow> int (length as) \<le> m \<Longrightarrow> m \<le> INT_MAX \<Longrightarrow>
    dom (cells h) = D \<union> footprint la s as \<Longrightarrow> D \<inter> footprint la s as = {} \<Longrightarrow>
    owns D (h, Some la) m (map snd as)"
  unfolding owns_def by (intro exI [of _ la] exI [of _ s] exI [of _ as]) simp

lemma owns_ins:
  assumes "owns D st m xs" and "int (length xs) < m"
  shows "\<exists>st'. ins_st st x = Some (0, st') \<and> owns D st' m (x # xs)"
proof -
  from assms(1) obtain h la s as where st: "st = (h, Some la)" "list_at h la s m as"
    "xs = map snd as" "\<forall>k. \<not> oom h k" "int (length as) \<le> m" "m \<le> INT_MAX"
    "dom (cells h) = D \<union> footprint la s as" "D \<inter> footprint la s as = {}" by (rule ownsE)
  have new: "brk h \<notin> dom (cells h)"
    using st(2) by (auto simp: list_at_def dest: heap_okD)
  from link_insert_ok [OF st(2), of x] st assms(2) obtain h' where
    h': "list_insert h (Some la) x = Some (0, h')" "list_at h' la s m ((brk h, x) # as)" "oom h' = oom h"
    "dom (cells h') = insert (brk h) (dom (cells h))" by auto
  have "D \<inter> footprint la s ((brk h, x) # as) = {}"
    using st(7,8) new by (auto simp: footprint_def)
  moreover have "dom (cells h') = D \<union> footprint la s ((brk h, x) # as)"
    using h'(4) st(7) by (auto simp: footprint_def)
  ultimately have "owns D (h', Some la) m (map snd ((brk h, x) # as))"
    using st assms(2) h'(3) by (intro ownsI [OF h'(2)]) auto
  with st h'(1) show ?thesis by (auto simp: link_st_defs)
qed

lemma owns_del:
  assumes "owns D st m xs" and "x \<in> set xs"
  shows "\<exists>st'. del_st st x = Some (0, st') \<and> owns D st' m (remove1 x xs)"
proof -
  from assms(1) obtain h la s as where st: "st = (h, Some la)" "list_at h la s m as"
    "xs = map snd as" "\<forall>k. \<not> oom h k" "int (length as) \<le> m" "m \<le> INT_MAX"
    "dom (cells h) = D \<union> footprint la s as" "D \<inter> footprint la s as = {}" by (rule ownsE)
  from assms(2) st(3) obtain us b vs where as: "as = us @ (b, x) # vs" "x \<notin> snd ` set us"
    by (metis split_first_node list.set_map)
  from link_delete_ok [of h la s m us b x vs] st as obtain h' where
    h': "list_delete h (Some la) x = Some (0, h')" "list_at h' la s m (us @ vs)" "oom h' = oom h"
    "dom (cells h') = dom (cells h) - {b}" by auto
  have "distinct (map fst (s # as))" "la \<notin> fst ` set (s # as)"
    using st(2) list_at_la [OF st(2)] chain_distinct [of "cells h" "Some (fst s)" "s # as"]
    unfolding list_at_def by blast+
  then have "footprint la s (us @ vs) = footprint la s as - {b}"
    unfolding footprint_def as(1) by auto
  moreover have "b \<notin> D" using st(8) as by (auto simp: footprint_def)
  ultimately have "owns D (h', Some la) m (map snd (us @ vs))"
    using st as h'(3,4) by (intro ownsI [OF h'(2)]) auto
  with st h'(1) map_snd_remove1 [OF as(2), of b vs] as(1) show ?thesis by (auto simp: link_st_defs)
qed

lemma owns_mod:
  assumes "owns D st m xs"
  shows "\<exists>r st'. mod_st st x y = Some (r, st') \<and> owns D st' m (replace1 x y xs)"
proof -
  from assms(1) obtain h la s as where st: "st = (h, Some la)" "list_at h la s m as"
    "xs = map snd as" "\<forall>k. \<not> oom h k" "int (length as) \<le> m" "m \<le> INT_MAX"
    "dom (cells h) = D \<union> footprint la s as" "D \<inter> footprint la s as = {}" by (rule ownsE)
  show ?thesis
  proof (cases "x \<in> snd ` set as")
    case True
    then obtain us b vs where as: "as = us @ (b, x) # vs" "x \<notin> snd ` set us"
      by (rule split_first_node)
    from link_modify_ok [of h la s m us b x vs y] st as obtain h' where
      h': "list_modify h (Some la) x y = Some (0, h')" "list_at h' la s m (us @ (b, y) # vs)"
      "oom h' = oom h" "dom (cells h') = dom (cells h)" by auto
    have "footprint la s (us @ (b, y) # vs) = footprint la s as"
      unfolding footprint_def as(1) by auto
    then have "owns D (h', Some la) m (map snd (us @ (b, y) # vs))"
      using st as h'(3,4) by (intro ownsI [OF h'(2)]) auto
    with st h'(1) map_snd_replace1 [OF as(2), of y b vs] as(1) show ?thesis
      by (auto simp: link_st_defs)
  next
    case False
    then have "x \<notin> set xs" using st(3) by auto
    with False st link_modify_absent [OF st(2), of x y] assms show ?thesis
      by (auto simp: link_st_defs)
  qed
qed

text \<open>A program that never inserts into a full list.\<close>

fun never_full :: "int \<Rightarrow> int multiset \<Rightarrow> list_op list \<Rightarrow> bool" where
  "never_full m b [] = True"
| "never_full m b (c # cs) =
     ((case c of Ins _ \<Rightarrow> int (size b) < m | _ \<Rightarrow> True) \<and> never_full m (bag_step m b c) cs)"

lemma owns_run:
  "owns D st m xs \<Longrightarrow> admissible m (mset xs) cs \<Longrightarrow> never_full m (mset xs) cs \<Longrightarrow>
    \<exists>rs st' xs'. list_run ins_st del_st mod_st st cs = Some (rs, st') \<and> owns D st' m xs' \<and>
      mset xs' = bag_run m (mset xs) cs"
proof (induction cs arbitrary: st xs)
  case Nil
  then show ?case by auto
next
  case (Cons c cs)
  have "\<exists>r st' xs'. (case c of Ins x \<Rightarrow> ins_st st x | Del x \<Rightarrow> del_st st x | Mod x y \<Rightarrow> mod_st st x y)
      = Some (r, st') \<and> owns D st' m xs' \<and> mset xs' = bag_step m (mset xs) c"
  proof (cases c)
    case (Ins x)
    with Cons.prems have "int (length xs) < m" by simp
    from owns_ins [OF Cons.prems(1) this, of x] this Ins show ?thesis
      by (auto intro!: exI [of _ "x # xs"])
  next
    case (Del x)
    with Cons.prems(2) have "x \<in> set xs" by simp
    from owns_del [OF Cons.prems(1) this] Del show ?thesis
      by (auto intro!: exI [of _ "remove1 x xs"])
  next
    case (Mod x y)
    with owns_mod [OF Cons.prems(1), of x y] show ?thesis
      by (auto intro!: exI [of _ "replace1 x y xs"] simp: mset_replace1)
  qed
  then obtain r st' xs' where
    step: "(case c of Ins x \<Rightarrow> ins_st st x | Del x \<Rightarrow> del_st st x | Mod x y \<Rightarrow> mod_st st x y) = Some (r, st')"
    "owns D st' m xs'" "mset xs' = bag_step m (mset xs) c" by blast
  from Cons.prems(2,3) step(3) have "admissible m (mset xs') cs" "never_full m (mset xs') cs"
    by simp_all
  from Cons.IH [OF step(2) this] step show ?case by auto
qed

lemma owns_init:
  assumes "heap_ok h" and "\<forall>k. \<not> oom h k" and "0 \<le> m" and "m \<le> INT_MAX"
  shows "\<exists>h'. list_init h m = Some (Some (brk h), h') \<and> owns (dom (cells h)) (h', Some (brk h)) m []"
proof -
  from link_list_init_ok [OF assms(1), of m] assms(2) obtain h' where
    h': "list_init h m = Some (Some (brk h), h')" "list_at h' (brk h) (Suc (brk h), 0) m []"
    "oom h' = oom h" "dom (cells h') = dom (cells h) \<union> footprint (brk h) (Suc (brk h), 0) []"
    by auto
  have "dom (cells h) \<inter> footprint (brk h) (Suc (brk h), 0) [] = {}"
    using assms(1) by (auto simp: footprint_def dest: heap_okD)
  with h' assms ownsI [OF h'(2), of "dom (cells h)"] show ?thesis by simp
qed

lemma owns_destory:
  assumes "owns D st m xs"
  shows "\<exists>h'. list_destory (fst st) (snd st) = Some (0, h') \<and> dom (cells h') = D"
  using assms
proof (rule ownsE)
  fix h la s as
  assume st: "st = (h, Some la)" "list_at h la s m as"
    "dom (cells h) = D \<union> footprint la s as" "D \<inter> footprint la s as = {}"
  from link_destory_ok [OF st(2)] obtain h' where h': "list_destory h (Some la) = Some (0, h')"
    "cells h' = (\<lambda>a. if a \<in> footprint la s as then None else cells h a)" by blast
  have "dom (cells h') = dom (cells h) - footprint la s as"
    unfolding h'(2) by (auto simp: dom_def)
  with st h'(1) show ?thesis by auto
qed

section \<open>Properties\<close>

text \<open>
  \<open>holds h la m xs\<close>: the heap has a well formed list with the elements \<open>xs\<close> and the capacity \<open>m\<close> at the address \<open>la\<close>. It
  says nothing of the memory that is left.
\<close>

definition holds :: "lheap \<Rightarrow> nat \<Rightarrow> int \<Rightarrow> int list \<Rightarrow> bool" where
  "holds h la m xs \<longleftrightarrow> (\<exists>s as. list_at h la s m as \<and> map snd as = xs \<and> int (length xs) \<le> m)"

lemma holdsI: "list_at h la s m as \<Longrightarrow> xs = map snd as \<Longrightarrow> int (length as) \<le> m \<Longrightarrow> holds h la m xs"
  unfolding holds_def by (intro exI [of _ s] exI [of _ as]) simp

lemma holdsE:
  assumes "holds h la m xs"
  obtains s as where "list_at h la s m as" "xs = map snd as" "int (length as) \<le> m"
  using assms by (auto simp: holds_def)

lemma holds_init:
  assumes "heap_ok h" and "0 \<le> m"
  shows "\<exists>p h'. list_init h m = Some (p, h') \<and>
    (if oom h (brk h) \<or> oom h (Suc (brk h)) then p = None else \<exists>lb. p = Some lb \<and> holds h' lb m [])"
proof (cases "oom h (brk h) \<or> oom h (Suc (brk h))")
  case True
  then show ?thesis by (auto simp: list_init_def node_alloc_def malloc_def free_def Let_def)
next
  case False
  with link_list_init_ok [OF assms(1), of m] obtain h' where
    "list_init h m = Some (Some (brk h), h')" "list_at h' (brk h) (Suc (brk h), 0) m []" by auto
  with False holdsI [OF this(2)] assms(2) show ?thesis by auto
qed

lemma holds_insert:
  assumes "holds h la m xs" and "m \<le> INT_MAX"
  shows "\<exists>h'. list_insert h (Some la) x = Some (if oom h (brk h) \<or> m \<le> int (length xs) then - 1 else 0, h') \<and>
    holds h' la m (if oom h (brk h) \<or> m \<le> int (length xs) then xs else x # xs)"
  using assms(1)
proof (rule holdsE)
  fix s as
  assume as: "list_at h la s m as" "xs = map snd as" "int (length as) \<le> m"
  consider "oom h (brk h)" | "\<not> oom h (brk h)" "m \<le> int (length as)" | "\<not> oom h (brk h)" "int (length as) < m" by linarith
  then show ?thesis
  proof cases
    case 1
    have "list_at (h\<lparr>brk := Suc (brk h)\<rparr>) la s m as" using as(1) by (auto simp: list_at_def heap_ok_def)
    with 1 link_insert_oom [OF as(1) 1, of x] holdsI [OF this as(2,3)] show ?thesis by simp
  next
    case 2
    from link_insert_full [OF as(1) 2(2,1), of x] 2 as holdsI [OF _ as(2,3)] show ?thesis by fastforce
  next
    case 3
    from link_insert_ok [OF as(1) 3(2) assms(2) 3(1), of x] obtain h' where
      h': "list_insert h (Some la) x = Some (0, h')" "list_at h' la s m ((brk h, x) # as)" by blast
    with 3 as holdsI [OF h'(2), of "x # xs"] show ?thesis by auto
  qed
qed

lemma holds_delete:
  assumes "holds h la m xs" and "m \<le> INT_MAX"
  shows "if x \<in> set xs then \<exists>h'. list_delete h (Some la) x = Some (0, h') \<and> holds h' la m (remove1 x xs)
    else list_delete h (Some la) x = None"
  using assms(1)
proof (rule holdsE)
  fix s as
  assume as: "list_at h la s m as" "xs = map snd as" "int (length as) \<le> m"
  show ?thesis
  proof (cases "x \<in> set xs")
    case True
    with as(2) obtain us b vs where us: "as = us @ (b, x) # vs" "x \<notin> snd ` set us" by (metis split_first_node list.set_map)
    from link_delete_ok [of h la s m us b x vs] as us assms(2) obtain h' where
      "list_delete h (Some la) x = Some (0, h')" "list_at h' la s m (us @ vs)" by auto
    with True as us holdsI [OF this(2), of "remove1 x xs"] map_snd_remove1 [OF us(2), of b vs] show ?thesis by auto
  next
    case False
    with as(2) link_delete_absent [OF as(1), of x] show ?thesis by auto
  qed
qed

lemma holds_modify:
  assumes "holds h la m xs"
  shows "\<exists>h'. list_modify h (Some la) x y = Some (if x \<in> set xs then 0 else - 1, h') \<and> holds h' la m (replace1 x y xs)"
  using assms
proof (rule holdsE)
  fix s as
  assume as: "list_at h la s m as" "xs = map snd as" "int (length as) \<le> m"
  show ?thesis
  proof (cases "x \<in> set xs")
    case True
    with as(2) obtain us b vs where us: "as = us @ (b, x) # vs" "x \<notin> snd ` set us" by (metis split_first_node list.set_map)
    from link_modify_ok [of h la s m us b x vs y] as us obtain h' where
      "list_modify h (Some la) x y = Some (0, h')" "list_at h' la s m (us @ (b, y) # vs)" by auto
    with True as us holdsI [OF this(2), of "replace1 x y xs"] map_snd_replace1 [OF us(2), of y b vs] show ?thesis by auto
  next
    case False
    with as link_modify_absent [OF as(1), of x y] assms show ?thesis by simp
  qed
qed

text \<open>A search gives the address of a node that holds the number.\<close>

lemma holds_search:
  assumes "holds h la m xs"
  shows "if x \<in> set xs then \<exists>a q. list_search h (Some la) x = Some (Some a) \<and> cells h a = Some (ONode \<lparr>n_data = x, n_next = q\<rparr>)
    else list_search h (Some la) x = Some None"
  using assms
proof (rule holdsE)
  fix s as
  assume as: "list_at h la s m as" "xs = map snd as"
  show ?thesis
  proof (cases "x \<in> set xs")
    case True
    with as(2) obtain us b vs where us: "as = us @ (b, x) # vs" "x \<notin> snd ` set us" by (metis split_first_node list.set_map)
    have "chain (cells h) (Some (fst s)) ((s # us) @ (b, x) # vs)" using as(1) us(1) by (simp add: list_at_def)
    from chain_set_data [OF this, of x] obtain q where "cells h b = Some (ONode \<lparr>n_data = x, n_next = q\<rparr>)" by auto
    with True link_search_present [of h la s m us b x vs] as(1) us show ?thesis by auto
  next
    case False
    with as link_search_absent [OF as(1), of x] show ?thesis by auto
  qed
qed

lemma holds_rest:
  assumes "holds h la m xs"
  shows "list_foreach h (Some la) = Some (0, xs)" "list_foreach_reversingly h (Some la) = Some (0, rev xs)"
    "\<exists>h'. list_reverse h (Some la) = Some (0, h') \<and> holds h' la m (rev xs)"
    "\<exists>h'. list_destory h (Some la) = Some (0, h') \<and> cells h' la = None"
proof -
  from assms obtain s as where as: "list_at h la s m as" "xs = map snd as" "int (length as) \<le> m" by (rule holdsE)
  show "list_foreach h (Some la) = Some (0, xs)" "list_foreach_reversingly h (Some la) = Some (0, rev xs)"
    using link_foreach_eq [OF as(1)] as(2) by auto
  from link_reverse_ok [OF as(1)] obtain h' where "list_reverse h (Some la) = Some (0, h')" "list_at h' la s m (rev as)" by blast
  with as holdsI [OF this(2), of "rev xs"] show "\<exists>h'. list_reverse h (Some la) = Some (0, h') \<and> holds h' la m (rev xs)"
    by (auto simp: rev_map)
  from link_destory_ok [OF as(1)] show "\<exists>h'. list_destory h (Some la) = Some (0, h') \<and> cells h' la = None"
    by (auto simp: footprint_def)
qed

text \<open>
  C3. Every operation of the linked list, on a list of any length and whatever allocation fails. A list is made if there is memory for
  it. An insertion puts the element in front; when the list is full or there is no memory it reports -1 and leaves
  the elements as they were. A deletion removes the first occurrence, and is undefined for an absent element. A
  modification replaces the first occurrence or reports -1; a search gives a node that holds the element, or null. The two
  traversals visit the elements in order and in reverse order, the reversal turns the list round, and destroying it returns 0. With
  a null pointer four of them report an error or do nothing and the other four are undefined.
\<close>

theorem linklist_operations:
  assumes "holds h la m xs" and "m \<le> INT_MAX"
  shows "(\<exists>p h'. list_init h m = Some (p, h') \<and>
      (if oom h (brk h) \<or> oom h (Suc (brk h)) then p = None else \<exists>lb. p = Some lb \<and> holds h' lb m [])) \<and>
    (\<exists>h'. list_insert h (Some la) x = Some (if oom h (brk h) \<or> m \<le> int (length xs) then - 1 else 0, h') \<and>
      holds h' la m (if oom h (brk h) \<or> m \<le> int (length xs) then xs else x # xs)) \<and>
    (if x \<in> set xs then \<exists>h'. list_delete h (Some la) x = Some (0, h') \<and> holds h' la m (remove1 x xs)
      else list_delete h (Some la) x = None) \<and>
    (\<exists>h'. list_modify h (Some la) x y = Some (if x \<in> set xs then 0 else - 1, h') \<and> holds h' la m (replace1 x y xs)) \<and>
    (if x \<in> set xs then \<exists>a q. list_search h (Some la) x = Some (Some a) \<and> cells h a = Some (ONode \<lparr>n_data = x, n_next = q\<rparr>)
      else list_search h (Some la) x = Some None) \<and>
    list_foreach h (Some la) = Some (0, xs) \<and> list_foreach_reversingly h (Some la) = Some (0, rev xs) \<and>
    (\<exists>h'. list_reverse h (Some la) = Some (0, h') \<and> holds h' la m (rev xs)) \<and>
    (\<exists>h'. list_destory h (Some la) = Some (0, h') \<and> cells h' la = None) \<and>
    (\<exists>h'. list_insert h None x = Some (- 1, h')) \<and> list_destory h None = Some (0, h) \<and>
    list_reverse h None = Some (- 1, h) \<and> list_foreach_reversingly h None = Some (- 1, []) \<and>
    list_delete h None x = None \<and> list_modify h None x y = None \<and> list_search h None x = None \<and> list_foreach h None = None"
proof -
  have "heap_ok h" "0 \<le> m" using assms(1) by (auto simp: holds_def list_at_def)
  note init = holds_init [OF this]
  have nulls: "(\<exists>h'. list_insert h None x = Some (- 1, h')) \<and> list_destory h None = Some (0, h) \<and>
    list_reverse h None = Some (- 1, h) \<and> list_foreach_reversingly h None = Some (- 1, []) \<and>
    list_delete h None x = None \<and> list_modify h None x y = None \<and> list_search h None x = None \<and> list_foreach h None = None"
    by (auto simp: list_insert_def list_destory_def list_reverse_def list_foreach_reversingly_def list_delete_def list_modify_def
        list_search_def list_foreach_def load_hdr_def Let_def split: prod.split)
  show ?thesis
    using init holds_insert [OF assms, of x] holds_delete [OF assms, of x] holds_modify [OF assms(1), of x y]
      holds_search [OF assms(1), of x] holds_rest [OF assms(1)] nulls by (intro conjI) blast+
qed

text \<open>A list of three elements and capacity three, for the witnesses below.\<close>

definition demo_heap :: lheap where
  "demo_heap = \<lparr>cells = [0 \<mapsto> OHdr \<lparr>h_head = Some 1, h_len = 3, h_max = 3\<rparr>,
      1 \<mapsto> ONode \<lparr>n_data = 0, n_next = Some 4\<rparr>,
      2 \<mapsto> ONode \<lparr>n_data = 7, n_next = None\<rparr>,
      3 \<mapsto> ONode \<lparr>n_data = 8, n_next = Some 2\<rparr>,
      4 \<mapsto> ONode \<lparr>n_data = 9, n_next = Some 3\<rparr>], brk = 5, oom = (\<lambda>_. False)\<rparr>"

lemma demo_list_at: "list_at demo_heap 0 (1, 0) 3 [(4, 9), (3, 8), (2, 7)]"
  by (simp add: list_at_def demo_heap_def heap_ok_def)

lemma demo_link_rep: "link_rep (demo_heap, Some 0) 3 [9, 8, 7]"
  using link_repI [OF demo_list_at] by (simp add: demo_heap_def INT_MAX_def)

theorem linklist_operations_witness:
  "\<exists>h'. list_delete demo_heap (Some 0) 8 = Some (0, h') \<and> holds h' 0 3 [9, 7]"
proof -
  have "holds demo_heap 0 3 [9, 8, 7]" using holdsI [OF demo_list_at] by simp
  from linklist_operations [OF this, of 8 0] show ?thesis by (simp add: INT_MAX_def)
qed

text \<open>
  C2. No leak: create a list, run any program of calls that deletes only present elements and
  never inserts into a full list, destroy the list. Every call returns, the list behaves as the
  bag machine, and the heap is left with exactly the objects it had before.
\<close>

theorem linklist_lifecycle_no_leak:
  assumes "heap_ok h" and "\<forall>k. \<not> oom h k" and "0 \<le> m" and "m \<le> INT_MAX"
    and "admissible m {#} cs" and "never_full m {#} cs"
  shows "\<exists>lp h1 rs st xs h2. list_init h m = Some (lp, h1) \<and>
    list_run ins_st del_st mod_st (h1, lp) cs = Some (rs, st) \<and>
    list_foreach (fst st) (snd st) = Some (0, xs) \<and> mset xs = bag_run m {#} cs \<and>
    list_destory (fst st) (snd st) = Some (0, h2) \<and> dom (cells h2) = dom (cells h)"
proof -
  from owns_init [OF assms(1-4)] obtain h1 where
    i: "list_init h m = Some (Some (brk h), h1)" "owns (dom (cells h)) (h1, Some (brk h)) m []"
    by blast
  from owns_run [OF i(2), of cs] assms(5,6) obtain rs st xs where
    r: "list_run ins_st del_st mod_st (h1, Some (brk h)) cs = Some (rs, st)"
    "owns (dom (cells h)) st m xs" "mset xs = bag_run m {#} cs" by auto
  from r(2) have "list_foreach (fst st) (snd st) = Some (0, xs)"
    by (auto elim!: ownsE simp: link_foreach_eq)
  with i(1) r owns_destory [OF r(2)] show ?thesis by blast
qed

theorem linklist_lifecycle_no_leak_witness:
  "\<exists>lp h1 rs st xs h2. list_init (empty_heap (\<lambda>_. False)) 2 = Some (lp, h1) \<and>
    list_run ins_st del_st mod_st (h1, lp) [Ins 1, Ins 2, Mod 1 5, Del 2] = Some (rs, st) \<and>
    list_foreach (fst st) (snd st) = Some (0, xs) \<and> mset xs = {#5#} \<and>
    list_destory (fst st) (snd st) = Some (0, h2) \<and> dom (cells h2) = {}"
  using linklist_lifecycle_no_leak [of "empty_heap (\<lambda>_. False)" 2 "[Ins 1, Ins 2, Mod 1 5, Del 2]"]
  by (simp add: INT_MAX_def)

text \<open>
  An insertion into a full list reports -1 and leaves the list as it was, but it leaks: the
  node is allocated before the length is tested and never freed, so after the list is
  destroyed it is the one object that remains of the heap the list grew in.
\<close>

theorem linklist_insert_full_leaks:
  assumes "list_at h la s m as" and "m \<le> int (length as)" and "\<not> oom h (brk h)"
  shows "\<exists>h1 h2. list_insert h (Some la) x = Some (- 1, h1) \<and> list_at h1 la s m as \<and>
    list_destory h1 (Some la) = Some (0, h2) \<and>
    dom (cells h2) = insert (brk h) (dom (cells h) - footprint la s as)"
proof -
  from link_insert_full [OF assms] obtain h1 where h1: "list_insert h (Some la) x = Some (- 1, h1)"
    "list_at h1 la s m as" "dom (cells h1) = insert (brk h) (dom (cells h))"
    "brk h \<notin> footprint la s as" by blast
  from link_destory_ok [OF h1(2)] obtain h2 where h2: "list_destory h1 (Some la) = Some (0, h2)"
    "cells h2 = (\<lambda>a. if a \<in> footprint la s as then None else cells h1 a)" by blast
  have "dom (cells h2) = dom (cells h1) - footprint la s as"
    unfolding h2(2) by (auto simp: dom_def)
  with h1 h2(1) show ?thesis by auto
qed

theorem linklist_insert_full_leaks_witness:
  "\<exists>h1 h2. list_insert demo_heap (Some 0) 6 = Some (- 1, h1) \<and>
    list_destory h1 (Some 0) = Some (0, h2) \<and> dom (cells h2) = {5}"
proof -
  have "\<not> oom demo_heap (brk demo_heap)" by (simp add: demo_heap_def)
  from linklist_insert_full_leaks [OF demo_list_at _ this, of 6] show ?thesis
    by (auto simp: demo_heap_def footprint_def)
qed

text \<open>
  Deleting an element that is not in the list has no defined result: the search stops at the
  last node and the code then follows its null successor. (The test for "not found" is on the
  node, which is never null there.)
\<close>

theorem linklist_delete_absent_undefined:
  assumes "link_rep st m xs" and "x \<notin> set xs"
  shows "del_st st x = None"
  using assms by (rule del_st_absent)

theorem linklist_delete_absent_undefined_witness: "del_st (demo_heap, Some 0) 6 = None"
  by (rule linklist_delete_absent_undefined [OF demo_link_rep]) simp

text \<open>
  Reversal: it terminates, allocates and frees nothing, and turns the list round, so that the
  forward traversal of the result is the backward traversal of the original and vice versa.
\<close>

theorem linklist_reverse:
  assumes "link_rep st m xs"
  shows "\<exists>h'. list_reverse (fst st) (snd st) = Some (0, h') \<and> link_rep (h', snd st) m (rev xs) \<and>
    dom (cells h') = dom (cells (fst st)) \<and>
    list_foreach h' (snd st) = list_foreach_reversingly (fst st) (snd st) \<and>
    list_foreach_reversingly h' (snd st) = list_foreach (fst st) (snd st)"
  using assms
proof (rule link_repE)
  fix h la s as
  assume st: "st = (h, Some la)" "list_at h la s m as" "xs = map snd as"
    "\<forall>k. \<not> oom h k" "int (length as) \<le> m" "m \<le> INT_MAX"
  from link_reverse_ok [OF st(2)] obtain h' where h': "list_reverse h (Some la) = Some (0, h')"
    "list_at h' la s m (rev as)" "oom h' = oom h" "dom (cells h') = dom (cells h)" by blast
  then have "link_rep (h', Some la) m (map snd (rev as))" using st by (intro link_repI) auto
  with st h' link_foreach_eq [OF st(2)] link_foreach_eq [OF h'(2)] show ?thesis by (auto simp: rev_map)
qed

theorem linklist_reverse_witness:
  "\<exists>h'. list_reverse demo_heap (Some 0) = Some (0, h') \<and> link_rep (h', Some 0) 3 [7, 8, 9]"
  using linklist_reverse [OF demo_link_rep] by auto

end
