(* ===== verification/StackSpec.thy ===== *)
theory StackSpec
  imports Prelude
begin

text \<open>
  The contract of the bounded integer stacks of the repository: \<open>seqstack.c\<close> (theory
  \<open>SeqStack\<close>), \<open>linkstack.c\<close> (theory \<open>LinkStack\<close>) and the fixed array of
  \<open>exam/haier/bracketMatch.c\<close> (theory \<open>BracketMatch\<close>). A stack of capacity \<open>m\<close> holds a list,
  its head the top. \<open>pop\<close> takes the variable its result goes to (\<open>int *data\<close>) as a value and
  returns it overwritten, or as it was when the stack is empty.
\<close>

locale bounded_stack =
  fixes rep :: "'s \<Rightarrow> int \<Rightarrow> int list \<Rightarrow> bool"
    and push :: "'s \<Rightarrow> int \<Rightarrow> (int \<times> 's) option"
    and pop :: "'s \<Rightarrow> int \<Rightarrow> (int \<times> int \<times> 's) option"
    and isempty :: "'s \<Rightarrow> bool option"
  assumes rep_bound: "rep s m xs \<Longrightarrow> int (length xs) \<le> m"
    and push_ok: "rep s m xs \<Longrightarrow> int (length xs) < m \<Longrightarrow>
      \<exists>s'. push s x = Some (0, s') \<and> rep s' m (x # xs)"
    and push_full: "rep s m xs \<Longrightarrow> int (length xs) = m \<Longrightarrow> push s x = Some (- 1, s)"
    and pop_ok: "rep s m (x # xs) \<Longrightarrow> \<exists>s'. pop s d = Some (0, x, s') \<and> rep s' m xs"
    and pop_empty: "rep s m [] \<Longrightarrow> pop s d = Some (- 1, d, s)"
    and isempty_iff: "rep s m xs \<Longrightarrow> isempty s = Some (xs = [])"

text \<open>Pushing and popping whole sequences, with the return codes dropped as the clients do.\<close>

fun push_all :: "('s \<Rightarrow> int \<Rightarrow> (int \<times> 's) option) \<Rightarrow> 's \<Rightarrow> int list \<Rightarrow> 's option" where
  "push_all push s [] = Some s"
| "push_all push s (x # xs) = do { (_, s') \<leftarrow> push s x; push_all push s' xs }"

fun pop_n :: "('s \<Rightarrow> int \<Rightarrow> (int \<times> int \<times> 's) option) \<Rightarrow> 's \<Rightarrow> nat \<Rightarrow> int \<Rightarrow> (int list \<times> 's) option" where
  "pop_n pop s 0 d = Some ([], s)"
| "pop_n pop s (Suc n) d = do {
     (_, d', s') \<leftarrow> pop s d;
     (ds, t) \<leftarrow> pop_n pop s' n d';
     Some (d' # ds, t) }"

context bounded_stack
begin

lemma push_allI:
  "rep s m xs \<Longrightarrow> int (length xs + length ys) \<le> m \<Longrightarrow>
    \<exists>s'. push_all push s ys = Some s' \<and> rep s' m (rev ys @ xs)"
proof (induction ys arbitrary: s xs)
  case Nil
  then show ?case by simp
next
  case (Cons y ys)
  then obtain s' where s': "push s y = Some (0, s')" "rep s' m (y # xs)"
    using push_ok [of s m xs y] by auto
  from Cons.IH [OF s'(2)] Cons.prems(2) s'(1) show ?case by auto
qed

text \<open>Last in, first out: what was pushed comes back in the opposite order.\<close>

lemma lifo:
  assumes "rep s m xs" and "int (length xs + length ys) \<le> m"
  shows "\<exists>s' s''. push_all push s ys = Some s' \<and>
    pop_n pop s' (length ys) d = Some (rev ys, s'') \<and> rep s'' m xs"
proof -
  have pops: "\<exists>s''. pop_n pop t (length zs) d = Some (zs, s'') \<and> rep s'' m xs"
    if "rep t m (zs @ xs)" for t zs d
    using that
  proof (induction zs arbitrary: t d)
    case Nil
    then show ?case by simp
  next
    case (Cons z zs)
    then obtain t' where t': "pop t d = Some (0, z, t')" "rep t' m (zs @ xs)"
      using pop_ok [of t m z "zs @ xs" d] by auto
    from Cons.IH [OF t'(2), of z] t'(1) show ?case by auto
  qed
  from push_allI [OF assms] obtain s' where s': "push_all push s ys = Some s'" "rep s' m (rev ys @ xs)"
    by blast
  from pops [OF s'(2), of d] s'(1) show ?thesis by auto
qed

end

end
