(* ===== verification/SeqStack.thy ===== *)
theory SeqStack
  imports StackSpec
begin

text \<open>
  The array stack, \<open>algorithm/stack/seqstack/seqstack.c\<close>. A \<open>stack_t *\<close> is an option: null,
  or the object it owns. \<open>stack_isempty\<close> and \<open>stack_isfull\<close> do not test for null. The pointers
  \<open>data\<close> and \<open>visit\<close>, which the code does test, are an option and a flag.
\<close>

record stack_t =
  s_buf :: "int list"
  s_top :: int
  s_max :: int

definition stack_init :: "bool \<Rightarrow> bool \<Rightarrow> int \<Rightarrow> stack_t option" where
  "stack_init m1 m2 mx =
     (if \<not> m1 then None
      else case calloc m2 mx of
             None \<Rightarrow> None
           | Some b \<Rightarrow> Some \<lparr>s_buf = b, s_top = 0, s_max = mx\<rparr>)"

definition stack_destory :: "stack_t option \<Rightarrow> int \<times> stack_t option" where
  "stack_destory st = (case st of None \<Rightarrow> (- 1, None) | Some _ \<Rightarrow> (0, None))"

definition stack_isempty :: "stack_t option \<Rightarrow> bool option" where
  "stack_isempty st = do { s \<leftarrow> st; Some (s_top s = 0) }"

definition stack_isfull :: "stack_t option \<Rightarrow> bool option" where
  "stack_isfull st = do { s \<leftarrow> st; Some (s_top s = s_max s) }"

definition stack_push :: "stack_t option \<Rightarrow> int \<Rightarrow> (int \<times> stack_t option) option" where
  "stack_push st data = (case st of
     None \<Rightarrow> Some (- 1, None)
   | Some s \<Rightarrow> do {
       full \<leftarrow> stack_isfull st;
       if full then Some (- 1, st)
       else do {
         b \<leftarrow> wr (s_buf s) (s_top s) data;
         Some (0, Some (s\<lparr>s_buf := b, s_top := s_top s + 1\<rparr>)) } })"

definition stack_pop :: "stack_t option \<Rightarrow> int option \<Rightarrow> (int \<times> int option \<times> stack_t option) option" where
  "stack_pop st data = (case st of
     None \<Rightarrow> Some (- 1, data, None)
   | Some s \<Rightarrow>
       if data = None then Some (- 1, data, st)
       else do {
         emp \<leftarrow> stack_isempty st;
         if emp then Some (- 1, data, st)
         else do {
           let s' = s\<lparr>s_top := s_top s - 1\<rparr>;
           v \<leftarrow> rd (s_buf s') (s_top s');
           Some (0, Some v, Some s') } })"

function foreach_down :: "stack_t \<Rightarrow> int \<Rightarrow> int list option" where
  "foreach_down s i =
     (if i \<ge> 0 then do {
        v \<leftarrow> rd (s_buf s) i;
        vs \<leftarrow> foreach_down s (i - 1);
        Some (v # vs) }
      else Some [])"
  by pat_completeness auto
termination
  by (relation "measure (\<lambda>(s, i). nat (i + 1))") auto

declare foreach_down.simps [simp del]

definition stack_foreach :: "stack_t option \<Rightarrow> bool \<Rightarrow> (int \<times> int list) option" where
  "stack_foreach st visit = (case st of
     None \<Rightarrow> Some (- 1, [])
   | Some s \<Rightarrow>
       if \<not> visit then Some (- 1, [])
       else do { vs \<leftarrow> foreach_down s (s_top s - 1); Some (0, vs) })"

text \<open>The clients call \<open>stack_pop (stack, &v)\<close> on a variable \<open>v\<close>.\<close>

definition pop_to :: "stack_t option \<Rightarrow> int \<Rightarrow> (int \<times> int \<times> stack_t option) option" where
  "pop_to st v = do { (r, d, st') \<leftarrow> stack_pop st (Some v); v' \<leftarrow> d; Some (r, v', st') }"

text \<open>The demonstration program \<open>main.c\<close>: the values it prints, line by line.\<close>

definition seqstack_main :: "bool \<Rightarrow> bool \<Rightarrow> int \<Rightarrow> int list list option" where
  "seqstack_main m1 m2 d = do {
     let st = stack_init m1 m2 10;
     st \<leftarrow> push_all stack_push st [0, 1, 2, 3, 4, 5, 6, 7, 8, 9];
     (_, out1) \<leftarrow> stack_foreach st True;
     (out2, st) \<leftarrow> pop_n pop_to st 5 d;
     (_, out3) \<leftarrow> stack_foreach st True;
     st \<leftarrow> push_all stack_push st [55, 56, 57];
     (out4, st) \<leftarrow> pop_n pop_to st 5 d;
     (_, out5) \<leftarrow> stack_foreach st True;
     Some [out1, out2, out3, out4, out5] }"

section \<open>Abstraction to a list, top first\<close>

definition stack_rep :: "stack_t option \<Rightarrow> int \<Rightarrow> int list \<Rightarrow> bool" where
  "stack_rep st m xs \<longleftrightarrow> (\<exists>rest. st = Some \<lparr>s_buf = rev xs @ rest, s_top = int (length xs), s_max = m\<rparr>
     \<and> m = int (length xs + length rest))"

lemma stack_repI:
  "m = int (length xs + length rest) \<Longrightarrow>
    stack_rep (Some \<lparr>s_buf = rev xs @ rest, s_top = int (length xs), s_max = m\<rparr>) m xs"
  by (auto simp: stack_rep_def)

lemma stack_rep_init: "0 \<le> m \<Longrightarrow> stack_rep (stack_init True True m) m []"
  by (auto simp: stack_init_def calloc_def stack_rep_def)

lemma sstack_push_ok:
  assumes "stack_rep st m xs" and "int (length xs) < m"
  shows "\<exists>st'. stack_push st x = Some (0, st') \<and> stack_rep st' m (x # xs)"
proof -
  from assms obtain r rest where
    st: "st = Some \<lparr>s_buf = rev xs @ r # rest, s_top = int (length xs), s_max = m\<rparr>"
    and m: "m = int (length xs + length (r # rest))"
    by (auto simp: stack_rep_def neq_Nil_conv)
  show ?thesis
    using m stack_repI [of m "x # xs" rest]
    by (simp add: st stack_push_def stack_isfull_def wr_mid add.commute)
qed

lemma sstack_push_full:
  "stack_rep st m xs \<Longrightarrow> int (length xs) = m \<Longrightarrow> stack_push st x = Some (- 1, st)"
  by (auto simp: stack_rep_def stack_push_def stack_isfull_def)

lemma sstack_pop_ok:
  assumes "stack_rep st m (x # xs)"
  shows "\<exists>st'. pop_to st d = Some (0, x, st') \<and> stack_rep st' m xs"
proof -
  from assms obtain rest where
    st: "st = Some \<lparr>s_buf = rev xs @ x # rest, s_top = int (length xs) + 1, s_max = m\<rparr>"
    and m: "m = int (length xs + length (x # rest))"
    by (auto simp: stack_rep_def add.commute)
  show ?thesis
    using m stack_repI [of m xs "x # rest"]
    by (simp add: st pop_to_def stack_pop_def stack_isempty_def rd_mid)
qed

lemma sstack_pop_empty: "stack_rep st m [] \<Longrightarrow> pop_to st d = Some (- 1, d, st)"
  by (auto simp: stack_rep_def pop_to_def stack_pop_def stack_isempty_def)

lemma sstack_isempty_iff: "stack_rep st m xs \<Longrightarrow> stack_isempty st = Some (xs = [])"
  by (auto simp: stack_rep_def stack_isempty_def)

lemma foreach_down_eq:
  "foreach_down \<lparr>s_buf = rev xs @ rest, s_top = t, s_max = m\<rparr> (int (length xs) - 1) = Some xs"
proof (induction xs arbitrary: rest)
  case Nil
  then show ?case by (simp add: foreach_down.simps)
next
  case (Cons x xs)
  from Cons.IH [of "x # rest"] show ?case
    by (subst foreach_down.simps) (simp add: rd_mid)
qed

lemma sstack_foreach_eq: "stack_rep st m xs \<Longrightarrow> stack_foreach st True = Some (0, xs)"
  using foreach_down_eq by (auto simp: stack_rep_def stack_foreach_def)

interpretation ss: bounded_stack stack_rep stack_push pop_to stack_isempty
  by unfold_locales
    (auto simp: sstack_push_ok sstack_push_full sstack_pop_ok sstack_pop_empty sstack_isempty_iff, auto simp: stack_rep_def)

section \<open>Properties\<close>

text \<open>
  Last in, first out: pushing any sequence that fits and popping as many values returns the
  sequence in the opposite order and gives the stack back as it was; a push on a full stack and a
  pop on an empty one report -1 and change nothing.
\<close>

theorem seqstack_lifo:
  assumes "stack_rep st m xs"
  shows "(int (length xs + length ys) \<le> m \<longrightarrow>
      (\<exists>st1 st2. push_all stack_push st ys = Some st1 \<and>
        pop_n pop_to st1 (length ys) d = Some (rev ys, st2) \<and> stack_rep st2 m xs)) \<and>
    (int (length xs) = m \<longrightarrow> stack_push st x = Some (- 1, st)) \<and>
    (xs = [] \<longrightarrow> pop_to st d = Some (- 1, d, st)) \<and>
    stack_foreach st True = Some (0, xs)"
  using ss.lifo [OF assms, of ys d] ss.push_full [OF assms, of x] ss.pop_empty [of st m d] assms
    sstack_foreach_eq [OF assms]
  by blast

theorem seqstack_lifo_witness:
  "\<exists>st1 st2. push_all stack_push (stack_init True True 3) [1, 2, 3] = Some st1 \<and>
    pop_n pop_to st1 3 0 = Some ([3, 2, 1], st2) \<and> stack_rep st2 3 []"
  using seqstack_lifo [of "stack_init True True 3" 3 "[]" "[1, 2, 3]" 0] stack_rep_init [of 3]
  by (simp add: numeral_3_eq_3)

end
