(* ===== verification/LinkStack.thy ===== *)
theory LinkStack
  imports CHeap StackSpec
begin

text \<open>
  The linked stack, \<open>algorithm/stack/linkstack/linkstack.c\<close>: a header object with a sentinel
  node, on the C heap. \<open>stack_init\<close> ends without a \<open>return\<close>: its result is modelled as
  "no value" (\<open>None\<close>) there, which a caller cannot use, so the other operations are verified
  on the stack object it builds.
\<close>

record stack_hdr =
  k_top :: ptr
  k_len :: int
  k_max :: int

type_synonym kheap = "stack_hdr obj heap"

definition node_free :: "kheap \<Rightarrow> ptr \<Rightarrow> (int \<times> kheap) option" where
  "node_free h node =
     (if node = None then Some (- 1, h) else do { h' \<leftarrow> free h node; Some (0, h') })"

definition stack_init :: "kheap \<Rightarrow> int \<Rightarrow> (ptr option \<times> kheap) option" where
  "stack_init h mx =
     (let (st, h1) = malloc h (OHdr \<lparr>k_top = None, k_len = 0, k_max = mx\<rparr>)
      in if st = None then Some (Some None, h1)
         else let (nd, h2) = node_alloc h1 0
              in do {
                s \<leftarrow> load_hdr h2 st;
                h3 \<leftarrow> store_hdr h2 st (s\<lparr>k_top := nd\<rparr>);
                if nd = None then do { h4 \<leftarrow> free h3 st; Some (Some None, h4) }
                else Some (None, h3) })"

definition stack_destory :: "kheap \<Rightarrow> ptr \<Rightarrow> (int \<times> kheap) option" where
  "stack_destory h st =
     (if st = None then Some (- 1, h)
      else do {
        s \<leftarrow> load_hdr h st;
        h1 \<leftarrow> destory_loop h (k_top s);
        h2 \<leftarrow> free h1 st;
        Some (0, h2) })"

definition stack_isempty :: "kheap \<Rightarrow> ptr \<Rightarrow> bool option" where
  "stack_isempty h st = do { s \<leftarrow> load_hdr h st; Some (k_len s = 0) }"

definition stack_isfull :: "kheap \<Rightarrow> ptr \<Rightarrow> bool option" where
  "stack_isfull h st = do { s \<leftarrow> load_hdr h st; Some (k_len s = k_max s) }"

definition stack_push :: "kheap \<Rightarrow> ptr \<Rightarrow> int \<Rightarrow> (int \<times> kheap) option" where
  "stack_push h st data =
     (if st = None then Some (- 1, h)
      else do {
        full \<leftarrow> stack_isfull h st;
        if full then Some (- 1, h)
        else
          let (new, h1) = node_alloc h data
          in if new = None then Some (- 1, h1)
             else do {
               s \<leftarrow> load_hdr h1 st;
               t \<leftarrow> load_node h1 (k_top s);
               n \<leftarrow> load_node h1 new;
               h2 \<leftarrow> store_node h1 new (n\<lparr>n_next := n_next t\<rparr>);
               t2 \<leftarrow> load_node h2 (k_top s);
               h3 \<leftarrow> store_node h2 (k_top s) (t2\<lparr>n_next := new\<rparr>);
               len \<leftarrow> c_int (k_len s + 1);
               h4 \<leftarrow> store_hdr h3 st (s\<lparr>k_len := len\<rparr>);
               Some (0, h4) } })"

definition stack_pop :: "kheap \<Rightarrow> ptr \<Rightarrow> int \<Rightarrow> (int \<times> int \<times> kheap) option" where
  "stack_pop h st data =
     (if st = None then Some (- 1, data, h)
      else do {
        emp \<leftarrow> stack_isempty h st;
        if emp then Some (- 1, data, h)
        else do {
          s \<leftarrow> load_hdr h st;
          t \<leftarrow> load_node h (k_top s);
          let tmp = n_next t;
          nx \<leftarrow> load_node h tmp;
          h1 \<leftarrow> store_node h (k_top s) (t\<lparr>n_next := n_next nx\<rparr>);
          len \<leftarrow> c_int (k_len s - 1);
          h2 \<leftarrow> store_hdr h1 st (s\<lparr>k_len := len\<rparr>);
          n \<leftarrow> load_node h2 tmp;
          h3 \<leftarrow> free h2 tmp;
          Some (0, n_data n, h3) } })"

definition stack_foreach :: "kheap \<Rightarrow> ptr \<Rightarrow> (int \<times> int list) option" where
  "stack_foreach h st =
     (if st = None then Some (- 1, [])
      else do {
        s \<leftarrow> load_hdr h st;
        t \<leftarrow> load_node h (k_top s);
        vs \<leftarrow> foreach_loop h (n_next t);
        Some (0, vs) })"

text \<open>
  The state a client passes around: the heap and the pointer. The demonstration program
  \<open>main.c\<close> runs the calls of the other \<open>main.c\<close>; it starts by using the value of \<open>stack_init\<close>.
\<close>

definition push_st :: "kheap \<times> ptr \<Rightarrow> int \<Rightarrow> (int \<times> (kheap \<times> ptr)) option" where
  "push_st st x = do { (r, h) \<leftarrow> stack_push (fst st) (snd st) x; Some (r, (h, snd st)) }"

definition pop_st :: "kheap \<times> ptr \<Rightarrow> int \<Rightarrow> (int \<times> int \<times> (kheap \<times> ptr)) option" where
  "pop_st st d = do { (r, v, h) \<leftarrow> stack_pop (fst st) (snd st) d; Some (r, v, (h, snd st)) }"

definition isempty_st :: "kheap \<times> ptr \<Rightarrow> bool option" where
  "isempty_st st = stack_isempty (fst st) (snd st)"

definition linkstack_main :: "kheap \<Rightarrow> int \<Rightarrow> (int list list \<times> kheap) option" where
  "linkstack_main h d = do {
     (ret, h) \<leftarrow> stack_init h 10;
     p \<leftarrow> ret;
     st \<leftarrow> push_all push_st (h, p) [0, 1, 2, 3, 4, 5, 6, 7, 8, 9];
     (_, out1) \<leftarrow> stack_foreach (fst st) p;
     (out2, st) \<leftarrow> pop_n pop_st st 5 d;
     (_, out3) \<leftarrow> stack_foreach (fst st) p;
     st \<leftarrow> push_all push_st st [55, 56, 57];
     (out4, st) \<leftarrow> pop_n pop_st st 5 d;
     (_, out5) \<leftarrow> stack_foreach (fst st) p;
     (_, h) \<leftarrow> stack_destory (fst st) p;
     Some ([out1, out2, out3, out4, out5], h) }"

section \<open>Abstraction to a list, top first\<close>

definition stack_at :: "kheap \<Rightarrow> nat \<Rightarrow> nat \<times> int \<Rightarrow> int \<Rightarrow> (nat \<times> int) list \<Rightarrow> bool" where
  "stack_at h la s m as \<longleftrightarrow> heap_ok h \<and>
     cells h la = Some (OHdr \<lparr>k_top = Some (fst s), k_len = int (length as), k_max = m\<rparr>) \<and>
     chain (cells h) (Some (fst s)) (s # as)"

lemma stack_at_hdr:
  "stack_at h la s m as \<Longrightarrow>
    load_hdr h (Some la) = Some \<lparr>k_top = Some (fst s), k_len = int (length as), k_max = m\<rparr>"
  by (simp add: stack_at_def)

lemma stack_at_sentinel:
  assumes "stack_at h la s m as"
  obtains q where "cells h (fst s) = Some (ONode \<lparr>n_data = snd s, n_next = q\<rparr>)"
    and "chain (cells h) q as"
  using assms by (auto simp: stack_at_def)

lemma stack_at_ne:
  assumes "stack_at h la s m as"
  shows "la \<notin> fst ` set (s # as)" "fst s \<notin> fst ` set as"
    "brk h \<notin> insert la (fst ` set (s # as))"
proof -
  have ch: "chain (cells h) (Some (fst s)) (s # as)" and ok: "heap_ok h"
    and hdr: "cells h la = Some (OHdr \<lparr>k_top = Some (fst s), k_len = int (length as), k_max = m\<rparr>)"
    using assms by (auto simp: stack_at_def)
  from ch hdr show "la \<notin> fst ` set (s # as)" by (rule chain_not_hdr)
  from chain_distinct [OF ch] show "fst s \<notin> fst ` set as" by auto
  have "cells h (brk h) = None" using ok by (simp add: heap_ok_def)
  with hdr chain_not_None [OF ch this] show "brk h \<notin> insert la (fst ` set (s # as))" by auto
qed

text \<open>
  \<open>stack_init\<close> builds the stack object when both allocations succeed, but returns no value.
\<close>

lemma kstack_stack_init_ok:
  assumes "heap_ok h" and "\<not> oom h (brk h)" and "\<not> oom h (Suc (brk h))"
  shows "\<exists>h'. stack_init h m = Some (None, h') \<and> oom h' = oom h \<and>
    stack_at h' (brk h) (Suc (brk h), 0) m []"
  using assms
  by (auto simp: stack_init_def node_alloc_def malloc_def Let_def stack_at_def heap_ok_def)

lemma kstack_push_ok:
  assumes "stack_at h la s m as" and "int (length as) < m" and "m \<le> INT_MAX"
    and "\<not> oom h (brk h)"
  shows "\<exists>h'. stack_push h (Some la) x = Some (0, h') \<and> stack_at h' la s m ((brk h, x) # as) \<and>
    oom h' = oom h"
proof -
  let ?a = "brk h"
  from assms(1) obtain q where q: "cells h (fst s) = Some (ONode \<lparr>n_data = snd s, n_next = q\<rparr>)"
    by (rule stack_at_sentinel)
  have hdr: "cells h la = Some (OHdr \<lparr>k_top = Some (fst s), k_len = int (length as), k_max = m\<rparr>)"
    and ch: "chain (cells h) (Some (fst s)) (s # as)" and ok: "heap_ok h"
    using assms(1) by (auto simp: stack_at_def)
  have a_s: "?a \<notin> fst ` set (s # as)"
    and ne: "la \<noteq> fst s" "?a \<noteq> la" "?a \<noteq> fst s" "la \<notin> fst ` set as" "fst s \<notin> fst ` set as"
    using stack_at_ne [OF assms(1)] by auto
  have below: "la < brk h" "fst s < brk h"
    using heap_okD [OF ok hdr] heap_okD [OF ok q] by auto
  let ?l = "OHdr \<lparr>k_top = Some (fst s), k_len = int (length as) + 1, k_max = m\<rparr>"
  let ?c = "(cells h)(?a \<mapsto> ONode \<lparr>n_data = x, n_next = q\<rparr>,
      fst s \<mapsto> ONode \<lparr>n_data = snd s, n_next = Some ?a\<rparr>)"
  let ?h' = "h\<lparr>cells := ?c(la \<mapsto> ?l), brk := Suc ?a\<rparr>"
  have "in_int (int (length as) + 1)" using assms(2,3) by (simp add: int_range)
  then have "stack_push h (Some la) x = Some (0, ?h')"
    using assms(2,4) ne q hdr
    by (simp add: stack_push_def stack_isfull_def node_alloc_def malloc_def Let_def)
  moreover have "chain (cells ?h') (Some (fst s)) (s # (?a, x) # as)"
    using chain_push [OF ch a_s q, of x] ne
    by (simp del: fun_upd_apply chain.simps)
  moreover have "heap_ok ?h'" using ok below by (simp add: heap_ok_def)
  ultimately show ?thesis by (auto simp: stack_at_def simp del: chain.simps)
qed

lemma kstack_push_full:
  "stack_at h la s m as \<Longrightarrow> int (length as) = m \<Longrightarrow> stack_push h (Some la) x = Some (- 1, h)"
  by (simp add: stack_push_def stack_isfull_def stack_at_hdr)

lemma kstack_pop_ok:
  assumes "stack_at h la s m ((b, x) # as)" and "int (length ((b, x) # as)) \<le> INT_MAX"
  shows "\<exists>h'. stack_pop h (Some la) d = Some (0, x, h') \<and> stack_at h' la s m as \<and> oom h' = oom h"
proof -
  have hdr: "cells h la = Some (OHdr \<lparr>k_top = Some (fst s), k_len = int (length as) + 1, k_max = m\<rparr>)"
    and ch: "chain (cells h) (Some (fst s)) ([] @ s # (b, x) # as)" and ok: "heap_ok h"
    using assms(1) by (auto simp: stack_at_def add.commute)
  from chain_unlink [OF ch] obtain q where
    qb: "cells h b = Some (ONode \<lparr>n_data = x, n_next = q\<rparr>)"
    and ch2: "chain ((cells h)(fst s \<mapsto> ONode \<lparr>n_data = snd s, n_next = q\<rparr>)) (Some (fst s)) (s # as)"
    by auto
  from chain_mid [OF ch] have qs: "cells h (fst s) = Some (ONode \<lparr>n_data = snd s, n_next = Some b\<rparr>)"
    by auto
  from chain_distinct [OF ch] have b: "b \<notin> fst ` set (s # as)" "b \<noteq> fst s" by auto
  have la: "la \<notin> fst ` set (s # as)" "la \<noteq> b" "la \<noteq> fst s"
    using chain_not_hdr [OF ch hdr] by auto
  let ?l = "OHdr \<lparr>k_top = Some (fst s), k_len = int (length as), k_max = m\<rparr>"
  let ?h' = "h\<lparr>cells := (cells h)(fst s \<mapsto> ONode \<lparr>n_data = snd s, n_next = q\<rparr>, la \<mapsto> ?l, b := None)\<rparr>"
  have "in_int (int (length as))" using assms(2) by (simp add: int_range)
  then have "stack_pop h (Some la) d = Some (0, x, ?h')"
    using hdr qb qs b(2) la by (simp add: stack_pop_def stack_isempty_def free_Some)
  moreover have "chain (cells ?h') (Some (fst s)) (s # as)"
    using ch2 b(1) la(1) by (simp del: fun_upd_apply chain.simps)
  moreover have "heap_ok ?h'" using ok qs hdr by (auto simp: heap_ok_def)
  ultimately show ?thesis using la by (auto simp: stack_at_def simp del: chain.simps)
qed

lemma kstack_pop_empty: "stack_at h la s m [] \<Longrightarrow> stack_pop h (Some la) d = Some (- 1, d, h)"
  by (simp add: stack_pop_def stack_isempty_def stack_at_hdr)

lemma kstack_foreach_eq:
  assumes "stack_at h la s m as"
  shows "stack_foreach h (Some la) = Some (0, map snd as)"
proof -
  from assms obtain q where "cells h (fst s) = Some (ONode \<lparr>n_data = snd s, n_next = q\<rparr>)"
    "chain (cells h) q as" by (rule stack_at_sentinel)
  then show ?thesis
    using stack_at_hdr [OF assms] foreach_loop_eq [of h q as] by (simp add: stack_foreach_def)
qed

lemma kstack_destory_ok:
  assumes "stack_at h la s m as"
  shows "\<exists>h'. stack_destory h (Some la) = Some (0, h') \<and>
    cells h' = (\<lambda>a. if a \<in> insert la (fst ` set (s # as)) then None else cells h a)"
proof -
  have ch: "chain (cells h) (Some (fst s)) (s # as)"
    and hdr: "cells h la = Some (OHdr \<lparr>k_top = Some (fst s), k_len = int (length as), k_max = m\<rparr>)"
    using assms by (auto simp: stack_at_def)
  from destory_loop_eq [OF ch] obtain h1 where h1: "destory_loop h (Some (fst s)) = Some h1"
    "cells h1 = (\<lambda>a. if a \<in> fst ` set (s # as) then None else cells h a)" by blast
  have "cells h1 la = cells h la" using h1(2) stack_at_ne(1) [OF assms] by simp
  with h1 hdr show ?thesis by (auto simp: stack_destory_def free_def fun_eq_iff)
qed

section \<open>The stack contract\<close>

definition kstack_rep :: "kheap \<times> ptr \<Rightarrow> int \<Rightarrow> int list \<Rightarrow> bool" where
  "kstack_rep st m xs \<longleftrightarrow> (\<exists>la s as. snd st = Some la \<and> stack_at (fst st) la s m as \<and>
     map snd as = xs \<and> (\<forall>k. \<not> oom (fst st) k) \<and> int (length as) \<le> m \<and> m \<le> INT_MAX)"

lemma kstack_repI:
  "stack_at h la s m as \<Longrightarrow> \<forall>k. \<not> oom h k \<Longrightarrow> int (length as) \<le> m \<Longrightarrow> m \<le> INT_MAX \<Longrightarrow>
    kstack_rep (h, Some la) m (map snd as)"
  unfolding kstack_rep_def by (intro exI [of _ la] exI [of _ s] exI [of _ as]) simp

lemma kstack_repE:
  assumes "kstack_rep st m xs"
  obtains h la s as where "st = (h, Some la)" "stack_at h la s m as" "xs = map snd as"
    "\<forall>k. \<not> oom h k" "int (length as) \<le> m" "m \<le> INT_MAX"
  using assms by (cases st) (auto simp: kstack_rep_def)

lemma push_st_ok:
  assumes "kstack_rep st m xs" and "int (length xs) < m"
  shows "\<exists>st'. push_st st x = Some (0, st') \<and> kstack_rep st' m (x # xs)"
proof -
  from assms(1) obtain h la s as where st: "st = (h, Some la)" "stack_at h la s m as"
    "xs = map snd as" "\<forall>k. \<not> oom h k" "int (length as) \<le> m" "m \<le> INT_MAX" by (rule kstack_repE)
  from kstack_push_ok [OF st(2), of x] st assms(2) obtain h' where
    "stack_push h (Some la) x = Some (0, h')" "stack_at h' la s m ((brk h, x) # as)" "oom h' = oom h"
    by auto
  with st assms(2) kstack_repI [of h' la s m "(brk h, x) # as"] show ?thesis
    by (auto simp: push_st_def)
qed

lemma pop_st_ok:
  assumes "kstack_rep st m (x # xs)"
  shows "\<exists>st'. pop_st st d = Some (0, x, st') \<and> kstack_rep st' m xs"
proof -
  from assms(1) obtain h la s as where st: "st = (h, Some la)" "stack_at h la s m as"
    "x # xs = map snd as" "\<forall>k. \<not> oom h k" "int (length as) \<le> m" "m \<le> INT_MAX" by (rule kstack_repE)
  then obtain b bs where as: "as = (b, x) # bs" "xs = map snd bs" by (cases as) auto
  from kstack_pop_ok [of h la s m b x bs d] st as obtain h' where
    "stack_pop h (Some la) d = Some (0, x, h')" "stack_at h' la s m bs" "oom h' = oom h" by auto
  with st as kstack_repI [of h' la s m bs] show ?thesis by (auto simp: pop_st_def)
qed

interpretation ks: bounded_stack kstack_rep push_st pop_st isempty_st
proof (unfold_locales, goal_cases)
  case (1 st m xs)
  then show ?case by (auto elim!: kstack_repE)
next
  case (2 st m xs x)
  then show ?case by (rule push_st_ok)
next
  case (3 st m xs x)
  then show ?case by (auto elim!: kstack_repE simp: push_st_def kstack_push_full)
next
  case (4 st m x xs d)
  then show ?case by (rule pop_st_ok)
next
  case (5 st m d)
  then show ?case by (auto elim!: kstack_repE simp: pop_st_def kstack_pop_empty)
next
  case (6 st m xs)
  then show ?case by (auto elim!: kstack_repE simp: isempty_st_def stack_isempty_def stack_at_hdr)
qed

section \<open>Properties\<close>

text \<open>
  The linked stack keeps the same contract on its heap objects: last in first out within the
  capacity, -1 on a push when full and on a pop when empty.
\<close>

theorem linkstack_lifo:
  assumes "kstack_rep st m xs"
  shows "(int (length xs + length ys) \<le> m \<longrightarrow>
      (\<exists>st1 st2. push_all push_st st ys = Some st1 \<and>
        pop_n pop_st st1 (length ys) d = Some (rev ys, st2) \<and> kstack_rep st2 m xs)) \<and>
    (int (length xs) = m \<longrightarrow> push_st st x = Some (- 1, st)) \<and>
    (xs = [] \<longrightarrow> pop_st st d = Some (- 1, d, st))"
  using ks.lifo [OF assms, of ys d] ks.push_full [OF assms, of x] ks.pop_empty [of st m d] assms
  by blast

text \<open>An empty stack of three places: what \<open>stack_init\<close> builds on the empty heap.\<close>

definition demo_stack :: "kheap \<times> ptr" where
  "demo_stack = (\<lparr>cells = [0 \<mapsto> OHdr \<lparr>k_top = Some 1, k_len = 0, k_max = 3\<rparr>,
      1 \<mapsto> ONode \<lparr>n_data = 0, n_next = None\<rparr>], brk = 2, oom = (\<lambda>_. False)\<rparr>, Some 0)"

lemma demo_stack_rep: "kstack_rep demo_stack 3 []"
  using kstack_repI [of "fst demo_stack" 0 "(1, 0)" 3 "[]"]
  by (simp add: demo_stack_def stack_at_def heap_ok_def INT_MAX_def)

theorem linkstack_lifo_witness:
  "\<exists>st1 st2. push_all push_st demo_stack [1, 2, 3] = Some st1 \<and>
    pop_n pop_st st1 3 0 = Some ([3, 2, 1], st2) \<and> kstack_rep st2 3 []"
  using linkstack_lifo [OF demo_stack_rep, of "[1, 2, 3]" 0]
  by (simp add: numeral_3_eq_3 del: split_paired_Ex)

text \<open>
  \<open>stack_init\<close> builds a sound empty stack but has no \<open>return\<close> on that path, so the caller's
  use of its value is undefined: the demonstration program has no defined behaviour as soon as
  the two allocations succeed.
\<close>

theorem linkstack_init_no_value:
  assumes "heap_ok h" and "\<not> oom h (brk h)" and "\<not> oom h (Suc (brk h))"
  shows "(\<exists>h'. stack_init h m = Some (None, h') \<and> stack_at h' (brk h) (Suc (brk h), 0) m []) \<and>
    linkstack_main h d = None"
proof -
  from kstack_stack_init_ok [OF assms, of m] kstack_stack_init_ok [OF assms, of 10] show ?thesis
    by (auto simp: linkstack_main_def)
qed

theorem linkstack_init_no_value_witness: "linkstack_main (empty_heap (\<lambda>_. False)) 0 = None"
  using linkstack_init_no_value [of "empty_heap (\<lambda>_. False)"]
  by (simp add: empty_heap_def heap_ok_def)

end
