(* ===== verification/HeapTypes.thy ===== *)
theory HeapTypes
  imports SingleLinkList LinkStack
begin

text \<open>
  The typing of the heap that the linked list and the linked stack share. Their functions are
  called here with any pointer whatever (null, dangling, of the wrong kind, into the middle of
  another list), not only on well formed lists: as long as a call has a defined result, every
  object that stays live keeps its kind, freed memory stays dead, and the allocator's invariant
  is kept. So a pointer that has become stale never works again, whatever is called in between: this rests on the heap of \<open>CHeap\<close>,
  which never hands out an address twice, and says nothing about memory that an allocator uses again.
\<close>

section \<open>The typing relation\<close>

primrec is_node :: "'h obj \<Rightarrow> bool" where
  "is_node (ONode n) = True"
| "is_node (OHdr l) = False"

definition types_kept :: "'h obj heap \<Rightarrow> 'h obj heap \<Rightarrow> bool" where
  "types_kept h h' \<longleftrightarrow> brk h \<le> brk h' \<and> oom h' = oom h \<and> (heap_ok h \<longrightarrow> heap_ok h') \<and>
     (\<forall>a < brk h. \<forall>ob'. cells h' a = Some ob' \<longrightarrow>
        (\<exists>ob. cells h a = Some ob \<and> is_node ob' = is_node ob))"

named_theorems keeps \<open>steps after which every live object still has its type\<close>

lemma types_kept_refl [keeps]: "types_kept h h"
  by (simp add: types_kept_def)

lemma types_kept_trans [trans]:
  assumes "types_kept h h1" and "types_kept h1 h2"
  shows "types_kept h h2"
  unfolding types_kept_def
proof (intro conjI allI impI)
  fix a ob' assume "a < brk h" and "cells h2 a = Some ob'"
  with assms obtain ob1 where "cells h1 a = Some ob1" "is_node ob' = is_node ob1"
    unfolding types_kept_def by (metis less_le_trans)
  with \<open>a < brk h\<close> assms(1) show "\<exists>ob. cells h a = Some ob \<and> is_node ob' = is_node ob"
    unfolding types_kept_def by metis
qed (use assms in \<open>auto simp: types_kept_def\<close>)

lemma types_kept_upd:
  "cells h a = Some ob \<Longrightarrow> is_node ob' = is_node ob \<Longrightarrow>
    types_kept h (h\<lparr>cells := (cells h)(a \<mapsto> ob')\<rparr>)"
  by (auto simp: types_kept_def heap_ok_def)

lemma types_kept_free [keeps]: "free h p = Some h' \<Longrightarrow> types_kept h h'"
  by (auto simp: free_def types_kept_def heap_ok_def split: option.splits if_splits)

lemma types_kept_malloc [keeps]: "malloc h ob = (p, h') \<Longrightarrow> types_kept h h'"
  by (auto simp: malloc_def types_kept_def heap_ok_def split: if_splits)

lemma load_node_eq_Some: "load_node h p = Some n \<longleftrightarrow> (\<exists>a. p = Some a \<and> cells h a = Some (ONode n))"
  by (cases p) (auto simp: load_node_def split: Option.bind_splits obj.splits)

lemma load_hdr_eq_Some: "load_hdr h p = Some l \<longleftrightarrow> (\<exists>a. p = Some a \<and> cells h a = Some (OHdr l))"
  by (cases p) (auto simp: load_hdr_def split: Option.bind_splits obj.splits)

lemma types_kept_node_upd:
  "cells h a = Some (ONode m) \<Longrightarrow> types_kept h (h\<lparr>cells := (cells h)(a \<mapsto> ONode n)\<rparr>)"
  by (rule types_kept_upd, assumption, simp)

lemma types_kept_hdr_upd:
  "cells h a = Some (OHdr m) \<Longrightarrow> types_kept h (h\<lparr>cells := (cells h)(a \<mapsto> OHdr l)\<rparr>)"
  by (rule types_kept_upd, assumption, simp)

lemma types_kept_store_node [keeps]: "store_node h p n = Some h' \<Longrightarrow> types_kept h h'"
  by (auto simp: store_node_def bind_eq_Some_conv load_node_eq_Some store_Some
      simp del: fun_upd_apply intro: types_kept_node_upd)

lemma types_kept_store_hdr [keeps]: "store_hdr h p l = Some h' \<Longrightarrow> types_kept h h'"
  by (auto simp: store_hdr_def bind_eq_Some_conv load_hdr_eq_Some store_Some
      simp del: fun_upd_apply intro: types_kept_hdr_upd)

lemma types_kept_node_alloc [keeps]: "node_alloc h x = (p, h') \<Longrightarrow> types_kept h h'"
  unfolding node_alloc_def by (rule keeps)

lemma types_kept_node_free [keeps]: "CHeap.node_free h p = Some h' \<Longrightarrow> types_kept h h'"
  by (auto simp: CHeap.node_free_def split: if_splits intro: keeps)

lemma types_kept_destory_loop [keeps]:
  assumes "destory_loop h p = Some h'"
  shows "types_kept h h'"
proof (rule destory_loop.raw_induct [OF _ assms], goal_cases)
  case (1 loop h p h')
  then show ?case
    by (auto simp: bind_eq_Some_conv split: if_splits
        intro: keeps types_kept_trans [OF types_kept_node_free])
qed

lemma types_kept_reverse_loop [keeps]:
  assumes "reverse_loop h p q = Some h'"
  shows "types_kept h h'"
proof (rule reverse_loop.raw_induct [OF _ assms], goal_cases)
  case (1 loop h p q h')
  then show ?case
    by (auto simp: bind_eq_Some_conv split: if_splits
        intro: keeps types_kept_trans [OF types_kept_store_node types_kept_trans [OF types_kept_store_node]])
qed

text \<open>A pointer to memory that has been handed out and given back.\<close>

definition stale :: "'h obj heap \<Rightarrow> nat \<Rightarrow> bool" where
  "stale h a \<longleftrightarrow> a < brk h \<and> cells h a = None"

lemma stale_kept: "types_kept h h' \<Longrightarrow> stale h a \<Longrightarrow> stale h' a"
  unfolding stale_def types_kept_def by (metis not_Some_eq option.distinct(1) order_less_le_trans)

lemma stale_undefined [simp]:
  "stale h a \<Longrightarrow> load_hdr h (Some a) = None"
  "stale h a \<Longrightarrow> load_node h (Some a) = None"
  "stale h a \<Longrightarrow> free h (Some a) = None"
  by (simp_all add: stale_def load_hdr_def load_node_def free_def)

section \<open>The calls of the two components\<close>

datatype list_request = LInit int | LInsert ptr int | LDelete ptr int | LModify ptr int int
  | LReverse ptr | LDestory ptr

fun list_call :: "list_request \<Rightarrow> lheap \<Rightarrow> lheap option" where
  "list_call (LInit m) h = map_option snd (list_init h m)"
| "list_call (LInsert p x) h = map_option snd (list_insert h p x)"
| "list_call (LDelete p x) h = map_option snd (list_delete h p x)"
| "list_call (LModify p x y) h = map_option snd (list_modify h p x y)"
| "list_call (LReverse p) h = map_option snd (list_reverse h p)"
| "list_call (LDestory p) h = map_option snd (list_destory h p)"

datatype stack_request = KInit int | KPush ptr int | KPop ptr int | KDestory ptr

fun stack_call :: "stack_request \<Rightarrow> kheap \<Rightarrow> kheap option" where
  "stack_call (KInit m) h = map_option snd (stack_init h m)"
| "stack_call (KPush p x) h = map_option snd (stack_push h p x)"
| "stack_call (KPop p d) h = map_option (snd \<circ> snd) (stack_pop h p d)"
| "stack_call (KDestory p) h = map_option snd (stack_destory h p)"

fun calls :: "('c \<Rightarrow> 's \<Rightarrow> 's option) \<Rightarrow> 'c list \<Rightarrow> 's \<Rightarrow> 's option" where
  "calls f [] s = Some s"
| "calls f (c # cs) s = do { s' \<leftarrow> f c s; calls f cs s' }"

lemma calls_append: "calls f (cs @ ds) s = do { s' \<leftarrow> calls f cs s; calls f ds s' }"
  by (induction cs arbitrary: s) (auto split: bind_splits)

text \<open>One call keeps the types: the composition of the steps of its body.\<close>

lemmas kept_steps = types_kept_malloc types_kept_node_alloc types_kept_store_hdr
  types_kept_store_node types_kept_node_free types_kept_free types_kept_destory_loop
  types_kept_reverse_loop

lemmas call_cases = bind_eq_Some_conv Let_def

lemma list_init_kept: "list_init h m = Some (p, h') \<Longrightarrow> types_kept h h'"
  by (auto simp: list_init_def call_cases split: if_splits prod.splits dest!: kept_steps)
    (meson types_kept_trans types_kept_refl)+

lemma list_insert_kept: "list_insert h p x = Some (r, h') \<Longrightarrow> types_kept h h'"
  by (auto simp: list_insert_def call_cases split: if_splits prod.splits dest!: kept_steps)
    (meson types_kept_trans types_kept_refl)+

lemma list_delete_kept: "list_delete h p x = Some (r, h') \<Longrightarrow> types_kept h h'"
  by (auto simp: list_delete_def call_cases split: if_splits prod.splits dest!: kept_steps
      intro: types_kept_refl) (meson types_kept_trans types_kept_refl)+

lemma list_modify_kept: "list_modify h p x y = Some (r, h') \<Longrightarrow> types_kept h h'"
  by (auto simp: list_modify_def call_cases split: if_splits prod.splits intro: keeps)

lemma list_reverse_kept: "list_reverse h p = Some (r, h') \<Longrightarrow> types_kept h h'"
  by (auto simp: list_reverse_def call_cases split: if_splits prod.splits dest!: kept_steps
      intro: types_kept_refl) (meson types_kept_trans types_kept_refl)+

lemma list_destory_kept: "list_destory h p = Some (r, h') \<Longrightarrow> types_kept h h'"
  by (auto simp: list_destory_def call_cases split: if_splits prod.splits dest!: kept_steps
      intro: types_kept_refl) (meson types_kept_trans types_kept_refl)+

lemma stack_init_kept: "stack_init h m = Some (p, h') \<Longrightarrow> types_kept h h'"
  by (auto simp: stack_init_def call_cases split: if_splits prod.splits dest!: kept_steps)
    (meson types_kept_trans types_kept_refl)+

lemma stack_push_kept: "stack_push h p x = Some (r, h') \<Longrightarrow> types_kept h h'"
  by (auto simp: stack_push_def call_cases split: if_splits prod.splits dest!: kept_steps
      intro: types_kept_refl) (meson types_kept_trans types_kept_refl)+

lemma stack_pop_kept: "stack_pop h p d = Some (r, v, h') \<Longrightarrow> types_kept h h'"
  by (auto simp: stack_pop_def call_cases split: if_splits prod.splits dest!: kept_steps
      intro: types_kept_refl) (meson types_kept_trans types_kept_refl)+

lemma stack_destory_kept: "stack_destory h p = Some (r, h') \<Longrightarrow> types_kept h h'"
  by (auto simp: stack_destory_def call_cases split: if_splits prod.splits dest!: kept_steps
      intro: types_kept_refl) (meson types_kept_trans types_kept_refl)+

section \<open>Sequences of calls\<close>

text \<open>
  What holds for every provider whose calls keep the types, for any sequence of them: the
  sequence keeps the types, and a pointer that is stale before it is stale after it.
\<close>

locale typed_calls =
  fixes call :: "'c \<Rightarrow> 'h obj heap \<Rightarrow> 'h obj heap option"
  assumes call_kept: "call c h = Some h' \<Longrightarrow> types_kept h h'"
begin

lemma calls_kept: "calls call cs h = Some h' \<Longrightarrow> types_kept h h'"
proof (induction cs arbitrary: h)
  case Nil
  then show ?case by (simp add: types_kept_refl)
next
  case (Cons c cs)
  then obtain h1 where "call c h = Some h1" "calls call cs h1 = Some h'"
    by (auto simp: bind_eq_Some_conv)
  from call_kept [OF this(1)] Cons.IH [OF this(2)] show ?case by (rule types_kept_trans)
qed

lemma calls_stale: "calls call cs h = Some h' \<Longrightarrow> stale h a \<Longrightarrow> stale h' a"
  by (rule stale_kept [OF calls_kept])

lemma calls_heap_ok: "calls call cs h = Some h' \<Longrightarrow> heap_ok h \<Longrightarrow> heap_ok h'"
  using calls_kept [of cs h h'] by (simp add: types_kept_def)

end

interpretation lc: typed_calls list_call
proof
  fix c h h' assume "list_call c h = Some h'"
  then show "types_kept h h'"
    by (cases c) (auto dest: list_init_kept list_insert_kept list_delete_kept list_modify_kept
      list_reverse_kept list_destory_kept)
qed

interpretation kc: typed_calls stack_call
proof
  fix c h h' assume "stack_call c h = Some h'"
  then show "types_kept h h'"
    by (cases c) (auto dest: stack_init_kept stack_push_kept stack_pop_kept stack_destory_kept)
qed

section \<open>Pointers to a destroyed list or stack\<close>

text \<open>
  Every function that is handed a stale header has no defined result; the insertion looks at
  the header only when its own allocation succeeds.
\<close>

lemma stale_list_undefined:
  assumes "stale h a"
  shows "list_delete h (Some a) x = None" "list_modify h (Some a) x y = None"
    "list_search h (Some a) x = None" "list_reverse h (Some a) = None"
    "list_foreach h (Some a) = None" "list_foreach_reversingly h (Some a) = None"
    "list_destory h (Some a) = None" "\<not> oom h (brk h) \<Longrightarrow> list_insert h (Some a) x = None"
  using assms stale_kept [OF types_kept_node_alloc, of h x "fst (node_alloc h x)" "snd (node_alloc h x)" a]
  by (simp_all add: list_delete_def list_modify_def list_search_def list_reverse_def
      list_foreach_def list_foreach_reversingly_def list_destory_def list_insert_def
      node_alloc_def malloc_def Let_def)

lemma stale_stack_undefined:
  assumes "stale h a"
  shows "stack_push h (Some a) x = None" "stack_pop h (Some a) d = None"
    "stack_foreach h (Some a) = None" "stack_isempty h (Some a) = None"
    "stack_isfull h (Some a) = None" "stack_destory h (Some a) = None"
  using assms by (simp_all add: stack_push_def stack_pop_def stack_foreach_def
      stack_isempty_def stack_isfull_def stack_destory_def)

lemma destoryed_stale:
  assumes "list_at h la s m as"
  shows "\<exists>h1. list_destory h (Some la) = Some (0, h1) \<and> heap_ok h1 \<and>
    (\<forall>a \<in> footprint la s as. stale h1 a)"
proof -
  from link_destory_ok [OF assms] obtain h1 where h1: "list_destory h (Some la) = Some (0, h1)"
    "cells h1 = (\<lambda>a. if a \<in> footprint la s as then None else cells h a)" by blast
  have kept: "types_kept h h1" using h1(1) by (rule list_destory_kept)
  then have "heap_ok h1" "brk h \<le> brk h1"
    using assms by (simp_all add: types_kept_def list_at_def)
  moreover have "stale h1 a" if "a \<in> footprint la s as" for a
    using that h1(2) list_at_below [OF assms that] \<open>brk h \<le> brk h1\<close> by (simp add: stale_def)
  ultimately show ?thesis using h1(1) by blast
qed

section \<open>Properties\<close>

text \<open>
  The typing of the heap. Destroying a list of any length returns 0; after it, whatever
  functions of the component are called with whatever pointers (null, of the wrong kind, into
  the middle of another list), as long as each call has a defined result: the allocator's
  invariant holds, each object that was live then is free or still of its kind (node or header),
  and no function called with the old pointer ever has a defined result again.
\<close>

theorem destroyed_list_stays_dead:
  assumes "list_at h la s m as"
  shows "\<exists>h1. list_destory h (Some la) = Some (0, h1) \<and>
    (\<forall>cs h2. calls list_call cs h1 = Some h2 \<longrightarrow>
      heap_ok h2 \<and>
      (\<forall>a ob. a < brk h1 \<longrightarrow> cells h2 a = Some ob \<longrightarrow>
        (\<exists>ob1. cells h1 a = Some ob1 \<and> is_node ob = is_node ob1)) \<and>
      list_destory h2 (Some la) = None \<and> list_delete h2 (Some la) x = None \<and>
      list_modify h2 (Some la) x y = None \<and> list_search h2 (Some la) x = None \<and>
      list_reverse h2 (Some la) = None \<and> list_foreach h2 (Some la) = None \<and>
      list_foreach_reversingly h2 (Some la) = None \<and>
      (\<not> oom h2 (brk h2) \<longrightarrow> list_insert h2 (Some la) x = None))"
proof -
  from destoryed_stale [OF assms] obtain h1 where h1: "list_destory h (Some la) = Some (0, h1)"
    "heap_ok h1" "stale h1 la" by (auto simp: footprint_def)
  have "heap_ok h2 \<and> stale h2 la \<and> types_kept h1 h2" if "calls list_call cs h1 = Some h2" for cs h2
    using that h1 lc.calls_heap_ok lc.calls_stale lc.calls_kept by blast
  with h1(1) show ?thesis
    by (intro exI [of _ h1]) (simp add: stale_list_undefined types_kept_def)
qed

text \<open>
  The list of three elements is destroyed; a new list is made and filled, and a call without a
  list allocates a node.
\<close>

lemma destory_loop_None: "destory_loop h None = Some h"
  by (simp add: destory_loop.simps)

lemma destory_loop_node:
  "cells h a = Some (ONode n) \<Longrightarrow>
    destory_loop h (Some a) = destory_loop (h\<lparr>cells := (cells h)(a := None)\<rparr>) (n_next n)"
  by (subst destory_loop.simps) (simp add: CHeap.node_free_def free_Some)

theorem destroyed_list_stays_dead_witness:
  "\<exists>h1 h2. list_destory demo_heap (Some 0) = Some (0, h1) \<and>
    calls list_call [LInit 2, LInsert (Some 5) 7, LInsert None 1] h1 = Some h2 \<and>
    cells h2 7 = Some (ONode \<lparr>n_data = 7, n_next = None\<rparr>) \<and> list_search h2 (Some 0) 7 = None"
proof -
  from destroyed_list_stays_dead [OF demo_list_at, of 7 0] obtain h1 where
    h1: "list_destory demo_heap (Some 0) = Some (0, h1)" and
    dead: "\<And>cs h2. calls list_call cs h1 = Some h2 \<Longrightarrow> list_search h2 (Some 0) 7 = None" by blast
  from h1 have "h1 = demo_heap\<lparr>cells := (\<lambda>_. None)\<rparr>"
    by (simp add: list_destory_def demo_heap_def destory_loop_None destory_loop_node free_Some
        fun_eq_iff)
  then obtain h2 where "calls list_call [LInit 2, LInsert (Some 5) 7, LInsert None 1] h1 = Some h2"
    "cells h2 7 = Some (ONode \<lparr>n_data = 7, n_next = None\<rparr>)"
    by (simp add: demo_heap_def list_init_def list_insert_def node_alloc_def malloc_def Let_def
        in_int_def INT_MAX_def INT_MIN_def)
  with h1 dead show ?thesis by blast
qed

text \<open>The linked stack: a pointer that is stale stays so, and no function takes it.\<close>

theorem stale_stack_stays_dead:
  assumes "calls stack_call cs h = Some h2" and "heap_ok h" and "stale h a"
  shows "heap_ok h2" "stack_push h2 (Some a) x = None" "stack_pop h2 (Some a) d = None"
    "stack_destory h2 (Some a) = None"
  using kc.calls_heap_ok [OF assms(1,2)] stale_stack_undefined [OF kc.calls_stale [OF assms(1,3)]]
  by simp_all

end
