(* ===== verification/Sort.thy ===== *)
theory Sort
  imports Prelude
begin

text \<open>
  The three sorting routines of \<open>algorithm/sort/sort.c\<close> and their demonstration program. An
  array is the list of its elements, every access is checked. Each routine is proved to sort the
  first \<open>n\<close> elements and to leave the rest of the array alone; for \<open>quick_sort\<close>, whose loops
  are modelled as partial functions, this includes that it terminates.
\<close>

section \<open>The routines\<close>

definition swap :: "int list \<Rightarrow> int \<Rightarrow> int \<Rightarrow> int list option" where
  "swap arr i j = do {
     tmp \<leftarrow> rd arr i;
     y \<leftarrow> rd arr j;
     arr \<leftarrow> wr arr i y;
     wr arr j tmp }"

text \<open>The inner loop of \<open>bubble_sort\<close> up to \<open>lim = n - i - 1\<close>, with its flag.\<close>

function bubble_pass :: "int list \<Rightarrow> int \<Rightarrow> int \<Rightarrow> bool \<Rightarrow> (int list \<times> bool) option" where
  "bubble_pass arr j lim flag =
     (if j < lim then do {
        a \<leftarrow> rd arr j;
        b \<leftarrow> rd arr (j + 1);
        if a > b then do {
          arr' \<leftarrow> swap arr j (j + 1);
          bubble_pass arr' (j + 1) lim True }
        else bubble_pass arr (j + 1) lim flag }
      else Some (arr, flag))"
  by pat_completeness auto
termination
  by (relation "measure (\<lambda>(arr, j, lim, flag). nat (lim - j))") auto

function bubble_from :: "int list \<Rightarrow> int \<Rightarrow> int \<Rightarrow> int list option" where
  "bubble_from arr n i =
     (if i < n then do {
        (arr', flag) \<leftarrow> bubble_pass arr 0 (n - i - 1) False;
        if \<not> flag then Some arr' else bubble_from arr' n (i + 1) }
      else Some arr)"
  by pat_completeness auto
termination
  by (relation "measure (\<lambda>(arr, n, i). nat (n - i))") auto

definition bubble_sort :: "int list \<Rightarrow> int \<Rightarrow> int list option" where
  "bubble_sort arr n = (if n < 1 then Some arr else bubble_from arr n 0)"

text \<open>\<open>insert_sort\<close>: the inner loop returns the array and the index where \<open>temp\<close> goes.\<close>

function insert_shift :: "int list \<Rightarrow> int \<Rightarrow> int \<Rightarrow> (int list \<times> int) option" where
  "insert_shift arr j temp =
     (if j > 0 then do {
        y \<leftarrow> rd arr (j - 1);
        if temp < y then do {
          arr' \<leftarrow> wr arr j y;
          insert_shift arr' (j - 1) temp }
        else Some (arr, j) }
      else Some (arr, j))"
  by pat_completeness auto
termination
  by (relation "measure (\<lambda>(arr, j, temp). nat j)") auto

function insert_from :: "int list \<Rightarrow> int \<Rightarrow> int \<Rightarrow> int list option" where
  "insert_from arr n i =
     (if i < n then do {
        temp \<leftarrow> rd arr i;
        (arr', j) \<leftarrow> insert_shift arr i temp;
        arr'' \<leftarrow> wr arr' j temp;
        insert_from arr'' n (i + 1) }
      else Some arr)"
  by pat_completeness auto
termination
  by (relation "measure (\<lambda>(arr, n, i). nat (n - i))") auto

definition insert_sort :: "int list \<Rightarrow> int \<Rightarrow> int list option" where
  "insert_sort arr n = insert_from arr n 1"

text \<open>\<open>partition\<close>: the two scans, the loop that alternates them, and the function.\<close>

function scan_high :: "int list \<Rightarrow> int \<Rightarrow> int \<Rightarrow> int \<Rightarrow> int option" where
  "scan_high arr low high pivotkey =
     (if low < high then do {
        x \<leftarrow> rd arr high;
        if x \<ge> pivotkey then scan_high arr low (high - 1) pivotkey else Some high }
      else Some high)"
  by pat_completeness auto
termination
  by (relation "measure (\<lambda>(arr, low, high, pk). nat (high - low))") auto

function scan_low :: "int list \<Rightarrow> int \<Rightarrow> int \<Rightarrow> int \<Rightarrow> int option" where
  "scan_low arr low high pivotkey =
     (if low < high then do {
        x \<leftarrow> rd arr low;
        if x \<le> pivotkey then scan_low arr (low + 1) high pivotkey else Some low }
      else Some low)"
  by pat_completeness auto
termination
  by (relation "measure (\<lambda>(arr, low, high, pk). nat (high - low))") auto

declare bubble_pass.simps [simp del] bubble_from.simps [simp del] insert_shift.simps [simp del]
  insert_from.simps [simp del] scan_high.simps [simp del] scan_low.simps [simp del]

partial_function (option) part_loop ::
    "int list \<Rightarrow> int \<Rightarrow> int \<Rightarrow> int \<Rightarrow> (int list \<times> int) option" where
  "part_loop arr low high pivotkey =
     (if low < high then do {
        high \<leftarrow> scan_high arr low high pivotkey;
        (arr, low) \<leftarrow>
          (if low < high then do { x \<leftarrow> rd arr high; arr \<leftarrow> wr arr low x; Some (arr, low + 1) }
           else Some (arr, low));
        low \<leftarrow> scan_low arr low high pivotkey;
        (arr, high) \<leftarrow>
          (if low < high then do { x \<leftarrow> rd arr low; arr \<leftarrow> wr arr high x; Some (arr, high - 1) }
           else Some (arr, high));
        part_loop arr low high pivotkey }
      else Some (arr, low))"

text \<open>The array pointer may be null (\<open>None\<close>), which \<open>partition\<close> answers with -1.\<close>

definition partition :: "int list option \<Rightarrow> int \<Rightarrow> int \<Rightarrow> (int \<times> int list option) option" where
  "partition arrp low high = (case arrp of
     None \<Rightarrow> Some (- 1, None)
   | Some arr \<Rightarrow>
       if low \<ge> high then Some (- 1, Some arr)
       else do {
         pivotkey \<leftarrow> rd arr low;
         (arr, low) \<leftarrow> part_loop arr low high pivotkey;
         arr \<leftarrow> wr arr low pivotkey;
         Some (low, Some arr) })"

partial_function (option) qsort :: "int list option \<Rightarrow> int \<Rightarrow> int \<Rightarrow> int list option option" where
  "qsort arrp low high =
     (if low \<ge> high then Some arrp
      else do {
        (pivot, arrp) \<leftarrow> partition arrp low high;
        arrp \<leftarrow> qsort arrp low (pivot - 1);
        qsort arrp (pivot + 1) high })"

definition quick_sort :: "int list option \<Rightarrow> int \<Rightarrow> int list option option" where
  "quick_sort arrp n = qsort arrp 0 (n - 1)"

declare part_loop.simps [code] qsort.simps [code]

text \<open>\<open>main.c\<close>: \<open>print_arr\<close> prints the first \<open>n\<close> elements.\<close>

function print_from :: "int list \<Rightarrow> int \<Rightarrow> int \<Rightarrow> int list option" where
  "print_from arr n i =
     (if i < n then do { x \<leftarrow> rd arr i; xs \<leftarrow> print_from arr n (i + 1); Some (x # xs) }
      else Some [])"
  by pat_completeness auto
termination
  by (relation "measure (\<lambda>(arr, n, i). nat (n - i))") auto

declare print_from.simps [simp del]

definition print_arr :: "int list \<Rightarrow> int \<Rightarrow> int list option" where
  "print_arr arr n = print_from arr n 0"

definition sort_main :: "(int list \<times> int list) option" where
  "sort_main = do {
     let arr = [1, 3, 5, 3, 5, 1, 2, 9, 3];
     out1 \<leftarrow> print_arr arr 9;
     arrp \<leftarrow> quick_sort (Some arr) 9;
     arr \<leftarrow> arrp;
     out2 \<leftarrow> print_arr arr 9;
     Some (out1, out2) }"

lemma sort_main_output: "sort_main = Some ([1, 3, 5, 3, 5, 1, 2, 9, 3], [1, 1, 2, 3, 3, 3, 5, 5, 9])"
  by code_simp

section \<open>Bubble sort\<close>

text \<open>What one pass does to \<open>a # vs\<close>, and whether it exchanged anything.\<close>

fun bub :: "int \<Rightarrow> int list \<Rightarrow> int list" where
  "bub a [] = [a]"
| "bub a (b # bs) = (if a > b then b # bub a bs else a # bub b bs)"

fun bub_moves :: "int \<Rightarrow> int list \<Rightarrow> bool" where
  "bub_moves a [] = False"
| "bub_moves a (b # bs) = (if a > b then True else bub_moves b bs)"

lemma swap_mid:
  "j = int (length us) \<Longrightarrow> swap (us @ a # b # vs) j (j + 1) = Some (us @ b # a # vs)"
  using rd_mid [of "j + 1" "us @ [a]" b vs] wr_mid [of "j + 1" "us @ [b]" b vs a]
  by (simp add: swap_def rd_mid wr_mid)

lemma bubble_pass_eq:
  "j = int (length us) \<Longrightarrow> lim = int (length us + length vs) \<Longrightarrow>
    bubble_pass (us @ a # vs @ rest) j lim flag = Some (us @ bub a vs @ rest, flag \<or> bub_moves a vs)"
proof (induction vs arbitrary: us a j flag)
  case Nil
  then show ?case by (simp add: bubble_pass.simps)
next
  case (Cons b vs)
  have b: "rd (us @ a # b # vs @ rest) (j + 1) = Some b"
    using rd_mid [of "j + 1" "us @ [a]" b "vs @ rest"] Cons.prems by simp
  show ?case
    using Cons.prems b Cons.IH [of "j + 1" "us @ [b]" a True] Cons.IH [of "j + 1" "us @ [a]" b flag]
    by (subst bubble_pass.simps) (simp add: rd_mid swap_mid)
qed

lemma mset_bub [simp]: "mset (bub a vs) = add_mset a (mset vs)"
  by (induction a vs rule: bub.induct) auto

lemma length_bub [simp]: "length (bub a vs) = Suc (length vs)"
  by (induction a vs rule: bub.induct) auto

lemma bub_not_Nil [simp]: "bub a vs \<noteq> []"
  by (metis length_bub list.size(3) nat.distinct(1))

lemma last_bub: "x \<in> set (a # vs) \<Longrightarrow> x \<le> last (bub a vs)"
proof (induction a vs arbitrary: x rule: bub.induct)
  case (1 a)
  then show ?case by simp
next
  case (2 a b bs)
  show ?case
  proof (cases "a > b")
    case True
    with 2(1) [OF True, of a] 2(1) [OF True, of x] 2(3) show ?thesis by auto
  next
    case False
    with 2(2) [OF False, of b] 2(2) [OF False, of x] 2(3) show ?thesis by auto
  qed
qed

lemma bub_idle: "\<not> bub_moves a vs \<Longrightarrow> sorted (a # vs) \<and> bub a vs = a # vs"
proof (induction a vs rule: bub.induct)
  case (2 a b bs)
  then show ?case by (auto split: if_splits)
qed simp

lemma sorted_list_unique:
  fixes xs :: "int list"
  shows "sorted xs \<Longrightarrow> mset xs = mset ys \<Longrightarrow> xs = sort ys"
  by (metis properties_for_sort)

lemma sort_mset_cong:
  fixes xs :: "int list"
  shows "mset xs = mset ys \<Longrightarrow> sort xs = sort ys"
  by (rule sorted_list_unique) simp_all

text \<open>
  The invariant of the outer loop: the last \<open>i\<close> of the \<open>n\<close> elements are in place, that is,
  sorted and not below any element before them.
\<close>

text \<open>A pass leaves the greatest element at the end: it belongs before the sorted elements.\<close>

lemma bub_greatest:
  obtains ys y where "bub a vs = ys @ [y]" and "set (a # vs) = insert y (set ys)"
    and "\<forall>x\<in>set ys. x \<le> y" and "length ys = length vs"
proof -
  obtain ys y where b: "bub a vs = ys @ [y]" using bub_not_Nil [of a vs] by (metis rev_exhaust)
  then have "mset (ys @ [y]) = mset (a # vs)" by (simp flip: b)
  then have set_b: "set (a # vs) = insert y (set ys)" and len: "length ys = length vs"
    using mset_eq_setD [of "ys @ [y]" "a # vs"] mset_eq_length [of "ys @ [y]" "a # vs"] by auto
  have "x \<le> y" if "x \<in> set ys" for x
    using that set_b last_bub [of x a vs] by (simp add: b)
  with b set_b len that show thesis by blast
qed

lemma bubble_from_eq:
  "sorted suf \<Longrightarrow> (\<forall>x\<in>set xs. \<forall>y\<in>set suf. x \<le> y) \<Longrightarrow>
    bubble_from (xs @ suf @ rest) (int (length xs + length suf)) (int (length suf))
    = Some (sort (xs @ suf) @ rest)"
proof (induction "length xs" arbitrary: xs suf)
  case 0
  then show ?case by (simp add: bubble_from.simps sorted_sort_id)
next
  case (Suc k)
  then obtain a vs where xs: "xs = a # vs" by (cases xs) auto
  let ?b = "bub a vs"
  have pass: "bubble_pass (xs @ suf @ rest) 0 (int (length vs)) False
      = Some (?b @ suf @ rest, bub_moves a vs)"
    using bubble_pass_eq [of 0 "[]" "int (length vs)" vs a "suf @ rest" False] xs by simp
  have step: "bubble_from (xs @ suf @ rest) (int (length xs + length suf)) (int (length suf))
      = (if \<not> bub_moves a vs then Some (?b @ suf @ rest)
         else bubble_from (?b @ suf @ rest) (int (length xs + length suf)) (int (length suf) + 1))"
    by (subst bubble_from.simps) (simp add: xs pass [unfolded xs, simplified])
  show ?case
  proof (cases "bub_moves a vs")
    case False
    with Suc.prems bub_idle [of a vs] have "sorted (xs @ suf)"
      unfolding xs by (auto simp: sorted_append)
    then have "sort (xs @ suf) = xs @ suf" by (rule sorted_sort_id)
    moreover from False bub_idle [of a vs] have "?b = xs" by (simp add: xs)
    ultimately show ?thesis using False by (simp only: step) simp
  next
    case True
    from bub_greatest [of a vs] obtain ys y where y: "?b = ys @ [y]" "set xs = insert y (set ys)"
      "\<forall>x\<in>set ys. x \<le> y" "length ys = length vs" unfolding xs by blast
    have "sorted (y # suf)" "\<forall>x\<in>set ys. \<forall>z\<in>set (y # suf). x \<le> z" "k = length ys"
      using Suc.prems Suc.hyps(2) y xs by auto
    from Suc.hyps(1) [OF this(3,1,2)]
    have "bubble_from (ys @ (y # suf) @ rest) (int (length ys + length (y # suf))) (int (length (y # suf)))
        = Some (sort (ys @ y # suf) @ rest)" .
    moreover have "mset (ys @ [y]) = mset xs" by (simp flip: y(1) add: xs)
    then have "sort (ys @ y # suf) = sort (xs @ suf)" by (intro sort_mset_cong) simp
    ultimately show ?thesis using True y(4) by (simp only: step) (simp add: y(1) xs add.commute)
  qed
qed

section \<open>Insertion sort\<close>

lemma insort_snoc_less: "(t::int) \<le> y \<Longrightarrow> insort t (ys @ [y]) = insort t ys @ [y]"
  by (induction ys) auto

lemma insort_snoc_last:
  fixes t :: int
  assumes "sorted ys" and "\<forall>y\<in>set ys. y \<le> t"
  shows "insort t ys = ys @ [t]"
proof -
  have "sorted (ys @ [t])" using assms by (simp add: sorted_append)
  then show ?thesis
    by (metis add_mset_add_single assms(1) mset_append mset_insort mset_single_iff_right mset.simps(2)
        sorted_insort sorted_list_unique)
qed

text \<open>The hole moves left past the larger elements; filled with \<open>temp\<close>, the prefix is sorted.\<close>

lemma insert_shift_eq:
  "sorted ys \<Longrightarrow> \<exists>arr j. insert_shift (ys @ g # zs) (int (length ys)) temp = Some (arr, j) \<and>
    wr arr j temp = Some (insort temp ys @ zs)"
proof (induction ys arbitrary: g zs rule: rev_induct)
  case Nil
  then show ?case by (simp add: insert_shift.simps wr_def)
next
  case (snoc y ys)
  have y: "rd (ys @ y # g # zs) (int (length ys)) = Some y" by (simp add: rd_mid)
  show ?case
  proof (cases "temp < y")
    case True
    have w: "wr (ys @ y # g # zs) (int (length ys) + 1) y = Some (ys @ y # y # zs)"
      using wr_mid [of "int (length ys) + 1" "ys @ [y]" g zs y] by simp
    from snoc.prems have "sorted ys" by (simp add: sorted_append)
    from snoc.IH [OF this, of y "y # zs"] True y w show ?thesis
      by (subst insert_shift.simps) (simp add: insort_snoc_less add.commute)
  next
    case False
    from snoc.prems False have "\<forall>z\<in>set (ys @ [y]). z \<le> temp" by (auto simp: sorted_append)
    from insort_snoc_last [OF snoc.prems this] False y show ?thesis
      using wr_mid [of "int (length ys) + 1" "ys @ [y]" g zs temp]
      by (subst insert_shift.simps) (simp add: add.commute)
  qed
qed

lemma insert_from_eq:
  "sorted ys \<Longrightarrow> insert_from (ys @ zs @ rest) (int (length ys + length zs)) (int (length ys))
    = Some (sort (ys @ zs) @ rest)"
proof (induction zs arbitrary: ys)
  case Nil
  then show ?case by (simp add: insert_from.simps sorted_sort_id)
next
  case (Cons z zs)
  from insert_shift_eq [OF Cons.prems, of z "zs @ rest" z] obtain arr j where
    s: "insert_shift (ys @ z # zs @ rest) (int (length ys)) z = Some (arr, j)"
    "wr arr j z = Some (insort z ys @ zs @ rest)" by blast
  have "sorted (insort z ys)" using Cons.prems by (simp add: sorted_insort)
  from Cons.IH [OF this] have "insert_from (insort z ys @ zs @ rest) (int (length ys + length zs) + 1)
      (int (length ys) + 1) = Some (sort (insort z ys @ zs) @ rest)" by (simp add: add.commute)
  moreover have "sort (insort z ys @ zs) = sort (ys @ z # zs)"
    by (intro properties_for_sort) auto
  ultimately show ?case using s by (subst insert_from.simps) (simp add: rd_mid add.commute)
qed

section \<open>Quick sort\<close>

text \<open>
  The scans, on an array cut at the hole: \<open>M\<close> is what lies between the two indices; the scan
  passes over the part of \<open>M\<close> that is on the right side already.
\<close>

lemma scan_high_eq:
  "low = int (length P) \<Longrightarrow> \<exists>M1 M2. M = M1 @ M2 \<and> (\<forall>x\<in>set M2. pk \<le> x) \<and> (M1 = [] \<or> last M1 < pk) \<and>
    scan_high (P @ g # M @ S) low (low + int (length M)) pk = Some (low + int (length M1))"
proof (induction M arbitrary: S rule: rev_induct)
  case Nil
  then show ?case by (simp add: scan_high.simps)
next
  case (snoc x M)
  have x: "rd (P @ g # M @ x # S) (low + int (Suc (length M))) = Some x"
    using rd_mid [of "low + int (Suc (length M))" "P @ g # M" x S] snoc.prems by simp
  show ?case
  proof (cases "x \<ge> pk")
    case True
    from snoc.IH [OF snoc.prems, of "x # S"] obtain M1 M2 where
      M: "M = M1 @ M2" "\<forall>x\<in>set M2. pk \<le> x" "M1 = [] \<or> last M1 < pk"
      "scan_high (P @ g # M @ x # S) low (low + int (length M)) pk = Some (low + int (length M1))"
      by blast
    then show ?thesis using True x
      by (intro exI [of _ M1] exI [of _ "M2 @ [x]"]) (subst scan_high.simps, auto simp: algebra_simps)
  next
    case False
    then show ?thesis using x
      by (intro exI [of _ "M @ [x]"] exI [of _ "[]"]) (subst scan_high.simps, auto)
  qed
qed

lemma scan_low_eq:
  "low = int (length P) \<Longrightarrow> high = int (length P + length M) \<Longrightarrow>
    \<exists>M1 M2. M = M1 @ M2 \<and> (\<forall>x\<in>set M1. x \<le> pk) \<and> (M2 = [] \<or> pk < hd M2) \<and>
      scan_low (P @ M @ S) low high pk = Some (low + int (length M1))"
proof (induction M arbitrary: P low)
  case Nil
  then show ?case by (simp add: scan_low.simps)
next
  case (Cons x M)
  show ?case
  proof (cases "x \<le> pk")
    case True
    have "\<exists>M1 M2. M = M1 @ M2 \<and> (\<forall>x\<in>set M1. x \<le> pk) \<and> (M2 = [] \<or> pk < hd M2) \<and>
      scan_low (P @ x # M @ S) (low + 1) high pk = Some (low + 1 + int (length M1))"
      using Cons.IH [of "low + 1" "P @ [x]"] Cons.prems by simp
    then obtain M1 M2 where
      "M = M1 @ M2" "\<forall>x\<in>set M1. x \<le> pk" "M2 = [] \<or> pk < hd M2"
      "scan_low (P @ x # M @ S) (low + 1) high pk = Some (low + 1 + int (length M1))" by blast
    then show ?thesis using True Cons.prems
      by (intro exI [of _ "x # M1"] exI [of _ M2]) (subst scan_low.simps, auto simp: rd_mid)
  next
    case False
    then show ?thesis using Cons.prems
      by (intro exI [of _ "[]"] exI [of _ "x # M"]) (subst scan_low.simps, auto simp: rd_mid)
  qed
qed

text \<open>
  The loop invariant: the array holds the pivot's hole at \<open>low\<close>, small elements before it and
  large ones after the unexamined middle \<open>M\<close>.
\<close>

text \<open>
  One turn of the loop, once both scans are known: the upper one stopped at \<open>x\<close>, which is copied down; the lower one then
  met it, or stopped at \<open>y\<close>, which is copied up.
\<close>

lemma part_loop_met:
  assumes "low = int (length P)" and "M = N @ x # M2"
    and "scan_high (P @ g # M @ S) low (low + int (length M)) pk = Some (low + int (length N + 1))"
    and "scan_low (P @ x # M @ S) (low + 1) (low + int (length N + 1)) pk = Some (low + 1 + int (length N))"
  shows "part_loop (P @ g # M @ S) low (low + int (length M)) pk = Some (P @ (x # N) @ x # M2 @ S, low + int (length (x # N)))"
proof -
  have r: "rd (P @ g # M @ S) (low + int (length N + 1)) = Some x"
    using rd_mid [of "low + int (length N + 1)" "P @ g # N" x "M2 @ S"] assms(1,2) by simp
  have w: "wr (P @ g # M @ S) low x = Some (P @ x # M @ S)" using assms(1) by (simp add: wr_mid)
  have "part_loop (P @ g # M @ S) low (low + int (length M)) pk =
      part_loop (P @ x # M @ S) (low + 1 + int (length N)) (low + 1 + int (length N)) pk"
    using assms(3,4) r w assms(2) by (subst part_loop.simps) (simp add: algebra_simps)
  then show ?thesis using assms(2) by (subst (asm) (2) part_loop.simps) simp
qed

lemma part_loop_turn:
  assumes "low = int (length P)" and "M = N1 @ y # N3 @ x # M2"
    and "scan_high (P @ g # M @ S) low (low + int (length M)) pk = Some (low + int (length N1 + length N3 + 2))"
    and "scan_low (P @ x # M @ S) (low + 1) (low + int (length N1 + length N3 + 2)) pk = Some (low + 1 + int (length N1))"
  shows "part_loop (P @ g # M @ S) low (low + int (length M)) pk =
    part_loop ((P @ x # N1) @ y # N3 @ y # M2 @ S) (low + 1 + int (length N1)) (low + 1 + int (length N1) + int (length N3)) pk"
proof -
  have r: "rd (P @ g # M @ S) (low + int (length N1 + length N3 + 2)) = Some x"
    using rd_mid [of "low + int (length N1 + length N3 + 2)" "P @ g # N1 @ y # N3" x "M2 @ S"] assms(1,2) by simp
  have w: "wr (P @ g # M @ S) low x = Some (P @ x # M @ S)" using assms(1) by (simp add: wr_mid)
  have r2: "rd (P @ x # M @ S) (low + 1 + int (length N1)) = Some y"
    using rd_mid [of "low + 1 + int (length N1)" "P @ x # N1" y "N3 @ x # M2 @ S"] assms(1,2) by simp
  have w2: "wr (P @ x # M @ S) (low + int (length N1 + length N3 + 2)) y = Some ((P @ x # N1) @ y # N3 @ y # M2 @ S)"
    using wr_mid [of "low + int (length N1 + length N3 + 2)" "(P @ x # N1) @ y # N3" x "M2 @ S" y] assms(1,2) by simp
  show ?thesis using assms(3,4) r w r2 w2 assms(2) by (subst part_loop.simps) (simp add: algebra_simps)
qed

lemma part_loop_eq:
  "low = int (length P) \<Longrightarrow> \<exists>L g' H. mset (L @ H) = mset M \<and> (\<forall>x\<in>set L. x \<le> pk) \<and>
     (\<forall>x\<in>set H. pk \<le> x) \<and>
     part_loop (P @ g # M @ S) low (low + int (length M)) pk
       = Some (P @ L @ g' # H @ S, low + int (length L))"
proof (induction "length M" arbitrary: M P g S low rule: less_induct)
  case less
  show ?case
  proof (cases "M = []")
    case True
    then show ?thesis by (subst part_loop.simps) auto
  next
    case ne: False
    from scan_high_eq [OF less.prems, of M pk g S] obtain M1 M2 where
      M: "M = M1 @ M2" "\<forall>x\<in>set M2. pk \<le> x" "M1 = [] \<or> last M1 < pk"
      "scan_high (P @ g # M @ S) low (low + int (length M)) pk = Some (low + int (length M1))"
      by blast
    show ?thesis
    proof (cases M1 rule: rev_cases)
      case Nil
      have "scan_low (P @ g # M @ S) low low pk = Some low" by (simp add: scan_low.simps)
      then have "part_loop (P @ g # M @ S) low (low + int (length M)) pk = Some (P @ g # M @ S, low)"
        using M Nil ne by (subst part_loop.simps) (simp add: part_loop.simps [of _ low low])
      with M Nil show ?thesis by (intro exI [of _ "[]"] exI [of _ g] exI [of _ M]) auto
    next
      case (snoc N x)
      with M(3) have x: "x < pk" by simp
      have "\<exists>N1 N2. N = N1 @ N2 \<and> (\<forall>y\<in>set N1. y \<le> pk) \<and> (N2 = [] \<or> pk < hd N2) \<and>
        scan_low (P @ x # M @ S) (low + 1) (low + int (length M1)) pk = Some (low + 1 + int (length N1))"
        using scan_low_eq [of "low + 1" "P @ [x]" "low + int (length M1)" N pk "x # M2 @ S"] less.prems
        by (simp add: M(1) snoc)
      then obtain N1 N2 where N: "N = N1 @ N2" "\<forall>y\<in>set N1. y \<le> pk" "N2 = [] \<or> pk < hd N2"
        "scan_low (P @ x # M @ S) (low + 1) (low + int (length M1)) pk = Some (low + 1 + int (length N1))" by blast
      show ?thesis
      proof (cases N2)
        case Nil
        have "part_loop (P @ g # M @ S) low (low + int (length M)) pk = Some (P @ (x # N1) @ x # M2 @ S, low + int (length (x # N1)))"
          using M(4) N(4) by (intro part_loop_met [OF less.prems]) (simp_all add: M(1) snoc N(1) Nil)
        then show ?thesis using x N M
          by (intro exI [of _ "x # N1"] exI [of _ x] exI [of _ M2]) (auto simp: snoc Nil)
      next
        case (Cons y N3)
        with N(3) have y: "pk < y" by simp
        have "part_loop (P @ g # M @ S) low (low + int (length M)) pk =
            part_loop ((P @ x # N1) @ y # N3 @ y # M2 @ S) (low + 1 + int (length N1)) (low + 1 + int (length N1) + int (length N3)) pk"
          using M(4) N(4) by (intro part_loop_turn [OF less.prems]) (simp_all add: M(1) snoc N(1) Cons algebra_simps)
        moreover have "length N3 < length M" by (simp add: M(1) snoc N(1) Cons)
        from less.hyps [OF this, of "low + 1 + int (length N1)" "P @ x # N1" y "y # M2 @ S"] less.prems obtain L g' H where
          "mset (L @ H) = mset N3" "\<forall>x\<in>set L. x \<le> pk" "\<forall>x\<in>set H. pk \<le> x"
          "part_loop ((P @ x # N1) @ y # N3 @ y # M2 @ S) (low + 1 + int (length N1)) (low + 1 + int (length N1) + int (length N3)) pk
           = Some ((P @ x # N1) @ L @ g' # H @ y # M2 @ S, low + 1 + int (length N1) + int (length L))"
          by auto
        ultimately show ?thesis using x y N(2) M(2)
          by (intro exI [of _ "x # N1 @ L"] exI [of _ g'] exI [of _ "H @ y # M2"])
            (auto simp: M(1) snoc N(1) Cons)
      qed
    qed
  qed
qed

lemma partition_eq:
  assumes "M \<noteq> []"
  shows "\<exists>L H. mset (L @ H) = mset M \<and> (\<forall>y\<in>set L. y \<le> x) \<and> (\<forall>y\<in>set H. x \<le> y) \<and>
    partition (Some (P @ x # M @ S)) (int (length P)) (int (length P) + int (length M))
      = Some (int (length P + length L), Some (P @ L @ x # H @ S))"
proof -
  from part_loop_eq [OF refl, of M x P x S] obtain L g' H where
    l: "mset (L @ H) = mset M" "\<forall>y\<in>set L. y \<le> x" "\<forall>y\<in>set H. x \<le> y"
    "part_loop (P @ x # M @ S) (int (length P)) (int (length P) + int (length M)) x
      = Some (P @ L @ g' # H @ S, int (length P) + int (length L))" by blast
  have "wr (P @ L @ g' # H @ S) (int (length P) + int (length L)) x = Some (P @ L @ x # H @ S)"
    using wr_mid [of "int (length P) + int (length L)" "P @ L" g' "H @ S" x] by simp
  with l assms show ?thesis
    by (intro exI [of _ L] exI [of _ H]) (simp add: partition_def rd_mid)
qed

lemma qsort_eq:
  "low = int (length P) \<Longrightarrow> high = int (length P) + int (length M) - 1 \<Longrightarrow>
    qsort (Some (P @ M @ S)) low high = Some (Some (P @ sort M @ S))"
proof (induction "length M" arbitrary: M P S low high rule: less_induct)
  case less
  show ?case
  proof (cases "length M \<le> 1")
    case True
    then have "M = [] \<or> (\<exists>x. M = [x])" by (cases M) auto
    with True less.prems show ?thesis by (subst qsort.simps) auto
  next
    case False
    then obtain x N where M: "M = x # N" "N \<noteq> []" by (cases M) auto
    from partition_eq [OF M(2), of x P S] obtain L H where
      p: "mset (L @ H) = mset N" "\<forall>y\<in>set L. y \<le> x" "\<forall>y\<in>set H. x \<le> y"
      "partition (Some (P @ M @ S)) low high = Some (int (length P + length L), Some (P @ L @ x # H @ S))"
      using less.prems M by auto
    have len: "length L + length H = length N" using arg_cong [OF p(1), of size] by simp
    have 1: "qsort (Some (P @ L @ x # H @ S)) low (int (length P + length L) - 1)
        = Some (Some (P @ sort L @ x # H @ S))"
      using less.hyps [of L low P "int (length P + length L) - 1" "x # H @ S"] len M less.prems by simp
    have 2: "qsort (Some (P @ sort L @ x # H @ S)) (int (length P + length L) + 1) high
        = Some (Some (P @ sort L @ x # sort H @ S))"
      using less.hyps [of H "int (length P + length L) + 1" "P @ sort L @ [x]" high S] len M less.prems
      by simp
    have "sort M = sort L @ x # sort H"
    proof (rule properties_for_sort)
      show "mset (sort L @ x # sort H) = mset M" using p(1) M by simp
      show "sorted (sort L @ x # sort H)" using p(2,3) by (force simp: sorted_append)
    qed
    with p(4) 1 2 False less.prems show ?thesis by (subst qsort.simps) simp
  qed
qed

text \<open>A null array of more than one element: the recursion never ends.\<close>

lemma qsort_null_aux:
  assumes "qsort arrp low high = Some r"
  shows "arrp = None \<longrightarrow> r = None \<and> \<not> (0 < high \<and> low < high)"
proof (rule qsort.raw_induct [OF _ assms], intro impI, goal_cases)
  case (1 f arrp low high y)
  show ?case
  proof (cases "low \<ge> high")
    case True
    with 1 show ?thesis by simp
  next
    case False
    with 1 obtain a where "f None low (- 2) = Some a" "f a 0 high = Some y"
      by (auto simp: partition_def split: Option.bind_splits)
    with 1(1) have "a = None" "f None 0 high = Some y" by blast+
    with 1(1) [OF this(2)] False show ?thesis by simp
  qed
qed

section \<open>Properties\<close>

text \<open>
  C6. \<open>quick_sort\<close> terminates and sorts: with \<open>n\<close> the length of \<open>xs\<close>, the array's first \<open>n\<close>
  elements become the sorted list of the elements they were, the elements behind them stay,
  and no access leaves the \<open>n\<close> elements.
\<close>

theorem quick_sort_sorts:
  "quick_sort (Some (xs @ rest)) (int (length xs)) = Some (Some (sort xs @ rest))"
  unfolding quick_sort_def using qsort_eq [of 0 "[]" "int (length xs) - 1" xs rest] by simp

text \<open>
  C4. \<open>bubble_sort\<close>, with its early exit when a pass moves nothing, and \<open>insert_sort\<close> compute the
  same result as \<open>quick_sort\<close> on every array and every prefix length.
\<close>

theorem sorts_agree:
  "bubble_sort (xs @ rest) (int (length xs)) = Some (sort xs @ rest) \<and>
   insert_sort (xs @ rest) (int (length xs)) = Some (sort xs @ rest)"
proof
  show "bubble_sort (xs @ rest) (int (length xs)) = Some (sort xs @ rest)"
    using bubble_from_eq [of "[]" xs rest] by (cases xs) (simp_all add: bubble_sort_def)
  show "insert_sort (xs @ rest) (int (length xs)) = Some (sort xs @ rest)"
  proof (cases xs)
    case Nil
    then show ?thesis by (simp add: insert_sort_def insert_from.simps)
  next
    case (Cons x zs)
    then show ?thesis using insert_from_eq [of "[x]" zs rest] by (simp add: insert_sort_def)
  qed
qed

text \<open>
  \<open>partition\<close> tests for a null array and answers -1, but its caller \<open>qsort\<close> goes on with that
  index: sorting a null array of two or more elements recurses for ever.
\<close>

theorem quick_sort_null_diverges:
  assumes "2 \<le> n"
  shows "quick_sort None n = None"
  using qsort_null_aux [of None 0 "n - 1"] assms
  by (cases "quick_sort None n") (auto simp: quick_sort_def)

theorem quick_sort_null_diverges_witness: "quick_sort None 2 = None"
  by (rule quick_sort_null_diverges) simp

end
