(* ===== verification/BracketMatch.thy ===== *)
theory BracketMatch
  imports SeqStack
begin

text \<open>
  Bracket matching with a stack, \<open>algorithm/stack/app/bracketMatch.c\<close>. The loop of
  \<open>caculate\<close> is written once, over the operations of the stack it uses, because
  \<open>exam/haier/bracketMatch.c\<close> (theory \<open>HaierBracket\<close>) has the same loop over its own stack;
  what it computes is proved in the context of the stack contract and then used through the
  interpretations. The specification is the grammar of balanced strings.
\<close>

section \<open>The loop\<close>

text \<open>The result is the stack and the count, or \<open>None\<close> for the jump to \<open>err\<close>.\<close>

function match_from :: "('s \<Rightarrow> int \<Rightarrow> (int \<times> 's) option) \<Rightarrow> ('s \<Rightarrow> int \<Rightarrow> (int \<times> int \<times> 's) option) \<Rightarrow>
    's \<Rightarrow> int list \<Rightarrow> int \<Rightarrow> int \<Rightarrow> int \<Rightarrow> (int option \<times> 's) option" where
  "match_from push pop st s n i cnt =
     (if i < n then do {
        p \<leftarrow> rd s i;
        if p = ch CHR ''('' then do {
          (_, st') \<leftarrow> push st p;
          match_from push pop st' s n (i + 1) cnt }
        else if p = ch CHR '')'' then do {
          (_, q, st') \<leftarrow> pop st 0;
          if q \<noteq> ch CHR ''('' then Some (None, st')
          else do {
            cnt' \<leftarrow> c_int (cnt + 1);
            match_from push pop st' s n (i + 1) cnt' } }
        else match_from push pop st s n (i + 1) cnt }
      else Some (Some cnt, st))"
  by pat_completeness auto
termination
  by (relation "measure (\<lambda>(push, pop, st, s, n, i, cnt). nat (n - i))") auto

declare match_from.simps [simp del]

text \<open>\<open>caculate\<close> of \<open>bracketMatch.c\<close>; \<open>m1\<close> and \<open>m2\<close> are the allocations of \<open>stack_init\<close>.\<close>

definition caculate :: "bool \<Rightarrow> bool \<Rightarrow> int list \<Rightarrow> int \<Rightarrow> int option" where
  "caculate m1 m2 s n = do {
     let st = stack_init m1 m2 16;
     (r, st) \<leftarrow> match_from stack_push pop_to st s n 0 0;
     (case r of
        None \<Rightarrow> let _ = stack_destory st in Some (- 1)
      | Some cnt \<Rightarrow> do {
          e \<leftarrow> stack_isempty st;
          if \<not> e then let _ = stack_destory st in Some (- 1)
          else let _ = stack_destory st in Some cnt }) }"

text \<open>\<open>main\<close>: a line of the input, and the printed number.\<close>

definition bracket_main :: "bool \<Rightarrow> bool \<Rightarrow> int list \<Rightarrow> int option" where
  "bracket_main m1 m2 inp = do {
     let s = fgets_buf 100 inp;
     n \<leftarrow> strlen s;
     caculate m1 m2 s n }"

section \<open>Balanced strings\<close>

inductive balanced :: "int list \<Rightarrow> bool" where
  bal_empty: "balanced []"
| bal_other: "c \<noteq> ch CHR ''('' \<Longrightarrow> c \<noteq> ch CHR '')'' \<Longrightarrow> balanced w \<Longrightarrow> balanced (c # w)"
| bal_pair: "balanced u \<Longrightarrow> balanced v \<Longrightarrow>
    balanced (ch CHR ''('' # u @ ch CHR '')'' # v)"

text \<open>
  A counter decides the grammar: \<open>scan d s\<close> reads \<open>s\<close> with \<open>d\<close> brackets open.
  \<open>nesting d s\<close> is the greatest number of open brackets on the way.
\<close>

fun scan :: "nat \<Rightarrow> int list \<Rightarrow> bool" where
  "scan d [] = (d = 0)"
| "scan d (c # s) =
     (if c = ch CHR ''('' then scan (Suc d) s
      else if c = ch CHR '')'' then (case d of 0 \<Rightarrow> False | Suc d' \<Rightarrow> scan d' s)
      else scan d s)"

fun nesting :: "nat \<Rightarrow> int list \<Rightarrow> nat" where
  "nesting d [] = d"
| "nesting d (c # s) =
     (if c = ch CHR ''('' then nesting (Suc d) s
      else if c = ch CHR '')'' then (case d of 0 \<Rightarrow> 0 | Suc d' \<Rightarrow> max d (nesting d' s))
      else nesting d s)"

definition pairs :: "int list \<Rightarrow> int" where
  "pairs s = int (count_list s (ch CHR '')''))"

lemma scan_balanced: "balanced u \<Longrightarrow> scan d (u @ v) = scan d v"
  by (induction u arbitrary: d v rule: balanced.induct) auto

text \<open>A string that closes \<open>d\<close> open brackets: balanced parts with a closing bracket between them.\<close>

fun closes :: "int list list \<Rightarrow> int list" where
  "closes [] = []"
| "closes (v # vs) = ch CHR '')'' # v @ closes vs"

lemma scan_decomp:
  "scan d s \<Longrightarrow> \<exists>u vs. s = u @ closes vs \<and> length vs = d \<and> balanced u \<and> (\<forall>v\<in>set vs. balanced v)"
proof (induction s arbitrary: d)
  case Nil
  then show ?case by (intro exI [of _ "[]"]) (auto intro: bal_empty)
next
  case (Cons c s)
  consider (l) "c = ch CHR ''(''" | (r) "c = ch CHR '')''"
    | (o) "c \<noteq> ch CHR ''(''" "c \<noteq> ch CHR '')''" by blast
  then show ?case
  proof cases
    case l
    with Cons.prems Cons.IH [of "Suc d"] obtain u vs where
      u: "s = u @ closes vs" "length vs = Suc d" "balanced u" "\<forall>v\<in>set vs. balanced v" by auto
    then obtain v ws where vs: "vs = v # ws" by (cases vs) auto
    have "balanced (ch CHR ''('' # u @ ch CHR '')'' # v)" using u vs by (intro bal_pair) auto
    with u vs l show ?thesis
      by (intro exI [of _ "ch CHR ''('' # u @ ch CHR '')'' # v"] exI [of _ ws]) auto
  next
    case r
    with Cons.prems obtain d' where d: "d = Suc d'" "scan d' s" by (auto split: nat.splits)
    with Cons.IH [of d'] obtain u vs where
      "s = u @ closes vs" "length vs = d'" "balanced u" "\<forall>v\<in>set vs. balanced v" by auto
    with r d show ?thesis
      by (intro exI [of _ "[]"] exI [of _ "u # vs"]) (auto intro: bal_empty)
  next
    case o
    with Cons.prems Cons.IH [of d] obtain u vs where
      "s = u @ closes vs" "length vs = d" "balanced u" "\<forall>v\<in>set vs. balanced v" by auto
    with o show ?thesis by (intro exI [of _ "c # u"] exI [of _ vs]) (auto intro: bal_other)
  qed
qed

lemma scan_iff_balanced: "scan 0 s \<longleftrightarrow> balanced s"
  using scan_decomp [of 0 s] scan_balanced [of s 0 "[]"] by auto

section \<open>What the loop computes\<close>

text \<open>
  The stack only ever holds opening brackets, so it is a counter that saturates at the
  capacity \<open>m\<close>: a push on the full stack is dropped without a trace. Result: the open brackets
  and the count at the end, or \<open>None\<close> for \<open>err\<close>.
\<close>

fun saturating :: "nat \<Rightarrow> nat \<Rightarrow> int \<Rightarrow> int list \<Rightarrow> (nat \<times> int) option" where
  "saturating m d cnt [] = Some (d, cnt)"
| "saturating m d cnt (c # s) =
     (if c = ch CHR ''('' then saturating m (if d < m then Suc d else d) cnt s
      else if c = ch CHR '')''
      then (case d of 0 \<Rightarrow> None | Suc d' \<Rightarrow> saturating m d' (cnt + 1) s)
      else saturating m d cnt s)"

definition bracket_result :: "nat \<Rightarrow> int list \<Rightarrow> int" where
  "bracket_result m s = (case saturating m 0 0 s of Some (0, cnt) \<Rightarrow> cnt | _ \<Rightarrow> - 1)"

text \<open>Within the capacity the saturating counter is the exact one.\<close>

lemma saturating_exact:
  "nesting d s \<le> m \<Longrightarrow> (case saturating m d cnt s of Some (0, c) \<Rightarrow> c | _ \<Rightarrow> - 1)
    = (if scan d s then cnt + pairs s else - 1)"
proof (induction s arbitrary: d cnt)
  case Nil
  then show ?case by (auto simp: pairs_def split: nat.splits)
next
  case (Cons c s)
  have mono: "d \<le> nesting d s" for d s
    by (induction d s rule: nesting.induct) (auto split: nat.splits)
  consider (l) "c = ch CHR ''(''" | (r) "c = ch CHR '')''"
    | (o) "c \<noteq> ch CHR ''(''" "c \<noteq> ch CHR '')''" by blast
  then show ?case
  proof cases
    case l
    with Cons.prems mono [of "Suc d" s] have "d < m" by simp
    with Cons.IH [of "Suc d" cnt] Cons.prems l show ?thesis by (simp add: pairs_def)
  next
    case r
    then show ?thesis
      using Cons.prems Cons.IH [of _ "cnt + 1"] by (auto simp: pairs_def split: nat.splits)
  next
    case o
    then show ?thesis using Cons.IH [of d cnt] Cons.prems by (simp add: pairs_def)
  qed
qed

lemma bracket_result_balanced:
  "nesting 0 s \<le> m \<Longrightarrow> bracket_result m s = (if balanced s then pairs s else - 1)"
  using saturating_exact [of 0 s m 0] by (simp add: bracket_result_def scan_iff_balanced)

context bounded_stack
begin

text \<open>On any stack that keeps the contract, the loop is the saturating counter.\<close>

lemma match_from_eq:
  "rep st (int m) (replicate d (ch CHR ''('')) \<Longrightarrow> i = int (length us) \<Longrightarrow>
    0 \<le> cnt \<Longrightarrow> cnt + int (length w) \<le> INT_MAX \<Longrightarrow>
    \<exists>st'. match_from push pop st (us @ w @ rest) (i + int (length w)) i cnt
        = Some (map_option snd (saturating m d cnt w), st') \<and>
      (\<forall>d' c. saturating m d cnt w = Some (d', c) \<longrightarrow>
        rep st' (int m) (replicate d' (ch CHR ''('')))"
proof (induction w arbitrary: us i st d cnt)
  case Nil
  then show ?case by (auto simp: match_from.simps)
next
  case (Cons p w)
  have p: "rd (us @ (p # w) @ rest) i = Some p" using Cons.prems by (simp add: rd_mid)
  have lt: "i < i + int (length (p # w))" by simp
  note IH = Cons.IH [where us = "us @ [p]" and i = "i + 1", simplified]
  consider (l) "p = ch CHR ''(''" | (r) "p = ch CHR '')''"
    | (o) "p \<noteq> ch CHR ''(''" "p \<noteq> ch CHR '')''" by blast
  then show ?case
  proof cases
    case l
    let ?d = "if d < m then Suc d else d"
    have "\<exists>r st1. push st p = Some (r, st1) \<and> rep st1 (int m) (replicate ?d (ch CHR ''(''))"
      using push_ok [OF Cons.prems(1), of p] push_full [OF Cons.prems(1), of p]
        rep_bound [OF Cons.prems(1)] Cons.prems(1) l by fastforce
    then obtain r st1 where "push st p = Some (r, st1)" "rep st1 (int m) (replicate ?d (ch CHR ''(''))"
      by blast
    with IH [where st = st1 and d = ?d and cnt = cnt] Cons.prems l p lt show ?thesis
      by (subst match_from.simps) (simp add: algebra_simps)
  next
    case r
    show ?thesis
    proof (cases d)
      case 0
      with Cons.prems(1) have "pop st 0 = Some (- 1, 0, st)" using pop_empty by simp
      with r 0 p lt show ?thesis by (subst match_from.simps) simp
    next
      case (Suc d')
      with Cons.prems(1) pop_ok [of st "int m" "ch CHR ''(''" "replicate d' (ch CHR ''('')" 0]
      obtain st1 where "pop st 0 = Some (0, ch CHR ''('', st1)"
        "rep st1 (int m) (replicate d' (ch CHR ''(''))" by auto
      moreover have "in_int (cnt + 1)" using Cons.prems(3,4) by (simp add: int_range)
      ultimately show ?thesis using IH [where st = st1 and d = d' and cnt = "cnt + 1"] Cons.prems r p lt Suc
        by (subst match_from.simps) (simp add: algebra_simps)
    qed
  next
    case o
    with IH [where st = st and d = d and cnt = cnt] Cons.prems p lt show ?thesis
      by (subst match_from.simps) (simp add: algebra_simps)
  qed
qed

end

lemma bracket_caculate_eq:
  assumes "int (length w) \<le> INT_MAX"
  shows "caculate True True (w @ rest) (int (length w)) = Some (bracket_result 16 w)"
proof -
  have "stack_rep (stack_init True True 16) (int 16) (replicate 0 (ch CHR ''(''))"
    using stack_rep_init [of 16] by simp
  from ss.match_from_eq [OF this, of 0 "[]" 0 w rest] assms obtain st' where
    st': "match_from stack_push pop_to (stack_init True True 16) (w @ rest) (int (length w)) 0 0
      = Some (map_option snd (saturating 16 0 0 w), st')"
    "\<forall>d' c. saturating 16 0 0 w = Some (d', c) \<longrightarrow> stack_rep st' 16 (replicate d' (ch CHR ''(''))"
    by auto
  show ?thesis
  proof (cases "saturating 16 0 0 w")
    case None
    with st'(1) show ?thesis by (simp add: caculate_def bracket_result_def)
  next
    case (Some dc)
    then obtain d' c where dc: "saturating 16 0 0 w = Some (d', c)" by (cases dc) auto
    with st'(2) have "stack_isempty st' = Some (d' = 0)"
      using ss.isempty_iff [of st' 16 "replicate d' (ch CHR ''('')"] by (cases d') auto
    with st'(1) dc show ?thesis
      by (auto simp: caculate_def bracket_result_def split: nat.splits)
  qed
qed

end
