(* ===== verification/HaierBracket.thy ===== *)
theory HaierBracket
  imports BracketMatch
begin

text \<open>
  \<open>exam/haier/bracketMatch.c\<close>: the same matching with a stack of its own, a fixed array inside
  the object. The object comes from \<open>malloc\<close>, so the array starts with arbitrary contents, a
  parameter of \<open>stack_init\<close>.
\<close>

definition STACK_SIZE :: int where
  "STACK_SIZE = 16"

record stack_t =
  buf :: "int list"
  tp :: int
  mx :: int

definition stack_init :: "bool \<Rightarrow> int list \<Rightarrow> stack_t option" where
  "stack_init ok junk =
     (if ok then Some \<lparr>buf = junk, tp = 0, mx = STACK_SIZE\<rparr> else None)"

definition stack_destory :: "stack_t option \<Rightarrow> int \<times> stack_t option" where
  "stack_destory st = (case st of None \<Rightarrow> (- 1, None) | Some _ \<Rightarrow> (0, None))"

definition stack_push :: "stack_t option \<Rightarrow> int \<Rightarrow> (int \<times> stack_t option) option" where
  "stack_push st data = (case st of
     None \<Rightarrow> Some (- 1, None)
   | Some s \<Rightarrow>
       if tp s = mx s then Some (- 1, st)
       else do {
         b \<leftarrow> wr (buf s) (tp s) data;
         Some (0, Some (s\<lparr>buf := b, tp := tp s + 1\<rparr>)) })"

text \<open>\<open>data\<close> is the variable whose address the callers pass; the code also tests it for null.\<close>

definition stack_pop :: "stack_t option \<Rightarrow> int \<Rightarrow> (int \<times> int \<times> stack_t option) option" where
  "stack_pop st data = (case st of
     None \<Rightarrow> Some (- 1, data, None)
   | Some s \<Rightarrow>
       if tp s = 0 then Some (- 1, data, st)
       else do {
         let s' = s\<lparr>tp := tp s - 1\<rparr>;
         v \<leftarrow> rd (buf s') (tp s');
         Some (0, v, Some s') })"

definition stack_len :: "stack_t option \<Rightarrow> int" where
  "stack_len st = (case st of None \<Rightarrow> - 1 | Some s \<Rightarrow> tp s)"

definition caculate :: "bool \<Rightarrow> int list \<Rightarrow> int list \<Rightarrow> int \<Rightarrow> int option" where
  "caculate ok junk s n = do {
     let st = stack_init ok junk;
     (r, st) \<leftarrow> match_from stack_push stack_pop st s n 0 0;
     (case r of
        None \<Rightarrow> let _ = stack_destory st in Some (- 1)
      | Some cnt \<Rightarrow>
          if stack_len st \<noteq> 0 then let _ = stack_destory st in Some (- 1)
          else let _ = stack_destory st in Some cnt) }"

definition bracket_main :: "bool \<Rightarrow> int list \<Rightarrow> int list \<Rightarrow> int option" where
  "bracket_main ok junk inp = do {
     let s = fgets_buf 100 inp;
     n \<leftarrow> strlen s;
     caculate ok junk s n }"

section \<open>The stack contract\<close>

definition hstack_rep :: "stack_t option \<Rightarrow> int \<Rightarrow> int list \<Rightarrow> bool" where
  "hstack_rep st m xs \<longleftrightarrow> (\<exists>rest. m = STACK_SIZE \<and> int (length xs) + int (length rest) = m \<and>
     st = Some \<lparr>buf = rev xs @ rest, tp = int (length xs), mx = m\<rparr>)"

lemma hstack_rep_init:
  "length junk = 16 \<Longrightarrow> hstack_rep (stack_init True junk) 16 []"
  by (simp add: hstack_rep_def stack_init_def STACK_SIZE_def)

lemma hstack_push_ok:
  assumes "hstack_rep st m xs" and "int (length xs) < m"
  shows "\<exists>st'. stack_push st x = Some (0, st') \<and> hstack_rep st' m (x # xs)"
proof -
  from assms(1) obtain rest where r: "m = STACK_SIZE" "int (length xs) + int (length rest) = m"
    "st = Some \<lparr>buf = rev xs @ rest, tp = int (length xs), mx = m\<rparr>" by (auto simp: hstack_rep_def)
  with assms(2) obtain y ys where "rest = y # ys" by (cases rest) auto
  with r assms(2) show ?thesis
    by (auto simp: stack_push_def wr_mid hstack_rep_def)
qed

lemma hstack_pop_ok:
  assumes "hstack_rep st m (x # xs)"
  shows "\<exists>st'. stack_pop st d = Some (0, x, st') \<and> hstack_rep st' m xs"
proof -
  from assms obtain rest where r: "m = STACK_SIZE" "int (length (x # xs)) + int (length rest) = m"
    "st = Some \<lparr>buf = rev xs @ x # rest, tp = int (length xs) + 1, mx = m\<rparr>"
    by (auto simp: hstack_rep_def algebra_simps)
  then have "rd (rev xs @ x # rest) (int (length xs)) = Some x" by (simp add: rd_mid)
  with r show ?thesis
    by (auto simp: stack_pop_def hstack_rep_def intro!: exI [of _ "x # rest"])
qed

interpretation hs: bounded_stack hstack_rep stack_push stack_pop "\<lambda>st. Some (stack_len st = 0)"
proof (unfold_locales, goal_cases)
  case (1 s m xs)
  then show ?case by (auto simp: hstack_rep_def)
next
  case (2 s m xs x)
  then show ?case by (rule hstack_push_ok)
next
  case (3 s m xs x)
  then show ?case by (auto simp: hstack_rep_def stack_push_def)
next
  case (4 s m x xs d)
  then show ?case by (rule hstack_pop_ok)
next
  case (5 s m d)
  then show ?case by (auto simp: hstack_rep_def stack_pop_def)
next
  case (6 s m xs)
  then show ?case by (auto simp: hstack_rep_def stack_len_def)
qed

lemma haier_caculate_eq:
  assumes "int (length w) \<le> INT_MAX" and "length junk = 16"
  shows "caculate True junk (w @ rest) (int (length w)) = Some (bracket_result 16 w)"
proof -
  have "hstack_rep (stack_init True junk) (int 16) (replicate 0 (ch CHR ''(''))"
    using hstack_rep_init [OF assms(2)] by simp
  from hs.match_from_eq [OF this, of 0 "[]" 0 w rest] assms obtain st' where
    st': "match_from stack_push stack_pop (stack_init True junk) (w @ rest) (int (length w)) 0 0
      = Some (map_option snd (saturating 16 0 0 w), st')"
    "\<forall>d' c. saturating 16 0 0 w = Some (d', c) \<longrightarrow> hstack_rep st' 16 (replicate d' (ch CHR ''(''))"
    by auto
  show ?thesis
  proof (cases "saturating 16 0 0 w")
    case None
    with st'(1) show ?thesis by (simp add: caculate_def bracket_result_def)
  next
    case (Some dc)
    then obtain d' c where dc: "saturating 16 0 0 w = Some (d', c)" by (cases dc) auto
    with st'(2) have "stack_len st' = 0 \<longleftrightarrow> d' = 0"
      using hs.isempty_iff [of st' 16 "replicate d' (ch CHR ''('')"] by (cases d') auto
    with st'(1) dc show ?thesis
      by (auto simp: caculate_def bracket_result_def split: nat.splits)
  qed
qed

section \<open>Properties\<close>

text \<open>
  C10. Bracket matching is right up to a nesting of 16: both programs return the number of pairs
  of a balanced string and -1 on any other, whatever other characters it holds and whatever
  the fresh memory of the stack contains.
\<close>

theorem bracket_match_correct:
  assumes "int (length w) \<le> INT_MAX" and "nesting 0 w \<le> 16" and "length junk = 16"
  shows "BracketMatch.caculate True True (w @ rest) (int (length w))
      = Some (if balanced w then pairs w else - 1) \<and>
    HaierBracket.caculate True junk (w @ rest) (int (length w))
      = Some (if balanced w then pairs w else - 1)"
  using assms by (simp add: bracket_caculate_eq haier_caculate_eq bracket_result_balanced)

theorem bracket_match_correct_witness:
  "BracketMatch.caculate True True [40, 40, 97, 41, 40, 41, 41, 0] 7 = Some 3"
proof -
  let ?w = "[40, 40, 97, 41, 40, 41, 41 :: int]"
  have "scan 0 ?w" by simp
  then have "balanced ?w" by (simp only: scan_iff_balanced)
  then show ?thesis
    using bracket_match_correct [of ?w "replicate 16 0" "[0]"]
    by (simp add: INT_MAX_def pairs_def del: scan.simps)
qed

lemma saturating_opens:
  "d \<le> m \<Longrightarrow> saturating m d cnt (replicate k 40 @ s) = saturating m (min m (d + k)) cnt s"
  by (induction k arbitrary: d) (auto simp: min_def)

lemma saturating_closes:
  "saturating m d cnt (replicate k 41)
    = (if k \<le> d then Some (d - k, cnt + int k) else None)"
  by (induction k arbitrary: d cnt) (auto split: nat.splits)

lemma scan_opens_closes:
  "balanced (replicate k 40 @ replicate j 41) \<longleftrightarrow> k = j"
proof -
  have "scan d (replicate k 40 @ s) = scan (d + k) s" for d s
    by (induction k arbitrary: d) auto
  moreover have "scan d (replicate j 41) = (d = j)" for d
    by (induction j arbitrary: d) (auto split: nat.splits)
  ultimately show ?thesis by (simp add: scan_iff_balanced [symmetric])
qed

lemma bracket_result_opens_closes:
  "bracket_result m (replicate k 40 @ replicate j 41) = (if j = min m k then int j else - 1)"
  by (auto simp: bracket_result_def saturating_opens saturating_closes split: nat.splits)

text \<open>
  Beyond a nesting of 16 both programs are wrong in both directions, because the failed push is
  ignored: \<open>k > 16\<close> opening brackets followed by as many closing ones are balanced but
  rejected, and followed by 16 closing ones they are unbalanced but accepted as 16 pairs.
\<close>

theorem bracket_match_overflow:
  assumes "16 < k" and "int (2 * k) \<le> INT_MAX" and "length junk = 16"
  shows "balanced (replicate k 40 @ replicate k 41) \<and>
    BracketMatch.caculate True True (replicate k 40 @ replicate k 41) (int (2 * k)) = Some (- 1) \<and>
    HaierBracket.caculate True junk (replicate k 40 @ replicate k 41) (int (2 * k)) = Some (- 1) \<and>
    \<not> balanced (replicate k 40 @ replicate 16 41) \<and>
    BracketMatch.caculate True True (replicate k 40 @ replicate 16 41) (int (k + 16)) = Some 16 \<and>
    HaierBracket.caculate True junk (replicate k 40 @ replicate 16 41) (int (k + 16)) = Some 16"
proof -
  have len: "int (length (replicate k 40 @ replicate k (41 :: int))) = int (2 * k)"
    "int (length (replicate k 40 @ replicate 16 (41 :: int))) = int (k + 16)" by simp_all
  have le: "int (2 * k) \<le> INT_MAX" "int (k + 16) \<le> INT_MAX" using assms(1,2) by simp_all
  note app = bracket_caculate_eq [of "replicate k 40 @ replicate k 41" "[]", unfolded append_Nil2 len, OF le(1)]
    bracket_caculate_eq [of "replicate k 40 @ replicate 16 41" "[]", unfolded append_Nil2 len, OF le(2)]
  note haier = haier_caculate_eq [of "replicate k 40 @ replicate k 41" junk "[]",
      unfolded append_Nil2 len, OF le(1) assms(3)]
    haier_caculate_eq [of "replicate k 40 @ replicate 16 41" junk "[]",
      unfolded append_Nil2 len, OF le(2) assms(3)]
  show ?thesis
    unfolding app haier bracket_result_opens_closes scan_opens_closes using assms(1) by simp
qed

theorem bracket_match_overflow_witness:
  "BracketMatch.caculate True True (replicate 17 40 @ replicate 17 41) 34 = Some (- 1)"
  using bracket_match_overflow [of 17 "replicate 16 0"] by (simp add: INT_MAX_def)

end
