(* ===== verification/PowerExpr.thy ===== *)
theory PowerExpr
  imports SeqStack
begin

text \<open>
  \<open>algorithm/stack/app/powerExpression.c\<close>: a tower of powers \<open>a1 ^ a2 ^ ... ^ an\<close>, which associates
  to the right, evaluated with the array stack in \<open>long\<close> arithmetic (64 bits). The local \<open>ret\<close> is
  not initialised, so it is an option here.
\<close>

function push_from :: "stack_t option \<Rightarrow> int list \<Rightarrow> int \<Rightarrow> int \<Rightarrow> stack_t option option" where
  "push_from st arr n i =
     (if i < n - 1 then do {
        x \<leftarrow> rd arr i;
        (_, st') \<leftarrow> stack_push st x;
        push_from st' arr n (i + 1) }
      else Some st)"
  by pat_completeness auto
termination
  by (relation "measure (\<lambda>(st, arr, n, i). nat (n - i))") auto

text \<open>The inner loop, \<open>for (i = 0; i < y; ++i) ret = ret * x\<close>: \<open>i\<close> is an \<open>int\<close>, \<open>y\<close> a \<open>long\<close>.\<close>

function mul_from :: "int \<Rightarrow> int \<Rightarrow> int \<Rightarrow> int \<Rightarrow> int option" where
  "mul_from x y i ret =
     (if i < y then do {
        ret' \<leftarrow> c_long (ret * x);
        _ \<leftarrow> c_int (i + 1);
        mul_from x y (i + 1) ret' }
      else Some ret)"
  by pat_completeness auto
termination
  by (relation "measure (\<lambda>(x, y, i, ret). nat (y - i))") auto

declare push_from.simps [simp del] mul_from.simps [simp del]

partial_function (option) power_loop ::
    "stack_t option \<Rightarrow> int \<Rightarrow> int \<Rightarrow> int option \<Rightarrow> (int option \<times> stack_t option) option" where
  "power_loop st x y ret = do {
     e \<leftarrow> stack_isempty st;
     if \<not> e then do {
       (_, x, st) \<leftarrow> pop_to st x;
       r \<leftarrow> mul_from x y 0 1;
       power_loop st x r (Some r) }
     else Some (ret, st) }"

declare power_loop.simps [code]

text \<open>\<open>x0\<close> is what the uninitialised \<open>x\<close> holds.\<close>

definition caculate :: "bool \<Rightarrow> bool \<Rightarrow> int \<Rightarrow> int list \<Rightarrow> int \<Rightarrow> int option" where
  "caculate m1 m2 x0 arr n =
     (if n = 1 then rd arr 0
      else do {
        let st = stack_init m1 m2 16;
        st \<leftarrow> push_from st arr n 0;
        y \<leftarrow> rd arr (n - 1);
        (ret, st) \<leftarrow> power_loop st x0 y None;
        let _ = stack_destory st;
        ret })"

text \<open>
  \<open>main\<close>: the numbers \<open>scanf\<close> converts are the list \<open>vals\<close>; the array has 16 places, and when
  the input ends the remaining places keep their value.
\<close>

function read_from :: "int list \<Rightarrow> int \<Rightarrow> int \<Rightarrow> int list \<Rightarrow> int list option" where
  "read_from arr n i vals =
     (if i < n then
        (case vals of
           [] \<Rightarrow> read_from arr n (i + 1) []
         | v # vs \<Rightarrow> do { arr' \<leftarrow> wr arr i v; read_from arr' n (i + 1) vs })
      else Some arr)"
  by pat_completeness auto
termination
  by (relation "measure (\<lambda>(arr, n, i, vals). nat (n - i))") auto

declare read_from.simps [simp del]

definition power_main :: "bool \<Rightarrow> bool \<Rightarrow> int \<Rightarrow> int \<Rightarrow> int list \<Rightarrow> int option" where
  "power_main m1 m2 x0 n vals = do {
     arr \<leftarrow> read_from (replicate 16 0) n 0 vals;
     caculate m1 m2 x0 arr n }"

lemma power_main_example: "power_main True True 0 4 [2, 2, 2, 2] = Some 65536"
  by code_simp

section \<open>The value of a tower\<close>

text \<open>An exponent of zero or less gives one, as the loop does.\<close>

fun tower :: "int list \<Rightarrow> int" where
  "tower [] = 1"
| "tower [x] = x"
| "tower (x # xs) = x ^ nat (tower xs)"

text \<open>Every exponent fits the loop counter and every power fits a \<open>long\<close>.\<close>

fun tower_fits :: "int list \<Rightarrow> bool" where
  "tower_fits [] = True"
| "tower_fits [x] = True"
| "tower_fits (x # xs) =
     (tower_fits xs \<and> tower xs \<le> INT_MAX \<and> \<bar>x ^ nat (tower xs)\<bar> \<le> LONG_MAX)"

lemma tower_snoc: "tower (as @ [a, y]) = tower (as @ [a ^ nat y])"
proof (induction as)
  case (Cons b as)
  then show ?case by (cases as) auto
qed simp

lemma tower_fits_snoc:
  "tower_fits (as @ [a, y]) \<Longrightarrow>
    tower_fits (as @ [a ^ nat y]) \<and> y \<le> INT_MAX \<and> \<bar>a ^ nat y\<bar> \<le> LONG_MAX"
proof (induction as)
  case (Cons b as)
  then show ?case using tower_snoc [of as a y] by (cases as) auto
qed simp

lemma power_between:
  fixes x :: int
  assumes "\<bar>x ^ n\<bar> \<le> LONG_MAX" and "k \<le> n"
  shows "in_long (x ^ k)"
proof (cases "x = 0")
  case True
  then show ?thesis by (cases k) (auto simp: int_range)
next
  case False
  then have "\<bar>x\<bar> ^ k \<le> \<bar>x\<bar> ^ n" using assms(2) by (intro power_increasing) auto
  with assms(1) have "\<bar>x ^ k\<bar> \<le> LONG_MAX" by (simp add: power_abs)
  then show ?thesis by (auto simp: in_long_def LONG_MIN_def LONG_MAX_def)
qed

lemma mul_from_eq:
  assumes "\<bar>x ^ nat y\<bar> \<le> LONG_MAX" and "y \<le> INT_MAX" and "0 \<le> i" and "i \<le> y"
  shows "mul_from x y i (x ^ nat i) = Some (x ^ nat y)"
  using assms(3,4)
proof (induction "nat (y - i)" arbitrary: i)
  case 0
  then show ?case by (simp add: mul_from.simps)
next
  case (Suc k)
  then have i: "i < y" by simp
  have p: "x ^ nat i * x = x ^ nat (i + 1)" using Suc.prems by (simp add: nat_add_distrib)
  have "in_long (x ^ nat (i + 1))" using assms(1) i Suc.prems by (intro power_between) auto
  moreover have "in_int (i + 1)" using assms(2) i Suc.prems by (simp add: int_range)
  ultimately have "mul_from x y i (x ^ nat i) = mul_from x y (i + 1) (x ^ nat (i + 1))"
    using i by (subst mul_from.simps) (simp add: p)
  with Suc.hyps(1) [of "i + 1"] Suc.hyps(2) Suc.prems i show ?case by simp
qed

lemma mul_from_start:
  "\<bar>x ^ nat y\<bar> \<le> LONG_MAX \<Longrightarrow> y \<le> INT_MAX \<Longrightarrow> mul_from x y 0 1 = Some (x ^ nat y)"
  using mul_from_eq [of x y 0] by (cases "0 \<le> y") (auto simp: mul_from.simps)

section \<open>The loops\<close>

lemma push_from_eq:
  "stack_rep st m (rev us) \<Longrightarrow> int (length us + length ws) \<le> m \<Longrightarrow>
    n - 1 = int (length us + length ws) \<Longrightarrow>
    \<exists>st'. push_from st (us @ ws @ rest) n (int (length us)) = Some st' \<and> stack_rep st' m (rev (us @ ws))"
proof (induction ws arbitrary: us st)
  case Nil
  then show ?case by (simp add: push_from.simps)
next
  case (Cons w ws)
  then obtain st1 where st1: "stack_push st w = Some (0, st1)" "stack_rep st1 m (w # rev us)"
    using ss.push_ok [of st m "rev us" w] by auto
  have r: "rd (us @ (w # ws) @ rest) (int (length us)) = Some w" by (simp add: rd_mid)
  from Cons.IH [of st1 "us @ [w]"] Cons.prems st1(2) obtain st' where
    "push_from st1 (us @ (w # ws) @ rest) n (int (length us) + 1) = Some st'"
    "stack_rep st' m (rev (us @ w # ws))" by (auto simp: add.commute)
  with st1(1) r Cons.prems show ?case by (subst push_from.simps) simp
qed

lemma power_loop_eq:
  "stack_rep st m xs \<Longrightarrow> tower_fits (rev xs @ [y]) \<Longrightarrow>
    \<exists>st'. power_loop st x0 y ret
      = Some (if xs = [] then ret else Some (tower (rev xs @ [y])), st')"
proof (induction xs arbitrary: st x0 y ret)
  case Nil
  then show ?case using ss.isempty_iff [of st m "[]"] by (subst power_loop.simps) simp
next
  case (Cons x xs)
  from ss.pop_ok [OF Cons.prems(1), of x0] obtain st1 where
    st1: "pop_to st x0 = Some (0, x, st1)" "stack_rep st1 m xs" by blast
  from Cons.prems(2) have f: "tower_fits (rev xs @ [x ^ nat y])" "y \<le> INT_MAX"
    "\<bar>x ^ nat y\<bar> \<le> LONG_MAX" using tower_fits_snoc [of "rev xs" x y] by auto
  from Cons.IH [OF st1(2) f(1), of x "Some (x ^ nat y)"] obtain st' where
    "power_loop st1 x (x ^ nat y) (Some (x ^ nat y)) = Some (Some (tower (rev xs @ [x ^ nat y])), st')"
    by (cases "xs = []") auto
  then show ?case
    using ss.isempty_iff [OF Cons.prems(1)] st1(1) mul_from_start [OF f(3,2)] tower_snoc [of "rev xs" x y]
    by (subst power_loop.simps) simp
qed

section \<open>Properties\<close>

text \<open>
  The program computes the tower of powers, associating to the right, of every array of up to 17
  numbers whose powers fit the machine integers; nothing overflows and the stack of 16 places
  suffices.
\<close>

theorem power_expression_correct:
  assumes "w \<noteq> []" and "length w \<le> 17" and "tower_fits w"
  shows "caculate True True x0 (w @ rest) (int (length w)) = Some (tower w)"
proof (cases "length w = 1")
  case True
  then obtain x where "w = [x]" by (cases w) auto
  then show ?thesis by (simp add: caculate_def rd_def)
next
  case False
  obtain us y where w: "w = us @ [y]" using assms(1) by (metis rev_exhaust)
  with False have us: "us \<noteq> []" by auto
  from push_from_eq [of "stack_init True True 16" 16 "[]" us "int (length w)" "y # rest"]
    stack_rep_init [of 16] assms(2) w
  obtain st1 where st1: "push_from (stack_init True True 16) (w @ rest) (int (length w)) 0 = Some st1"
    "stack_rep st1 16 (rev us)" by auto
  from power_loop_eq [OF st1(2), of y x0 None] assms(3) us w obtain st2 where
    "power_loop st1 x0 y None = Some (Some (tower w), st2)" by auto
  moreover have "rd (w @ rest) (int (length w) - 1) = Some y" by (simp add: w rd_mid)
  ultimately show ?thesis using False st1(1) by (simp add: caculate_def)
qed

theorem power_expression_correct_witness: "caculate True True 0 [2, 3, 2, 9] 3 = Some 512"
  using power_expression_correct [of "[2, 3, 2]" 0 "[9]"] by (simp add: INT_MAX_def LONG_MAX_def)

end
