(* ===== verification/BiTree.thy ===== *)
theory BiTree
  imports CHeap "HOL-Library.Tree"
begin

text \<open>
  Binary trees, \<open>algorithm/tree/bitree/bitree.c\<close>: nodes on the C heap of theory \<open>CHeap\<close>. The
  recursions follow pointers, so they are partial functions, and the theorems include that they
  end. \<open>heap_tree\<close> relates a heap to a tree whose nodes carry their address and their data, no
  two at one address.
\<close>

section \<open>Nodes and operations\<close>

record bitnode =
  b_data :: int
  b_left :: ptr
  b_right :: ptr

type_synonym theap = "bitnode heap"

definition bitnode_alloc :: "theap \<Rightarrow> int \<Rightarrow> ptr \<times> theap" where
  "bitnode_alloc h data = malloc h \<lparr>b_data = data, b_left = None, b_right = None\<rparr>"

definition bitnode_free :: "theap \<Rightarrow> ptr \<Rightarrow> (int \<times> theap) option" where
  "bitnode_free h node =
     (if node = None then Some (- 1, h) else do { h' \<leftarrow> free h node; Some (0, h') })"

partial_function (option) bitree_init :: "theap \<Rightarrow> int \<Rightarrow> int \<Rightarrow> (ptr \<times> theap) option" where
  "bitree_init h start end' =
     (if start > end' then Some (None, h)
      else
        let (root, h) = bitnode_alloc h start
        in if root = None then Some (None, h)
           else do {
             s \<leftarrow> c_int (start * 2);
             (l, h) \<leftarrow> bitree_init h s end';
             n \<leftarrow> load h root;
             h \<leftarrow> store h root (n\<lparr>b_left := l\<rparr>);
             s \<leftarrow> c_int (start * 2 + 1);
             (r, h) \<leftarrow> bitree_init h s end';
             n \<leftarrow> load h root;
             h \<leftarrow> store h root (n\<lparr>b_right := r\<rparr>);
             Some (root, h) })"

partial_function (option) bitree_destory :: "theap \<Rightarrow> ptr \<Rightarrow> (int \<times> theap) option" where
  "bitree_destory h root =
     (if root = None then Some (- 1, h)
      else do {
        n \<leftarrow> load h root;
        (_, h) \<leftarrow> bitree_destory h (b_left n);
        n \<leftarrow> load h root;
        (_, h) \<leftarrow> bitree_destory h (b_right n);
        (_, h) \<leftarrow> bitnode_free h root;
        Some (0, h) })"

text \<open>The traversals return their code and the data in the order \<open>visit\<close> gets them.\<close>

partial_function (option) bitree_preorder :: "theap \<Rightarrow> ptr \<Rightarrow> (int \<times> int list) option" where
  "bitree_preorder h root =
     (if root = None then Some (- 1, [])
      else do {
        n \<leftarrow> load h root;
        (_, ls) \<leftarrow> bitree_preorder h (b_left n);
        (_, rs) \<leftarrow> bitree_preorder h (b_right n);
        Some (0, b_data n # ls @ rs) })"

partial_function (option) bitree_inorder :: "theap \<Rightarrow> ptr \<Rightarrow> (int \<times> int list) option" where
  "bitree_inorder h root =
     (if root = None then Some (- 1, [])
      else do {
        n \<leftarrow> load h root;
        (_, ls) \<leftarrow> bitree_inorder h (b_left n);
        (_, rs) \<leftarrow> bitree_inorder h (b_right n);
        Some (0, ls @ b_data n # rs) })"

partial_function (option) bitree_postorder :: "theap \<Rightarrow> ptr \<Rightarrow> (int \<times> int list) option" where
  "bitree_postorder h root =
     (if root = None then Some (- 1, [])
      else do {
        n \<leftarrow> load h root;
        (_, ls) \<leftarrow> bitree_postorder h (b_left n);
        (_, rs) \<leftarrow> bitree_postorder h (b_right n);
        Some (0, ls @ rs @ [b_data n]) })"

partial_function (option) bitree_getlevel :: "theap \<Rightarrow> ptr \<Rightarrow> int option" where
  "bitree_getlevel h root =
     (if root = None then Some 0
      else do {
        n \<leftarrow> load h root;
        leftlevel \<leftarrow> bitree_getlevel h (b_left n);
        rightlevel \<leftarrow> bitree_getlevel h (b_right n);
        c_int (if leftlevel > rightlevel then leftlevel + 1 else rightlevel + 1) })"

declare bitree_init.simps [code] bitree_destory.simps [code] bitree_preorder.simps [code]
  bitree_inorder.simps [code] bitree_postorder.simps [code] bitree_getlevel.simps [code]

text \<open>The demonstration program: the three traversals and the level of the tree of 1 to 10.\<close>

definition bitree_main :: "theap \<Rightarrow> ((int list \<times> int list \<times> int list \<times> int) \<times> theap) option" where
  "bitree_main h = do {
     (root, h) \<leftarrow> bitree_init h 1 10;
     (_, pre) \<leftarrow> bitree_preorder h root;
     (_, ino) \<leftarrow> bitree_inorder h root;
     (_, post) \<leftarrow> bitree_postorder h root;
     level \<leftarrow> bitree_getlevel h root;
     (_, h) \<leftarrow> bitree_destory h root;
     Some ((pre, ino, post, level), h) }"

lemma bitree_main_output:
  "map_option fst (bitree_main (empty_heap (\<lambda>_. False))) =
    Some ([1, 2, 4, 8, 9, 5, 10, 3, 6, 7], [8, 4, 9, 2, 10, 5, 1, 6, 3, 7],
      [8, 9, 4, 10, 5, 2, 6, 7, 3, 1], 4)"
  by code_simp

section \<open>Trees in the heap\<close>

fun root_ptr :: "(nat \<times> int) tree \<Rightarrow> ptr" where
  "root_ptr Leaf = None"
| "root_ptr (Node l (a, x) r) = Some a"

text \<open>Induction that names the address and the data of a node.\<close>

lemma ptree_induct [case_names Leaf Node]:
  "P Leaf \<Longrightarrow> (\<And>l a x r. P l \<Longrightarrow> P r \<Longrightarrow> P (Node l (a, x) r)) \<Longrightarrow> P (t :: (nat \<times> int) tree)"
  by (induction t) auto

definition addrs :: "(nat \<times> int) tree \<Rightarrow> nat set" where
  "addrs t = fst ` set_tree t"

lemma addrs_simps [simp]:
  "addrs Leaf = {}" "addrs (Node l (a, x) r) = insert a (addrs l \<union> addrs r)"
  by (auto simp: addrs_def)

definition data :: "(nat \<times> int) tree \<Rightarrow> int tree" where
  "data t = map_tree snd t"

lemma data_simps [simp]:
  "data Leaf = Leaf" "data (Node l (a, x) r) = Node (data l) x (data r)"
  by (auto simp: data_def)

fun heap_tree :: "(nat \<Rightarrow> bitnode option) \<Rightarrow> (nat \<times> int) tree \<Rightarrow> bool" where
  "heap_tree c Leaf = True"
| "heap_tree c (Node l (a, x) r) =
     (c a = Some \<lparr>b_data = x, b_left = root_ptr l, b_right = root_ptr r\<rparr> \<and>
      heap_tree c l \<and> heap_tree c r \<and>
      a \<notin> addrs l \<and> a \<notin> addrs r \<and> addrs l \<inter> addrs r = {})"

lemma heap_tree_frame: "(\<And>a. a \<in> addrs t \<Longrightarrow> c' a = c a) \<Longrightarrow> heap_tree c' t = heap_tree c t"
  by (induction c t rule: heap_tree.induct) auto

lemma heap_tree_upd: "a \<notin> addrs t \<Longrightarrow> heap_tree (c(a := v)) t = heap_tree c t"
  by (rule heap_tree_frame) auto

lemma heap_tree_Node:
  assumes "heap_tree c l" and "heap_tree c r" and "a \<notin> addrs l" and "a \<notin> addrs r"
    and "addrs l \<inter> addrs r = {}"
  shows "heap_tree (c(a \<mapsto> \<lparr>b_data = x, b_left = root_ptr l, b_right = root_ptr r\<rparr>)) (Node l (a, x) r)"
  using assms by (simp add: heap_tree_upd)

lemma addrs_dom: "heap_tree c t \<Longrightarrow> addrs t \<subseteq> dom c"
  by (induction c t rule: heap_tree.induct) auto

text \<open>Pointer cases of a tree: what the recursions test.\<close>

lemma root_ptr_None: "root_ptr t = None \<longleftrightarrow> t = Leaf"
  by (cases t rule: root_ptr.cases) auto

section \<open>Reading a tree\<close>

lemma traversals_eq:
  assumes "heap_tree (cells h) t"
  shows "bitree_preorder h (root_ptr t) = Some (if t = Leaf then - 1 else 0, preorder (data t))"
    and "bitree_inorder h (root_ptr t) = Some (if t = Leaf then - 1 else 0, inorder (data t))"
    and "bitree_postorder h (root_ptr t) = Some (if t = Leaf then - 1 else 0, postorder (data t))"
  using assms
proof (induction t rule: ptree_induct)
  case Leaf
  { case 1 show ?case by (simp add: bitree_preorder.simps)
  next case 2 show ?case by (simp add: bitree_inorder.simps)
  next case 3 show ?case by (simp add: bitree_postorder.simps) }
next
  case (Node l a x r)
  { case 1 then show ?case using Node.IH by (subst bitree_preorder.simps) auto
  next case 2 then show ?case using Node.IH by (subst bitree_inorder.simps) auto
  next case 3 then show ?case using Node.IH by (subst bitree_postorder.simps) auto }
qed

lemma getlevel_eq:
  "heap_tree (cells h) t \<Longrightarrow> int (height t) \<le> INT_MAX \<Longrightarrow>
    bitree_getlevel h (root_ptr t) = Some (int (height t))"
proof (induction t rule: ptree_induct)
  case Leaf
  then show ?case by (simp add: bitree_getlevel.simps)
next
  case (Node l a x r)
  then have "in_int (1 + max (int (height l)) (int (height r)))"
    "int (height l) \<le> INT_MAX" "int (height r) \<le> INT_MAX" by (auto simp: int_range max_def split: if_splits)
  with Node show ?case by (subst bitree_getlevel.simps) (auto simp: max_def add.commute)
qed

lemma height_data [simp]: "height (data t) = height t"
  by (simp add: data_def)

section \<open>Freeing a tree\<close>

lemma destory_eq:
  "heap_tree (cells h) t \<Longrightarrow> \<exists>h'. bitree_destory h (root_ptr t) = Some (if t = Leaf then - 1 else 0, h') \<and>
    cells h' = (\<lambda>a. if a \<in> addrs t then None else cells h a) \<and> brk h' = brk h \<and> oom h' = oom h"
proof (induction t arbitrary: h rule: ptree_induct)
  case Leaf
  then show ?case by (simp add: bitree_destory.simps)
next
  case (Node l a x r)
  from Node.IH(1) [of h] Node.prems obtain h1 where h1: "bitree_destory h (root_ptr l) = Some (if l = Leaf then - 1 else 0, h1)"
    "cells h1 = (\<lambda>b. if b \<in> addrs l then None else cells h b)" "brk h1 = brk h" "oom h1 = oom h" by auto
  have "heap_tree (cells h1) r"
    using Node.prems by (subst heap_tree_frame [of r _ "cells h"]) (auto simp: h1(2))
  from Node.IH(2) [OF this] obtain h2 where h2: "bitree_destory h1 (root_ptr r) = Some (if r = Leaf then - 1 else 0, h2)"
    "cells h2 = (\<lambda>b. if b \<in> addrs r then None else cells h1 b)" "brk h2 = brk h1" "oom h2 = oom h1" by auto
  have "cells h1 a = cells h a" "cells h2 a = cells h a" using Node.prems by (auto simp: h1(2) h2(2))
  with Node.prems h1 h2 show ?case
    by (subst bitree_destory.simps) (auto simp: bitnode_free_def free_def fun_eq_iff)
qed

section \<open>Building a tree\<close>

text \<open>The tree of the numbers up to \<open>n\<close> below \<open>s\<close>: the children of \<open>k\<close> are \<open>2 k\<close> and \<open>2 k + 1\<close>.\<close>

function numbering :: "int \<Rightarrow> int \<Rightarrow> int tree" where
  "numbering s n =
     (if s < 1 \<or> n < s then Leaf
      else Node (numbering (2 * s) n) s (numbering (2 * s + 1) n))"
  by pat_completeness auto
termination
  by (relation "measure (\<lambda>(s, n). nat (n + 1 - s))") auto

declare numbering.simps [simp del]

text \<open>
  What \<open>bitree_init\<close> does to the heap whichever allocations fail: it only adds the nodes of the
  tree it returns, so nothing is lost. If none fails, the tree is the numbering.
\<close>

definition built :: "theap \<Rightarrow> (nat \<times> int) tree \<Rightarrow> theap \<Rightarrow> bool" where
  "built h t h' \<longleftrightarrow> heap_ok h' \<and> heap_tree (cells h') t \<and> addrs t \<subseteq> {brk h..<brk h'} \<and>
     brk h \<le> brk h' \<and> oom h' = oom h \<and> (\<forall>a. a \<notin> addrs t \<longrightarrow> cells h' a = cells h a)"

lemma builtD:
  assumes "built h t h'"
  shows "heap_ok h'" "heap_tree (cells h') t" "addrs t \<subseteq> {brk h..<brk h'}" "brk h \<le> brk h'"
    "oom h' = oom h" "a \<notin> addrs t \<Longrightarrow> cells h' a = cells h a"
  using assms by (auto simp: built_def)

text \<open>The root's cell is filled in two stores, one after each subtree.\<close>

lemma built_Node:
  assumes ok: "heap_ok h" and a: "a = brk h"
    and h1: "h1 = h\<lparr>cells := (cells h)(a \<mapsto> \<lparr>b_data = x, b_left = None, b_right = None\<rparr>), brk := Suc a\<rparr>"
    and l: "built h1 l h2"
    and h3: "h3 = h2\<lparr>cells := (cells h2)(a \<mapsto> \<lparr>b_data = x, b_left = root_ptr l, b_right = None\<rparr>)\<rparr>"
    and r: "built h3 r h4"
  shows "cells h2 a = Some \<lparr>b_data = x, b_left = None, b_right = None\<rparr>"
    and "cells h4 a = Some \<lparr>b_data = x, b_left = root_ptr l, b_right = None\<rparr>"
    and "built h (Node l (a, x) r) (h4\<lparr>cells := (cells h4)
      (a \<mapsto> \<lparr>b_data = x, b_left = root_ptr l, b_right = root_ptr r\<rparr>)\<rparr>)"
proof -
  note L = builtD [OF l] and R = builtD [OF r]
  have brk: "brk h1 = Suc a" "brk h3 = brk h2" by (simp_all add: h1 h3)
  have al: "a \<notin> addrs l" using L(3) brk by auto
  have ar: "a \<notin> addrs r" using R(3) L(4) brk by auto
  have lr: "addrs l \<inter> addrs r = {}" using L(3) R(3) brk by fastforce
  show "cells h2 a = Some \<lparr>b_data = x, b_left = None, b_right = None\<rparr>"
    using L(6) [OF al] by (simp add: h1)
  show c4: "cells h4 a = Some \<lparr>b_data = x, b_left = root_ptr l, b_right = None\<rparr>"
    using R(6) [OF ar] by (simp add: h3)
  have l4: "heap_tree (cells h4) l"
  proof -
    have "cells h4 b = cells h2 b" if "b \<in> addrs l" for b
    proof -
      from that lr al have "b \<notin> addrs r" "b \<noteq> a" by auto
      then show ?thesis using R(6) [of b] by (simp add: h3)
    qed
    then show ?thesis using L(2) heap_tree_frame [of l "cells h4" "cells h2"] by blast
  qed
  have "cells h4 b = cells h b" if "b \<noteq> a" "b \<notin> addrs l" "b \<notin> addrs r" for b
    using that R(6) [of b] L(6) [of b] by (simp add: h1 h3)
  moreover have "a < brk h4" using L(4) R(4) brk by simp
  moreover have "addrs l \<union> addrs r \<subseteq> {brk h..<brk h4}" using L(3,4) R(3,4) brk a by fastforce
  ultimately show "built h (Node l (a, x) r) (h4\<lparr>cells := (cells h4)
      (a \<mapsto> \<lparr>b_data = x, b_left = root_ptr l, b_right = root_ptr r\<rparr>)\<rparr>)"
    using R(1,2,5) L(5) l4 al ar lr a
    by (auto simp: built_def heap_tree_upd h1 h3 heap_ok_upd)
qed

lemma bitree_init_eq:
  "heap_ok h \<Longrightarrow> 1 \<le> s \<Longrightarrow> 2 * n + 1 \<le> INT_MAX \<Longrightarrow>
    \<exists>t h'. bitree_init h s n = Some (root_ptr t, h') \<and> built h t h' \<and>
      ((\<forall>k. \<not> oom h k) \<longrightarrow> data t = numbering s n)"
proof (induction "nat (n + 1 - s)" arbitrary: s h rule: less_induct)
  case less
  show ?case
  proof (cases "n < s")
    case True
    then show ?thesis using less.prems
      by (intro exI [of _ Leaf] exI [of _ h]) (simp add: bitree_init.simps built_def numbering.simps)
  next
    case sn: False
    show ?thesis
    proof (cases "oom h (brk h)")
      case True
      then show ?thesis using less.prems sn
        by (intro exI [of _ Leaf] exI [of _ "h\<lparr>brk := Suc (brk h)\<rparr>"])
          (auto simp: bitree_init.simps [of h s n] bitnode_alloc_def malloc_def built_def heap_ok_def)
    next
      case False
      let ?a = "brk h"
      let ?h1 = "h\<lparr>cells := (cells h)(?a \<mapsto> \<lparr>b_data = s, b_left = None, b_right = None\<rparr>), brk := Suc ?a\<rparr>"
      have ok1: "heap_ok ?h1" using less.prems(1) by (rule heap_ok_alloc)
      have ints: "in_int (s * 2)" "in_int (s * 2 + 1)" using sn less.prems by (simp_all add: int_range)
      have m: "nat (n + 1 - s * 2) < nat (n + 1 - s)" "nat (n + 1 - (s * 2 + 1)) < nat (n + 1 - s)"
        using sn less.prems by auto
      from less.hyps [OF m(1) ok1] less.prems obtain l h2 where
        l: "bitree_init ?h1 (s * 2) n = Some (root_ptr l, h2)" "built ?h1 l h2"
        "(\<forall>k. \<not> oom h k) \<longrightarrow> data l = numbering (2 * s) n" by (auto simp: mult.commute)
      let ?h3 = "h2\<lparr>cells := (cells h2)(?a \<mapsto> \<lparr>b_data = s, b_left = root_ptr l, b_right = None\<rparr>)\<rparr>"
      have ok3: "heap_ok ?h3"
        using builtD(1,4) [OF l(2)] by (intro heap_ok_upd) auto
      from less.hyps [OF m(2) ok3] less.prems builtD(5) [OF l(2)] obtain r h4 where
        r: "bitree_init ?h3 (s * 2 + 1) n = Some (root_ptr r, h4)" "built ?h3 r h4"
        "(\<forall>k. \<not> oom h k) \<longrightarrow> data r = numbering (2 * s + 1) n" by (auto simp: mult.commute)
      note N = built_Node [OF less.prems(1) refl refl l(2) refl r(2)]
      let ?h5 = "h4\<lparr>cells := (cells h4)(?a \<mapsto> \<lparr>b_data = s, b_left = root_ptr l, b_right = root_ptr r\<rparr>)\<rparr>"
      have "bitree_init h s n = Some (Some ?a, ?h5)"
        using sn False ints l(1) r(1) N(1,2)
        by (subst bitree_init.simps) (simp add: bitnode_alloc_def malloc_def store_def)
      moreover have "data (Node l (?a, s) r) = numbering s n" if "\<forall>k. \<not> oom h k"
        using that l(3) r(3) sn less.prems(2) by (subst numbering.simps) simp
      ultimately show ?thesis using N(3) by (intro exI [of _ "Node l (?a, s) r"] exI [of _ ?h5]) simp
    qed
  qed
qed

section \<open>The numbering\<close>

lemma div_pow_le: "0 \<le> k \<Longrightarrow> (k::int) div 2 ^ j \<le> k"
  using zdiv_mono2 [of k 1 "2 ^ j"] by simp

lemma div_pow_add: "(k::int) div 2 ^ (i + j) = k div 2 ^ i div 2 ^ j"
  by (simp add: power_add zdiv_zmult2_eq)

lemma div_pow_ge: "(k::int) div 2 ^ j = s \<Longrightarrow> 1 \<le> s \<Longrightarrow> s \<le> k"
  using div_pow_le [of k j] div_neg_pos_less0 [of k "2 ^ j"] by (cases "0 \<le> k") auto

text \<open>\<open>k\<close> occurs below \<open>s\<close> when \<open>s\<close> is one of its ancestors, that is, \<open>k\<close> divided by a power of two.\<close>

lemma set_numbering: "1 \<le> s \<Longrightarrow> k \<in> set_tree (numbering s n) \<longleftrightarrow> k \<le> n \<and> (\<exists>j. k div 2 ^ j = s)"
proof (induction s n rule: numbering.induct)
  case (1 s n)
  show ?case
  proof (cases "n < s")
    case True
    then have "\<not> (k \<le> n \<and> (\<exists>j. k div 2 ^ j = s))" using div_pow_ge [OF _ 1(3), of k] by force
    with True show ?thesis by (simp add: numbering.simps)
  next
    case False
    have "(\<exists>j. k div 2 ^ j = s) \<longleftrightarrow>
        k = s \<or> (\<exists>j. k div 2 ^ j = 2 * s) \<or> (\<exists>j. k div 2 ^ j = 2 * s + 1)"
    proof (intro iffI; (elim disjE exE)?)
      fix j assume j: "k div 2 ^ j = s"
      show "k = s \<or> (\<exists>j. k div 2 ^ j = 2 * s) \<or> (\<exists>j. k div 2 ^ j = 2 * s + 1)"
      proof (cases j)
        case 0
        with j show ?thesis by simp
      next
        case (Suc i)
        with j have "(k div 2 ^ i) div 2 = s" by (simp add: div_mult2_eq mult.commute [of 2] zdiv_zmult2_eq)
        then have "k div 2 ^ i = 2 * s \<or> k div 2 ^ i = 2 * s + 1" by linarith
        then show ?thesis by blast
      qed
    next
      assume "k = s"
      then have "k div 2 ^ 0 = s" by simp
      then show "\<exists>j. k div 2 ^ j = s" by blast
    next
      fix j assume "k div 2 ^ j = 2 * s"
      then have "k div 2 ^ Suc j = s" by (simp add: mult.commute [of 2] zdiv_zmult2_eq)
      then show "\<exists>j. k div 2 ^ j = s" by blast
    next
      fix j assume "k div 2 ^ j = 2 * s + 1"
      then have "k div 2 ^ Suc j = s" by (simp add: mult.commute [of 2] zdiv_zmult2_eq)
      then show "\<exists>j. k div 2 ^ j = s" by blast
    qed
    with 1 False show ?thesis by (subst numbering.simps) auto
  qed
qed

lemma ancestor_one: "1 \<le> k \<Longrightarrow> \<exists>j. (k::int) div 2 ^ j = 1"
proof (induction "nat k" arbitrary: k rule: less_induct)
  case less
  show ?case
  proof (cases "k = 1")
    case True
    then show ?thesis by (intro exI [of _ 0]) simp
  next
    case False
    with less.prems have "1 \<le> k div 2" "nat (k div 2) < nat k" by linarith+
    with less.hyps obtain j where "k div 2 div 2 ^ j = 1" by blast
    then show ?thesis by (intro exI [of _ "Suc j"]) (simp add: zdiv_zmult2_eq)
  qed
qed

lemma set_numbering_one: "set_tree (numbering 1 n) = {1..n}"
proof -
  have "1 \<le> k" if "k div 2 ^ j = 1" for k :: int and j
    using div_pow_ge [OF that] by simp
  then show ?thesis using ancestor_one by (auto simp: set_numbering)
qed

lemma distinct_numbering: "1 \<le> s \<Longrightarrow> distinct (inorder (numbering s n))"
proof (induction s n rule: numbering.induct)
  case (1 s n)
  show ?case
  proof (cases "n < s")
    case True
    then show ?thesis by (simp add: numbering.simps)
  next
    case False
    have low: "2 * s \<le> k" if "k div 2 ^ j = 2 * s \<or> k div 2 ^ j = 2 * s + 1" for k j
      using that div_pow_ge [of k j "2 * s"] div_pow_ge [of k j "2 * s + 1"] 1(3) by auto
    have disj: "False" if "k div 2 ^ i = 2 * s" "k div 2 ^ j = 2 * s + 1" for k i j
    proof (cases i j rule: linorder_cases)
      case less
      then obtain d where d: "j = i + Suc d" using less_imp_Suc_add by auto
      have "k div 2 ^ j = k div 2 ^ i div 2 ^ Suc d" unfolding d by (rule div_pow_add)
      also have "\<dots> \<le> 2 * s" using that(1) 1(3) by (simp add: div_pow_le del: power_Suc)
      finally show ?thesis using that(2) by simp
    next
      case equal
      with that show ?thesis by simp
    next
      case greater
      then obtain d where d: "i = j + Suc d" using less_imp_Suc_add by auto
      have "k div 2 ^ i = k div 2 ^ j div 2 ^ Suc d" unfolding d by (rule div_pow_add)
      also have "\<dots> = (2 * s + 1) div 2 div 2 ^ d" using that(2) by (simp add: zdiv_zmult2_eq)
      also have "\<dots> \<le> s" using 1(3) by (simp add: div_pow_le del: power_Suc)
      finally show ?thesis using that(1) 1(3) by simp
    qed
    have "s \<notin> set_tree (numbering (2 * s) n)" "s \<notin> set_tree (numbering (2 * s + 1) n)"
      using low [of s] 1(3) by (auto simp: set_numbering)
    moreover have "set_tree (numbering (2 * s) n) \<inter> set_tree (numbering (2 * s + 1) n) = {}"
      using disj 1(3) by (auto simp: set_numbering)
    ultimately show ?thesis using 1 False by (subst numbering.simps) auto
  qed
qed

text \<open>The left spine is the longest path.\<close>

lemma height_numbering_mono:
  "1 \<le> s \<Longrightarrow> s \<le> s' \<Longrightarrow> height (numbering s' n) \<le> height (numbering s n)"
proof (induction s n arbitrary: s' rule: numbering.induct)
  case (1 s n)
  show ?case
  proof (cases "n < s'")
    case True
    then show ?thesis by (simp add: numbering.simps)
  next
    case False
    with 1(3,4) 1(1) [of "2 * s'"] 1(2) [of "2 * s' + 1"] show ?thesis
      by (simp add: numbering.simps [of s n] numbering.simps [of s' n] max_def)
  qed
qed

lemma height_numbering:
  "1 \<le> s \<Longrightarrow> s \<le> n \<Longrightarrow>
    s * 2 ^ (height (numbering s n) - 1) \<le> n \<and> n < s * 2 ^ height (numbering s n)"
proof (induction s n rule: numbering.induct)
  case (1 s n)
  have h: "height (numbering s n) = Suc (height (numbering (2 * s) n))"
    using 1(3,4) height_numbering_mono [of "2 * s" "2 * s + 1" n]
    by (subst numbering.simps) (simp add: max_def)
  show ?case
  proof (cases "2 * s \<le> n")
    case True
    then have "0 < height (numbering (2 * s) n)"
      using 1(3) by (subst numbering.simps) auto
    with 1(1) 1(3,4) True h show ?thesis
      by (cases "height (numbering (2 * s) n)") (auto simp: algebra_simps)
  next
    case False
    then have "numbering (2 * s) n = Leaf" using 1(3) by (simp add: numbering.simps)
    with h False 1(4) show ?thesis by simp
  qed
qed

section \<open>Properties\<close>

text \<open>
  C12. Building and destroying a tree: whatever allocations fail on the way, \<open>bitree_init\<close> returns a
  well-formed tree, the traversals of that tree are the three orders of its data, and
  \<open>bitree_destory\<close> gives back every node, so the heap's cells are the ones there were before.
\<close>

theorem bitree_lifecycle:
  assumes "heap_ok h" and "1 \<le> s" and "2 * n + 1 \<le> INT_MAX"
  shows "\<exists>root h1 c1 c2 c3 c4 t h2. bitree_init h s n = Some (root, h1) \<and>
    bitree_preorder h1 root = Some (c1, preorder t) \<and>
    bitree_inorder h1 root = Some (c2, inorder t) \<and>
    bitree_postorder h1 root = Some (c3, postorder t) \<and>
    ((\<forall>k. \<not> oom h k) \<longrightarrow> t = numbering s n) \<and>
    bitree_destory h1 root = Some (c4, h2) \<and> cells h2 = cells h"
proof -
  from bitree_init_eq [OF assms] obtain t h1 where
    t: "bitree_init h s n = Some (root_ptr t, h1)" "built h t h1"
    "(\<forall>k. \<not> oom h k) \<longrightarrow> data t = numbering s n" by blast
  note B = builtD [OF t(2)]
  from destory_eq [OF B(2)] obtain h2 where
    h2: "bitree_destory h1 (root_ptr t) = Some (if t = Leaf then - 1 else 0, h2)"
    "cells h2 = (\<lambda>a. if a \<in> addrs t then None else cells h1 a)" by blast
  have "cells h a = None" if "a \<in> addrs t" for a
    using that B(3) assms(1) by (auto simp: heap_ok_def)
  then have "cells h2 = cells h" using B(6) by (auto simp: h2(2))
  with t(1,3) h2(1) traversals_eq [OF B(2)] show ?thesis
    by (intro exI [of _ "root_ptr t"] exI [of _ h1] exI [of _ "if t = Leaf then - 1 else 0"]
        exI [of _ "data t"] exI [of _ h2]) simp
qed

theorem bitree_lifecycle_witness:
  "\<exists>root h1 c t c4 h2. bitree_init (empty_heap (\<lambda>_. False)) 1 3 = Some (root, h1) \<and>
    bitree_inorder h1 root = Some (c, inorder t) \<and> t = numbering 1 3 \<and>
    bitree_destory h1 root = Some (c4, h2) \<and> cells h2 = (\<lambda>_. None)"
  using bitree_lifecycle [of "empty_heap (\<lambda>_. False)" 1 3]
  by (simp add: INT_MAX_def) blast

text \<open>
  The tree \<open>bitree_init (1, n)\<close> builds holds each number from 1 to \<open>n\<close> exactly once, and
  \<open>bitree_getlevel\<close> returns its number of levels \<open>L\<close>, the one with \<open>2 ^ (L - 1) <= n < 2 ^ L\<close>.
\<close>

theorem bitree_init_numbers:
  assumes "heap_ok h" and "\<forall>k. \<not> oom h k" and "1 \<le> n" and "2 * n + 1 \<le> INT_MAX"
  shows "\<exists>root h1 xs L. bitree_init h 1 n = Some (root, h1) \<and>
    bitree_inorder h1 root = Some (0, xs) \<and> set xs = {1..n} \<and> distinct xs \<and>
    bitree_getlevel h1 root = Some (int L) \<and> 2 ^ (L - 1) \<le> n \<and> n < 2 ^ L"
proof -
  from bitree_init_eq [OF assms(1) order.refl assms(4)] assms(2) obtain t h1 where
    t: "bitree_init h 1 n = Some (root_ptr t, h1)" "built h t h1" "data t = numbering 1 n" by blast
  let ?L = "height (numbering 1 n)"
  have ne: "t \<noteq> Leaf" using t(3) assms(3) by (auto simp: numbering.simps)
  have L: "2 ^ (?L - 1) \<le> n" "n < 2 ^ ?L" using height_numbering [of 1 n] assms(3) by simp_all
  have "?L - 1 < 31"
  proof (rule ccontr)
    assume "\<not> ?L - 1 < 31"
    then have "(2::int) ^ 31 \<le> 2 ^ (?L - 1)" by (intro power_increasing) auto
    with L(1) assms(4) show False by (simp add: INT_MAX_def)
  qed
  then have "int (height t) \<le> INT_MAX" using height_data [of t] by (simp add: t(3) INT_MAX_def)
  from getlevel_eq [OF builtD(2) [OF t(2)] this] have
    "bitree_getlevel h1 (root_ptr t) = Some (int ?L)" using height_data [of t] by (simp add: t(3))
  with t(1,3) ne L traversals_eq(2) [OF builtD(2) [OF t(2)]] show ?thesis
    by (intro exI [of _ "root_ptr t"] exI [of _ h1] exI [of _ "inorder (numbering 1 n)"] exI [of _ ?L])
      (simp add: set_numbering_one distinct_numbering)
qed

theorem bitree_init_numbers_witness:
  "\<exists>root h1 xs L. bitree_init (empty_heap (\<lambda>_. False)) 1 10 = Some (root, h1) \<and>
    bitree_inorder h1 root = Some (0, xs) \<and> set xs = {1..10} \<and> distinct xs \<and>
    bitree_getlevel h1 root = Some (int L) \<and> 2 ^ (L - 1) \<le> (10::int) \<and> 10 < (2::int) ^ L"
  using bitree_init_numbers [of "empty_heap (\<lambda>_. False)" 10]
  by (simp add: INT_MAX_def)

lemma bitree_init_nonpos:
  assumes "bitree_init h s n = Some r"
  shows "(\<forall>k. \<not> oom h k) \<longrightarrow> \<not> (s \<le> 0 \<and> s \<le> n)"
proof (rule bitree_init.raw_induct [OF _ assms], intro impI notI, elim conjE, goal_cases)
  case (1 f h s n r)
  then have "oom h (brk h) = False" by simp
  with 1 obtain l h2 where "f (snd (bitnode_alloc h s)) (s * 2) n = Some (l, h2)"
    by (auto simp: bitnode_alloc_def malloc_def c_int_eq_Some split: Option.bind_splits)
  from 1(1) [OF this] 1(3-5) show ?case by (simp add: bitnode_alloc_def malloc_def)
qed

text \<open>
  Started at zero or below, \<open>bitree_init\<close> never returns a tree: it goes down the left for ever
  (or, below zero, until the doubling overflows) as long as there is memory.
\<close>

theorem bitree_init_nonpositive_undefined:
  assumes "\<forall>k. \<not> oom h k" and "s \<le> 0" and "s \<le> n"
  shows "bitree_init h s n = None"
  using bitree_init_nonpos [of h s n] assms by (cases "bitree_init h s n") auto

theorem bitree_init_nonpositive_undefined_witness:
  "bitree_init (empty_heap (\<lambda>_. False)) 0 5 = None"
  by (rule bitree_init_nonpositive_undefined) simp_all

end
