(* ===== verification/FindSort.thy ===== *)
theory FindSort
  imports BiTree
begin

text \<open>
  The binary search tree program \<open>algorithm/tree/app/findSort/main.c\<close>, on the nodes of
  \<open>bitree.c\<close>: insertion, search, and sorting by the inorder traversal.
\<close>

section \<open>Operations\<close>

partial_function (option) find :: "theap \<Rightarrow> ptr \<Rightarrow> int \<Rightarrow> ptr option" where
  "find h root key =
     (if root = None then Some None
      else do {
        n \<leftarrow> load h root;
        if key = b_data n then Some root
        else if key < b_data n then find h (b_left n) key
        else find h (b_right n) key })"

partial_function (option) insert_node :: "theap \<Rightarrow> ptr \<Rightarrow> int \<Rightarrow> (ptr \<times> theap) option" where
  "insert_node h root key =
     (if root = None then Some (bitnode_alloc h key)
      else do {
        n \<leftarrow> load h root;
        if key < b_data n then do {
          (l, h) \<leftarrow> insert_node h (b_left n) key;
          n \<leftarrow> load h root;
          h \<leftarrow> store h root (n\<lparr>b_left := l\<rparr>);
          Some (root, h) }
        else if key > b_data n then do {
          (r, h) \<leftarrow> insert_node h (b_right n) key;
          n \<leftarrow> load h root;
          h \<leftarrow> store h root (n\<lparr>b_right := r\<rparr>);
          Some (root, h) }
        else Some (root, h) })"

declare find.simps [code] insert_node.simps [code]

text \<open>The three traversals, with what \<open>print_data\<close> prints.\<close>

definition print_preorder :: "theap \<Rightarrow> ptr \<Rightarrow> int list option" where
  "print_preorder h root = do { (_, xs) \<leftarrow> bitree_preorder h root; Some xs }"

definition print_inorder :: "theap \<Rightarrow> ptr \<Rightarrow> int list option" where
  "print_inorder h root = do { (_, xs) \<leftarrow> bitree_inorder h root; Some xs }"

definition print_postorder :: "theap \<Rightarrow> ptr \<Rightarrow> int list option" where
  "print_postorder h root = do { (_, xs) \<leftarrow> bitree_postorder h root; Some xs }"

declare print_preorder_def [simp] print_inorder_def [simp] print_postorder_def [simp]

text \<open>\<open>sort\<close> prints the inorder traversal.\<close>

definition sort_tree :: "theap \<Rightarrow> ptr \<Rightarrow> int list option" where
  "sort_tree h root = do { (_, xs) \<leftarrow> bitree_inorder h root; Some xs }"

text \<open>The loop of \<open>main\<close> that reads and inserts the numbers, and \<open>main\<close>: what it prints.\<close>

fun insert_all :: "theap \<Rightarrow> ptr \<Rightarrow> int list \<Rightarrow> (ptr \<times> theap) option" where
  "insert_all h root [] = Some (root, h)"
| "insert_all h root (x # xs) = do { (root, h) \<leftarrow> insert_node h root x; insert_all h root xs }"

definition findsort_main ::
    "theap \<Rightarrow> int list \<Rightarrow> int \<Rightarrow> ((int list \<times> int list \<times> int list \<times> int list \<times> int option) \<times> theap) option" where
  "findsort_main h xs f = do {
     (root, h) \<leftarrow> insert_all h None xs;
     pre \<leftarrow> print_preorder h root;
     ino \<leftarrow> print_inorder h root;
     post \<leftarrow> print_postorder h root;
     srt \<leftarrow> sort_tree h root;
     tmp \<leftarrow> find h root f;
     found \<leftarrow> (if tmp = None then Some None else do { n \<leftarrow> load h tmp; Some (Some (b_data n)) });
     (_, h) \<leftarrow> bitree_destory h root;
     Some ((pre, ino, post, srt, found), h) }"

section \<open>Search trees\<close>

text \<open>Insertion into a tree of numbers, the specification.\<close>

fun ins :: "int \<Rightarrow> int tree \<Rightarrow> int tree" where
  "ins x Leaf = Node Leaf x Leaf"
| "ins x (Node l y r) =
     (if x < y then Node (ins x l) y r else if x > y then Node l y (ins x r) else Node l y r)"

lemma set_ins [simp]: "set_tree (ins x t) = insert x (set_tree t)"
  by (induction t) auto

lemma bst_ins [simp]: "bst t \<Longrightarrow> bst (ins x t)"
  by (induction t) auto

lemma set_fold_ins: "set_tree (fold ins xs t) = set xs \<union> set_tree t"
  by (induction xs arbitrary: t) auto

lemma bst_fold_ins: "bst t \<Longrightarrow> bst (fold ins xs t)"
  by (induction xs arbitrary: t) auto

lemma set_data: "set_tree (data t) = snd ` set_tree t"
  by (simp add: data_def tree.set_map)

text \<open>The search finds the node of the key, when there is one.\<close>

lemma find_eq:
  "heap_tree (cells h) t \<Longrightarrow> bst (data t) \<Longrightarrow>
    (if x \<in> set_tree (data t)
     then \<exists>a n. find h (root_ptr t) x = Some (Some a) \<and> a \<in> addrs t \<and> cells h a = Some n \<and> b_data n = x
     else find h (root_ptr t) x = Some None)"
proof (induction t rule: ptree_induct)
  case Leaf
  then show ?case by (simp add: find.simps)
next
  case (Node l a y r)
  have step: "find h (Some a) x = (if x = y then Some (Some a)
      else if x < y then find h (root_ptr l) x else find h (root_ptr r) x)"
    using Node.prems by (subst find.simps) simp
  consider "x = y" | "x < y" | "y < x" by linarith
  then show ?case
  proof cases
    case 1
    with step Node.prems show ?thesis by simp
  next
    case 2
    then have "x \<in> set_tree (data (Node l (a, y) r)) \<longleftrightarrow> x \<in> set_tree (data l)"
      using Node.prems(2) by fastforce
    with 2 step Node show ?thesis by auto
  next
    case 3
    then have "x \<in> set_tree (data (Node l (a, y) r)) \<longleftrightarrow> x \<in> set_tree (data r)"
      using Node.prems(2) by fastforce
    with 3 step Node show ?thesis by auto
  qed
qed

text \<open>
  One insertion with memory available: the tree of the specification, at most one new node, no
  other cell touched.
\<close>

text \<open>
  What an insertion into the tree \<open>t\<close> of the heap leaves: the tree \<open>t'\<close> has the data of the
  specification, at most one new address, and nothing outside it has changed.
\<close>

definition inserted :: "theap \<Rightarrow> (nat \<times> int) tree \<Rightarrow> int \<Rightarrow> (nat \<times> int) tree \<Rightarrow> theap \<Rightarrow> bool" where
  "inserted h t x t' h' \<longleftrightarrow> insert_node h (root_ptr t) x = Some (root_ptr t', h') \<and> heap_ok h' \<and>
      heap_tree (cells h') t' \<and> data t' = ins x (data t) \<and> addrs t \<subseteq> addrs t' \<and>
      addrs t' \<subseteq> insert (brk h) (addrs t) \<and> brk h \<le> brk h' \<and> oom h' = (\<lambda>_. False) \<and>
      (\<forall>a. a \<notin> addrs t' \<longrightarrow> cells h' a = cells h a)"

lemma inserted_left:
  assumes "inserted h l x l' h1" and "heap_ok h" and "heap_tree (cells h) (Node l (a, y) r)" and "x < y"
  shows "\<exists>h'. inserted h (Node l (a, y) r) x (Node l' (a, y) r) h'"
proof -
  have below: "addrs (Node l (a, y) r) \<subseteq> {..<brk h}"
    using addrs_dom [OF assms(3)] heap_okD [OF assms(2)] by auto
  from assms(1) have l': "insert_node h (root_ptr l) x = Some (root_ptr l', h1)" "heap_ok h1" "heap_tree (cells h1) l'"
    "data l' = ins x (data l)" "addrs l \<subseteq> addrs l'" "addrs l' \<subseteq> insert (brk h) (addrs l)"
    "brk h \<le> brk h1" "oom h1 = (\<lambda>_. False)" "\<forall>a. a \<notin> addrs l' \<longrightarrow> cells h1 a = cells h a"
    by (auto simp: inserted_def)
  have al: "a \<notin> addrs l'" and rl: "addrs l' \<inter> addrs r = {}" using l'(6) assms(3) below by auto
  have ca: "cells h1 a = Some \<lparr>b_data = y, b_left = root_ptr l, b_right = root_ptr r\<rparr>"
    using l'(9) al assms(3) by simp
  have r1: "heap_tree (cells h1) r"
    using assms(3) rl l'(9) by (subst heap_tree_frame [of r _ "cells h"]) auto
  let ?h = "h1\<lparr>cells := (cells h1)(a \<mapsto> \<lparr>b_data = y, b_left = root_ptr l', b_right = root_ptr r\<rparr>)\<rparr>"
  have "insert_node h (Some a) x = Some (Some a, ?h)"
    using assms(3,4) l'(1) ca by (subst insert_node.simps) (simp add: store_def)
  moreover have "heap_ok ?h" using l'(2,7) below by (intro heap_ok_upd) auto
  moreover have "heap_tree (cells ?h) (Node l' (a, y) r)"
    using heap_tree_Node [OF l'(3) r1 al _ rl] assms(3) by (simp del: fun_upd_apply heap_tree.simps) simp
  ultimately have "inserted h (Node l (a, y) r) x (Node l' (a, y) r) ?h"
    using assms(4) l' by (auto simp: inserted_def simp del: heap_tree.simps fun_upd_apply simp: fun_upd_other)
  then show ?thesis ..
qed

lemma inserted_right:
  assumes "inserted h r x r' h1" and "heap_ok h" and "heap_tree (cells h) (Node l (a, y) r)" and "y < x"
  shows "\<exists>h'. inserted h (Node l (a, y) r) x (Node l (a, y) r') h'"
proof -
  have below: "addrs (Node l (a, y) r) \<subseteq> {..<brk h}"
    using addrs_dom [OF assms(3)] heap_okD [OF assms(2)] by auto
  from assms(1) have r': "insert_node h (root_ptr r) x = Some (root_ptr r', h1)" "heap_ok h1" "heap_tree (cells h1) r'"
    "data r' = ins x (data r)" "addrs r \<subseteq> addrs r'" "addrs r' \<subseteq> insert (brk h) (addrs r)"
    "brk h \<le> brk h1" "oom h1 = (\<lambda>_. False)" "\<forall>a. a \<notin> addrs r' \<longrightarrow> cells h1 a = cells h a"
    by (auto simp: inserted_def)
  have ar: "a \<notin> addrs r'" and rl: "addrs l \<inter> addrs r' = {}" using r'(6) assms(3) below by auto
  have ca: "cells h1 a = Some \<lparr>b_data = y, b_left = root_ptr l, b_right = root_ptr r\<rparr>"
    using r'(9) ar assms(3) by simp
  have l1: "heap_tree (cells h1) l"
    using assms(3) rl r'(9) by (subst heap_tree_frame [of l _ "cells h"]) auto
  let ?h = "h1\<lparr>cells := (cells h1)(a \<mapsto> \<lparr>b_data = y, b_left = root_ptr l, b_right = root_ptr r'\<rparr>)\<rparr>"
  have "insert_node h (Some a) x = Some (Some a, ?h)"
    using assms(3,4) r'(1) ca by (subst insert_node.simps) (simp add: store_def)
  moreover have "heap_ok ?h" using r'(2,7) below by (intro heap_ok_upd) auto
  moreover have "heap_tree (cells ?h) (Node l (a, y) r')"
    using heap_tree_Node [OF l1 r'(3) _ ar rl] assms(3) by (simp del: fun_upd_apply heap_tree.simps) simp
  ultimately have "inserted h (Node l (a, y) r) x (Node l (a, y) r') ?h"
    using assms(4) r' by (auto simp: inserted_def simp del: heap_tree.simps fun_upd_apply simp: fun_upd_other)
  then show ?thesis ..
qed

lemma insert_node_eq:
  "heap_ok h \<Longrightarrow> heap_tree (cells h) t \<Longrightarrow> oom h = (\<lambda>_. False) \<Longrightarrow> \<exists>t' h'. inserted h t x t' h'"
proof (induction t rule: ptree_induct)
  case Leaf
  then show ?case
    by (intro exI [of _ "Node Leaf (brk h, x) Leaf"])
      (simp add: inserted_def insert_node.simps bitnode_alloc_def malloc_def heap_ok_def fun_eq_iff)
next
  case (Node l a y r)
  consider "x = y" | "x < y" | "y < x" by linarith
  then show ?case
  proof cases
    case 1
    then show ?thesis using Node.prems
      by (intro exI [of _ "Node l (a, y) r"] exI [of _ h]) (auto simp: inserted_def insert_node.simps)
  next
    case 2
    from Node.IH(1) Node.prems obtain l' h1 where "inserted h l x l' h1" by auto
    from inserted_left [OF this Node.prems(1,2) 2] show ?thesis by blast
  next
    case 3
    from Node.IH(2) Node.prems obtain r' h1 where "inserted h r x r' h1" by auto
    from inserted_right [OF this Node.prems(1,2) 3] show ?thesis by blast
  qed
qed

text \<open>Inserting a sequence into a tree whose nodes are the only new cells since \<open>h0\<close>.\<close>

lemma insert_all_eq:
  "heap_ok h \<Longrightarrow> heap_tree (cells h) t \<Longrightarrow> oom h = (\<lambda>_. False) \<Longrightarrow>
    \<forall>a. a \<notin> addrs t \<longrightarrow> cells h a = cells h0 a \<Longrightarrow> \<forall>a \<in> addrs t. cells h0 a = None \<Longrightarrow>
    \<forall>a \<ge> brk h. cells h0 a = None \<Longrightarrow>
    \<exists>t' h'. insert_all h (root_ptr t) xs = Some (root_ptr t', h') \<and> heap_tree (cells h') t' \<and>
      data t' = fold ins xs (data t) \<and> (\<forall>a. a \<notin> addrs t' \<longrightarrow> cells h' a = cells h0 a) \<and>
      (\<forall>a \<in> addrs t'. cells h0 a = None)"
proof (induction xs arbitrary: h t)
  case Nil
  then show ?case by (intro exI [of _ t] exI [of _ h]) simp
next
  case (Cons x xs)
  from insert_node_eq [OF Cons.prems(1-3), of x] obtain t1 h1 where
    t1: "insert_node h (root_ptr t) x = Some (root_ptr t1, h1)" "heap_ok h1" "heap_tree (cells h1) t1"
    "data t1 = ins x (data t)" "addrs t \<subseteq> addrs t1" "addrs t1 \<subseteq> insert (brk h) (addrs t)"
    "brk h \<le> brk h1" "oom h1 = (\<lambda>_. False)" "\<forall>a. a \<notin> addrs t1 \<longrightarrow> cells h1 a = cells h a" unfolding inserted_def by blast
  have "\<forall>a. a \<notin> addrs t1 \<longrightarrow> cells h1 a = cells h0 a" using t1(5,9) Cons.prems(4) by auto
  moreover have "\<forall>a \<in> addrs t1. cells h0 a = None" using t1(6) Cons.prems(5,6) by auto
  moreover have "\<forall>a \<ge> brk h1. cells h0 a = None" using t1(7) Cons.prems(6) by auto
  ultimately obtain t' h' where "insert_all h1 (root_ptr t1) xs = Some (root_ptr t', h')"
    "heap_tree (cells h') t'" "data t' = fold ins xs (data t1)"
    "\<forall>a. a \<notin> addrs t' \<longrightarrow> cells h' a = cells h0 a" "\<forall>a \<in> addrs t'. cells h0 a = None"
    using Cons.IH [OF t1(2,3)] t1(8) Cons.prems(3) by auto
  with t1(1,4) show ?case by auto
qed

section \<open>Properties\<close>

lemma sorted_distinct_set_unique:
  "sorted_wrt (<) (xs :: int list) \<Longrightarrow> set xs = set ys \<Longrightarrow> xs = sorted_list_of_set (set ys)"
  by (metis sorted_list_of_set.idem_if_sorted_distinct strict_sorted_iff)

text \<open>
  C11. The search tree program: for every list of numbers and every number looked for, the tree it
  builds prints the numbers in increasing order without repetition, reports the number found
  exactly when it was in the list, and leaves the heap as it was.
\<close>

theorem findsort_correct:
  assumes "heap_ok h" and "\<forall>k. \<not> oom h k"
  shows "\<exists>pre post h'. findsort_main h xs f = Some
      ((pre, sorted_list_of_set (set xs), post, sorted_list_of_set (set xs),
        if f \<in> set xs then Some f else None), h') \<and>
    set pre = set xs \<and> set post = set xs \<and> cells h' = cells h"
proof -
  from assms(2) have "oom h = (\<lambda>_. False)" by auto
  with insert_all_eq [of h Leaf h xs] assms(1) obtain t h1 where
    t: "insert_all h None xs = Some (root_ptr t, h1)" "heap_tree (cells h1) t"
    "data t = fold ins xs Leaf" "\<forall>a. a \<notin> addrs t \<longrightarrow> cells h1 a = cells h a"
    "\<forall>a \<in> addrs t. cells h a = None" by (auto simp: heap_ok_def)
  have b: "bst (data t)" "set_tree (data t) = set xs"
    by (simp_all add: t(3) bst_fold_ins set_fold_ins)
  then have ino: "inorder (data t) = sorted_list_of_set (set xs)"
    using sorted_distinct_set_unique [of "inorder (data t)" xs] by (simp add: bst_iff_sorted_wrt_less)
  from destory_eq [OF t(2)] obtain h2 where
    h2: "bitree_destory h1 (root_ptr t) = Some (if t = Leaf then - 1 else 0, h2)"
    "cells h2 = (\<lambda>a. if a \<in> addrs t then None else cells h1 a)" by blast
  have "cells h2 = cells h" using t(4,5) by (auto simp: h2(2))
  moreover have "\<exists>tmp. find h1 (root_ptr t) f = Some tmp \<and>
      (if tmp = None then Some None else do { n \<leftarrow> load h1 tmp; Some (Some (b_data n)) })
        = Some (if f \<in> set xs then Some f else None)"
    using find_eq [OF t(2) b(1), of f] b(2) by (cases "f \<in> set xs") auto
  ultimately show ?thesis
    using t(1) traversals_eq [OF t(2)] ino h2(1) b(2)
    by (auto simp: findsort_main_def sort_tree_def)
qed

theorem findsort_correct_witness:
  "\<exists>pre post h'. findsort_main (empty_heap (\<lambda>_. False)) [5, 2, 8, 2] 8
    = Some ((pre, [2, 5, 8], post, [2, 5, 8], Some 8), h') \<and> cells h' = (\<lambda>_. None)"
proof -
  have s: "sorted_list_of_set (set [5, 2, 8, 2 :: int]) = [2, 5, 8]"
    by (rule sym, rule sorted_distinct_set_unique) auto
  show ?thesis
    using findsort_correct [of "empty_heap (\<lambda>_. False)" "[5, 2, 8, 2]" 8, unfolded s] by auto
qed

text \<open>
  The README says that the order in which the numbers are inserted is the preorder traversal of
  the tree. It is not: inserting 2, 3, 1 gives the preorder 2, 1, 3.
\<close>

theorem findsort_preorder_differs:
  "\<exists>xs pre rest h'. findsort_main (empty_heap (\<lambda>_. False)) xs 0 = Some ((pre, rest), h') \<and>
    distinct xs \<and> pre \<noteq> xs"
proof -
  have "map_option (\<lambda>r. fst (fst r)) (findsort_main (empty_heap (\<lambda>_. False)) [2, 3, 1] 0)
      = Some [2, 1, 3]" by code_simp
  then obtain pre rest h' where
    "findsort_main (empty_heap (\<lambda>_. False)) [2, 3, 1] 0 = Some ((pre, rest), h')" "pre = [2, 1, 3]"
    by (cases "findsort_main (empty_heap (\<lambda>_. False)) [2, 3, 1] 0") auto
  then show ?thesis
    by (intro exI [of _ "[2, 3, 1]"] exI [of _ pre] exI [of _ rest] exI [of _ h']) simp
qed

end
