(* ===== verification/Lexer.thy ===== *)
theory Lexer
  imports Prelude
begin

text \<open>
  What the three \<open>getop\<close> functions of the expression programs share: skipping blanks and reading
  a run of characters into the caller's buffer \<open>char s[8]\<close>, which nothing bounds (a write behind
  the buffer is undefined). \<open>atoi\<close>, and the decimal digits of a number for the theorems.
\<close>

text \<open>\<open>while ((s[0] = getchar()) == ' ' || s[0] == '\t')\<close>\<close>

fun skip_blanks :: "int list \<Rightarrow> int list \<Rightarrow> (int list \<times> int list) option" where
  "skip_blanks s [] = do { s \<leftarrow> wr s 0 EOF; Some (s, []) }"
| "skip_blanks s (c # cs) = do {
     s \<leftarrow> wr s 0 (schar c);
     if schar c = 32 \<or> schar c = 9 then skip_blanks s cs else Some (s, cs) }"

text \<open>
  \<open>while (isdigit(s[++i] = c = getchar()))\<close>, for \<open>isdigit\<close> or \<open>isalpha\<close>: the buffer, the index and
  the value \<open>getchar\<close> returned last.
\<close>

fun read_while :: "(int \<Rightarrow> bool) \<Rightarrow> int list \<Rightarrow> int \<Rightarrow> int list \<Rightarrow>
    (int list \<times> int \<times> int \<times> int list) option" where
  "read_while p s i [] = do { s \<leftarrow> wr s (i + 1) EOF; Some (s, i + 1, EOF, []) }"
| "read_while p s i (c # cs) = do {
     s \<leftarrow> wr s (i + 1) (schar c);
     if p (schar c) then read_while p s (i + 1) cs else Some (s, i + 1, c, cs) }"

text \<open>\<open>atoi\<close> on a string of digits, the only ones it is called on.\<close>

fun atoi_from :: "int \<Rightarrow> int list \<Rightarrow> int option" where
  "atoi_from acc [] = None"
| "atoi_from acc (c # cs) = (if isdigit c then atoi_from (acc * 10 + (c - 48)) cs else Some acc)"

definition atoi :: "int list \<Rightarrow> int option" where
  "atoi s = do { v \<leftarrow> atoi_from 0 s; c_int v }"

section \<open>Reading words\<close>

lemma skip_blanks_blank: "length s = 8 \<Longrightarrow> skip_blanks s (32 # cs) = skip_blanks (s[0 := 32]) cs"
  by (simp add: wr_def schar_def)

lemma skip_blanks_char:
  "length s = 8 \<Longrightarrow> c \<noteq> 32 \<Longrightarrow> c \<noteq> 9 \<Longrightarrow> schar c = c \<Longrightarrow> skip_blanks s (c # cs) = Some (s[0 := c], cs)"
  by (simp add: wr_def)

text \<open>A word that fits the buffer, followed by a character that ends it.\<close>

lemma read_while_buf:
  assumes "\<forall>c\<in>set w. schar c = c \<and> p c" and "schar d = d" and "\<not> p d"
    and "length s = 8" and "Suc (length w) < 8"
  shows "read_while p (s[0 := c0]) 0 (w @ d # cs) =
      Some (c0 # w @ d # drop (length w + 2) s, int (length w) + 1, d, cs)"
proof -
  have gen: "read_while p (us @ ys @ x # zs) i (w @ d # cs) =
      Some (us @ w @ d # zs, i + int (length w) + 1, d, cs)"
    if "length ys = length w" "i = int (length us) - 1" "\<forall>c\<in>set w. schar c = c \<and> p c"
    for us ys x zs i w
    using that
  proof (induction w arbitrary: us ys i)
    case Nil
    with assms(2,3) show ?case by (simp add: wr_mid)
  next
    case (Cons c w)
    then obtain y ys' where ys: "ys = y # ys'" by (cases ys) auto
    have "wr (us @ ys @ x # zs) (i + 1) c = Some ((us @ [c]) @ ys' @ x # zs)"
      using Cons.prems by (simp add: ys wr_mid)
    with Cons.IH [of ys' "i + 1" "us @ [c]"] Cons.prems show ?case by (simp add: ys)
  qed
  obtain a s' where s: "s = a # s'" using assms(4) by (cases s) auto
  have d: "drop (length w) s' = s' ! length w # drop (Suc (length w)) s'"
    using assms(4,5) s by (simp add: Cons_nth_drop_Suc)
  have "s[0 := c0] = [c0] @ take (length w) s' @ s' ! length w # drop (length w + 2) s"
    using append_take_drop_id [of "length w" s'] unfolding d by (simp add: s)
  with gen [where us = "[c0]" and ys = "take (length w) s'" and i = 0 and w = w
      and x = "s' ! length w" and zs = "drop (length w + 2) s"] assms s
  show ?thesis by (simp add: add.commute)
qed

text \<open>A word that does not fit: the character behind its eighth is written behind the buffer.\<close>

lemma read_while_overflow:
  "\<forall>c\<in>set w. p (schar c) \<Longrightarrow> 0 \<le> i \<Longrightarrow> i < int (length s) \<Longrightarrow> int (length s) \<le> i + int (length w) + 1 \<Longrightarrow>
    read_while p s i (w @ cs) = None"
proof (induction w arbitrary: s i)
  case Nil
  then show ?case by (cases cs) (simp_all add: wr_out)
next
  case (Cons c w)
  show ?case
  proof (cases "i + 1 < int (length s)")
    case True
    then have "wr s (i + 1) (schar c) = Some (s[nat (i + 1) := schar c])"
      using Cons.prems by (simp add: wr_in)
    with Cons.IH [of "i + 1" "s[nat (i + 1) := schar c]"] Cons.prems True show ?thesis by simp
  next
    case False
    then have "wr s (i + 1) (schar c) = None" by (simp add: wr_out)
    then show ?thesis by simp
  qed
qed

section \<open>Decimal numbers\<close>

fun digits :: "nat \<Rightarrow> int list" where
  "digits n = (if n < 10 then [48 + int n] else digits (n div 10) @ [48 + int (n mod 10)])"

declare digits.simps [simp del]

lemma digits_isdigit: "c \<in> set (digits n) \<Longrightarrow> isdigit c \<and> schar c = c"
proof (induction n rule: digits.induct)
  case (1 n)
  then show ?case by (subst (asm) digits.simps) (auto simp: isdigit_def schar_def split: if_splits)
qed

lemma digits_not_Nil [simp]: "digits n \<noteq> []"
  by (subst digits.simps) simp

lemma length_digits: "n < 10 ^ k \<Longrightarrow> 0 < k \<Longrightarrow> length (digits n) \<le> k"
proof (induction n arbitrary: k rule: digits.induct)
  case (1 n)
  show ?case
  proof (cases "n < 10")
    case True
    with 1 show ?thesis by (subst digits.simps) simp
  next
    case False
    then obtain j where k: "k = Suc (Suc j)" using 1(2,3) by (cases k; cases "k - 1") auto
    have "n div 10 < 10 ^ Suc j" using 1(2) k by (simp add: less_mult_imp_div_less mult.commute)
    with 1(1) [OF False, of "Suc j"] False k show ?thesis by (subst digits.simps) simp
  qed
qed

lemma atoi_from_digits: "atoi_from acc (digits n @ cs) = atoi_from (acc * 10 ^ length (digits n) + int n) cs"
proof (induction n arbitrary: acc cs rule: digits.induct)
  case (1 n)
  show ?case
  proof (cases "n < 10")
    case True
    then show ?thesis by (simp add: digits.simps isdigit_def)
  next
    case False
    obtain q r where qr: "n div 10 = q" "n mod 10 = r" "n = 10 * q + r"
      by (metis mult_div_mod_eq)
    have "r < 10" using qr(2) by auto
    then have "isdigit (48 + int r)" by (simp add: isdigit_def)
    moreover have "digits n = digits q @ [48 + int r]"
      using False by (subst digits.simps) (simp only: qr(1,2) if_False)
    ultimately
    show ?thesis using 1 [OF False] by (simp add: qr(1)) (simp add: qr(3) algebra_simps)
  qed
qed

lemma atoi_digits: "n < 10 ^ 7 \<Longrightarrow> atoi (digits n @ 0 # cs) = Some (int n)"
  by (simp add: atoi_def atoi_from_digits isdigit_def int_range)

end
