(* ===== verification/Expr.thy ===== *)
theory Expr
  imports Lexer
begin

text \<open>
  Arithmetic expressions, the specification side of the two expression programs: their value in
  C's arithmetic, their postfix and infix text, and the resources their evaluation takes.
\<close>

datatype arith = Plus | Minus | Times | Quot | Rem

datatype expr = Num nat | Bin arith expr expr

fun arith_char :: "arith \<Rightarrow> int" where
  "arith_char Plus = ch CHR ''+''"
| "arith_char Minus = ch CHR ''-''"
| "arith_char Times = ch CHR ''*''"
| "arith_char Quot = ch CHR ''/''"
| "arith_char Rem = ch CHR ''%''"

fun arith_val :: "arith \<Rightarrow> int \<Rightarrow> int \<Rightarrow> int option" where
  "arith_val Plus x y = c_int (x + y)"
| "arith_val Minus x y = c_int (x - y)"
| "arith_val Times x y = c_int (x * y)"
| "arith_val Quot x y = c_div x y"
| "arith_val Rem x y = c_mod x y"

text \<open>The value of an expression: none when an operation overflows or divides by zero.\<close>

fun eval :: "expr \<Rightarrow> int option" where
  "eval (Num n) = Some (int n)"
| "eval (Bin f l r) = do { x \<leftarrow> eval l; y \<leftarrow> eval r; arith_val f x y }"

text \<open>Every token of the postfix text is followed by a blank.\<close>

fun postfix :: "expr \<Rightarrow> int list" where
  "postfix (Num n) = digits n @ [32]"
| "postfix (Bin f l r) = postfix l @ postfix r @ [arith_char f, 32]"

text \<open>The stack places a postfix evaluation takes, and the numbers and operators that occur.\<close>

fun places :: "expr \<Rightarrow> nat" where
  "places (Num n) = 1"
| "places (Bin f l r) = max (places l) (Suc (places r))"

fun numbers :: "expr \<Rightarrow> nat set" where
  "numbers (Num n) = {n}"
| "numbers (Bin f l r) = numbers l \<union> numbers r"

fun operators :: "expr \<Rightarrow> arith set" where
  "operators (Num n) = {}"
| "operators (Bin f l r) = insert f (operators l \<union> operators r)"

text \<open>A file of expressions, one on each line.\<close>

fun program :: "expr list \<Rightarrow> int list" where
  "program [] = []"
| "program (e # es) = postfix e @ 10 # program es"

lemma eval_Bin:
  assumes "eval (Bin f l r) = Some v"
  obtains x y where "eval l = Some x" "eval r = Some y" "arith_val f x y = Some v"
  using assms by (auto split: Option.bind_splits)

lemma arith_char_cases: "arith_char f \<in> {43, 45, 42, 47, 37}"
  by (cases f) auto

lemma arith_val_fun:
  "arith_val Plus = (\<lambda>x y. c_int (x + y))" "arith_val Minus = (\<lambda>x y. c_int (x - y))"
  "arith_val Times = (\<lambda>x y. c_int (x * y))" "arith_val Quot = c_div" "arith_val Rem = c_mod"
  by (simp_all add: fun_eq_iff)

lemma places_pos: "0 < places e"
  by (cases e) auto

lemma eval_in_int: "eval e = Some v \<Longrightarrow> \<forall>n\<in>numbers e. n < 10 ^ 7 \<Longrightarrow> in_int v"
  by (cases e; cases "case e of Bin f l r \<Rightarrow> f | _ \<Rightarrow> Plus")
    (auto simp: c_int_eq_Some c_div_def c_mod_def int_range split: Option.bind_splits if_splits)

end
