(* ===== verification/Postfix.thy ===== *)
theory Postfix
  imports Expr SeqStack
begin

text \<open>
  The calculator for postfix expressions, \<open>algorithm/stack/app/postfixExpression.c\<close>: \<open>getop\<close>
  splits the input into tokens, \<open>main\<close> runs them on the array stack. Standard input is the list
  of its bytes, the printed numbers are collected. \<open>op1\<close>, \<open>op2\<close> and the buffer are not
  initialised in the code; their first values are parameters.
\<close>

section \<open>The program\<close>

datatype optype = END | NUMBER | OPERATOR

definition getop :: "int list \<Rightarrow> int list \<Rightarrow> (optype \<times> int list \<times> int list) option" where
  "getop s inp = do {
     (s, inp) \<leftarrow> skip_blanks s inp;
     c \<leftarrow> rd s 0;
     if c = EOF then do { s \<leftarrow> wr s 1 0; Some (END, s, inp) }
     else if isdigit c then do {
       (s, i, _, inp) \<leftarrow> read_while isdigit s 0 inp;
       d \<leftarrow> rd s i;
       let inp = (if d \<noteq> EOF then ungetc d inp else inp);
       s \<leftarrow> wr s i 0;
       Some (NUMBER, s, inp) }
     else do { s \<leftarrow> wr s 1 0; Some (OPERATOR, s, inp) } }"

text \<open>The locals of \<open>main\<close> that the loop changes, and what it has printed.\<close>

record calc =
  stk :: "stack_t option"
  op1 :: int
  op2 :: int
  sbuf :: "int list"
  out :: "int list"

text \<open>Two pops, the operation, a push.\<close>

definition binop :: "(int \<Rightarrow> int \<Rightarrow> int option) \<Rightarrow> calc \<Rightarrow> calc option" where
  "binop f k = do {
     (_, y, st) \<leftarrow> pop_to (stk k) (op2 k);
     (_, x, st) \<leftarrow> pop_to st (op1 k);
     v \<leftarrow> f x y;
     (_, st) \<leftarrow> stack_push st v;
     Some (k\<lparr>stk := st, op1 := x, op2 := y\<rparr>) }"

text \<open>One iteration of the loop on a token. An unknown operator only prints a message on \<open>stderr\<close>.\<close>

definition exec_op :: "optype \<Rightarrow> calc \<Rightarrow> calc option" where
  "exec_op ty k =
     (if ty = NUMBER then do {
        v \<leftarrow> atoi (sbuf k);
        (_, st) \<leftarrow> stack_push (stk k) v;
        Some (k\<lparr>stk := st\<rparr>) }
      else do {
        c \<leftarrow> rd (sbuf k) 0;
        if c = ch CHR ''+'' then binop (\<lambda>x y. c_int (x + y)) k
        else if c = ch CHR ''-'' then binop (\<lambda>x y. c_int (x - y)) k
        else if c = ch CHR ''*'' then binop (\<lambda>x y. c_int (x * y)) k
        else if c = ch CHR ''/'' then binop c_div k
        else if c = ch CHR 0x0A then do {
          (_, x, st) \<leftarrow> pop_to (stk k) (op1 k);
          Some (k\<lparr>stk := st, op1 := x, out := out k @ [x]\<rparr>) }
        else Some k })"

partial_function (option) calc_loop :: "calc \<Rightarrow> int list \<Rightarrow> calc option" where
  "calc_loop k inp = do {
     (ty, s, inp) \<leftarrow> getop (sbuf k) inp;
     let k = k\<lparr>sbuf := s\<rparr>;
     if ty = END then Some k else do { k \<leftarrow> exec_op ty k; calc_loop k inp } }"

declare calc_loop.simps [code]

definition postfix_main ::
    "bool \<Rightarrow> bool \<Rightarrow> int list \<Rightarrow> int \<Rightarrow> int \<Rightarrow> int list \<Rightarrow> (int \<times> int list) option" where
  "postfix_main m1 m2 s0 x0 y0 inp =
     (let st = stack_init m1 m2 16
      in if st = None then Some (- 1, [])
         else do {
           k \<leftarrow> calc_loop \<lparr>stk = st, op1 = x0, op2 = y0, sbuf = s0, out = []\<rparr> inp;
           let _ = stack_destory (stk k);
           Some (0, out k) })"

lemma postfix_main_example:
  "postfix_main True True (replicate 8 0) 0 0 (map ch ''1 2 + 3 4 + *'' @ [10]) = Some (0, [21])"
  by code_simp

section \<open>Tokens\<close>

lemma getop_blank: "length s = 8 \<Longrightarrow> getop s (32 # cs) = getop (s[0 := 32]) cs"
  by (simp only: getop_def skip_blanks_blank)

lemma calc_loop_blank:
  "length (sbuf k) = 8 \<Longrightarrow> calc_loop k (32 # cs) = calc_loop (k\<lparr>sbuf := (sbuf k)[0 := 32]\<rparr>) cs"
  by (subst (1 2) calc_loop.simps) (simp add: getop_blank)

lemma getop_operator:
  assumes "length s = 8" and "c \<noteq> 32" and "c \<noteq> 9" and "schar c = c" and "c \<noteq> EOF" and "\<not> isdigit c"
  shows "getop s (c # cs) = Some (OPERATOR, s[0 := c, 1 := 0], cs)"
proof -
  from assms(1) have ne: "s \<noteq> []" by auto
  with assms show ?thesis
    using skip_blanks_char [OF assms(1-4), of cs] by (simp add: getop_def wr_def rd_def)
qed

lemma getop_number:
  assumes "length s = 8" and "n < 10 ^ 7"
  shows "\<exists>s'. getop s (digits n @ 32 # cs) = Some (NUMBER, s', 32 # cs) \<and> length s' = 8 \<and>
    atoi s' = Some (int n)"
proof -
  obtain c w where cw: "digits n = c # w" using digits_not_Nil by (cases "digits n") auto
  have c: "isdigit c" "schar c = c" using digits_isdigit [of c n] cw by auto
  have w: "\<forall>d\<in>set w. schar d = d \<and> isdigit d" using digits_isdigit [of _ n] cw by auto
  have len: "Suc (length w) < 8" using length_digits [OF assms(2)] cw by simp
  have d: "schar 32 = 32" "\<not> isdigit 32" "c \<noteq> 32" "c \<noteq> 9" "c \<noteq> EOF"
    using c(1) by (auto simp: schar_def isdigit_def EOF_def)
  have s: "length (s[0 := c]) = 8" using assms(1) by simp
  let ?s = "c # w @ 32 # drop (length w + 2) s" and ?s' = "c # w @ 0 # drop (length w + 2) s"
  have sk: "skip_blanks s (digits n @ 32 # cs) = Some (s[0 := c], w @ 32 # cs)"
    using skip_blanks_char [OF assms(1) d(3,4) c(2)] by (simp only: cw append_Cons)
  have rw: "read_while isdigit (s[0 := c]) 0 (w @ 32 # cs) = Some (?s, int (length w) + 1, 32, cs)"
    by (rule read_while_buf) (use w d assms(1) len in auto)
  have "rd ?s (int (length w) + 1) = Some 32" "wr ?s (int (length w) + 1) 0 = Some ?s'"
    using rd_mid [of "int (length w) + 1" "c # w"] wr_mid [of "int (length w) + 1" "c # w"] by simp_all
  moreover have "rd (s[0 := c]) 0 = Some c" using assms(1) by (cases s) (auto simp: rd_def)
  ultimately have "getop s (digits n @ 32 # cs) = Some (NUMBER, ?s', 32 # cs)"
    using sk rw c d assms(1) by (simp add: getop_def ungetc_def EOF_def)
  moreover have "atoi ?s' = Some (int n)" using atoi_digits [OF assms(2)] by (simp add: cw [symmetric] flip: append_Cons)
  ultimately show ?thesis using assms(1) len by auto
qed

section \<open>Running an expression\<close>

text \<open>What the loop needs to start a token: a buffer of eight characters and a stack of 16.\<close>

definition ready :: "calc \<Rightarrow> int list \<Rightarrow> bool" where
  "ready k xs \<longleftrightarrow> stack_rep (stk k) 16 xs \<and> length (sbuf k) = 8"

lemma exec_binop:
  assumes "ready k (y # x # xs)" and "f x y = Some v"
  shows "\<exists>k'. binop f k = Some k' \<and> ready k' (v # xs) \<and> out k' = out k"
proof -
  have r: "stack_rep (stk k) 16 (y # x # xs)" "length (sbuf k) = 8"
    using assms(1) by (simp_all add: ready_def)
  from ss.pop_ok [OF r(1)] obtain st1 where
    st1: "pop_to (stk k) (op2 k) = Some (0, y, st1)" "stack_rep st1 16 (x # xs)" by blast
  from ss.pop_ok [OF st1(2)] obtain st2 where
    st2: "pop_to st1 (op1 k) = Some (0, x, st2)" "stack_rep st2 16 xs" by blast
  from ss.rep_bound [OF r(1)] ss.push_ok [OF st2(2), of v] obtain st3 where
    "stack_push st2 v = Some (0, st3)" "stack_rep st3 16 (v # xs)" by auto
  with st1(1) st2(1) assms(2) r(2) show ?thesis by (simp add: binop_def ready_def)
qed

text \<open>A token that is an operator character, followed by a blank.\<close>

lemma calc_loop_operator:
  assumes "length (sbuf k) = 8" and "c \<in> {43, 45, 42, 47}"
    and "exec_op OPERATOR (k\<lparr>sbuf := (sbuf k)[0 := c, 1 := 0]\<rparr>) = Some k'" and "length (sbuf k') = 8"
  shows "calc_loop k (c # 32 # cs) = calc_loop (k'\<lparr>sbuf := (sbuf k')[0 := 32]\<rparr>) cs"
proof -
  have "getop (sbuf k) (c # 32 # cs) = Some (OPERATOR, (sbuf k)[0 := c, 1 := 0], 32 # cs)"
    using assms(1,2) by (intro getop_operator) (auto simp: schar_def EOF_def isdigit_def)
  with assms(3) have "calc_loop k (c # 32 # cs) = calc_loop k' (32 # cs)"
    by (subst calc_loop.simps) simp
  with calc_loop_blank [OF assms(4)] show ?thesis by simp
qed

lemma calc_loop_binop:
  assumes "ready k (y # x # xs)" and "f x y = Some v" and "c \<in> {43, 45, 42, 47}"
    and "\<And>k. rd (sbuf k) 0 = Some c \<Longrightarrow> exec_op OPERATOR k = binop f k"
  shows "\<exists>k'. calc_loop k (c # 32 # cs) = calc_loop k' cs \<and> ready k' (v # xs) \<and> out k' = out k"
proof -
  let ?k = "k\<lparr>sbuf := (sbuf k)[0 := c, 1 := 0]\<rparr>"
  have s: "length (sbuf k) = 8" and k: "ready ?k (y # x # xs)"
    using assms(1) by (simp_all add: ready_def)
  from exec_binop [of ?k y x xs f v, OF k assms(2)] obtain k' where
    k': "binop f ?k = Some k'" "ready k' (v # xs)" "out k' = out k" by auto
  have "rd (sbuf ?k) 0 = Some c" using s by (simp add: rd_def)
  from assms(4) [OF this] k'(1) have "exec_op OPERATOR ?k = Some k'" by simp
  from calc_loop_operator [OF s assms(3) this] k' show ?thesis
    by (intro exI [of _ "k'\<lparr>sbuf := (sbuf k')[0 := 32]\<rparr>"]) (simp add: ready_def)
qed

lemma exec_op_arith:
  "rd (sbuf k) 0 = Some (arith_char f) \<Longrightarrow> f \<noteq> Rem \<Longrightarrow> exec_op OPERATOR k = binop (arith_val f) k"
  by (cases f) (simp_all add: exec_op_def arith_val_fun)

text \<open>
  The postfix text of an expression leaves its value on the stack: the state after it goes on
  with the rest of the input.
\<close>

lemma calc_loop_expr:
  "ready k xs \<Longrightarrow> eval e = Some v \<Longrightarrow> length xs + places e \<le> 16 \<Longrightarrow>
    \<forall>n\<in>numbers e. n < 10 ^ 7 \<Longrightarrow> Rem \<notin> operators e \<Longrightarrow>
    \<exists>k'. calc_loop k (postfix e @ cs) = calc_loop k' cs \<and> ready k' (v # xs) \<and> out k' = out k"
proof (induction e arbitrary: k xs v cs)
  case (Num n)
  from Num.prems getop_number [of "sbuf k" n cs] obtain s' where
    s': "getop (sbuf k) (digits n @ 32 # cs) = Some (NUMBER, s', 32 # cs)" "length s' = 8"
    "atoi s' = Some (int n)" by (auto simp: ready_def)
  from Num.prems ss.push_ok [of "stk k" 16 xs v] obtain st where
    st: "stack_push (stk k) v = Some (0, st)" "stack_rep st 16 (v # xs)" by (auto simp: ready_def)
  let ?k = "k\<lparr>sbuf := s', stk := st\<rparr>"
  have "calc_loop k (digits n @ 32 # cs) = calc_loop ?k (32 # cs)"
    using s' st Num.prems(2) by (subst calc_loop.simps) (simp add: exec_op_def)
  also have "\<dots> = calc_loop (?k\<lparr>sbuf := s'[0 := 32]\<rparr>) cs"
    using calc_loop_blank [of ?k cs] s'(2) by simp
  finally show ?case using s'(2) st(2)
    by (intro exI [of _ "?k\<lparr>sbuf := s'[0 := 32]\<rparr>"]) (simp add: ready_def)
next
  case (Bin f l r)
  from Bin.prems(2) obtain x y where
    xy: "eval l = Some x" "eval r = Some y" "arith_val f x y = Some v" by (rule eval_Bin)
  let ?c = "arith_char f"
  have l: "length xs + places l \<le> 16" "length (x # xs) + places r \<le> 16"
    using Bin.prems(3) by auto
  have sub: "\<forall>n\<in>numbers l. n < 10 ^ 7" "\<forall>n\<in>numbers r. n < 10 ^ 7" "Rem \<notin> operators l"
    "Rem \<notin> operators r" "f \<noteq> Rem" using Bin.prems(4,5) by auto
  from Bin.IH(1) [OF Bin.prems(1) xy(1) l(1) sub(1,3), of "postfix r @ ?c # 32 # cs"] obtain k1 where
    k1: "calc_loop k (postfix (Bin f l r) @ cs) = calc_loop k1 (postfix r @ ?c # 32 # cs)"
    "ready k1 (x # xs)" "out k1 = out k" by auto
  from Bin.IH(2) [OF k1(2) xy(2) l(2) sub(2,4), of "?c # 32 # cs"] obtain k2 where
    k2: "calc_loop k1 (postfix r @ ?c # 32 # cs) = calc_loop k2 (?c # 32 # cs)"
    "ready k2 (y # x # xs)" "out k2 = out k1" by auto
  have "?c \<in> {43, 45, 42, 47}" using sub(5) by (cases f) auto
  from calc_loop_binop [of k2 y x xs "arith_val f" v ?c cs, OF k2(2) xy(3) this exec_op_arith [OF _ sub(5)]]
    k1 k2 show ?case by auto
qed

text \<open>A newline prints the top of the stack.\<close>

lemma calc_loop_newline:
  assumes "ready k (v # xs)"
  shows "\<exists>k'. calc_loop k (10 # cs) = calc_loop k' cs \<and> ready k' xs \<and> out k' = out k @ [v]"
proof -
  have s: "length (sbuf k) = 8" "stack_rep (stk k) 16 (v # xs)" using assms by (simp_all add: ready_def)
  from ss.pop_ok [OF s(2)] obtain st where
    st: "pop_to (stk k) (op1 k) = Some (0, v, st)" "stack_rep st 16 xs" by blast
  have "getop (sbuf k) (10 # cs) = Some (OPERATOR, (sbuf k)[0 := 10, 1 := 0], cs)"
    using s(1) by (intro getop_operator) (auto simp: schar_def EOF_def isdigit_def)
  moreover have "rd ((sbuf k)[0 := 10, 1 := 0]) 0 = Some 10" using s(1) by (simp add: rd_def)
  ultimately show ?thesis using st s(1)
    by (subst calc_loop.simps)
      (auto simp: exec_op_def ready_def simp del: split_paired_Ex
        intro!: exI [of _ "k\<lparr>sbuf := (sbuf k)[0 := 10, 1 := 0], stk := st, op1 := v, out := out k @ [v]\<rparr>"])
qed

lemma calc_loop_end:
  assumes "ready k xs"
  shows "\<exists>k'. calc_loop k [] = Some k' \<and> out k' = out k"
proof -
  have "length (sbuf k) = 8" using assms by (simp add: ready_def)
  then have "getop (sbuf k) [] = Some (END, (sbuf k)[0 := EOF, 1 := 0], [])"
    by (cases "sbuf k") (simp_all add: getop_def wr_def rd_def)
  then show ?thesis by (subst calc_loop.simps) simp
qed

lemma calc_loop_program:
  "ready k [] \<Longrightarrow> \<forall>e\<in>set es. eval e \<noteq> None \<and> places e \<le> 16 \<and> Rem \<notin> operators e \<and>
      (\<forall>n\<in>numbers e. n < 10 ^ 7) \<Longrightarrow>
    \<exists>k'. calc_loop k (program es) = Some k' \<and> out k' = out k @ map (\<lambda>e. the (eval e)) es"
proof (induction es arbitrary: k)
  case Nil
  then show ?case using calc_loop_end by auto
next
  case (Cons e es)
  then obtain v where v: "eval e = Some v" "places e \<le> 16" "Rem \<notin> operators e"
    "\<forall>n\<in>numbers e. n < 10 ^ 7" by auto
  from calc_loop_expr [of k "[]" e v "10 # program es"] Cons.prems(1) v obtain k1 where
    k1: "calc_loop k (program (e # es)) = calc_loop k1 (10 # program es)" "ready k1 [v]" "out k1 = out k"
    by auto
  from calc_loop_newline [OF k1(2), of "program es"] obtain k2 where
    k2: "calc_loop k1 (10 # program es) = calc_loop k2 (program es)" "ready k2 []"
    "out k2 = out k1 @ [v]" by auto
  from Cons.IH [OF k2(2)] Cons.prems(2) k1 k2 v(1) show ?case by auto
qed

section \<open>Properties\<close>

text \<open>
  C9. The calculator is right: for every file of postfix expressions, one on each line, over
  \<open>+ - * /\<close> and numbers of at most seven digits, whose evaluation neither overflows nor divides
  by zero and needs at most 16 stack places, the program prints the value of each line in turn.
\<close>

theorem postfix_correct:
  assumes "\<forall>e\<in>set es. eval e \<noteq> None \<and> places e \<le> 16 \<and> Rem \<notin> operators e \<and>
      (\<forall>n\<in>numbers e. n < 10 ^ 7)"
    and "length s0 = 8"
  shows "postfix_main True True s0 x0 y0 (program es) = Some (0, map (\<lambda>e. the (eval e)) es)"
proof -
  let ?k = "\<lparr>stk = stack_init True True 16, op1 = x0, op2 = y0, sbuf = s0, out = []\<rparr>"
  have "ready ?k []" using assms(2) stack_rep_init [of 16] by (simp add: ready_def)
  from calc_loop_program [OF this assms(1)] obtain k' where
    "calc_loop ?k (program es) = Some k'" "out k' = map (\<lambda>e. the (eval e)) es" by auto
  moreover have "stack_init True True 16 \<noteq> None" by (simp add: stack_init_def calloc_def)
  ultimately show ?thesis by (simp add: postfix_main_def Let_def)
qed

theorem postfix_correct_witness:
  "postfix_main True True (replicate 8 0) 0 0
      (program [Bin Times (Bin Plus (Num 12) (Num 3)) (Num 4), Bin Quot (Num 7) (Num 2)])
    = Some (0, [60, 3])"
  using postfix_correct [of "[Bin Times (Bin Plus (Num 12) (Num 3)) (Num 4), Bin Quot (Num 7) (Num 2)]"
      "replicate 8 0" 0 0]
  by (simp add: cdefs int_range signed_divide_int_def del: replicate.simps)

text \<open>
  A number of eight digits or more overruns the token buffer \<open>char s[8]\<close>: the program has no
  defined behaviour on such input, wherever the number stands first.
\<close>

theorem postfix_long_number_undefined:
  assumes "8 \<le> length ds" and "\<forall>d\<in>set ds. isdigit d" and "length s0 = 8"
  shows "postfix_main True True s0 x0 y0 (ds @ cs) = None"
proof -
  obtain d w where ds: "ds = d # w" using assms(1) by (cases ds) auto
  have d: "isdigit d" "schar d = d" "d \<noteq> 32" "d \<noteq> 9" "d \<noteq> EOF"
    using assms(2) by (auto simp: ds isdigit_def schar_def EOF_def)
  have w: "\<forall>d\<in>set w. isdigit (schar d)"
    using assms(2) by (auto simp: ds isdigit_def schar_def)
  have "skip_blanks s0 (ds @ cs) = Some (s0[0 := d], w @ cs)"
    using skip_blanks_char [OF assms(3) d(3,4,2)] by (simp only: ds append_Cons)
  moreover have "read_while isdigit (s0[0 := d]) 0 (w @ cs) = None"
    by (rule read_while_overflow) (use w assms(1,3) in \<open>auto simp: ds\<close>)
  moreover have "rd (s0[0 := d]) 0 = Some d" using assms(3) by (cases s0) (auto simp: rd_def)
  ultimately have "getop s0 (ds @ cs) = None" using d by (simp add: getop_def)
  moreover have "stack_init True True 16 \<noteq> None" by (simp add: stack_init_def calloc_def)
  ultimately show ?thesis by (simp add: postfix_main_def calc_loop.simps Let_def)
qed

theorem postfix_long_number_undefined_witness:
  "postfix_main True True (replicate 8 0) 0 0 ([49, 50, 51, 52, 53, 54, 55, 56] @ [10]) = None"
  by (rule postfix_long_number_undefined) (simp_all add: isdigit_def)

end
