(* ===== verification/ExprTree.thy ===== *)
theory ExprTree
  imports Expr BiTree
begin

text \<open>
  Expression trees, \<open>algorithm/tree/app/expressionOperation\<close>: \<open>main.c\<close> reads postfix expressions,
  builds their trees with the pointer stack of \<open>stack.c\<close> and the nodes of \<open>bitree.c\<close>, and for
  each prints the postorder, the bracketed inorder and the value. Everything lives on one heap,
  so the proofs carry a forest of disjoint trees: those on the stack and the finished ones.
\<close>

section \<open>The stack of pointers\<close>

definition MAX_BUF_SIZE :: int where
  "MAX_BUF_SIZE = 64"

record pstack =
  p_buf :: "ptr list"
  p_top :: int

text \<open>A push on the full stack only prints a message; a pop of the empty stack returns null.\<close>

definition push :: "pstack \<Rightarrow> ptr \<Rightarrow> pstack option" where
  "push st p =
     (if p_top st \<ge> MAX_BUF_SIZE then Some st
      else do {
        b \<leftarrow> wr (p_buf st) (p_top st) p;
        Some (st\<lparr>p_buf := b, p_top := p_top st + 1\<rparr>) })"

definition pop :: "pstack \<Rightarrow> (ptr \<times> pstack) option" where
  "pop st =
     (if p_top st \<le> 0 then Some (None, st)
      else do {
        let st = st\<lparr>p_top := p_top st - 1\<rparr>;
        p \<leftarrow> rd (p_buf st) (p_top st);
        Some (p, st) })"

section \<open>The program\<close>

text \<open>\<open>getop\<close> returns the character it read, or \<open>NUMBER\<close>.\<close>

definition NUMBER :: int where
  "NUMBER = 0"

fun skip_c :: "int list \<Rightarrow> int list \<Rightarrow> (int list \<times> int \<times> int list) option" where
  "skip_c s [] = do { s \<leftarrow> wr s 0 EOF; Some (s, EOF, []) }"
| "skip_c s (c # cs) = do {
     s \<leftarrow> wr s 0 (schar c);
     if schar c = 32 \<or> c = 9 then skip_c s cs else Some (s, c, cs) }"

definition getop :: "int list \<Rightarrow> int list \<Rightarrow> (int \<times> int list \<times> int list) option" where
  "getop s inp = do {
     (s, c, inp) \<leftarrow> skip_c s inp;
     if \<not> isdigit c then do { s \<leftarrow> wr s 1 0; Some (c, s, inp) }
     else do {
       (s, i, c, inp) \<leftarrow> read_while isdigit s 0 inp;
       s \<leftarrow> wr s i 0;
       let inp = (if c \<noteq> EOF then ungetc c inp else inp);
       Some (NUMBER, s, inp) } }"

text \<open>\<open>printf_data\<close>: the character itself for the codes of the operators, else the number, three wide.\<close>

definition decimal :: "int \<Rightarrow> int list" where
  "decimal x = (if x < 0 then 45 # digits (nat (- x)) else digits (nat x))"

definition printf_data :: "int \<Rightarrow> int list" where
  "printf_data x =
     (if x = ch CHR ''+'' \<or> x = ch CHR ''-'' \<or> x = ch CHR ''*'' \<or> x = ch CHR ''/'' \<or> x = ch CHR ''%''
      then [32, 32, x]
      else replicate (3 - length (decimal x)) 32 @ decimal x)"

partial_function (option) inorder_fn :: "theap \<Rightarrow> ptr \<Rightarrow> int list option" where
  "inorder_fn h root = do {
     n \<leftarrow> load h root;
     if b_left n = None \<and> b_right n = None then Some (printf_data (b_data n))
     else do {
       ls \<leftarrow> inorder_fn h (b_left n);
       rs \<leftarrow> inorder_fn h (b_right n);
       Some (ch CHR ''('' # ls @ ch CHR '')'' # printf_data (b_data n) @
         ch CHR ''('' # rs @ [ch CHR '')'']) } }"

definition postorder_text :: "theap \<Rightarrow> ptr \<Rightarrow> int list option" where
  "postorder_text h root = do { (_, xs) \<leftarrow> bitree_postorder h root; Some (concat (map printf_data xs)) }"

partial_function (option) caculate :: "theap \<Rightarrow> ptr \<Rightarrow> int option" where
  "caculate h root = do {
     n \<leftarrow> load h root;
     if b_left n = None \<and> b_right n = None then Some (b_data n)
     else do {
       left \<leftarrow> caculate h (b_left n);
       right \<leftarrow> caculate h (b_right n);
       if b_data n = ch CHR ''+'' then c_int (left + right)
       else if b_data n = ch CHR ''-'' then c_int (left - right)
       else if b_data n = ch CHR ''*'' then c_int (left * right)
       else if b_data n = ch CHR ''/'' then c_div left right
       else if b_data n = ch CHR ''%'' then c_mod left right
       else Some 0 } }"

declare inorder_fn.simps [code] caculate.simps [code]

text \<open>The state of \<open>main\<close>; \<open>root[8]\<close> is not initialised, its contents are a parameter.\<close>

record est =
  hp :: theap
  stk :: pstack
  roots :: "ptr list"
  nroots :: int
  sbuf :: "int list"

definition build_op :: "int \<Rightarrow> est \<Rightarrow> est option" where
  "build_op c k =
     (if c = NUMBER then do {
        v \<leftarrow> atoi (sbuf k);
        let (node, h) = bitnode_alloc (hp k) v;
        st \<leftarrow> (if node \<noteq> None then push (stk k) node else Some (stk k));
        Some (k\<lparr>hp := h, stk := st\<rparr>) }
      else if c = ch CHR ''+'' \<or> c = ch CHR ''-'' \<or> c = ch CHR ''*'' \<or> c = ch CHR ''/'' \<or> c = ch CHR ''%''
      then
        let (node, h) = bitnode_alloc (hp k) c
        in if node \<noteq> None then do {
             (r, st) \<leftarrow> pop (stk k);
             n \<leftarrow> load h node;
             h \<leftarrow> store h node (n\<lparr>b_right := r\<rparr>);
             (l, st) \<leftarrow> pop st;
             n \<leftarrow> load h node;
             h \<leftarrow> store h node (n\<lparr>b_left := l\<rparr>);
             st \<leftarrow> push st node;
             Some (k\<lparr>hp := h, stk := st\<rparr>) }
           else Some (k\<lparr>hp := h\<rparr>)
      else if c = ch CHR 0x0A then do {
        (p, st) \<leftarrow> pop (stk k);
        rs \<leftarrow> wr (roots k) (nroots k) p;
        Some (k\<lparr>stk := st, roots := rs, nroots := nroots k + 1\<rparr>) }
      else Some k)"

partial_function (option) build_loop :: "est \<Rightarrow> int list \<Rightarrow> est option" where
  "build_loop k inp = do {
     (c, s, inp) \<leftarrow> getop (sbuf k) inp;
     let k = k\<lparr>sbuf := s\<rparr>;
     if c = EOF then Some k else do { k \<leftarrow> build_op c k; build_loop k inp } }"

function report :: "theap \<Rightarrow> ptr list \<Rightarrow> int \<Rightarrow> int \<Rightarrow> ((int list \<times> int list \<times> int) list \<times> theap) option" where
  "report h rs n i =
     (if i < n then do {
        root \<leftarrow> rd rs i;
        post \<leftarrow> postorder_text h root;
        ino \<leftarrow> inorder_fn h root;
        v \<leftarrow> caculate h root;
        (_, h) \<leftarrow> bitree_destory h root;
        (out, h) \<leftarrow> report h rs n (i + 1);
        Some ((post, ino, v) # out, h) }
      else Some ([], h))"
  by pat_completeness auto
termination
  by (relation "measure (\<lambda>(h, rs, n, i). nat (n - i))") auto

declare report.simps [simp del] build_loop.simps [code]

definition exprtree_main ::
    "theap \<Rightarrow> ptr list \<Rightarrow> int list \<Rightarrow> ((int list \<times> int list \<times> int) list \<times> theap) option" where
  "exprtree_main h roots0 inp = do {
     k \<leftarrow> build_loop \<lparr>hp = h, stk = \<lparr>p_buf = replicate 64 None, p_top = 0\<rparr>, roots = roots0,
            nroots = 0, sbuf = replicate 8 0\<rparr> inp;
     report (hp k) (roots k) (nroots k) 0 }"

lemma exprtree_main_example:
  "map_option fst (exprtree_main (empty_heap (\<lambda>_. False)) (replicate 8 None) (map ch ''1 2 +'' @ [10])) =
    Some [(map ch ''  1  2  +'', map ch ''(  1)  +(  2)'', 3)]"
  by code_simp

section \<open>Forests\<close>

fun forest_addrs :: "(nat \<times> int) tree list \<Rightarrow> nat set" where
  "forest_addrs [] = {}"
| "forest_addrs (t # ts) = addrs t \<union> forest_addrs ts"

fun forest :: "(nat \<Rightarrow> bitnode option) \<Rightarrow> (nat \<times> int) tree list \<Rightarrow> bool" where
  "forest c [] = True"
| "forest c (t # ts) = (heap_tree c t \<and> forest c ts \<and> addrs t \<inter> forest_addrs ts = {})"

lemma forest_addrs_append [simp]: "forest_addrs (ts @ us) = forest_addrs ts \<union> forest_addrs us"
  by (induction ts) auto

lemma forest_frame: "(\<And>a. a \<in> forest_addrs ts \<Longrightarrow> c' a = c a) \<Longrightarrow> forest c' ts = forest c ts"
proof (induction ts)
  case (Cons t ts)
  then have "heap_tree c' t = heap_tree c t" by (intro heap_tree_frame) simp
  with Cons show ?case by simp
qed simp

lemma forest_snoc:
  "forest c (ts @ [t]) \<longleftrightarrow> heap_tree c t \<and> forest c ts \<and> addrs t \<inter> forest_addrs ts = {}"
  by (induction ts) auto

lemma forest_upd: "a \<notin> forest_addrs ts \<Longrightarrow> forest (c(a := v)) ts = forest c ts"
  by (rule forest_frame) auto

lemma forest_dom: "forest c ts \<Longrightarrow> forest_addrs ts \<subseteq> dom c"
  by (induction ts) (simp_all add: addrs_dom)

text \<open>The tree of an expression, and its infix text.\<close>

fun etree :: "expr \<Rightarrow> int tree" where
  "etree (Num n) = Node Leaf (int n) Leaf"
| "etree (Bin f l r) = Node (etree l) (arith_char f) (etree r)"

fun infix_text :: "expr \<Rightarrow> int list" where
  "infix_text (Num n) = printf_data (int n)"
| "infix_text (Bin f l r) =
     ch CHR ''('' # infix_text l @ ch CHR '')'' # printf_data (arith_char f) @
     ch CHR ''('' # infix_text r @ [ch CHR '')'']"

fun postfix_text :: "expr \<Rightarrow> int list" where
  "postfix_text (Num n) = printf_data (int n)"
| "postfix_text (Bin f l r) = postfix_text l @ postfix_text r @ printf_data (arith_char f)"

lemma etree_not_Leaf [simp]: "etree e \<noteq> Leaf" "Leaf \<noteq> etree e"
  by (cases e; simp)+

lemma data_Leaf: "data t = Leaf \<longleftrightarrow> t = Leaf"
  by (cases t rule: root_ptr.cases) auto

lemma data_Node:
  assumes "data t = Node l x r"
  obtains a l' r' where "t = Node l' (a, x) r'" "data l' = l" "data r' = r"
  using assms by (cases t rule: root_ptr.cases) auto

lemma postorder_etree: "concat (map printf_data (postorder (etree e))) = postfix_text e"
  by (induction e) auto

lemma inorder_fn_eq:
  "heap_tree (cells h) t \<Longrightarrow> data t = etree e \<Longrightarrow> inorder_fn h (root_ptr t) = Some (infix_text e)"
proof (induction e arbitrary: t)
  case (Num n)
  then obtain a where "t = Node Leaf (a, int n) Leaf"
    by (auto elim!: data_Node simp: data_Leaf)
  with Num.prems show ?case by (subst inorder_fn.simps) simp
next
  case (Bin f l r)
  then obtain a l' r' where t: "t = Node l' (a, arith_char f) r'" "data l' = etree l" "data r' = etree r"
    by (auto elim: data_Node)
  then have "l' \<noteq> Leaf" by auto
  with Bin t show ?case by (subst inorder_fn.simps) (auto simp: root_ptr_None)
qed

lemma tree_caculate_eq:
  "heap_tree (cells h) t \<Longrightarrow> data t = etree e \<Longrightarrow> eval e = Some v \<Longrightarrow> caculate h (root_ptr t) = Some v"
proof (induction e arbitrary: t v)
  case (Num n)
  then obtain a where "t = Node Leaf (a, int n) Leaf"
    by (auto elim!: data_Node simp: data_Leaf)
  with Num.prems show ?case by (subst caculate.simps) simp
next
  case (Bin f l r)
  then obtain a l' r' where t: "t = Node l' (a, arith_char f) r'" "data l' = etree l" "data r' = etree r"
    by (auto elim: data_Node)
  from Bin.prems(3) obtain x y where
    xy: "eval l = Some x" "eval r = Some y" "arith_val f x y = Some v" by (rule eval_Bin)
  have "l' \<noteq> Leaf" using t by auto
  then show ?case using Bin.IH(1) [OF _ t(2) xy(1)] Bin.IH(2) [OF _ t(3) xy(2)] Bin.prems(1) t(1) xy(3)
    by (subst caculate.simps) (cases f; simp add: root_ptr_None)
qed

section \<open>The pieces of the state\<close>

text \<open>The stack holds the pointers \<open>ps\<close>, top first.\<close>

definition pst :: "pstack \<Rightarrow> ptr list \<Rightarrow> bool" where
  "pst st ps \<longleftrightarrow> (\<exists>rest. st = \<lparr>p_buf = rev ps @ rest, p_top = int (length ps)\<rparr> \<and>
     length ps + length rest = 64)"

lemma pst_push:
  assumes "pst st ps" and "length ps < 64"
  shows "\<exists>st'. push st p = Some st' \<and> pst st' (p # ps)"
proof -
  from assms(1) obtain rest where r: "st = \<lparr>p_buf = rev ps @ rest, p_top = int (length ps)\<rparr>"
    "length ps + length rest = 64" by (auto simp: pst_def)
  with assms(2) obtain q rest' where "rest = q # rest'" by (cases rest) auto
  with r assms(2) show ?thesis by (auto simp: push_def wr_mid pst_def MAX_BUF_SIZE_def)
qed

lemma pst_pop:
  assumes "pst st (p # ps)"
  shows "\<exists>st'. pop st = Some (p, st') \<and> pst st' ps"
proof -
  from assms obtain rest where r: "st = \<lparr>p_buf = rev ps @ p # rest, p_top = int (length ps) + 1\<rparr>"
    "length ps + length (p # rest) = 64" by (auto simp: pst_def add.commute)
  then have "rd (rev ps @ p # rest) (int (length ps)) = Some p" by (simp add: rd_mid)
  with r show ?thesis by (auto simp: pop_def pst_def intro!: exI [of _ "p # rest"])
qed

text \<open>The heap holds the forest \<open>us\<close> beside what was in \<open>h0\<close>, with memory available.\<close>

definition grown :: "theap \<Rightarrow> theap \<Rightarrow> (nat \<times> int) tree list \<Rightarrow> bool" where
  "grown h0 h us \<longleftrightarrow> heap_ok h0 \<and> heap_ok h \<and> brk h0 \<le> brk h \<and> oom h = (\<lambda>_. False) \<and>
     forest (cells h) us \<and> (\<forall>a. a \<notin> forest_addrs us \<longrightarrow> cells h a = cells h0 a) \<and>
     (\<forall>a\<in>forest_addrs us. cells h0 a = None)"

lemma grown_alloc:
  assumes "grown h0 h us"
  shows "\<exists>h'. bitnode_alloc h x = (Some (brk h), h') \<and> grown h0 h' (Node Leaf (brk h, x) Leaf # us)"
proof -
  let ?h = "h\<lparr>cells := (cells h)(brk h \<mapsto> \<lparr>b_data = x, b_left = None, b_right = None\<rparr>), brk := Suc (brk h)\<rparr>"
  have g: "heap_ok h" "forest (cells h) us" "heap_ok h0" "brk h0 \<le> brk h" "oom h = (\<lambda>_. False)"
    "\<forall>a. a \<notin> forest_addrs us \<longrightarrow> cells h a = cells h0 a" "\<forall>a\<in>forest_addrs us. cells h0 a = None"
    using assms by (auto simp: grown_def)
  have new: "brk h \<notin> forest_addrs us"
    using forest_dom [OF g(2)] g(1) by (auto simp: heap_ok_def)
  have "cells h0 (brk h) = None" using g(3,4) by (simp add: heap_ok_def)
  then have "grown h0 ?h (Node Leaf (brk h, x) Leaf # us)"
    using g new heap_ok_alloc [OF g(1)] by (simp add: grown_def forest_upd)
  then show ?thesis using g(5) by (simp add: bitnode_alloc_def malloc_def)
qed

lemma grown_link:
  assumes "grown h0 h (Node Leaf (a, x) Leaf # r # l # us)"
    and "h' = h\<lparr>cells := (cells h)(a \<mapsto> \<lparr>b_data = x, b_left = root_ptr l, b_right = root_ptr r\<rparr>)\<rparr>"
  shows "grown h0 h' (Node l (a, x) r # us)"
proof -
  have g: "heap_ok h" "heap_tree (cells h) l" "heap_tree (cells h) r" "forest (cells h) us"
    "a \<notin> addrs l" "a \<notin> addrs r" "addrs l \<inter> addrs r = {}" "a \<notin> forest_addrs us"
    "(addrs l \<union> addrs r) \<inter> forest_addrs us = {}" "cells h a \<noteq> None"
    using assms(1) by (auto simp: grown_def)
  have "a < brk h" using g(1,10) by (auto dest: heap_okD)
  then have "heap_ok h'" using g(1) by (simp add: assms(2) heap_ok_upd)
  moreover have "forest (cells h') (Node l (a, x) r # us)"
    using heap_tree_Node [OF g(2,3,5,6,7), of x] g(4,8,9)
    by (auto simp: assms(2) forest_upd simp del: heap_tree.simps fun_upd_apply)
  moreover have "cells h0 b = None" if "b \<in> addrs l \<union> addrs r \<union> forest_addrs us" for b
    using assms(1) that by (auto simp: grown_def)
  ultimately show ?thesis using assms(1) by (simp add: grown_def assms(2))
qed

section \<open>Tokens\<close>

lemma skip_c_char:
  "length s = 8 \<Longrightarrow> c \<noteq> 32 \<Longrightarrow> c \<noteq> 9 \<Longrightarrow> schar c = c \<Longrightarrow> skip_c s (c # cs) = Some (s[0 := c], c, cs)"
  by (simp add: wr_def)

lemma tree_getop_blank: "length s = 8 \<Longrightarrow> getop s (32 # cs) = getop (s[0 := 32]) cs"
  by (cases s) (simp_all add: getop_def wr_def schar_def)

lemma build_loop_blank:
  "length (sbuf k) = 8 \<Longrightarrow> build_loop k (32 # cs) = build_loop (k\<lparr>sbuf := (sbuf k)[0 := 32]\<rparr>) cs"
  by (subst (1 2) build_loop.simps) (simp add: tree_getop_blank)

lemma getop_char:
  assumes "length s = 8" and "c \<noteq> 32" and "c \<noteq> 9" and "schar c = c" and "\<not> isdigit c"
  shows "getop s (c # cs) = Some (c, s[0 := c, 1 := 0], cs)"
  using assms skip_c_char [OF assms(1-4), of cs] by (simp add: getop_def wr_def)

lemma tree_getop_number:
  assumes "length s = 8" and "n < 10 ^ 7"
  shows "\<exists>s'. getop s (digits n @ 32 # cs) = Some (NUMBER, s', 32 # cs) \<and> length s' = 8 \<and>
    atoi s' = Some (int n)"
proof -
  obtain c w where cw: "digits n = c # w" using digits_not_Nil by (cases "digits n") auto
  have c: "isdigit c" "schar c = c" using digits_isdigit [of c n] cw by auto
  have w: "\<forall>d\<in>set w. schar d = d \<and> isdigit d" using digits_isdigit [of _ n] cw by auto
  have len: "Suc (length w) < 8" using length_digits [OF assms(2)] cw by simp
  have d: "schar 32 = 32" "\<not> isdigit 32" "c \<noteq> 32" "c \<noteq> 9"
    using c(1) by (auto simp: schar_def isdigit_def)
  let ?s = "c # w @ 32 # drop (length w + 2) s" and ?s' = "c # w @ 0 # drop (length w + 2) s"
  have sk: "skip_c s (digits n @ 32 # cs) = Some (s[0 := c], c, w @ 32 # cs)"
    using skip_c_char [OF assms(1) d(3,4) c(2)] by (simp only: cw append_Cons)
  have rw: "read_while isdigit (s[0 := c]) 0 (w @ 32 # cs) = Some (?s, int (length w) + 1, 32, cs)"
    by (rule read_while_buf) (use w d assms(1) len in auto)
  have "wr ?s (int (length w) + 1) 0 = Some ?s'"
    using wr_mid [of "int (length w) + 1" "c # w"] by simp
  then have "getop s (digits n @ 32 # cs) = Some (NUMBER, ?s', 32 # cs)"
    using sk rw c d by (simp add: getop_def ungetc_def EOF_def)
  moreover have "atoi ?s' = Some (int n)" using atoi_digits [OF assms(2)] by (simp add: cw [symmetric] flip: append_Cons)
  ultimately show ?thesis using assms(1) len by auto
qed

section \<open>Building the trees\<close>

text \<open>The trees \<open>ts\<close> are on the stack, the trees \<open>rs\<close> are finished.\<close>

definition state :: "theap \<Rightarrow> est \<Rightarrow> (nat \<times> int) tree list \<Rightarrow> (nat \<times> int) tree list \<Rightarrow> bool" where
  "state h0 k ts rs \<longleftrightarrow> grown h0 (hp k) (ts @ rs) \<and> pst (stk k) (map root_ptr ts) \<and>
     (\<exists>rest. roots k = map root_ptr rs @ rest) \<and> length (roots k) = 8 \<and>
     nroots k = int (length rs) \<and> length (sbuf k) = 8"

lemma state_sbuf: "state h0 k ts rs \<Longrightarrow> length s = 8 \<Longrightarrow> state h0 (k\<lparr>sbuf := s\<rparr>) ts rs"
  by (simp add: state_def)

lemma build_number:
  assumes "state h0 k ts rs" and "length ts < 64" and "atoi (sbuf k) = Some x"
  shows "\<exists>k' t. build_op NUMBER k = Some k' \<and> state h0 k' (t # ts) rs \<and> data t = Node Leaf x Leaf"
proof -
  from assms(1) grown_alloc [of h0 "hp k" "ts @ rs" x] obtain h' where
    h': "bitnode_alloc (hp k) x = (Some (brk (hp k)), h')"
    "grown h0 h' (Node Leaf (brk (hp k), x) Leaf # ts @ rs)" by (auto simp: state_def)
  from assms(1,2) pst_push [of "stk k" "map root_ptr ts" "Some (brk (hp k))"] obtain st where
    "push (stk k) (Some (brk (hp k))) = Some st" "pst st (Some (brk (hp k)) # map root_ptr ts)"
    by (auto simp: state_def)
  with h' assms show ?thesis
    by (intro exI [of _ "k\<lparr>hp := h', stk := st\<rparr>"] exI [of _ "Node Leaf (brk (hp k), x) Leaf"])
      (simp add: build_op_def state_def)
qed

lemma build_operator:
  assumes "state h0 k (r # l # ts) rs"
  shows "\<exists>k' t. build_op (arith_char f) k = Some k' \<and> state h0 k' (t # ts) rs \<and>
    data t = Node (data l) (arith_char f) (data r)"
proof -
  let ?a = "brk (hp k)" and ?c = "arith_char f"
  from assms grown_alloc [of h0 "hp k" "r # l # ts @ rs" ?c] obtain h' where
    h': "bitnode_alloc (hp k) ?c = (Some ?a, h')"
    "grown h0 h' (Node Leaf (?a, ?c) Leaf # r # l # ts @ rs)" by (auto simp: state_def)
  have ca: "cells h' ?a = Some \<lparr>b_data = ?c, b_left = None, b_right = None\<rparr>"
    using h'(2) by (simp add: grown_def)
  from assms pst_pop [of "stk k" "root_ptr r"] obtain st1 where
    st1: "pop (stk k) = Some (root_ptr r, st1)" "pst st1 (root_ptr l # map root_ptr ts)"
    by (auto simp: state_def)
  from pst_pop [OF st1(2)] obtain st2 where
    st2: "pop st1 = Some (root_ptr l, st2)" "pst st2 (map root_ptr ts)" by blast
  have "length ts < 64" using assms by (auto simp: state_def pst_def)
  with pst_push [OF st2(2), of "Some ?a"] obtain st3 where
    st3: "push st2 (Some ?a) = Some st3" "pst st3 (Some ?a # map root_ptr ts)" by auto
  let ?h = "h'\<lparr>cells := (cells h')(?a \<mapsto> \<lparr>b_data = ?c, b_left = root_ptr l, b_right = root_ptr r\<rparr>)\<rparr>"
  have "build_op ?c k = Some (k\<lparr>hp := ?h, stk := st3\<rparr>)"
    using h'(1) st1(1) st2(1) st3(1) ca
    by (cases f) (simp_all add: build_op_def NUMBER_def store_def)
  moreover have "grown h0 ?h (Node l (?a, ?c) r # ts @ rs)" by (rule grown_link [OF h'(2) refl])
  ultimately show ?thesis using assms st3(2)
    by (intro exI [of _ "k\<lparr>hp := ?h, stk := st3\<rparr>"] exI [of _ "Node l (?a, ?c) r"])
      (simp add: state_def)
qed

lemma build_newline:
  assumes "state h0 k [t] rs" and "length rs < 8"
  shows "\<exists>k'. build_op 10 k = Some k' \<and> state h0 k' [] (rs @ [t])"
proof -
  from assms(1) pst_pop [of "stk k" "root_ptr t" "[]"] obtain st where
    st: "pop (stk k) = Some (root_ptr t, st)" "pst st []" by (auto simp: state_def)
  from assms obtain q rest where q: "roots k = map root_ptr rs @ q # rest"
    by (auto simp: state_def) (metis add.right_neutral length_map less_irrefl list.size(3) list.exhaust)
  have "wr (roots k) (nroots k) (root_ptr t) = Some (map root_ptr (rs @ [t]) @ rest)"
    using assms(1) by (simp add: q wr_mid state_def)
  moreover have "grown h0 (hp k) (rs @ [t])"
    using assms(1) by (auto simp: state_def grown_def forest_snoc)
  ultimately show ?thesis using st assms(1) q
    by (intro exI [of _ "k\<lparr>stk := st, roots := map root_ptr (rs @ [t]) @ rest, nroots := nroots k + 1\<rparr>"])
      (simp add: build_op_def state_def NUMBER_def)
qed

text \<open>A token that is a character, and the blank behind it.\<close>

lemma build_loop_char:
  assumes "length (sbuf k) = 8" and "c \<in> {10, 43, 45, 42, 47, 37}"
    and "build_op c (k\<lparr>sbuf := (sbuf k)[0 := c, 1 := 0]\<rparr>) = Some k'"
  shows "build_loop k (c # cs) = build_loop k' cs"
proof -
  have "getop (sbuf k) (c # cs) = Some (c, (sbuf k)[0 := c, 1 := 0], cs)"
    using assms(1,2) by (intro getop_char) (auto simp: schar_def isdigit_def)
  with assms(2,3) show ?thesis by (subst build_loop.simps) (auto simp: EOF_def)
qed

lemma build_loop_expr:
  "state h0 k ts rs \<Longrightarrow> length ts + places e \<le> 64 \<Longrightarrow> \<forall>n\<in>numbers e. n < 10 ^ 7 \<Longrightarrow>
    \<exists>k' t. build_loop k (postfix e @ cs) = build_loop k' cs \<and> state h0 k' (t # ts) rs \<and> data t = etree e"
proof (induction e arbitrary: k ts cs)
  case (Num n)
  have s: "length (sbuf k) = 8" using Num.prems(1) by (simp add: state_def)
  from tree_getop_number [OF s, of n cs] Num.prems(3) obtain s' where
    s': "getop (sbuf k) (digits n @ 32 # cs) = Some (NUMBER, s', 32 # cs)" "length s' = 8"
    "atoi s' = Some (int n)" by auto
  from build_number [OF state_sbuf [OF Num.prems(1) s'(2)], of "int n"] Num.prems(2) s'(3)
  obtain k1 t where k1: "build_op NUMBER (k\<lparr>sbuf := s'\<rparr>) = Some k1" "state h0 k1 (t # ts) rs"
    "data t = etree (Num n)" by auto
  have s1: "length (sbuf k1) = 8" using k1(2) by (simp add: state_def)
  have "build_loop k (digits n @ 32 # cs) = build_loop k1 (32 # cs)"
    using s'(1) k1(1) by (subst build_loop.simps) (simp add: NUMBER_def EOF_def)
  also have "\<dots> = build_loop (k1\<lparr>sbuf := (sbuf k1)[0 := 32]\<rparr>) cs" by (rule build_loop_blank [OF s1])
  finally show ?case using state_sbuf [OF k1(2), of "(sbuf k1)[0 := 32]"] s1 k1(3) by auto
next
  case (Bin f l r)
  let ?c = "arith_char f"
  have pl: "length ts + places l \<le> 64" "length ts + Suc (places r) \<le> 64" using Bin.prems(2) by simp_all
  from Bin.IH(1) [OF Bin.prems(1) pl(1), of "postfix r @ ?c # 32 # cs"] Bin.prems(3) obtain k1 tl where
    k1: "build_loop k (postfix (Bin f l r) @ cs) = build_loop k1 (postfix r @ ?c # 32 # cs)"
    "state h0 k1 (tl # ts) rs" "data tl = etree l" by auto
  from Bin.IH(2) [OF k1(2), of "?c # 32 # cs"] pl(2) Bin.prems(3) obtain k2 tr where
    k2: "build_loop k1 (postfix r @ ?c # 32 # cs) = build_loop k2 (?c # 32 # cs)"
    "state h0 k2 (tr # tl # ts) rs" "data tr = etree r" by auto
  have s2: "length (sbuf k2) = 8" using k2(2) by (simp add: state_def)
  from build_operator [OF state_sbuf [OF k2(2)], of "(sbuf k2)[0 := ?c, 1 := 0]" f] s2
  obtain k3 t where k3: "build_op ?c (k2\<lparr>sbuf := (sbuf k2)[0 := ?c, 1 := 0]\<rparr>) = Some k3"
    "state h0 k3 (t # ts) rs" "data t = Node (data tl) ?c (data tr)" by auto
  have s3: "length (sbuf k3) = 8" using k3(2) by (simp add: state_def)
  have "build_loop k2 (?c # 32 # cs) = build_loop k3 (32 # cs)"
    by (rule build_loop_char [OF s2 _ k3(1)]) (use arith_char_cases [of f] in auto)
  also have "\<dots> = build_loop (k3\<lparr>sbuf := (sbuf k3)[0 := 32]\<rparr>) cs" by (rule build_loop_blank [OF s3])
  finally show ?case
    using k1 k2 k3 s3 state_sbuf [OF k3(2), of "(sbuf k3)[0 := 32]"] by auto
qed

lemma build_loop_program:
  "state h0 k [] rs \<Longrightarrow> length rs + length es \<le> 8 \<Longrightarrow>
    \<forall>e\<in>set es. places e \<le> 64 \<and> (\<forall>n\<in>numbers e. n < 10 ^ 7) \<Longrightarrow>
    \<exists>k' us. build_loop k (program es) = Some k' \<and> state h0 k' [] (rs @ us) \<and> map data us = map etree es"
proof (induction es arbitrary: k rs)
  case Nil
  have s: "length (sbuf k) = 8" using Nil.prems(1) by (simp add: state_def)
  have "getop (sbuf k) [] = Some (EOF, (sbuf k)[0 := EOF, 1 := 0], [])"
    using s by (cases "sbuf k") (simp_all add: getop_def wr_def isdigit_def EOF_def)
  then have "build_loop k [] = Some (k\<lparr>sbuf := (sbuf k)[0 := EOF, 1 := 0]\<rparr>)"
    by (subst build_loop.simps) simp
  with state_sbuf [OF Nil.prems(1), of "(sbuf k)[0 := EOF, 1 := 0]"] s show ?case by auto
next
  case (Cons e es)
  from build_loop_expr [OF Cons.prems(1), of e "10 # program es"] Cons.prems(3) obtain k1 t where
    k1: "build_loop k (program (e # es)) = build_loop k1 (10 # program es)" "state h0 k1 [t] rs"
    "data t = etree e" by auto
  have s1: "length (sbuf k1) = 8" using k1(2) by (simp add: state_def)
  from build_newline [OF state_sbuf [OF k1(2)], of "(sbuf k1)[0 := 10, 1 := 0]"] s1 Cons.prems(2)
  obtain k2 where k2: "build_op 10 (k1\<lparr>sbuf := (sbuf k1)[0 := 10, 1 := 0]\<rparr>) = Some k2"
    "state h0 k2 [] (rs @ [t])" by auto
  have "build_loop k1 (10 # program es) = build_loop k2 (program es)"
    by (rule build_loop_char [OF s1 _ k2(1)]) simp
  moreover from Cons.IH [OF k2(2)] Cons.prems(2,3) obtain k' us where
    "build_loop k2 (program es) = Some k'" "state h0 k' [] ((rs @ [t]) @ us)" "map data us = map etree es"
    by auto
  ultimately show ?case using k1 by (intro exI [of _ k'] exI [of _ "t # us"]) simp
qed

section \<open>Reporting and freeing\<close>

definition report_of :: "expr \<Rightarrow> int list \<times> int list \<times> int" where
  "report_of e = (postfix_text e, infix_text e, the (eval e))"

lemma report_eq:
  "forest (cells h) ts \<Longrightarrow> map data ts = map etree es \<Longrightarrow> \<forall>e\<in>set es. eval e \<noteq> None \<Longrightarrow>
    n = int (length us + length ts) \<Longrightarrow>
    \<exists>h'. report h (us @ map root_ptr ts @ rest) n (int (length us)) = Some (map report_of es, h') \<and>
      cells h' = (\<lambda>a. if a \<in> forest_addrs ts then None else cells h a)"
proof (induction ts arbitrary: h us es)
  case Nil
  then show ?case by (simp add: report.simps)
next
  case (Cons t ts)
  then obtain e es' v where es: "es = e # es'" "data t = etree e" "map data ts = map etree es'"
    "eval e = Some v" by (cases es) auto
  have ht: "heap_tree (cells h) t" and ft: "forest (cells h) ts" "addrs t \<inter> forest_addrs ts = {}"
    using Cons.prems(1) by auto
  from destory_eq [OF ht] obtain h1 where
    h1: "bitree_destory h (root_ptr t) = Some (if t = Leaf then - 1 else 0, h1)"
    "cells h1 = (\<lambda>a. if a \<in> addrs t then None else cells h a)" by blast
  have "forest (cells h1) ts"
    using ft by (subst forest_frame [of ts _ "cells h"]) (auto simp: h1(2))
  from Cons.IH [OF this es(3), of "us @ [root_ptr t]"] Cons.prems(3,4) es(1) obtain h' where
    h': "report h1 (us @ root_ptr t # map root_ptr ts @ rest) n (int (length us) + 1)
      = Some (map report_of es', h')"
    "cells h' = (\<lambda>a. if a \<in> forest_addrs ts then None else cells h1 a)" by (auto simp: add.commute)
  have "rd (us @ root_ptr t # map root_ptr ts @ rest) (int (length us)) = Some (root_ptr t)"
    by (simp add: rd_mid)
  moreover have "postorder_text h (root_ptr t) = Some (postfix_text e)"
    using traversals_eq(3) [OF ht] es(2) by (simp add: postorder_text_def postorder_etree)
  ultimately have "report h (us @ map root_ptr (t # ts) @ rest) n (int (length us))
      = Some (map report_of es, h')"
    using h1(1) h'(1) inorder_fn_eq [OF ht es(2)] tree_caculate_eq [OF ht es(2,4)] Cons.prems(4) es(1,4)
    by (subst report.simps) (simp add: report_of_def)
  then show ?case using h'(2) by (auto simp: h1(2))
qed

section \<open>Properties\<close>

text \<open>
  C8. The expression tree program: for at most eight lines of postfix expressions over
  \<open>+ - * / %\<close> and numbers of at most seven digits, each needing at most 64 stack places and
  having a value, it prints for each line the postorder, the bracketed inorder and the value of
  the expression, and it gives back all the memory it took.
\<close>

theorem exprtree_correct:
  assumes "heap_ok h" and "oom h = (\<lambda>_. False)" and "length roots0 = 8" and "length es \<le> 8"
    and "\<forall>e\<in>set es. eval e \<noteq> None \<and> places e \<le> 64 \<and> (\<forall>n\<in>numbers e. n < 10 ^ 7)"
  shows "\<exists>h'. exprtree_main h roots0 (program es)
      = Some (map (\<lambda>e. (postfix_text e, infix_text e, the (eval e))) es, h') \<and> cells h' = cells h"
proof -
  let ?k = "\<lparr>hp = h, stk = \<lparr>p_buf = replicate 64 None, p_top = 0\<rparr>, roots = roots0, nroots = 0,
      sbuf = replicate 8 0\<rparr>"
  have "state h ?k [] []" using assms(1-3) by (simp add: state_def grown_def pst_def)
  from build_loop_program [OF this, of es] assms(4,5) obtain k us where
    k: "build_loop ?k (program es) = Some k" "state h k [] us" "map data us = map etree es" by auto
  from k(2) obtain rest where r: "roots k = map root_ptr us @ rest" "nroots k = int (length us)"
    "forest (cells (hp k)) us" "\<forall>a. a \<notin> forest_addrs us \<longrightarrow> cells (hp k) a = cells h a"
    "\<forall>a\<in>forest_addrs us. cells h a = None" by (auto simp: state_def grown_def)
  from report_eq [OF r(3) k(3), of "int (length us)" "[]" rest] assms(5) r(1,2) obtain h' where
    "report (hp k) (roots k) (nroots k) 0 = Some (map report_of es, h')"
    "cells h' = (\<lambda>a. if a \<in> forest_addrs us then None else cells (hp k) a)" by auto
  moreover have "cells h' = cells h" using r(4,5) calculation(2) by auto
  ultimately show ?thesis using k(1) by (simp add: exprtree_main_def report_of_def)
qed

theorem exprtree_correct_witness:
  "\<exists>h'. exprtree_main (empty_heap (\<lambda>_. False)) (replicate 8 None)
      (program [Bin Rem (Bin Plus (Num 12) (Num 3)) (Num 4)])
    = Some ([(postfix_text (Bin Rem (Bin Plus (Num 12) (Num 3)) (Num 4)),
        infix_text (Bin Rem (Bin Plus (Num 12) (Num 3)) (Num 4)), 3)], h') \<and> cells h' = (\<lambda>_. None)"
  using exprtree_correct [of "empty_heap (\<lambda>_. False)" "replicate 8 None"
      "[Bin Rem (Bin Plus (Num 12) (Num 3)) (Num 4)]"]
  by (simp add: cdefs int_range signed_divide_int_def signed_modulo_int_def
      del: replicate.simps postfix_text.simps infix_text.simps postfix.simps)

end
