(* ===== verification/ExprConvert.thy ===== *)
theory ExprConvert
  imports Lexer SeqStack
begin

text \<open>
  The converter from infix to postfix, \<open>algorithm/stack/app/expressionConvert.c\<close>. The variable
  \<open>ch\<close> that receives the popped operators is not initialised and keeps its value when a pop
  fails; its first value is a parameter. The theorems say exactly when that matters: the
  program converts every expression whose first token is a word, and fails on every one that
  begins with a bracket.
\<close>

section \<open>The program\<close>

datatype optype = END | ALPHA | NUMBER | OPERATOR

text \<open>Reading a word of letters or of digits: what \<open>getop\<close> writes out twice.\<close>

definition get_word :: "(int \<Rightarrow> bool) \<Rightarrow> int list \<Rightarrow> int list \<Rightarrow> (int list \<times> int list) option" where
  "get_word p s inp = do {
     (s, i, _, inp) \<leftarrow> read_while p s 0 inp;
     d \<leftarrow> rd s i;
     let inp = (if d \<noteq> EOF then ungetc d inp else inp);
     s \<leftarrow> wr s i 0;
     Some (s, inp) }"

definition getop :: "int list \<Rightarrow> int list \<Rightarrow> (optype \<times> int list \<times> int list) option" where
  "getop s inp = do {
     (s, inp) \<leftarrow> skip_blanks s inp;
     c \<leftarrow> rd s 0;
     if c = EOF then do { s \<leftarrow> wr s 1 0; Some (END, s, inp) }
     else if isalpha c then do { (s, inp) \<leftarrow> get_word isalpha s inp; Some (ALPHA, s, inp) }
     else if isdigit c then do { (s, inp) \<leftarrow> get_word isdigit s inp; Some (NUMBER, s, inp) }
     else do { s \<leftarrow> wr s 1 0; Some (OPERATOR, s, inp) } }"

record conv =
  stk :: "stack_t option"
  chr :: int
  sbuf :: "int list"
  out :: "int list"

text \<open>
  \<open>while (stack_pop (stack, &ch) != -1 && ch != ...) putchar (ch);\<close> with the characters that
  stop it.
\<close>

partial_function (option) pop_until :: "int set \<Rightarrow> conv \<Rightarrow> conv option" where
  "pop_until stop k = do {
     (r, c, st) \<leftarrow> pop_to (stk k) (chr k);
     let k = k\<lparr>stk := st, chr := c\<rparr>;
     if r \<noteq> - 1 \<and> c \<notin> stop then pop_until stop (k\<lparr>out := out k @ [c]\<rparr>) else Some k }"

definition push_c :: "conv \<Rightarrow> int \<Rightarrow> conv option" where
  "push_c k c = do { (_, st) \<leftarrow> stack_push (stk k) c; Some (k\<lparr>stk := st\<rparr>) }"

text \<open>One operator character: the new state, and \<open>False\<close> for the jump to \<open>err\<close>.\<close>

definition exec_op :: "int \<Rightarrow> conv \<Rightarrow> (bool \<times> conv) option" where
  "exec_op c k =
     (if c = ch CHR ''('' then do { k \<leftarrow> push_c k c; Some (True, k) }
      else if c = ch CHR '')'' then do {
        k \<leftarrow> pop_until {ch CHR ''(''} k;
        Some (chr k = ch CHR ''('', k) }
      else if c = ch CHR ''+'' \<or> c = ch CHR ''-'' then do {
        k \<leftarrow> pop_until {ch CHR ''(''} k;
        k \<leftarrow> (if chr k = ch CHR ''('' then push_c k (chr k) else Some k);
        k \<leftarrow> push_c k c;
        Some (True, k) }
      else if c = ch CHR ''*'' \<or> c = ch CHR ''/'' then do {
        k \<leftarrow> pop_until {ch CHR ''('', ch CHR ''+'', ch CHR ''-''} k;
        k \<leftarrow> (if chr k = ch CHR ''('' \<or> chr k = ch CHR ''+'' \<or> chr k = ch CHR ''-''
              then push_c k (chr k) else Some k);
        k \<leftarrow> push_c k c;
        Some (True, k) }
      else Some (True, k))"

partial_function (option) conv_loop :: "conv \<Rightarrow> int list \<Rightarrow> (bool \<times> conv) option" where
  "conv_loop k inp = do {
     (ty, s, inp) \<leftarrow> getop (sbuf k) inp;
     let k = k\<lparr>sbuf := s\<rparr>;
     if ty = END then Some (True, k)
     else if ty = ALPHA \<or> ty = NUMBER then
       conv_loop (k\<lparr>out := out k @ takeWhile (\<lambda>c. c \<noteq> 0) s\<rparr>) inp
     else do {
       c \<leftarrow> rd s 0;
       (ok, k) \<leftarrow> exec_op c k;
       if ok then conv_loop k inp else Some (False, k) } }"

declare pop_until.simps [code] conv_loop.simps [code]

definition err_text :: "int list" where
  "err_text = map of_char ''Error!'' @ [10]"

text \<open>The result is the exit status and what was printed on the standard output.\<close>

definition convert_main :: "bool \<Rightarrow> bool \<Rightarrow> int \<Rightarrow> int list \<Rightarrow> (int \<times> int list) option" where
  "convert_main m1 m2 ch0 inp =
     (let st = stack_init m1 m2 16
      in if st = None then Some (- 1, [])
         else do {
           (ok, k) \<leftarrow> conv_loop \<lparr>stk = st, chr = ch0, sbuf = replicate 8 0, out = []\<rparr> inp;
           if \<not> ok then Some (- 1, out k @ err_text)
           else do {
             k \<leftarrow> pop_until {ch CHR ''(''} k;
             if chr k = ch CHR ''('' then Some (- 1, out k @ err_text)
             else Some (0, out k @ [10]) } })"

lemma convert_main_examples:
  "convert_main True True 0 (map ch ''a+b*c+(d*e+f)*gh'' @ [10]) = Some (0, map ch ''abc*+de*f+gh*+'' @ [10])"
  "convert_main True True 0 (map ch ''(a+b)*c'' @ [10]) = Some (- 1, map ch ''ab+c*'' @ err_text)"
  by code_simp+

section \<open>Infix expressions\<close>

datatype sum = STerm "term" | SAdd sum int "term"
and "term" = TFac fac | TMul "term" int fac
and fac = Word "int list" | Par sum

primrec sum_text :: "sum \<Rightarrow> int list" and term_text :: "term \<Rightarrow> int list" and fac_text :: "fac \<Rightarrow> int list" where
  "sum_text (STerm t) = term_text t"
| "sum_text (SAdd s c t) = sum_text s @ c # term_text t"
| "term_text (TFac f) = fac_text f"
| "term_text (TMul t c f) = term_text t @ c # fac_text f"
| "fac_text (Word w) = w"
| "fac_text (Par s) = ch CHR ''('' # sum_text s @ [ch CHR '')'']"

text \<open>The postfix text, operators associating to the left and \<open>* /\<close> binding tighter.\<close>

primrec sum_post :: "sum \<Rightarrow> int list" and term_post :: "term \<Rightarrow> int list" and fac_post :: "fac \<Rightarrow> int list" where
  "sum_post (STerm t) = term_post t"
| "sum_post (SAdd s c t) = sum_post s @ term_post t @ [c]"
| "term_post (TFac f) = fac_post f"
| "term_post (TMul t c f) = term_post t @ fac_post f @ [c]"
| "fac_post (Word w) = w"
| "fac_post (Par s) = sum_post s"

text \<open>Words are runs of at most seven letters or digits, operators are in their places.\<close>

definition word_ok :: "int list \<Rightarrow> bool" where
  "word_ok w \<longleftrightarrow> w \<noteq> [] \<and> length w \<le> 7 \<and> ((\<forall>c\<in>set w. isalpha c) \<or> (\<forall>c\<in>set w. isdigit c))"

primrec sum_ok :: "sum \<Rightarrow> bool" and term_ok :: "term \<Rightarrow> bool" and fac_ok :: "fac \<Rightarrow> bool" where
  "sum_ok (STerm t) = term_ok t"
| "sum_ok (SAdd s c t) = (sum_ok s \<and> c \<in> {43, 45} \<and> term_ok t)"
| "term_ok (TFac f) = fac_ok f"
| "term_ok (TMul t c f) = (term_ok t \<and> c \<in> {42, 47} \<and> fac_ok f)"
| "fac_ok (Word w) = word_ok w"
| "fac_ok (Par s) = sum_ok s"

text \<open>The stack places that an expression takes above its context.\<close>

primrec sum_depth :: "sum \<Rightarrow> nat" and term_depth :: "term \<Rightarrow> nat" and fac_depth :: "fac \<Rightarrow> nat" where
  "sum_depth (STerm t) = term_depth t"
| "sum_depth (SAdd s c t) = max (sum_depth s) (Suc (term_depth t))"
| "term_depth (TFac f) = fac_depth f"
| "term_depth (TMul t c f) = max (term_depth t) (Suc (fac_depth f))"
| "fac_depth (Word w) = 0"
| "fac_depth (Par s) = Suc (sum_depth s)"

text \<open>The operators still on the stack after an expression, top first, and what is printed by then.\<close>

primrec term_pend :: "term \<Rightarrow> int list" where
  "term_pend (TFac f) = []"
| "term_pend (TMul t c f) = [c]"

primrec sum_pend :: "sum \<Rightarrow> int list" where
  "sum_pend (STerm t) = term_pend t"
| "sum_pend (SAdd s c t) = term_pend t @ [c]"

primrec term_emit :: "term \<Rightarrow> int list" where
  "term_emit (TFac f) = fac_post f"
| "term_emit (TMul t c f) = term_post t @ fac_post f"

primrec sum_emit :: "sum \<Rightarrow> int list" where
  "sum_emit (STerm t) = term_emit t"
| "sum_emit (SAdd s c t) = sum_post s @ term_emit t"

lemma emit_pend [simp]:
  "term_emit t @ term_pend t = term_post t" "sum_emit s @ sum_pend s = sum_post s"
proof -
  show t: "term_emit t @ term_pend t = term_post t" for t by (cases t) auto
  show "sum_emit s @ sum_pend s = sum_post s" by (cases s) (use t in auto)
qed

lemma pend_ops:
  "term_ok t \<Longrightarrow> set (term_pend t) \<subseteq> {42, 47}"
  "sum_ok s \<Longrightarrow> set (sum_pend s) \<subseteq> {43, 45, 42, 47}"
proof -
  show t: "term_ok t \<Longrightarrow> set (term_pend t) \<subseteq> {42, 47}" for t by (cases t) auto
  show "sum_ok s \<Longrightarrow> set (sum_pend s) \<subseteq> {43, 45, 42, 47}" by (cases s) (use t in fastforce)+
qed

section \<open>One operator\<close>

text \<open>The state between tokens: the stack holds \<open>xs\<close>, \<open>ws\<close> is printed, \<open>ch\<close> is \<open>c\<close>.\<close>

definition at :: "conv \<Rightarrow> int list \<Rightarrow> int list \<Rightarrow> int \<Rightarrow> bool" where
  "at k xs ws c \<longleftrightarrow> stack_rep (stk k) 16 xs \<and> length (sbuf k) = 8 \<and> out k = ws \<and> chr k = c"

lemma at_sbuf: "at k xs ws c \<Longrightarrow> length s = 8 \<Longrightarrow> at (k\<lparr>sbuf := s\<rparr>) xs ws c"
  by (simp add: at_def)

lemma pop_until_stop:
  "at k (ps @ x # xs) ws c \<Longrightarrow> x \<in> S \<Longrightarrow> x \<noteq> - 1 \<Longrightarrow> set ps \<inter> S = {} \<Longrightarrow>
    \<exists>k'. pop_until S k = Some k' \<and> at k' xs (ws @ ps) x"
proof (induction ps arbitrary: k ws c)
  case Nil
  from Nil.prems(1) ss.pop_ok [of "stk k" 16 x xs "chr k"] obtain st where
    "pop_to (stk k) (chr k) = Some (0, x, st)" "stack_rep st 16 xs" by (auto simp: at_def)
  with Nil.prems show ?case by (subst pop_until.simps) (simp add: at_def)
next
  case (Cons p ps)
  from Cons.prems(1) ss.pop_ok [of "stk k" 16 p "ps @ x # xs" "chr k"] obtain st where
    st: "pop_to (stk k) (chr k) = Some (0, p, st)" "stack_rep st 16 (ps @ x # xs)" by (auto simp: at_def)
  let ?k = "k\<lparr>stk := st, chr := p, out := out k @ [p]\<rparr>"
  have "at ?k (ps @ x # xs) (ws @ [p]) p" using st(2) Cons.prems(1) by (simp add: at_def)
  from Cons.IH [OF this Cons.prems(2,3)] Cons.prems(4) obtain k' where
    "pop_until S ?k = Some k'" "at k' xs ((ws @ [p]) @ ps) x" by auto
  with st(1) Cons.prems(4) show ?case by (subst pop_until.simps) simp
qed

lemma pop_until_empty:
  "at k ps ws c \<Longrightarrow> set ps \<inter> S = {} \<Longrightarrow>
    \<exists>k'. pop_until S k = Some k' \<and> at k' [] (ws @ ps) (last (c # ps))"
proof (induction ps arbitrary: k ws c)
  case Nil
  then have "pop_to (stk k) (chr k) = Some (- 1, c, stk k)"
    using ss.pop_empty [of "stk k" 16 "chr k"] by (simp add: at_def)
  with Nil.prems show ?case by (subst pop_until.simps) (simp add: at_def)
next
  case (Cons p ps)
  from Cons.prems(1) ss.pop_ok [of "stk k" 16 p ps "chr k"] obtain st where
    st: "pop_to (stk k) (chr k) = Some (0, p, st)" "stack_rep st 16 ps" by (auto simp: at_def)
  let ?k = "k\<lparr>stk := st, chr := p, out := out k @ [p]\<rparr>"
  have "at ?k ps (ws @ [p]) p" using st(2) Cons.prems(1) by (simp add: at_def)
  from Cons.IH [OF this] Cons.prems(2) obtain k' where
    "pop_until S ?k = Some k'" "at k' [] ((ws @ [p]) @ ps) (last (p # ps))" by auto
  with st(1) Cons.prems(2) show ?case by (subst pop_until.simps) simp
qed

lemma push_c_ok:
  assumes "at k xs ws c" and "length xs < 16"
  shows "\<exists>k'. push_c k x = Some k' \<and> at k' (x # xs) ws c"
proof -
  from assms ss.push_ok [of "stk k" 16 xs x] obtain st where
    "stack_push (stk k) x = Some (0, st)" "stack_rep st 16 (x # xs)" by (auto simp: at_def)
  with assms(1) show ?thesis by (simp add: push_c_def at_def)
qed

text \<open>
  A bracket stays for a sum, a bracket or an additive operator for a term: \<open>stops x\<close> is what ends
  the popping for the operator \<open>x\<close>.
\<close>

definition stops :: "int \<Rightarrow> int set" where
  "stops x = (if x = 43 \<or> x = 45 then {40} else {40, 43, 45})"

lemma exec_op_binary:
  "x \<in> {43, 45, 42, 47} \<Longrightarrow> exec_op x k = do {
     k \<leftarrow> pop_until (stops x) k;
     k \<leftarrow> (if chr k \<in> stops x then push_c k (chr k) else Some k);
     k \<leftarrow> push_c k x;
     Some (True, k) }"
  by (auto simp: exec_op_def stops_def)

text \<open>With something on the stack that stops the popping, the operator goes on top of it.\<close>

lemma exec_op_inner:
  assumes "at k (ps @ y # xs) ws c" and "x \<in> {43, 45, 42, 47}" and "y \<in> stops x"
    and "set ps \<inter> stops x = {}" and "length xs < 15"
  shows "\<exists>k' c'. exec_op x k = Some (True, k') \<and> at k' (x # y # xs) (ws @ ps) c'"
proof -
  have "y \<noteq> - 1" using assms(3) by (auto simp: stops_def split: if_splits)
  from pop_until_stop [OF assms(1,3) this assms(4)] obtain k1 where
    k1: "pop_until (stops x) k = Some k1" "at k1 xs (ws @ ps) y" by blast
  from push_c_ok [OF k1(2), of y] assms(5) obtain k2 where
    k2: "push_c k1 y = Some k2" "at k2 (y # xs) (ws @ ps) y" by auto
  from push_c_ok [OF k2(2), of x] assms(5) obtain k3 where
    "push_c k2 x = Some k3" "at k3 (x # y # xs) (ws @ ps) y" by auto
  with k1 k2(1) assms(3) show ?thesis
    by (auto simp: exec_op_binary [OF assms(2)] at_def)
qed

text \<open>
  With an empty stack below, the stale \<open>ch\<close> decides: a character that stops the popping is pushed
  although it was never there.
\<close>

lemma exec_op_outer:
  assumes "at k ps ws c" and "x \<in> {43, 45, 42, 47}" and "set ps \<inter> stops x = {}"
  shows "\<exists>k' c'. exec_op x k = Some (True, k') \<and>
    at k' (if ps = [] \<and> c \<in> stops x then [x, c] else [x]) (ws @ ps) c'"
proof -
  from pop_until_empty [OF assms(1,3)] obtain k1 where
    k1: "pop_until (stops x) k = Some k1" "at k1 [] (ws @ ps) (last (c # ps))" by blast
  have l: "last (c # ps) \<in> stops x \<longleftrightarrow> ps = [] \<and> c \<in> stops x"
    using assms(3) by (cases "ps = []") (auto dest: last_in_set)
  show ?thesis
  proof (cases "ps = [] \<and> c \<in> stops x")
    case True
    from push_c_ok [OF k1(2), of c] obtain k2 where
      k2: "push_c k1 c = Some k2" "at k2 [c] (ws @ ps) (last (c # ps))" by auto
    from push_c_ok [OF k2(2), of x] obtain k3 where
      "push_c k2 x = Some k3" "at k3 [x, c] (ws @ ps) (last (c # ps))" by auto
    with True k1 k2(1) show ?thesis by (auto simp: exec_op_binary [OF assms(2)] at_def)
  next
    case False
    with l have "chr k1 \<notin> stops x" using k1(2) by (simp add: at_def)
    moreover from push_c_ok [OF k1(2), of x] obtain k3 where
      "push_c k1 x = Some k3" "at k3 [x] (ws @ ps) (last (c # ps))" by auto
    ultimately show ?thesis using False k1(1) by (auto simp: exec_op_binary [OF assms(2)])
  qed
qed

section \<open>Tokens\<close>

lemma convert_getop_operator:
  assumes "length s = 8" and "c \<in> {10, 40, 41, 42, 43, 45, 47}"
  shows "getop s (c # cs) = Some (OPERATOR, s[0 := c, 1 := 0], cs)"
proof -
  have "skip_blanks s (c # cs) = Some (s[0 := c], cs)"
    using assms by (intro skip_blanks_char) (auto simp: schar_def)
  with assms show ?thesis
    by (auto simp: getop_def wr_def rd_def EOF_def isalpha_def isdigit_def)
qed

lemma conv_loop_operator:
  assumes "at k xs ws c0" and "c \<in> {10, 40, 41, 42, 43, 45, 47}"
  shows "conv_loop k (c # cs) = do {
    (ok, k) \<leftarrow> exec_op c (k\<lparr>sbuf := (sbuf k)[0 := c, 1 := 0]\<rparr>);
    if ok then conv_loop k cs else Some (False, k) }"
proof -
  have s: "length (sbuf k) = 8" using assms(1) by (simp add: at_def)
  moreover have "rd ((sbuf k)[0 := c, 1 := 0]) 0 = Some c" using s by (simp add: rd_def)
  ultimately show ?thesis using convert_getop_operator [OF s assms(2)] by (subst conv_loop.simps) simp
qed

text \<open>What may follow a word: an operator, a closing bracket or the end of the line.\<close>

definition delim :: "int list \<Rightarrow> bool" where
  "delim cs \<longleftrightarrow> (\<exists>d ds. cs = d # ds \<and> d \<in> {10, 41, 42, 43, 45, 47})"

lemma get_word_eq:
  assumes "\<forall>c\<in>set w. p c \<and> schar c = c" and "p = isalpha \<or> p = isdigit" and "Suc (length w) < 8"
    and "length s = 8" and "delim cs"
  shows "get_word p (s[0 := c]) (w @ cs) = Some (c # w @ 0 # drop (length w + 2) s, cs)"
proof -
  from assms(5) obtain d ds where d: "cs = d # ds" "d \<in> {10, 41, 42, 43, 45, 47}"
    by (auto simp: delim_def)
  have dd: "schar d = d" "\<not> p d" "d \<noteq> EOF" "d mod 256 = d"
    using d(2) assms(2) by (auto simp: schar_def EOF_def isalpha_def isdigit_def)
  have "read_while p (s[0 := c]) 0 (w @ d # ds)
      = Some (c # w @ d # drop (length w + 2) s, int (length w) + 1, d, ds)"
    by (rule read_while_buf) (use assms dd in auto)
  moreover have "rd (c # w @ d # drop (length w + 2) s) (int (length w) + 1) = Some d"
    "wr (c # w @ d # drop (length w + 2) s) (int (length w) + 1) 0 = Some (c # w @ 0 # drop (length w + 2) s)"
    using rd_mid [of "int (length w) + 1" "c # w"] wr_mid [of "int (length w) + 1" "c # w"] by simp_all
  ultimately show ?thesis using dd by (simp add: get_word_def d(1) ungetc_def)
qed

lemma conv_loop_word:
  assumes "at k xs ws c" and "word_ok w" and "delim cs"
  shows "\<exists>k'. conv_loop k (w @ cs) = conv_loop k' cs \<and> at k' xs (ws @ w) c"
proof -
  obtain a v where w: "w = a # v" using assms(2) by (cases w) (auto simp: word_ok_def)
  obtain p where p: "p = isalpha \<or> p = isdigit" "\<forall>c\<in>set w. p c" "length w \<le> 7"
    using assms(2) by (auto simp: word_ok_def)
  then have sc: "\<forall>c\<in>set w. p c \<and> schar c = c \<and> c \<noteq> 0 \<and> c \<noteq> 32 \<and> c \<noteq> 9 \<and> c \<noteq> EOF"
    by (auto simp: isalpha_def isdigit_def schar_def EOF_def)
  have s: "length (sbuf k) = 8" using assms(1) by (simp add: at_def)
  let ?s = "a # v @ 0 # drop (length v + 2) (sbuf k)"
  have g: "get_word p ((sbuf k)[0 := a]) (v @ cs) = Some (?s, cs)"
    by (rule get_word_eq) (use p(1,3) sc s assms(3) w in auto)
  have "skip_blanks (sbuf k) (w @ cs) = Some ((sbuf k)[0 := a], v @ cs)"
    using skip_blanks_char [OF s, of a "v @ cs"] sc by (simp add: w)
  moreover have "rd ((sbuf k)[0 := a]) 0 = Some a" using s by (cases "sbuf k") (auto simp: rd_def)
  moreover have "a \<noteq> EOF" "p a" using sc w by auto
  moreover have "\<not> (isalpha a \<and> isdigit a)" by (auto simp: isalpha_def isdigit_def)
  ultimately obtain ty where ty: "getop (sbuf k) (w @ cs) = Some (ty, ?s, cs)" "ty = ALPHA \<or> ty = NUMBER"
    using g p(1) by (auto simp: getop_def)
  have tw: "takeWhile (\<lambda>c. c \<noteq> 0) ?s = w" using sc by (simp add: w takeWhile_tail)
  have "conv_loop k (w @ cs) = conv_loop (k\<lparr>sbuf := ?s, out := out k @ w\<rparr>) cs"
    using ty tw by (subst conv_loop.simps) auto
  moreover have "at (k\<lparr>sbuf := ?s, out := out k @ w\<rparr>) xs (ws @ w) c"
    using assms(1) p(3) w by (simp add: at_def)
  ultimately show ?thesis by blast
qed

section \<open>A whole expression\<close>

text \<open>Does the expression begin with a word?\<close>

primrec sum_lead :: "sum \<Rightarrow> bool" and term_lead :: "term \<Rightarrow> bool" and fac_lead :: "fac \<Rightarrow> bool" where
  "sum_lead (STerm t) = term_lead t"
| "sum_lead (SAdd s c t) = sum_lead s"
| "term_lead (TFac f) = fac_lead f"
| "term_lead (TMul t c f) = term_lead t"
| "fac_lead (Word w) = True"
| "fac_lead (Par s) = False"

text \<open>
  The context of an expression is the stack below it. It is safe when a stopper lies on top of it,
  or when it is empty, the expression begins with a word and \<open>ch\<close> holds no stopper.
\<close>

definition safe :: "int list \<Rightarrow> int set \<Rightarrow> bool \<Rightarrow> int \<Rightarrow> bool" where
  "safe xs S lead c \<longleftrightarrow> (case xs of [] \<Rightarrow> lead \<and> c \<notin> {40, 43, 45} | x # _ \<Rightarrow> x \<in> S)"

lemma delim_op: "c \<in> {10, 41, 42, 43, 45, 47} \<Longrightarrow> delim (c # cs)"
  by (simp add: delim_def)

text \<open>An operator behind an expression that is pending in a safe context.\<close>

lemma exec_op_safe:
  assumes "at k (ps @ xs) ws c" and "x \<in> {43, 45, 42, 47}" and "set ps \<inter> stops x = {}"
    and "xs = [] \<Longrightarrow> ps = [] \<Longrightarrow> c \<notin> {40, 43, 45}" and "xs \<noteq> [] \<Longrightarrow> hd xs \<in> stops x"
    and "length xs \<le> 15"
  shows "\<exists>k' c'. exec_op x k = Some (True, k') \<and> at k' (x # xs) (ws @ ps) c'"
proof (cases xs)
  case Nil
  have "ps = [] \<Longrightarrow> c \<notin> stops x" using assms(4) Nil by (auto simp: stops_def)
  with exec_op_outer [of k ps ws c x] assms(1-3) Nil show ?thesis by (auto split: if_splits)
next
  case (Cons y ys)
  with exec_op_inner [of k ps y ys ws c x] assms show ?thesis by simp
qed

text \<open>The bracket closing an expression prints what is pending.\<close>

lemma exec_close:
  assumes "at k (ps @ 40 # xs) ws c" and "40 \<notin> set ps"
  shows "\<exists>k'. exec_op 41 k = Some (True, k') \<and> at k' xs (ws @ ps) 40"
proof -
  from pop_until_stop [OF assms(1), of "{40}"] assms(2) obtain k' where
    "pop_until {40} k = Some k'" "at k' xs (ws @ ps) 40" by auto
  then show ?thesis by (auto simp: exec_op_def at_def)
qed

lemma exec_open:
  assumes "at k xs ws c" and "length xs < 16"
  shows "\<exists>k'. exec_op 40 k = Some (True, k') \<and> at k' (40 # xs) ws c"
  using push_c_ok [OF assms, of 40] by (auto simp: exec_op_def)

lemma conv_loop_step:
  assumes "at k xs ws c0" and "c \<in> {10, 40, 41, 42, 43, 45, 47}"
    and "\<And>s. length s = 8 \<Longrightarrow> \<exists>k' c'. exec_op c (k\<lparr>sbuf := s\<rparr>) = Some (True, k') \<and> at k' ys vs c'"
  shows "\<exists>k' c'. conv_loop k (c # cs) = conv_loop k' cs \<and> at k' ys vs c'"
proof -
  have "length ((sbuf k)[0 := c, 1 := 0]) = 8" using assms(1) by (simp add: at_def)
  from assms(3) [OF this] conv_loop_operator [OF assms(1,2)] show ?thesis by auto
qed

text \<open>Reading an operator behind its left operand, an opening bracket, and a closing one.\<close>

lemma conv_loop_op:
  assumes "at k (ps @ xs) ws c" and "x \<in> {43, 45, 42, 47}" and "set ps \<inter> stops x = {}"
    and "safe xs (stops x) lead c0" and "xs = [] \<and> ps = [] \<longrightarrow> c = c0" and "length xs \<le> 15"
  obtains k' c' where "conv_loop k (x # cs) = conv_loop k' cs" and "at k' (x # xs) (ws @ ps) c'"
proof -
  have "\<exists>k' c'. exec_op x (k\<lparr>sbuf := b\<rparr>) = Some (True, k') \<and> at k' (x # xs) (ws @ ps) c'"
    if "length b = 8" for b
    by (rule exec_op_safe [OF at_sbuf [OF assms(1) that] assms(2,3)])
      (use assms(4-6) in \<open>auto simp: safe_def split: list.splits\<close>)
  then have "\<exists>k' c'. conv_loop k (x # cs) = conv_loop k' cs \<and> at k' (x # xs) (ws @ ps) c'"
    using assms(2) by (intro conv_loop_step [OF assms(1)]) auto
  with that show thesis by blast
qed

lemma conv_loop_open:
  assumes "at k xs ws c" and "length xs < 16"
  obtains k' c' where "conv_loop k (40 # cs) = conv_loop k' cs" and "at k' (40 # xs) ws c'"
proof -
  have "\<exists>k' c'. conv_loop k (40 # cs) = conv_loop k' cs \<and> at k' (40 # xs) ws c'"
    using exec_open [OF at_sbuf [OF assms(1)] assms(2)] by (intro conv_loop_step [OF assms(1)]) (simp, blast)
  with that show thesis by blast
qed

lemma conv_loop_close:
  assumes "at k (ps @ 40 # xs) ws c" and "40 \<notin> set ps"
  obtains k' where "conv_loop k (41 # cs) = conv_loop k' cs" and "at k' xs (ws @ ps) 40"
proof -
  have "length ((sbuf k)[0 := 41, 1 := 0]) = 8" using assms(1) by (simp add: at_def)
  from exec_close [OF at_sbuf [OF assms(1) this] assms(2)] conv_loop_operator [OF assms(1), of 41 cs] that
  show thesis by auto
qed

lemma conv_loop_infix:
  fixes s :: sum and t :: "term" and f :: fac
  shows "at k xs ws c \<Longrightarrow> sum_ok s \<Longrightarrow> length xs + sum_depth s \<le> 16 \<Longrightarrow> delim cs \<Longrightarrow>
      safe xs {40} (sum_lead s) c \<Longrightarrow>
      \<exists>k' c'. conv_loop k (sum_text s @ cs) = conv_loop k' cs \<and>
        at k' (sum_pend s @ xs) (ws @ sum_emit s) c' \<and> (xs = [] \<and> sum_pend s = [] \<longrightarrow> c' = c)"
    and "at k xs ws c \<Longrightarrow> term_ok t \<Longrightarrow> length xs + term_depth t \<le> 16 \<Longrightarrow> delim cs \<Longrightarrow>
      safe xs {40, 43, 45} (term_lead t) c \<Longrightarrow>
      \<exists>k' c'. conv_loop k (term_text t @ cs) = conv_loop k' cs \<and>
        at k' (term_pend t @ xs) (ws @ term_emit t) c' \<and> (xs = [] \<and> term_pend t = [] \<longrightarrow> c' = c)"
    and "at k xs ws c \<Longrightarrow> fac_ok f \<Longrightarrow> length xs + fac_depth f \<le> 16 \<Longrightarrow> delim cs \<Longrightarrow>
      \<exists>k' c'. conv_loop k (fac_text f @ cs) = conv_loop k' cs \<and>
        at k' xs (ws @ fac_post f) c' \<and> c' = (if fac_lead f then c else 40)"
proof (induction s and t and f arbitrary: k xs ws c cs and k xs ws c cs and k xs ws c cs)
  case (STerm t)
  have "safe xs {40, 43, 45} (term_lead t) c"
    using STerm.prems(5) by (auto simp: safe_def split: list.splits)
  with STerm show ?case by simp
next
  case (SAdd s x t)
  from SAdd.prems have x: "x \<in> {43, 45}" "sum_ok s" "term_ok t" by auto
  have d: "length xs + sum_depth s \<le> 16" "length (x # xs) + term_depth t \<le> 16"
    using SAdd.prems(3) by auto
  have "delim (x # term_text t @ cs)" using x(1) by (auto simp: delim_def)
  from SAdd.IH(1) [OF SAdd.prems(1) x(2) d(1) this] SAdd.prems(5) obtain k1 c1 where
    k1: "conv_loop k (sum_text (SAdd s x t) @ cs) = conv_loop k1 (x # term_text t @ cs)"
    "at k1 (sum_pend s @ xs) (ws @ sum_emit s) c1" "xs = [] \<and> sum_pend s = [] \<longrightarrow> c1 = c" by auto
  have op: "x \<in> {43, 45, 42, 47}" "set (sum_pend s) \<inter> stops x = {}" "safe xs (stops x) (sum_lead s) c" "length xs \<le> 15"
    using x(1) pend_ops(2) [OF x(2)] SAdd.prems(5) d(2) by (auto simp: stops_def)
  from conv_loop_op [OF k1(2) op(1-3) k1(3) op(4), of "term_text t @ cs"] obtain k2 c2 where
    k2: "conv_loop k1 (x # term_text t @ cs) = conv_loop k2 (term_text t @ cs)"
    "at k2 (x # xs) (ws @ sum_post s) c2" by auto
  from SAdd.IH(2) [OF k2(2) x(3) d(2) SAdd.prems(4)] x(1) k1(1) k2(1) show ?case
    by (auto simp: safe_def)
next
  case (TFac f)
  from TFac.IH [OF TFac.prems(1)] TFac.prems show ?case
    by (fastforce simp: safe_def split: list.splits)
next
  case (TMul t x f)
  from TMul.prems have x: "x \<in> {42, 47}" "term_ok t" "fac_ok f" by auto
  have d: "length xs + term_depth t \<le> 16" "length (x # xs) + fac_depth f \<le> 16"
    using TMul.prems(3) by auto
  have "delim (x # fac_text f @ cs)" using x(1) by (auto simp: delim_def)
  from TMul.IH(1) [OF TMul.prems(1) x(2) d(1) this] TMul.prems(5) obtain k1 c1 where
    k1: "conv_loop k (term_text (TMul t x f) @ cs) = conv_loop k1 (x # fac_text f @ cs)"
    "at k1 (term_pend t @ xs) (ws @ term_emit t) c1" "xs = [] \<and> term_pend t = [] \<longrightarrow> c1 = c" by auto
  have op: "x \<in> {43, 45, 42, 47}" "set (term_pend t) \<inter> stops x = {}" "safe xs (stops x) (term_lead t) c" "length xs \<le> 15"
    using x(1) pend_ops(1) [OF x(2)] TMul.prems(5) d(2) by (auto simp: stops_def)
  from conv_loop_op [OF k1(2) op(1-3) k1(3) op(4), of "fac_text f @ cs"] obtain k2 c2 where
    k2: "conv_loop k1 (x # fac_text f @ cs) = conv_loop k2 (fac_text f @ cs)"
    "at k2 (x # xs) (ws @ term_post t) c2" by auto
  from TMul.IH(2) [OF k2(2) x(3) d(2) TMul.prems(4)] k1(1) k2(1) show ?case by auto
next
  case (Word w)
  with conv_loop_word [of k xs ws c w cs] show ?case by auto
next
  case (Par s)
  have d: "length xs < 16" "length (40 # xs) + sum_depth s \<le> 16" using Par.prems(3) by auto
  from conv_loop_open [OF Par.prems(1) d(1), of "sum_text s @ 41 # cs"] obtain k1 c1 where
    k1: "conv_loop k (fac_text (Par s) @ cs) = conv_loop k1 (sum_text s @ 41 # cs)" "at k1 (40 # xs) ws c1"
    by auto
  have "safe (40 # xs) {40} (sum_lead s) c1" by (simp add: safe_def)
  from Par.IH [OF k1(2) _ d(2) _ this, of "41 # cs"] Par.prems(2) obtain k2 c2 where
    k2: "conv_loop k1 (sum_text s @ 41 # cs) = conv_loop k2 (41 # cs)"
    "at k2 (sum_pend s @ 40 # xs) (ws @ sum_emit s) c2" by (auto simp: delim_def)
  have "40 \<notin> set (sum_pend s)" using pend_ops(2) [of s] Par.prems(2) by auto
  from conv_loop_close [OF k2(2) this, of cs] obtain k3 where
    "conv_loop k2 (41 # cs) = conv_loop k3 cs" "at k3 xs (ws @ sum_emit s @ sum_pend s) 40" by auto
  with k1(1) k2(1) show ?case by (auto simp del: emit_pend simp: emit_pend(2))
qed

section \<open>The end of the input\<close>

lemma conv_loop_end:
  assumes "at k xs ws c"
  shows "\<exists>k'. conv_loop k [10] = Some (True, k') \<and> at k' xs ws c"
proof -
  let ?k = "k\<lparr>sbuf := (sbuf k)[0 := 10, 1 := 0]\<rparr>"
  let ?k' = "?k\<lparr>sbuf := (sbuf ?k)[0 := EOF, 1 := 0]\<rparr>"
  have s: "length (sbuf k) = 8" using assms by (simp add: at_def)
  have "conv_loop k [10] = conv_loop ?k []"
    using conv_loop_operator [OF assms, of 10 "[]"] by (simp add: exec_op_def)
  also have "getop (sbuf ?k) [] = Some (END, sbuf ?k', [])"
    using s by (cases "sbuf k") (simp_all add: getop_def wr_def rd_def)
  then have "conv_loop ?k [] = Some (True, ?k')" by (subst conv_loop.simps) simp
  finally show ?thesis using assms by (auto simp: at_def)
qed

lemma convert_main_eq:
  "convert_main True True ch0 inp =
     do { (ok, k) \<leftarrow> conv_loop \<lparr>stk = stack_init True True 16, chr = ch0, sbuf = replicate 8 0, out = []\<rparr> inp;
          if \<not> ok then Some (- 1, out k @ err_text)
          else do {
            k \<leftarrow> pop_until {40} k;
            if chr k = 40 then Some (- 1, out k @ err_text) else Some (0, out k @ [10]) } }"
proof -
  have "ch CHR ''('' = (40 :: int)" "stack_init True True 16 \<noteq> None"
    by (simp_all add: stack_init_def calloc_def)
  then show ?thesis unfolding convert_main_def Let_def by (simp only: if_False)
qed

lemma start_at: "at \<lparr>stk = stack_init True True 16, chr = ch0, sbuf = replicate 8 0, out = []\<rparr> [] [] ch0"
  using stack_rep_init [of 16] by (simp add: at_def)

section \<open>Properties\<close>

text \<open>
  C7. The conversion is right for every well-formed infix expression that begins with a word, with
  any nesting behind it, words of at most seven characters and at most 16 stack places: the
  program prints its postfix form, operators of equal rank associating to the left. (The
  uninitialised \<open>ch\<close> must not happen to hold a bracket or an additive operator.)
\<close>

theorem convert_correct:
  assumes "sum_ok s" and "sum_lead s" and "sum_depth s \<le> 16" and "ch0 \<notin> {40, 43, 45}"
  shows "convert_main True True ch0 (sum_text s @ [10]) = Some (0, sum_post s @ [10])"
proof -
  let ?k = "\<lparr>stk = stack_init True True 16, chr = ch0, sbuf = replicate 8 0, out = []\<rparr>"
  have "safe [] {40} (sum_lead s) ch0" using assms(2,4) by (simp add: safe_def)
  from conv_loop_infix(1) [OF start_at [of ch0] assms(1) _ _ this, of "[10]"] assms(3)
  obtain k1 c1 where k1: "conv_loop ?k (sum_text s @ [10]) = conv_loop k1 [10]"
    "at k1 (sum_pend s) (sum_emit s) c1" "sum_pend s = [] \<longrightarrow> c1 = ch0" by (auto simp: delim_def)
  from conv_loop_end [OF k1(2)] obtain k2 where
    k2: "conv_loop k1 [10] = Some (True, k2)" "at k2 (sum_pend s) (sum_emit s) c1" by blast
  from pop_until_empty [OF k2(2), of "{40}"] pend_ops(2) [OF assms(1)] obtain k3 where
    k3: "pop_until {40} k2 = Some k3" "at k3 [] (sum_emit s @ sum_pend s) (last (c1 # sum_pend s))"
    by fastforce
  have "last (c1 # sum_pend s) \<noteq> 40"
    using k1(3) assms(4) pend_ops(2) [OF assms(1)] by (cases "sum_pend s = []") (auto dest!: last_in_set)
  with k1(1) k2(1) k3 show ?thesis by (simp add: convert_main_eq at_def del: emit_pend) simp
qed

text \<open>\<open>a+b*(c-2)/d\<close>\<close>

definition demo_sum :: sum where
  "demo_sum = SAdd (STerm (TFac (Word [97]))) 43
     (TMul (TMul (TFac (Word [98])) 42
        (Par (SAdd (STerm (TFac (Word [99]))) 45 (TFac (Word [50]))))) 47 (Word [100]))"

theorem convert_correct_witness:
  "convert_main True True 0 (map ch ''a+b*(c-2)/d'' @ [10]) = Some (0, map ch ''abc2-*d/+'' @ [10])"
proof -
  have "sum_ok demo_sum" "sum_lead demo_sum" "sum_depth demo_sum \<le> 16"
    by (simp_all add: demo_sum_def word_ok_def isalpha_def isdigit_def)
  from convert_correct [OF this, of 0] show ?thesis by (simp add: demo_sum_def)
qed

text \<open>
  A bracket at the very beginning leaves \<open>(\<close> in \<open>ch\<close> and the stack empty; from then on the
  program behaves as if that bracket had not been closed.
\<close>

definition reopened :: "conv \<Rightarrow> int list \<Rightarrow> int list \<Rightarrow> bool" where
  "reopened k ps ws \<longleftrightarrow> (if ps = [] then at k [] ws 40 else \<exists>c. at k (ps @ [40]) ws c)"

lemma reopened_sbuf: "reopened k ps ws \<Longrightarrow> length s = 8 \<Longrightarrow> reopened (k\<lparr>sbuf := s\<rparr>) ps ws"
  unfolding reopened_def using at_sbuf by (cases "ps = []") (simp, simp, blast)

lemma reopened_at: "reopened k ps ws \<Longrightarrow> \<exists>xs c. at k xs ws c"
  by (auto simp: reopened_def split: if_splits)

lemma exec_op_reopened:
  assumes "reopened k ps ws" and "x \<in> {43, 45, 42, 47}" and "set ps \<inter> stops x = {}"
  shows "\<exists>k' c'. exec_op x k = Some (True, k') \<and> at k' [x, 40] (ws @ ps) c'"
proof -
  have y: "40 \<in> stops x" by (simp add: stops_def)
  show ?thesis
  proof (cases "ps = []")
    case True
    with assms(1) have "at k [] ws 40" by (simp add: reopened_def)
    from exec_op_outer [OF this assms(2)] y True show ?thesis by auto
  next
    case False
    with assms(1) obtain c where "at k (ps @ 40 # []) ws c" by (auto simp: reopened_def)
    from exec_op_inner [OF this assms(2) y assms(3)] show ?thesis by auto
  qed
qed

lemma conv_loop_reopened:
  assumes "reopened k ps ws" and x: "x \<in> {43, 45, 42, 47}" and "set ps \<inter> stops x = {}"
  obtains k' c' where "conv_loop k (x # cs) = conv_loop k' cs" and "at k' [x, 40] (ws @ ps) c'"
proof -
  from reopened_at [OF assms(1)] obtain ys c1 where at: "at k ys ws c1" by blast
  have "\<exists>k' c'. conv_loop k (x # cs) = conv_loop k' cs \<and> at k' [x, 40] (ws @ ps) c'"
    using assms(2) exec_op_reopened [OF reopened_sbuf [OF assms(1)] assms(2,3)]
    by (intro conv_loop_step [OF at]) auto
  with that show thesis by blast
qed

lemma conv_loop_bracket:
  fixes s :: sum and t :: "term" and f :: fac
  shows "at k [] ws c \<Longrightarrow> sum_ok s \<Longrightarrow> sum_depth s \<le> 15 \<Longrightarrow> delim cs \<Longrightarrow> \<not> sum_lead s \<Longrightarrow>
      \<exists>k'. conv_loop k (sum_text s @ cs) = conv_loop k' cs \<and> reopened k' (sum_pend s) (ws @ sum_emit s)"
    and "at k [] ws c \<Longrightarrow> term_ok t \<Longrightarrow> term_depth t \<le> 15 \<Longrightarrow> delim cs \<Longrightarrow> \<not> term_lead t \<Longrightarrow>
      \<exists>k'. conv_loop k (term_text t @ cs) = conv_loop k' cs \<and> reopened k' (term_pend t) (ws @ term_emit t)"
    and "at k [] ws c \<Longrightarrow> fac_ok f \<Longrightarrow> fac_depth f \<le> 15 \<Longrightarrow> delim cs \<Longrightarrow> \<not> fac_lead f \<Longrightarrow>
      \<exists>k'. conv_loop k (fac_text f @ cs) = conv_loop k' cs \<and> reopened k' [] (ws @ fac_post f)"
proof (induction s and t and f arbitrary: k ws c cs and k ws c cs and k ws c cs)
  case (SAdd s x t)
  from SAdd.prems have x: "x \<in> {43, 45}" "sum_ok s" "term_ok t" "\<not> sum_lead s" by auto
  have d: "sum_depth s \<le> 15" "length [x, 40] + term_depth t \<le> 16" using SAdd.prems(3) by auto
  have "delim (x # term_text t @ cs)" using x(1) by (auto simp: delim_def)
  from SAdd.IH(1) [OF SAdd.prems(1) x(2) d(1) this x(4)] obtain k1 where
    k1: "conv_loop k (sum_text (SAdd s x t) @ cs) = conv_loop k1 (x # term_text t @ cs)"
    "reopened k1 (sum_pend s) (ws @ sum_emit s)" by auto
  have op: "x \<in> {43, 45, 42, 47}" "set (sum_pend s) \<inter> stops x = {}"
    using x(1) pend_ops(2) [OF x(2)] by (auto simp: stops_def)
  from conv_loop_reopened [OF k1(2) op, of "term_text t @ cs"] obtain k2 c2 where
    k2: "conv_loop k1 (x # term_text t @ cs) = conv_loop k2 (term_text t @ cs)"
    "at k2 [x, 40] (ws @ sum_post s) c2" by auto
  have "safe [x, 40] {40, 43, 45} (term_lead t) c2" using x(1) by (auto simp: safe_def)
  from conv_loop_infix(2) [OF k2(2) x(3) d(2) SAdd.prems(4) this] k1(1) k2(1) show ?case
    by (auto simp: reopened_def)
next
  case (TMul t x f)
  from TMul.prems have x: "x \<in> {42, 47}" "term_ok t" "fac_ok f" "\<not> term_lead t" by auto
  have d: "term_depth t \<le> 15" "length [x, 40] + fac_depth f \<le> 16" using TMul.prems(3) by auto
  have "delim (x # fac_text f @ cs)" using x(1) by (auto simp: delim_def)
  from TMul.IH(1) [OF TMul.prems(1) x(2) d(1) this x(4)] obtain k1 where
    k1: "conv_loop k (term_text (TMul t x f) @ cs) = conv_loop k1 (x # fac_text f @ cs)"
    "reopened k1 (term_pend t) (ws @ term_emit t)" by auto
  have op: "x \<in> {43, 45, 42, 47}" "set (term_pend t) \<inter> stops x = {}"
    using x(1) pend_ops(1) [OF x(2)] by (auto simp: stops_def)
  from conv_loop_reopened [OF k1(2) op, of "fac_text f @ cs"] obtain k2 c2 where
    k2: "conv_loop k1 (x # fac_text f @ cs) = conv_loop k2 (fac_text f @ cs)"
    "at k2 [x, 40] (ws @ term_post t) c2" by auto
  from conv_loop_infix(3) [OF k2(2) x(3) d(2) TMul.prems(4)] k1(1) k2(1) show ?case
    by (auto simp: reopened_def)
next
  case (Par s)
  from conv_loop_infix(3) [of k "[]" ws c "Par s" cs] Par.prems show ?case
    by (auto simp: reopened_def)
qed auto

text \<open>
  Every well-formed expression that begins with a bracket is rejected: the program prints the
  right postfix text but pushes a bracket that is not there (or finds it in \<open>ch\<close> at the end),
  reports \<open>Error!\<close> and returns -1. So \<open>(a+b)*c\<close> cannot be converted.
\<close>

theorem convert_leading_bracket_fails:
  assumes "sum_ok s" and "\<not> sum_lead s" and "sum_depth s \<le> 15"
  shows "convert_main True True ch0 (sum_text s @ [10]) = Some (- 1, sum_post s @ err_text)"
proof -
  let ?k = "\<lparr>stk = stack_init True True 16, chr = ch0, sbuf = replicate 8 0, out = []\<rparr>"
  from conv_loop_bracket(1) [OF start_at [of ch0] assms(1,3) _ assms(2), of "[10]"] obtain k1 where
    k1: "conv_loop ?k (sum_text s @ [10]) = conv_loop k1 [10]"
    "reopened k1 (sum_pend s) (sum_emit s)" by (auto simp: delim_def)
  have "40 \<notin> set (sum_pend s)" using pend_ops(2) [OF assms(1)] by auto
  then have "\<exists>k2 k3. conv_loop k1 [10] = Some (True, k2) \<and> pop_until {40} k2 = Some k3 \<and>
      out k3 = sum_post s \<and> chr k3 = 40"
  proof (cases "sum_pend s = []")
    case True
    with k1(2) have "at k1 [] (sum_emit s) 40" by (simp add: reopened_def)
    from conv_loop_end [OF this] obtain k2 where
      k2: "conv_loop k1 [10] = Some (True, k2)" "at k2 [] (sum_emit s) 40" by blast
    with pop_until_empty [OF k2(2), of "{40}"] True emit_pend(2) [of s] show ?thesis
      by (auto simp: at_def)
  next
    case False
    with k1(2) obtain c where "at k1 (sum_pend s @ [40]) (sum_emit s) c" by (auto simp: reopened_def)
    from conv_loop_end [OF this] obtain k2 where
      k2: "conv_loop k1 [10] = Some (True, k2)" "at k2 (sum_pend s @ 40 # []) (sum_emit s) c" by blast
    with pop_until_stop [OF k2(2), of "{40}"] \<open>40 \<notin> set (sum_pend s)\<close> show ?thesis
      by (auto simp: at_def)
  qed
  with k1(1) show ?thesis by (auto simp: convert_main_eq)
qed

theorem convert_leading_bracket_fails_witness:
  "convert_main True True 0 (map ch ''(a+b)*c'' @ [10]) = Some (- 1, map ch ''ab+c*'' @ err_text)"
  using convert_leading_bracket_fails [of "STerm (TMul (TFac (Par (SAdd (STerm (TFac (Word [97]))) 43
      (TFac (Word [98]))))) 42 (Word [99]))" 0]
  by (simp add: word_ok_def isalpha_def)

end
