(* ===== verification/ArrayExam.thy ===== *)
theory ArrayExam
  imports Prelude
begin

text \<open>
  The array exercises of \<open>exam/point_to_offer\<close>: two ways to find a duplicate, the search in a
  matrix with sorted rows and columns, and the merge of two sorted arrays in place. Arrays are
  checked at every access; a matrix is stored row by row.
\<close>

section \<open>\<open>0301_duplicateInArray.c\<close>\<close>

text \<open>
  The inner \<open>while\<close> puts \<open>arr[i]\<close> in its place until \<open>i\<close> holds \<open>i\<close>; the result is a duplicate, or
  the array.
\<close>

partial_function (option) settle :: "int list \<Rightarrow> int \<Rightarrow> (int option \<times> int list) option" where
  "settle arr i = do {
     x \<leftarrow> rd arr i;
     if x \<noteq> i then do {
       y \<leftarrow> rd arr x;
       if x = y then Some (Some x, arr)
       else do {
         arr \<leftarrow> wr arr i y;
         arr \<leftarrow> wr arr x x;
         settle arr i } }
     else Some (None, arr) }"

function duplicate_from :: "int list \<Rightarrow> int \<Rightarrow> int \<Rightarrow> (int \<times> int list) option" where
  "duplicate_from arr n i =
     (if i < n then do {
        (r, arr) \<leftarrow> settle arr i;
        (case r of Some x \<Rightarrow> Some (x, arr) | None \<Rightarrow> duplicate_from arr n (i + 1)) }
      else Some (- 1, arr))"
  by pat_completeness auto
termination
  by (relation "measure (\<lambda>(arr, n, i). nat (n - i))") auto

declare duplicate_from.simps [simp del] settle.simps [code]

definition duplicate :: "int list \<Rightarrow> int \<Rightarrow> (int \<times> int list) option" where
  "duplicate arr n = duplicate_from arr n 0"

text \<open>
  \<open>main\<close>: reads \<open>n\<close> numbers into a zeroed array (the numbers \<open>scanf\<close> converts are \<open>vals\<close>; places
  behind the end of the input keep their zero) and prints the result.
\<close>

definition fill :: "int \<Rightarrow> int list \<Rightarrow> int list" where
  "fill n vals = take (nat n) vals @ replicate (nat n - length vals) 0"

definition duplicate_main :: "bool \<Rightarrow> int \<Rightarrow> int list \<Rightarrow> (int \<times> int list) option" where
  "duplicate_main ok n vals =
     (case calloc ok n of
        None \<Rightarrow> Some (- 1, [])
      | Some _ \<Rightarrow> do { (r, _) \<leftarrow> duplicate (fill n vals) n; Some (0, [r]) })"

section \<open>\<open>0302_duplicateInArray.c\<close>\<close>

function count_range_from :: "int list \<Rightarrow> int \<Rightarrow> int \<Rightarrow> int \<Rightarrow> int \<Rightarrow> int \<Rightarrow> int option" where
  "count_range_from arr n start end' i cnt =
     (if i < n then do {
        x \<leftarrow> rd arr i;
        count_range_from arr n start end' (i + 1) (if x \<ge> start \<and> x \<le> end' then cnt + 1 else cnt) }
      else Some cnt)"
  by pat_completeness auto
termination
  by (relation "measure (\<lambda>(arr, n, s, e, i, cnt). nat (n - i))") auto

declare count_range_from.simps [simp del]

definition countRange :: "int list \<Rightarrow> int \<Rightarrow> int \<Rightarrow> int \<Rightarrow> int option" where
  "countRange arr n start end' = count_range_from arr n start end' 0 0"

partial_function (option) duplicate_range :: "int list \<Rightarrow> int \<Rightarrow> int \<Rightarrow> int \<Rightarrow> int option" where
  "duplicate_range arr n start end' =
     (if end' \<ge> start then do {
        let mid = (end' - start) div 2 + start;
        cnt \<leftarrow> countRange arr n start mid;
        if start = end' then (if cnt > 1 then Some start else Some (- 1))
        else if cnt > mid - start + 1 then duplicate_range arr n start mid
        else duplicate_range arr n (mid + 1) end' }
      else Some (- 1))"

declare duplicate_range.simps [code]

definition duplicate2 :: "int list \<Rightarrow> int \<Rightarrow> int option" where
  "duplicate2 arr n = duplicate_range arr n 1 (n - 1)"

definition duplicate2_main :: "bool \<Rightarrow> int \<Rightarrow> int list \<Rightarrow> (int \<times> int list) option" where
  "duplicate2_main ok n vals =
     (case calloc ok n of
        None \<Rightarrow> Some (- 1, [])
      | Some _ \<Rightarrow> do { r \<leftarrow> duplicate2 (fill n vals) n; Some (0, [r]) })"

section \<open>\<open>0401_findInMatrix.c\<close>\<close>

function find_from :: "int list \<Rightarrow> int \<Rightarrow> int \<Rightarrow> int \<Rightarrow> int \<Rightarrow> int \<Rightarrow> int option" where
  "find_from arr rows columns val row column =
     (if row < rows \<and> column \<ge> 0 then do {
        x \<leftarrow> rd arr (row * columns + column);
        if val < x then find_from arr rows columns val row (column - 1)
        else if val > x then find_from arr rows columns val (row + 1) column
        else Some 1 }
      else Some 0)"
  by pat_completeness auto
termination
  by (relation "measure (\<lambda>(arr, rows, cols, v, row, column). nat (rows - row) + nat (column + 1))") auto

declare find_from.simps [simp del]

definition findInMatrix :: "int list \<Rightarrow> int \<Rightarrow> int \<Rightarrow> int \<Rightarrow> int option" where
  "findInMatrix arr rows columns val = find_from arr rows columns val 0 (columns - 1)"

section \<open>\<open>05_mergeArray.c\<close>\<close>

text \<open>The second loop copies what is left of the second array.\<close>

function copy_rest :: "int list \<Rightarrow> int list \<Rightarrow> int \<Rightarrow> int \<Rightarrow> int list option" where
  "copy_rest arr1 arr2 j k =
     (if k \<ge> 0 then do {
        y \<leftarrow> rd arr2 j;
        arr1 \<leftarrow> wr arr1 k y;
        copy_rest arr1 arr2 (j - 1) (k - 1) }
      else Some arr1)"
  by pat_completeness auto
termination
  by (relation "measure (\<lambda>(a, b, j, k). nat (k + 1))") auto

function merge_from :: "int list \<Rightarrow> int list \<Rightarrow> int \<Rightarrow> int \<Rightarrow> int \<Rightarrow> int list option" where
  "merge_from arr1 arr2 i j k =
     (if i \<ge> 0 \<and> j \<ge> 0 then do {
        x \<leftarrow> rd arr1 i;
        y \<leftarrow> rd arr2 j;
        if x > y then do { arr1 \<leftarrow> wr arr1 k x; merge_from arr1 arr2 (i - 1) j (k - 1) }
        else do { arr1 \<leftarrow> wr arr1 k y; merge_from arr1 arr2 i (j - 1) (k - 1) } }
      else if i < 0 then copy_rest arr1 arr2 j k
      else Some arr1)"
  by pat_completeness auto
termination
  by (relation "measure (\<lambda>(a, b, i, j, k). nat (i + 1) + nat (j + 1))") auto

declare copy_rest.simps [simp del] merge_from.simps [simp del]

definition mergeArray :: "int list \<Rightarrow> int \<Rightarrow> int list \<Rightarrow> int \<Rightarrow> int list option" where
  "mergeArray arr1 n1 arr2 n2 = merge_from arr1 arr2 (n1 - 1) (n2 - 1) (n1 + n2 - 1)"

text \<open>\<open>main\<close> reads five numbers into each array and prints the ten.\<close>

definition merge_main :: "int list \<Rightarrow> int list option" where
  "merge_main vals = mergeArray (fill 5 vals @ replicate 5 0) 5 (fill 5 (drop 5 vals)) 5"

lemma exam_examples:
  "map_option fst (duplicate [2, 3, 1, 0, 2, 5, 3] 7) = Some 2"
  "duplicate2 [2, 3, 5, 4, 3, 2, 6, 7] 8 = Some 3"
  "findInMatrix [1, 2, 8, 9, 2, 4, 9, 12, 4, 7, 10, 13, 6, 8, 11, 15] 4 4 7 = Some 1"
  "merge_main [1, 3, 5, 7, 9, 2, 4, 6, 8, 10] = Some [1, 2, 3, 4, 5, 6, 7, 8, 9, 10]"
  by code_simp+

section \<open>The duplicate in place\<close>

lemma count_two:
  assumes "i < length xs" and "j < length xs" and "i \<noteq> j" and "xs ! i = x" and "xs ! j = x"
  shows "2 \<le> count (mset xs) x"
proof -
  have "{i, j} \<subseteq> {k. k < length xs \<and> x = xs ! k}" using assms by auto
  then have "card {i, j} \<le> card {k. k < length xs \<and> x = xs ! k}" by (intro card_mono) auto
  moreover have "count (mset xs) x = card {k. k < length xs \<and> x = xs ! k}"
    by (simp add: count_mset count_list_eq_length_filter length_filter_conv_card)
  ultimately show ?thesis using assms(3) by simp
qed

lemma count_two_not_distinct: "2 \<le> count (mset xs) x \<Longrightarrow> \<not> distinct xs"
proof
  assume "2 \<le> count (mset xs) x" "distinct xs"
  moreover from this(2) have "count (mset xs) x = (if x \<in> set xs then 1 else 0)"
    by (simp only: distinct_count_atmost_1)
  ultimately show False by (simp split: if_splits)
qed

text \<open>Each exchange puts one more element in its place, which is why the inner loop ends.\<close>

definition misplaced :: "int list \<Rightarrow> nat set" where
  "misplaced arr = {k. k < length arr \<and> arr ! k \<noteq> int k}"

definition in_range :: "int list \<Rightarrow> bool" where
  "in_range arr \<longleftrightarrow> (\<forall>x\<in>set arr. 0 \<le> x \<and> x < int (length arr))"

text \<open>
  An exchange that puts an element in its place keeps the elements and the ones in place, and
  leaves fewer out of place.
\<close>

lemma misplaced_swap:
  assumes "i < length arr" "x < length arr" "arr ! i = int x" "x \<noteq> i" "arr ! x \<noteq> int x"
  shows "mset (arr[i := arr ! x, x := int x]) = mset arr"
    and "card (misplaced (arr[i := arr ! x, x := int x])) < card (misplaced arr)"
    and "k < length arr \<Longrightarrow> arr ! k = int k \<Longrightarrow> arr[i := arr ! x, x := int x] ! k = int k"
proof -
  show "mset (arr[i := arr ! x, x := int x]) = mset arr" using mset_swap [of x arr i] assms by simp
  have "misplaced (arr[i := arr ! x, x := int x]) \<subseteq> misplaced arr - {x}"
    using assms by (auto simp: misplaced_def nth_list_update split: if_splits)
  moreover have "x \<in> misplaced arr" "finite (misplaced arr)" using assms by (simp_all add: misplaced_def)
  ultimately show "card (misplaced (arr[i := arr ! x, x := int x])) < card (misplaced arr)"
    by (meson card_Diff1_less card_mono finite_Diff le_less_trans)
  show "arr[i := arr ! x, x := int x] ! k = int k" if "k < length arr" "arr ! k = int k"
    using that assms by (auto simp: nth_list_update)
qed

lemma settle_eq:
  "in_range arr \<Longrightarrow> i < length arr \<Longrightarrow>
    \<exists>r arr'. settle arr (int i) = Some (r, arr') \<and> mset arr' = mset arr \<and>
      (\<forall>k < length arr. arr ! k = int k \<longrightarrow> arr' ! k = int k) \<and>
      (case r of None \<Rightarrow> arr' ! i = int i | Some x \<Rightarrow> 2 \<le> count (mset arr) x)"
proof (induction "card (misplaced arr)" arbitrary: arr rule: less_induct)
  case less
  let ?x = "arr ! i"
  have rx: "rd arr (int i) = Some ?x" using less.prems(2) by (simp add: rd_nat)
  show ?case
  proof (cases "?x = int i")
    case True
    then show ?thesis using rx by (intro exI [of _ None] exI [of _ arr]) (subst settle.simps, simp)
  next
    case ne: False
    have "?x \<in> set arr" using less.prems(2) by simp
    then obtain x where x: "?x = int x" "x < length arr"
      using less.prems(1) by (metis in_range_def of_nat_less_iff zero_le_imp_eq_int)
    then have xi: "x \<noteq> i" using ne by auto
    have ry: "rd arr (int x) = Some (arr ! x)" using x(2) by (simp add: rd_nat)
    show ?thesis
    proof (cases "arr ! x = int x")
      case True
      then have "settle arr (int i) = Some (Some (int x), arr)"
        using rx ry x xi by (subst settle.simps) simp
      moreover have "2 \<le> count (mset arr) (int x)"
        by (rule count_two [of i _ x]) (use True x less.prems(2) xi in auto)
      ultimately show ?thesis by auto
    next
      case False
      let ?a = "arr[i := arr ! x, x := int x]"
      note swap = misplaced_swap [OF less.prems(2) x(2,1) xi False]
      have "settle arr (int i) = settle ?a (int i)"
        using rx ry x xi False less.prems(2) by (subst settle.simps) (simp add: wr_nat)
      moreover have "in_range ?a"
        using less.prems(1) mset_eq_setD [OF swap(1)] by (simp add: in_range_def)
      from less.hyps [OF swap(2) this] less.prems(2) obtain r arr' where
        "settle ?a (int i) = Some (r, arr')" "mset arr' = mset ?a"
        "\<forall>k < length arr. ?a ! k = int k \<longrightarrow> arr' ! k = int k"
        "case r of None \<Rightarrow> arr' ! i = int i | Some x \<Rightarrow> 2 \<le> count (mset ?a) x" by auto
      ultimately show ?thesis using swap(1,3) by metis
    qed
  qed
qed

lemma duplicate_from_eq:
  "in_range arr \<Longrightarrow> i \<le> length arr \<Longrightarrow> \<forall>k < i. arr ! k = int k \<Longrightarrow>
    \<exists>r arr'. duplicate_from arr (int (length arr)) (int i) = Some (r, arr') \<and> mset arr' = mset arr \<and>
      (2 \<le> count (mset arr) r \<or> r = - 1 \<and> (\<forall>k < length arr. arr' ! k = int k))"
proof (induction "length arr - i" arbitrary: i arr)
  case 0
  then show ?case by (subst duplicate_from.simps) auto
next
  case (Suc d)
  then have i: "i < length arr" by simp
  from settle_eq [OF Suc.prems(1) i] obtain r a where
    a: "settle arr (int i) = Some (r, a)" "mset a = mset arr"
    "\<forall>k < length arr. arr ! k = int k \<longrightarrow> a ! k = int k"
    "case r of None \<Rightarrow> a ! i = int i | Some x \<Rightarrow> 2 \<le> count (mset arr) x" by blast
  have len: "length a = length arr" using a(2) by (metis size_mset)
  show ?case
  proof (cases r)
    case (Some x)
    with a i show ?thesis by (subst duplicate_from.simps) simp
  next
    case None
    have "in_range a" using Suc.prems(1) mset_eq_setD [OF a(2)] len by (simp add: in_range_def)
    moreover have "\<forall>k < Suc i. a ! k = int k"
      using a(3,4) Suc.prems(3) None i by (auto simp: less_Suc_eq)
    moreover have "d = length a - Suc i" "Suc i \<le> length a" using Suc.hyps(2) i len by simp_all
    ultimately obtain r' arr' where
      "duplicate_from a (int (length a)) (int (Suc i)) = Some (r', arr')" "mset arr' = mset a"
      "2 \<le> count (mset a) r' \<or> r' = - 1 \<and> (\<forall>k < length a. arr' ! k = int k)"
      using Suc.hyps(1) by blast
    with a(1,2) None i len show ?thesis
      by (subst duplicate_from.simps) (simp add: add.commute)
  qed
qed

section \<open>The duplicate by counting\<close>

definition within :: "int list \<Rightarrow> int \<Rightarrow> int \<Rightarrow> int" where
  "within arr s e = int (length (filter (\<lambda>x. s \<le> x \<and> x \<le> e) arr))"

lemma count_range_from_eq:
  "n = int (length us + length ws) \<Longrightarrow>
    count_range_from (us @ ws) n s e (int (length us)) cnt = Some (cnt + within ws s e)"
proof (induction ws arbitrary: us cnt)
  case Nil
  then show ?case by (simp add: count_range_from.simps within_def)
next
  case (Cons w ws)
  from Cons.IH [of "us @ [w]"] Cons.prems show ?case
    by (subst count_range_from.simps) (simp add: rd_mid within_def add.commute)
qed

lemma countRange_eq: "countRange arr (int (length arr)) s e = Some (within arr s e)"
  using count_range_from_eq [of "int (length arr)" "[]" arr s e 0] by (simp add: countRange_def)

lemma within_split: "s \<le> m \<Longrightarrow> m \<le> e \<Longrightarrow> within arr s e = within arr s m + within arr (m + 1) e"
  by (induction arr) (auto simp: within_def)

lemma within_single: "within arr x x = int (count (mset arr) x)"
  by (induction arr) (auto simp: within_def)

lemma duplicate_range_eq:
  "s \<le> e \<Longrightarrow> \<exists>r. duplicate_range arr (int (length arr)) s e = Some r \<and>
    (r = - 1 \<or> 2 \<le> count (mset arr) r) \<and>
    (e - s + 1 < within arr s e \<longrightarrow> s \<le> r \<and> r \<le> e \<and> 2 \<le> count (mset arr) r)"
proof (induction "nat (e - s)" arbitrary: s e rule: less_induct)
  case less
  let ?m = "(e - s) div 2 + s"
  show ?case
  proof (cases "s = e")
    case True
    then show ?thesis
      by (subst duplicate_range.simps) (auto simp: countRange_eq within_single Let_def)
  next
    case False
    with less.prems have m: "s \<le> ?m" "?m < e" by linarith+
    have split: "within arr s e = within arr s ?m + within arr (?m + 1) e"
      using m by (intro within_split) auto
    have step: "duplicate_range arr (int (length arr)) s e
        = (if within arr s ?m > ?m - s + 1 then duplicate_range arr (int (length arr)) s ?m
           else duplicate_range arr (int (length arr)) (?m + 1) e)"
      using False less.prems by (subst duplicate_range.simps) (simp add: countRange_eq Let_def)
    show ?thesis
    proof (cases "within arr s ?m > ?m - s + 1")
      case True
      have "nat (?m - s) < nat (e - s)" using m by (subst nat_mono_iff) linarith+
      from less.hyps [OF this m(1)] True step m show ?thesis by fastforce
    next
      case not_left: False
      have "nat (e - (?m + 1)) < nat (e - s)" using m by (subst nat_mono_iff) linarith+
      from less.hyps [OF this] m obtain r where
        r: "duplicate_range arr (int (length arr)) (?m + 1) e = Some r" "r = - 1 \<or> 2 \<le> count (mset arr) r"
        "e - (?m + 1) + 1 < within arr (?m + 1) e \<longrightarrow> ?m + 1 \<le> r \<and> r \<le> e \<and> 2 \<le> count (mset arr) r"
        by auto
      have "e - s + 1 < within arr s e \<longrightarrow> e - (?m + 1) + 1 < within arr (?m + 1) e"
        using split not_left by linarith
      with r step not_left m show ?thesis by (intro exI [of _ r]) auto
    qed
  qed
qed

section \<open>Properties of the duplicate searches\<close>

text \<open>
  Both duplicate searches end and are right. On \<open>n\<close> numbers from 0 to \<open>n - 1\<close> the first one
  returns a number that occurs twice, or -1 when all are different, and only permutes the
  array. The second one leaves the array alone; whatever the numbers, what it returns other than
  -1 occurs twice, and on numbers from 1 to \<open>n - 1\<close> it always finds one.
\<close>

theorem duplicates_correct:
  assumes "arr \<noteq> []" and "\<forall>x\<in>set arr. 0 \<le> x \<and> x < int (length arr)"
  shows "(\<exists>r arr'. duplicate arr (int (length arr)) = Some (r, arr') \<and> mset arr' = mset arr \<and>
      (if distinct arr then r = - 1 else 2 \<le> count (mset arr) r)) \<and>
    (\<exists>r. duplicate2 arr (int (length arr)) = Some r \<and> (r = - 1 \<or> 2 \<le> count (mset arr) r) \<and>
      (0 \<notin> set arr \<longrightarrow> 2 \<le> count (mset arr) r))"
proof
  have rng: "in_range arr" using assms(2) by (simp add: in_range_def)
  from duplicate_from_eq [OF rng, of 0] obtain r arr' where
    r: "duplicate arr (int (length arr)) = Some (r, arr')" "mset arr' = mset arr"
    "2 \<le> count (mset arr) r \<or> r = - 1 \<and> (\<forall>k < length arr. arr' ! k = int k)"
    by (auto simp: duplicate_def)
  have "distinct arr" if "\<forall>k < length arr. arr' ! k = int k"
  proof -
    have "length arr' = length arr" using r(2) by (metis size_mset)
    with that have "distinct arr'" by (auto simp: distinct_conv_nth)
    then show ?thesis using r(2) by (metis mset_eq_imp_distinct_iff)
  qed
  with r show "\<exists>r arr'. duplicate arr (int (length arr)) = Some (r, arr') \<and> mset arr' = mset arr \<and>
      (if distinct arr then r = - 1 else 2 \<le> count (mset arr) r)"
    using count_two_not_distinct [of arr r] by auto
next
  show "\<exists>r. duplicate2 arr (int (length arr)) = Some r \<and> (r = - 1 \<or> 2 \<le> count (mset arr) r) \<and>
      (0 \<notin> set arr \<longrightarrow> 2 \<le> count (mset arr) r)"
  proof (cases "length arr = 1")
    case True
    with assms(2) have "arr = [0]" by (cases arr) auto
    with True show ?thesis by (simp add: duplicate2_def duplicate_range.simps)
  next
    case False
    have "1 \<le> int (length arr) - 1" using False assms(1) by (cases arr) (auto simp: Suc_le_eq)
    moreover have "within arr 1 (int (length arr) - 1) = int (length arr)" if "0 \<notin> set arr"
    proof -
      have "\<forall>x\<in>set arr. 1 \<le> x \<and> x \<le> int (length arr) - 1"
        using that assms(2) by (metis int_one_le_iff_zero_less order_le_less zle_diff1_eq)
      then show ?thesis by (simp add: within_def)
    qed
    ultimately show ?thesis
      using duplicate_range_eq [of 1 "int (length arr) - 1" arr] by (auto simp: duplicate2_def)
  qed
qed

theorem duplicates_correct_witness:
  "duplicate2 [2, 3, 1, 3] 4 = Some 3"
  using duplicates_correct [of "[2, 3, 1, 3]"] by (auto split: if_splits)

section \<open>The sorted matrix\<close>

lemma matrix_index:
  fixes r c rows columns :: int
  assumes "0 \<le> r" and "r < rows" and "0 \<le> c" and "c < columns"
  shows "0 \<le> r * columns + c \<and> r * columns + c < rows * columns"
proof -
  have "r * columns + c < (r + 1) * columns" using assms by (simp add: distrib_right)
  also have "\<dots> \<le> rows * columns" using assms by (intro mult_right_mono) auto
  finally show ?thesis using assms by simp
qed

definition cell :: "int list \<Rightarrow> int \<Rightarrow> int \<Rightarrow> int \<Rightarrow> int" where
  "cell arr columns r c = arr ! nat (r * columns + c)"

definition sorted_matrix :: "int list \<Rightarrow> int \<Rightarrow> int \<Rightarrow> bool" where
  "sorted_matrix arr rows columns \<longleftrightarrow>
     (\<forall>r c c'. 0 \<le> r \<and> r < rows \<and> 0 \<le> c \<and> c \<le> c' \<and> c' < columns \<longrightarrow>
        cell arr columns r c \<le> cell arr columns r c') \<and>
     (\<forall>r r' c. 0 \<le> r \<and> r \<le> r' \<and> r' < rows \<and> 0 \<le> c \<and> c < columns \<longrightarrow>
        cell arr columns r c \<le> cell arr columns r' c)"

text \<open>The search keeps the number, if it is there, in the rows below and the columns left.\<close>

definition occurs :: "int list \<Rightarrow> int \<Rightarrow> int \<Rightarrow> int \<Rightarrow> int \<Rightarrow> int \<Rightarrow> bool" where
  "occurs arr rows columns v row column \<longleftrightarrow>
     (\<exists>r c. row \<le> r \<and> r < rows \<and> 0 \<le> c \<and> c \<le> column \<and> cell arr columns r c = v)"

lemma occursI:
  "row \<le> r \<Longrightarrow> r < rows \<Longrightarrow> 0 \<le> c \<Longrightarrow> c \<le> column \<Longrightarrow> cell arr columns r c = v \<Longrightarrow>
    occurs arr rows columns v row column"
  by (auto simp: occurs_def)

lemma occursE:
  assumes "occurs arr rows columns v row column"
  obtains r c where "row \<le> r" "r < rows" "0 \<le> c" "c \<le> column" "cell arr columns r c = v"
  using assms by (auto simp: occurs_def)

lemma occurs_left:
  assumes "\<And>r. row \<le> r \<Longrightarrow> r < rows \<Longrightarrow> cell arr columns r column \<noteq> v"
  shows "occurs arr rows columns v row column = occurs arr rows columns v row (column - 1)"
proof
  assume "occurs arr rows columns v row column"
  then show "occurs arr rows columns v row (column - 1)"
  proof (rule occursE)
    fix r c
    assume rc: "row \<le> r" "r < rows" "0 \<le> c" "c \<le> column" "cell arr columns r c = v"
    with assms [of r] have "c \<noteq> column" by auto
    with rc show ?thesis by (intro occursI [of row r rows c]) auto
  qed
next
  assume "occurs arr rows columns v row (column - 1)"
  then show "occurs arr rows columns v row column"
    by (rule occursE) (rule occursI, auto)
qed

lemma occurs_below:
  assumes "\<And>c. 0 \<le> c \<Longrightarrow> c \<le> column \<Longrightarrow> cell arr columns row c \<noteq> v"
  shows "occurs arr rows columns v row column = occurs arr rows columns v (row + 1) column"
proof
  assume "occurs arr rows columns v row column"
  then show "occurs arr rows columns v (row + 1) column"
  proof (rule occursE)
    fix r c
    assume rc: "row \<le> r" "r < rows" "0 \<le> c" "c \<le> column" "cell arr columns r c = v"
    with assms [of c] have "r \<noteq> row" by auto
    with rc show ?thesis by (intro occursI [of "row + 1" r rows c]) auto
  qed
next
  assume "occurs arr rows columns v (row + 1) column"
  then show "occurs arr rows columns v row column"
    by (rule occursE) (rule occursI, auto)
qed

lemma find_from_eq:
  "sorted_matrix arr rows columns \<Longrightarrow> int (length arr) = rows * columns \<Longrightarrow> 0 \<le> row \<Longrightarrow> column < columns \<Longrightarrow>
    find_from arr rows columns v row column = Some (if occurs arr rows columns v row column then 1 else 0)"
proof (induction arr rows columns v row column rule: find_from.induct)
  case (1 arr rows columns v row column)
  note sorted = 1(3)
  show ?case
  proof (cases "row < rows \<and> column \<ge> 0")
    case False
    then have "\<not> occurs arr rows columns v row column" by (auto elim: occursE)
    with False show ?thesis by (subst find_from.simps) auto
  next
    case True
    let ?x = "cell arr columns row column"
    have rd: "rd arr (row * columns + column) = Some ?x"
      using matrix_index [of row rows column columns] True 1(4-6) by (simp add: rd_in cell_def)
    consider "v < ?x" | "?x < v" | "v = ?x" by linarith
    then show ?thesis
    proof cases
      case v: 1
      have "?x \<le> cell arr columns r column" if "row \<le> r" "r < rows" for r
        using sorted that True 1(5,6) by (simp add: sorted_matrix_def)
      with v have "occurs arr rows columns v row column = occurs arr rows columns v row (column - 1)"
        by (intro occurs_left) force
      moreover have "find_from arr rows columns v row (column - 1)
          = Some (if occurs arr rows columns v row (column - 1) then 1 else 0)"
        by (rule 1(1) [OF True rd v]) (use 1(3-6) in auto)
      ultimately show ?thesis using True v rd by (subst find_from.simps) simp
    next
      case v: 2
      have "cell arr columns row c \<le> ?x" if "0 \<le> c" "c \<le> column" for c
        using sorted that True 1(5,6) by (simp add: sorted_matrix_def)
      with v have "occurs arr rows columns v row column = occurs arr rows columns v (row + 1) column"
        by (intro occurs_below) force
      moreover have "find_from arr rows columns v (row + 1) column
          = Some (if occurs arr rows columns v (row + 1) column then 1 else 0)"
        by (rule 1(2) [OF True rd _ v]) (use 1(3-6) v in auto)
      ultimately show ?thesis using True v rd by (subst find_from.simps) simp
    next
      case v: 3
      have "occurs arr rows columns v row column" by (rule occursI [of row row]) (use True v in auto)
      with True v rd show ?thesis by (subst find_from.simps) simp
    qed
  qed
qed

text \<open>
  The search in a matrix whose rows and columns are sorted, walking from the top right corner,
  ends, stays inside the matrix and answers whether the number occurs in it.
\<close>

theorem findInMatrix_correct:
  assumes "sorted_matrix arr rows columns" and "0 \<le> rows" and "0 \<le> columns"
    and "int (length arr) = rows * columns"
  shows "findInMatrix arr rows columns v = Some (if v \<in> set arr then 1 else 0)"
proof -
  have "v \<in> set arr \<longleftrightarrow> occurs arr rows columns v 0 (columns - 1)" (is "?l \<longleftrightarrow> ?r")
  proof
    assume ?l
    then obtain k where k: "k < length arr" "arr ! k = v" by (auto simp: in_set_conv_nth)
    then have pos: "0 < columns" using assms(2-4) by (cases "columns = 0") auto
    let ?r' = "int k div columns" and ?c = "int k mod columns"
    have eq: "?r' * columns + ?c = int k" by simp
    have "?r' < rows"
    proof (rule ccontr)
      assume "\<not> ?r' < rows"
      then have "rows * columns \<le> ?r' * columns" using pos by (intro mult_right_mono) auto
      also have "\<dots> \<le> int k" using eq pos pos_mod_sign [of columns "int k"] by linarith
      finally show False using k(1) assms(4) by linarith
    qed
    moreover have "0 \<le> ?r'" "0 \<le> ?c" "?c < columns"
      using pos by (simp_all add: pos_imp_zdiv_nonneg_iff)
    moreover have "cell arr columns ?r' ?c = v" unfolding cell_def eq using k(2) by simp
    ultimately show ?r by (intro occursI [of 0 ?r' rows ?c]) auto
  next
    assume ?r
    then show ?l
    proof (rule occursE)
      fix r c
      assume rc: "0 \<le> r" "r < rows" "0 \<le> c" "c \<le> columns - 1" "cell arr columns r c = v"
      have "0 \<le> r * columns + c \<and> r * columns + c < int (length arr)"
        using matrix_index [of r rows c columns] rc assms(4) by simp
      then have "nat (r * columns + c) < length arr" by linarith
      then have "cell arr columns r c \<in> set arr" unfolding cell_def by (rule nth_mem)
      with rc show ?thesis by simp
    qed
  qed
  moreover have "find_from arr rows columns v 0 (columns - 1)
      = Some (if occurs arr rows columns v 0 (columns - 1) then 1 else 0)"
    by (rule find_from_eq [OF assms(1,4)]) auto
  ultimately show ?thesis by (simp add: findInMatrix_def)
qed

lemma sorted_matrix_example: "sorted_matrix [1, 2, 3, 4] 2 2"
proof -
  have two: "x = 0 \<or> x = 1" if "0 \<le> x" "x < 2" for x :: int using that by auto
  show ?thesis unfolding sorted_matrix_def
  proof (intro conjI allI impI; elim conjE)
    fix r c c' :: int
    assume "0 \<le> r" "r < 2" "0 \<le> c" "c \<le> c'" "c' < 2"
    with two [of r] two [of c] two [of c'] show "cell [1, 2, 3, 4] 2 r c \<le> cell [1, 2, 3, 4] 2 r c'"
      by (auto simp: cell_def)
  next
    fix r r' c :: int
    assume "0 \<le> r" "r \<le> r'" "r' < 2" "0 \<le> c" "c < 2"
    with two [of r] two [of r'] two [of c] show "cell [1, 2, 3, 4] 2 r c \<le> cell [1, 2, 3, 4] 2 r' c"
      by (auto simp: cell_def)
  qed
qed

theorem findInMatrix_correct_witness: "findInMatrix [1, 2, 3, 4] 2 2 3 = Some 1"
  using findInMatrix_correct [OF sorted_matrix_example, of 3] by simp

section \<open>Merging in place\<close>

lemma copy_rest_eq:
  "length mid = length ys \<Longrightarrow>
    copy_rest (mid @ zs) (ys @ rest) (int (length ys) - 1) (int (length ys) - 1) = Some (ys @ zs)"
proof (induction ys arbitrary: mid zs rest rule: rev_induct)
  case Nil
  then show ?case by (simp add: copy_rest.simps)
next
  case (snoc y ys)
  then obtain m q where m: "mid = m @ [q]" "length m = length ys"
    by (cases mid rule: rev_cases) auto
  have "rd (ys @ y # rest) (int (length ys)) = Some y"
    "wr (m @ q # zs) (int (length ys)) y = Some (m @ y # zs)" using m by (simp_all add: rd_mid wr_mid)
  with snoc.IH [OF m(2), of "y # zs" "y # rest"] m show ?case
    by (subst copy_rest.simps) simp
qed

text \<open>The gap \<open>mid\<close> is always as long as what is left of the second array.\<close>

text \<open>One turn of the loop moves the greater of the two last elements to the last free place.\<close>

lemma merge_turn:
  assumes "length m = length vs"
  shows "merge_from ((us @ [x]) @ (m @ [q]) @ zs) ((vs @ [y]) @ rest) (int (length us)) (int (length vs))
      (int (length us + length vs) + 1) =
    (if x > y then merge_from (us @ (x # m) @ x # zs) ((vs @ [y]) @ rest) (int (length us) - 1)
        (int (length vs)) (int (length us + length vs))
     else merge_from ((us @ [x]) @ m @ y # zs) (vs @ y # rest) (int (length us))
        (int (length vs) - 1) (int (length us + length vs)))"
proof -
  have r: "rd (us @ x # m @ q # zs) (int (length us)) = Some x" "rd (vs @ y # rest) (int (length vs)) = Some y"
    using rd_mid [of "int (length us)" us x "m @ q # zs"] rd_mid [of "int (length vs)" vs y rest] by simp_all
  have w: "wr (us @ x # m @ q # zs) (int (length us + length vs) + 1) v = Some (us @ x # m @ v # zs)" for v
    using wr_mid [of "int (length us + length vs) + 1" "us @ x # m" q zs v] assms by simp
  show ?thesis using r w by (subst merge_from.simps) simp
qed

lemma merge_one_empty:
  assumes "xs = [] \<or> ys = []" and "length mid = length ys"
  shows "merge_from (xs @ mid @ zs) (ys @ rest) (int (length xs) - 1) (int (length ys) - 1)
    (int (length xs + length ys) - 1) = Some (xs @ ys @ zs)"
proof (cases "xs = []")
  case True
  with assms copy_rest_eq [of mid ys zs rest] show ?thesis by (subst merge_from.simps) simp
next
  case False
  with assms show ?thesis by (simp add: merge_from.simps copy_rest.simps)
qed

lemma sorted_snoc_greatest:
  assumes "sorted ws" and "mset ws = mset us + mset vs" and "\<forall>w\<in>set us \<union> set vs. w \<le> (v::int)"
  shows "sorted (ws @ [v])"
  using assms mset_eq_setD [of ws "us @ vs"] by (simp add: sorted_append)

lemma merge_from_eq:
  "sorted xs \<Longrightarrow> sorted ys \<Longrightarrow> length mid = length ys \<Longrightarrow>
    \<exists>ws. merge_from (xs @ mid @ zs) (ys @ rest) (int (length xs) - 1) (int (length ys) - 1)
        (int (length xs + length ys) - 1) = Some (ws @ zs) \<and> sorted ws \<and> mset ws = mset xs + mset ys"
proof (induction "length xs + length ys" arbitrary: xs ys mid zs rest rule: less_induct)
  case less
  show ?case
  proof (cases "xs = [] \<or> ys = []")
    case True
    with merge_one_empty [OF True less.prems(3)] less.prems show ?thesis
      by (intro exI [of _ "xs @ ys"]) auto
  next
    case False
    then obtain us x vs y where xy: "xs = us @ [x]" "ys = vs @ [y]" by (metis rev_exhaust)
    from less.prems(3) xy obtain m q where m: "mid = m @ [q]" "length m = length vs"
      by (cases mid rule: rev_cases) auto
    note turn = merge_turn [OF m(2), of us x q zs y rest]
    show ?thesis
    proof (cases "x > y")
      case True
      from less.hyps [of us ys "x # m" "x # zs" rest] less.prems xy m obtain ws where
        ws: "merge_from (us @ (x # m) @ x # zs) (ys @ rest) (int (length us) - 1) (int (length ys) - 1)
          (int (length us + length ys) - 1) = Some (ws @ x # zs)" "sorted ws" "mset ws = mset us + mset ys"
        by (auto simp: sorted_append)
      have "sorted (ws @ [x])"
        using less.prems(1,2) xy True by (intro sorted_snoc_greatest [OF ws(2,3)]) (fastforce simp: sorted_append)
      with turn True ws xy m show ?thesis by (intro exI [of _ "ws @ [x]"]) (simp add: algebra_simps)
    next
      case False
      from less.hyps [of xs vs m "y # zs" "y # rest"] less.prems xy m obtain ws where
        ws: "merge_from (xs @ m @ y # zs) (vs @ y # rest) (int (length xs) - 1) (int (length vs) - 1)
          (int (length xs + length vs) - 1) = Some (ws @ y # zs)" "sorted ws" "mset ws = mset xs + mset vs"
        by (auto simp: sorted_append)
      have "sorted (ws @ [y])"
        using less.prems(1,2) xy False by (intro sorted_snoc_greatest [OF ws(2,3)]) (fastforce simp: sorted_append)
      with turn False ws xy m show ?thesis by (intro exI [of _ "ws @ [y]"]) (simp add: algebra_simps)
    qed
  qed
qed

text \<open>
  The merge in place: with room behind the \<open>n1\<close> sorted elements of the first array, it becomes
  the sorted list of the elements of both; nothing else is read or written.
\<close>

theorem mergeArray_correct:
  assumes "sorted xs" and "sorted ys" and "length room = length ys"
  shows "mergeArray (xs @ room @ zs) (int (length xs)) (ys @ rest) (int (length ys))
    = Some (sort (xs @ ys) @ zs)"
proof -
  from merge_from_eq [OF assms, of zs rest] obtain ws where
    ws: "merge_from (xs @ room @ zs) (ys @ rest) (int (length xs) - 1) (int (length ys) - 1)
      (int (length xs + length ys) - 1) = Some (ws @ zs)" "sorted ws" "mset ws = mset (xs @ ys)" by auto
  have "sort (xs @ ys) = ws" using ws(2,3) by (intro properties_for_sort) auto
  with ws(1) show ?thesis by (simp add: mergeArray_def)
qed

theorem mergeArray_correct_witness:
  "mergeArray [1, 4, 6, 0, 0, 9] 3 [2, 5] 2 = Some [1, 2, 4, 5, 6, 9]"
  using mergeArray_correct [of "[1, 4, 6]" "[2, 5]" "[0, 0]" "[9]" "[]"] by simp

end
