(* ===== verification/ProcessTask.thy ===== *)
theory ProcessTask
  imports Sort
begin

text \<open>
  The scheduling exercise \<open>exam/huawei/processTask.c\<close>: \<open>m\<close> processors work on \<open>n\<close> tasks; the
  program sorts the tasks and gives each one, in this order, to the processor that is free
  first. What the number it prints is worth is stated against every schedule: it is the finishing
  time of a schedule, and less than twice the best one.
\<close>

section \<open>The program\<close>

definition MAX_TASKS :: int where
  "MAX_TASKS = 128"

text \<open>\<open>sort\<close> is the loop of \<open>insert_sort\<close>, repeated in this file.\<close>

definition sort_tasks :: "int list \<Rightarrow> int \<Rightarrow> int list option" where
  "sort_tasks s n = insert_from s n 1"

function min_from :: "int list \<Rightarrow> int \<Rightarrow> int \<Rightarrow> int \<Rightarrow> int option" where
  "min_from s n i min_index =
     (if i < n then do {
        x \<leftarrow> rd s i;
        y \<leftarrow> rd s min_index;
        min_from s n (i + 1) (if x < y then i else min_index) }
      else Some min_index)"
  by pat_completeness auto
termination
  by (relation "measure (\<lambda>(s, n, i, k). nat (n - i))") auto

definition min_task :: "int list \<Rightarrow> int \<Rightarrow> int option" where
  "min_task s n = min_from s n 1 0"

function max_from :: "int list \<Rightarrow> int \<Rightarrow> int \<Rightarrow> int \<Rightarrow> int option" where
  "max_from s n i max_index =
     (if i < n then do {
        x \<leftarrow> rd s i;
        y \<leftarrow> rd s max_index;
        max_from s n (i + 1) (if x > y then i else max_index) }
      else Some max_index)"
  by pat_completeness auto
termination
  by (relation "measure (\<lambda>(s, n, i, k). nat (n - i))") auto

definition max_task :: "int list \<Rightarrow> int \<Rightarrow> int option" where
  "max_task s n = max_from s n 1 0"

text \<open>The two loops of \<open>caculate\<close>: one task for each processor, then the rest.\<close>

function first_tasks :: "int list \<Rightarrow> int list \<Rightarrow> int \<Rightarrow> int \<Rightarrow> int list option" where
  "first_tasks tm s m i =
     (if i < m then do {
        x \<leftarrow> rd s i;
        tm \<leftarrow> wr tm i x;
        first_tasks tm s m (i + 1) }
      else Some tm)"
  by pat_completeness auto
termination
  by (relation "measure (\<lambda>(tm, s, m, i). nat (m - i))") auto

function later_tasks :: "int list \<Rightarrow> int list \<Rightarrow> int \<Rightarrow> int \<Rightarrow> int \<Rightarrow> int list option" where
  "later_tasks tm s m n i =
     (if i < n then do {
        k \<leftarrow> min_task tm m;
        x \<leftarrow> rd s i;
        y \<leftarrow> rd tm k;
        z \<leftarrow> c_int (y + x);
        tm \<leftarrow> wr tm k z;
        later_tasks tm s m n (i + 1) }
      else Some tm)"
  by pat_completeness auto
termination
  by (relation "measure (\<lambda>(tm, s, m, n, i). nat (n - i))") auto

declare min_from.simps [simp del] max_from.simps [simp del] first_tasks.simps [simp del]
  later_tasks.simps [simp del]

definition caculate :: "int \<Rightarrow> int \<Rightarrow> int list \<Rightarrow> int option" where
  "caculate m n s = do {
     s \<leftarrow> sort_tasks s n;
     if m \<ge> n then rd s (n - 1)
     else do {
       tm \<leftarrow> first_tasks (replicate (nat MAX_TASKS) 0) s m 0;
       tm \<leftarrow> later_tasks tm s m n m;
       k \<leftarrow> max_task tm m;
       rd tm k } }"

text \<open>
  \<open>main\<close>: the numbers \<open>scanf\<close> converts for the tasks are \<open>vals\<close>; the result is what is
  printed. More tasks than the array holds are undefined.
\<close>

function read_tasks :: "int list \<Rightarrow> int \<Rightarrow> int list \<Rightarrow> int \<Rightarrow> int list option" where
  "read_tasks s n vals i =
     (if i < n then do {
        s \<leftarrow> (case vals of [] \<Rightarrow> Some s | v # _ \<Rightarrow> wr s i v);
        read_tasks s n (tl vals) (i + 1) }
      else Some s)"
  by pat_completeness auto
termination
  by (relation "measure (\<lambda>(s, n, vals, i). nat (n - i))") auto

declare read_tasks.simps [simp del]

definition process_main :: "int \<Rightarrow> int \<Rightarrow> int list \<Rightarrow> int option" where
  "process_main m n vals = do {
     s \<leftarrow> read_tasks (replicate (nat MAX_TASKS) 0) n vals 0;
     caculate m n s }"

section \<open>Schedules\<close>

text \<open>A schedule gives each processor a list of tasks; all the tasks are given out.\<close>

definition schedule :: "int \<Rightarrow> int list \<Rightarrow> int list list \<Rightarrow> bool" where
  "schedule m tasks bins \<longleftrightarrow> int (length bins) = m \<and> mset (concat bins) = mset tasks"

definition finish :: "int list list \<Rightarrow> int" where
  "finish bins = Max (sum_list ` set bins)"

lemma finish_ge: "b \<in> set bins \<Longrightarrow> sum_list b \<le> finish bins"
  by (simp add: finish_def)

lemma sum_concat: "sum_list (concat bins) = sum_list (map sum_list (bins :: int list list))"
  by (induction bins) auto

lemma sum_list_le_length: "(\<And>x. x \<in> set xs \<Longrightarrow> x \<le> c) \<Longrightarrow> sum_list xs \<le> int (length xs) * (c :: int)"
  by (induction xs) (auto simp: algebra_simps add_mono)

lemma sum_list_ge_length: "(\<And>x. x \<in> set xs \<Longrightarrow> c \<le> x) \<Longrightarrow> int (length xs) * (c :: int) \<le> sum_list xs"
  by (induction xs) (auto simp: algebra_simps add_mono)

lemma member_le_sum: "\<forall>x\<in>set xs. 0 \<le> x \<Longrightarrow> x \<in> set xs \<Longrightarrow> x \<le> sum_list (xs :: int list)"
  by (rule member_le_sum_list) auto

text \<open>What no schedule can beat.\<close>

lemma schedule_sum_le:
  assumes "schedule m tasks bins"
  shows "sum_list tasks \<le> m * finish bins"
proof -
  have "sum_list tasks = sum_list (concat bins)"
    using assms by (metis schedule_def sum_mset_sum_list)
  also have "\<dots> \<le> int (length (map sum_list bins)) * finish bins"
    unfolding sum_concat by (rule sum_list_le_length) (auto intro: finish_ge)
  finally show ?thesis using assms by (simp add: schedule_def)
qed

lemma schedule_task_le:
  assumes "schedule m tasks bins" and "x \<in> set tasks" and "\<forall>x\<in>set tasks. 0 \<le> x"
  shows "x \<le> finish bins"
proof -
  have s: "set (concat bins) = set tasks"
    using assms(1) by (metis schedule_def set_mset_mset)
  with assms(2) obtain b where b: "b \<in> set bins" "x \<in> set b" by auto
  have "x \<le> sum_list b" using b s assms(3) by (intro member_le_sum) auto
  with finish_ge [OF b(1)] show ?thesis by linarith
qed

section \<open>The loops\<close>

lemma min_from_eq:
  "0 < i \<Longrightarrow> 0 \<le> k \<Longrightarrow> k < i \<Longrightarrow> i \<le> int (length ls) \<Longrightarrow> \<forall>q. int q < i \<longrightarrow> ls ! nat k \<le> ls ! q \<Longrightarrow>
    \<exists>p < length ls. min_from (ls @ zs) (int (length ls)) i k = Some (int p) \<and>
      (\<forall>q < length ls. ls ! p \<le> ls ! q)"
proof (induction "nat (int (length ls) - i)" arbitrary: i k)
  case 0
  then show ?case by (intro exI [of _ "nat k"]) (simp add: min_from.simps)
next
  case (Suc d)
  let ?k = "if (ls @ zs) ! nat i < (ls @ zs) ! nat k then i else k"
  have len: "i < int (length ls)" using Suc.hyps(2) by linarith
  have nth: "(ls @ zs) ! nat i = ls ! nat i" "(ls @ zs) ! nat k = ls ! nat k"
    using Suc.prems len by (auto simp: nth_append)
  have "\<forall>q. int q < i + 1 \<longrightarrow> ls ! nat ?k \<le> ls ! q"
  proof (intro allI impI)
    fix q assume "int q < i + 1"
    then have "int q < i \<or> q = nat i" using Suc.prems by linarith
    then show "ls ! nat ?k \<le> ls ! q" using Suc.prems nth by force
  qed
  with Suc.prems Suc.hyps(2) len have "\<exists>p < length ls.
      min_from (ls @ zs) (int (length ls)) (i + 1) ?k = Some (int p) \<and> (\<forall>q < length ls. ls ! p \<le> ls ! q)"
    by (intro Suc.hyps(1)) auto
  moreover have "min_from (ls @ zs) (int (length ls)) i k
      = min_from (ls @ zs) (int (length ls)) (i + 1) ?k"
    using Suc.prems len by (subst min_from.simps) (simp add: rd_in)
  ultimately show ?case by simp
qed

lemma min_task_eq:
  "ls \<noteq> [] \<Longrightarrow> \<exists>p < length ls. min_task (ls @ zs) (int (length ls)) = Some (int p) \<and>
      (\<forall>q < length ls. ls ! p \<le> ls ! q)"
  unfolding min_task_def by (rule min_from_eq) (auto simp: Suc_le_eq)

lemma max_from_eq:
  "0 < i \<Longrightarrow> 0 \<le> k \<Longrightarrow> k < i \<Longrightarrow> i \<le> int (length ls) \<Longrightarrow> \<forall>q. int q < i \<longrightarrow> ls ! q \<le> ls ! nat k \<Longrightarrow>
    \<exists>p < length ls. max_from (ls @ zs) (int (length ls)) i k = Some (int p) \<and>
      (\<forall>q < length ls. ls ! q \<le> ls ! p)"
proof (induction "nat (int (length ls) - i)" arbitrary: i k)
  case 0
  then show ?case by (intro exI [of _ "nat k"]) (simp add: max_from.simps)
next
  case (Suc d)
  let ?k = "if (ls @ zs) ! nat i > (ls @ zs) ! nat k then i else k"
  have len: "i < int (length ls)" using Suc.hyps(2) by linarith
  have nth: "(ls @ zs) ! nat i = ls ! nat i" "(ls @ zs) ! nat k = ls ! nat k"
    using Suc.prems len by (auto simp: nth_append)
  have "\<forall>q. int q < i + 1 \<longrightarrow> ls ! q \<le> ls ! nat ?k"
  proof (intro allI impI)
    fix q assume "int q < i + 1"
    then have "int q < i \<or> q = nat i" using Suc.prems by linarith
    then show "ls ! q \<le> ls ! nat ?k" using Suc.prems nth by force
  qed
  with Suc.prems Suc.hyps(2) len have "\<exists>p < length ls.
      max_from (ls @ zs) (int (length ls)) (i + 1) ?k = Some (int p) \<and> (\<forall>q < length ls. ls ! q \<le> ls ! p)"
    by (intro Suc.hyps(1)) auto
  moreover have "max_from (ls @ zs) (int (length ls)) i k
      = max_from (ls @ zs) (int (length ls)) (i + 1) ?k"
    using Suc.prems len by (subst max_from.simps) (simp add: rd_in)
  ultimately show ?case by simp
qed

lemma max_task_eq:
  assumes "ls \<noteq> []"
  shows "\<exists>p. max_task (ls @ zs) (int (length ls)) = Some p \<and> rd (ls @ zs) p = Some (Max (set ls))"
proof -
  from assms obtain p where p: "p < length ls" "max_from (ls @ zs) (int (length ls)) 1 0 = Some (int p)"
    "\<forall>q < length ls. ls ! q \<le> ls ! p"
    using max_from_eq [of 1 0 ls zs] by (auto simp: Suc_le_eq)
  then have "Max (set ls) = ls ! p" by (intro Max_eqI) (auto simp: in_set_conv_nth)
  with p show ?thesis by (simp add: max_task_def rd_nat nth_append)
qed

lemma first_tasks_eq:
  "length zs = length ss \<Longrightarrow>
    first_tasks (ds @ zs @ rest) (ds @ ss @ more) (int (length ds + length ss)) (int (length ds))
      = Some (ds @ ss @ rest)"
proof (induction ss arbitrary: ds zs)
  case Nil
  then show ?case by (simp add: first_tasks.simps)
next
  case (Cons s ss)
  then obtain z zs' where z: "zs = z # zs'" "length zs' = length ss" by (cases zs) auto
  have "first_tasks ((ds @ [s]) @ zs' @ rest) ((ds @ [s]) @ ss @ more)
      (int (length (ds @ [s]) + length ss)) (int (length (ds @ [s]))) = Some ((ds @ [s]) @ ss @ rest)"
    by (rule Cons.IH) (rule z)
  with z show ?case
    by (subst first_tasks.simps) (simp add: rd_mid wr_mid add.commute)
qed

section \<open>The schedule of the greedy loop\<close>

text \<open>
  The loads \<open>tm\<close> are the sums of a schedule of the tasks given out so far, and each of them obeys
  Graham's bound, with \<open>c\<close> the length of the longest task.
\<close>

definition balanced_loads :: "int \<Rightarrow> int list \<Rightarrow> int list list \<Rightarrow> bool" where
  "balanced_loads c done' bins \<longleftrightarrow> schedule (int (length bins)) done' bins \<and>
     (\<forall>b\<in>set bins. int (length bins) * sum_list b \<le> sum_list done' + (int (length bins) - 1) * c)"

lemma balanced_loads_add:
  assumes "balanced_loads c ds bins" and p: "p < length bins"
    and least: "\<forall>q < length bins. sum_list (bins ! p) \<le> sum_list (bins ! q)" and "0 \<le> x" "x \<le> c"
  shows "balanced_loads c (ds @ [x]) (bins[p := x # bins ! p])"
proof -
  let ?m = "int (length bins)"
  let ?us = "take p bins" and ?vs = "drop (Suc p) bins"
  have cut: "bins = ?us @ bins ! p # ?vs" using p by (rule id_take_nth_drop)
  have upd: "bins[p := x # bins ! p] = ?us @ (x # bins ! p) # ?vs" using p by (rule upd_conv_take_nth_drop)
  have ms: "mset (concat bins) = mset ds" using assms(1) by (simp add: balanced_loads_def schedule_def)
  have "mset (concat (bins[p := x # bins ! p])) = add_mset x (mset (concat bins))"
    unfolding upd by (subst (2) cut) simp
  with ms have sched: "schedule ?m (ds @ [x]) (bins[p := x # bins ! p])" by (simp add: schedule_def)
  have "?m * sum_list (bins ! p) \<le> sum_list (concat bins)"
    unfolding sum_concat using least
    by (subst length_map [of sum_list, symmetric], intro sum_list_ge_length) (auto simp: in_set_conv_nth)
  also have "\<dots> = sum_list ds" using ms by (metis sum_mset_sum_list)
  finally have least_le: "?m * sum_list (bins ! p) \<le> sum_list ds" .
  have "?m * sum_list b \<le> sum_list (ds @ [x]) + (?m - 1) * c" if "b \<in> set (bins[p := x # bins ! p])" for b
  proof -
    from that have "b = x # bins ! p \<or> b \<in> set bins"
      using set_update_subset_insert [of bins p "x # bins ! p"] by auto
    then show ?thesis
    proof
      assume b: "b = x # bins ! p"
      have "(?m - 1) * x \<le> (?m - 1) * c" using assms(5) p by (intro mult_left_mono) auto
      with least_le b show ?thesis by (simp add: algebra_simps)
    next
      assume "b \<in> set bins"
      with assms(1,4) show ?thesis by (fastforce simp: balanced_loads_def)
    qed
  qed
  with sched show ?thesis by (simp add: balanced_loads_def)
qed

lemma sum_bins: "schedule m ds bins \<Longrightarrow> b \<in> set bins \<Longrightarrow> \<forall>x\<in>set ds. 0 \<le> x \<Longrightarrow> 0 \<le> sum_list b \<and> sum_list b \<le> sum_list ds"
proof -
  assume s: "schedule m ds bins" and b: "b \<in> set bins" and nn: "\<forall>x\<in>set ds. 0 \<le> x"
  have "set (concat bins) = set ds" using s by (metis schedule_def set_mset_mset)
  with nn have nn': "\<forall>b\<in>set bins. 0 \<le> sum_list b" by (auto intro!: sum_list_nonneg)
  then have "sum_list b \<le> sum_list (map sum_list bins)" using b by (intro member_le_sum) auto
  also have "\<dots> = sum_list ds" using s sum_concat by (metis schedule_def sum_mset_sum_list)
  finally show ?thesis using nn' b by simp
qed

lemma later_tasks_eq:
  "balanced_loads c ds bins \<Longrightarrow> bins \<noteq> [] \<Longrightarrow> \<forall>x\<in>set (ds @ ss). 0 \<le> x \<and> x \<le> c \<Longrightarrow>
    sum_list (ds @ ss) \<le> INT_MAX \<Longrightarrow>
    \<exists>bins'. later_tasks (map sum_list bins @ rest) (ds @ ss @ more) (int (length bins))
      (int (length ds + length ss)) (int (length ds)) = Some (map sum_list bins' @ rest) \<and>
      length bins' = length bins \<and> balanced_loads c (ds @ ss) bins'"
proof (induction ss arbitrary: ds bins)
  case Nil
  then show ?case by (intro exI [of _ bins]) (simp add: later_tasks.simps)
next
  case (Cons s ss)
  let ?ls = "map sum_list bins"
  from min_task_eq [of ?ls rest] Cons.prems(2) obtain p where
    p: "p < length bins" "min_task (?ls @ rest) (int (length bins)) = Some (int p)"
      "\<forall>q < length bins. sum_list (bins ! p) \<le> sum_list (bins ! q)" by auto
  let ?bins = "bins[p := s # bins ! p]"
  have bal: "balanced_loads c (ds @ [s]) ?bins"
    using balanced_loads_add [OF Cons.prems(1) p(1,3)] Cons.prems(3) by simp
  have "s # bins ! p \<in> set ?bins" using p(1) by (simp add: set_update_memI)
  with bal Cons.prems(3) have "0 \<le> sum_list (s # bins ! p) \<and> sum_list (s # bins ! p) \<le> sum_list (ds @ [s])"
    by (intro sum_bins) (auto simp: balanced_loads_def)
  moreover have "0 \<le> sum_list ss" using Cons.prems(3) by (intro sum_list_nonneg) auto
  ultimately have "in_int (sum_list (bins ! p) + s)" using Cons.prems(4) by (simp add: int_range)
  moreover have "wr (?ls @ rest) (int p) (sum_list (bins ! p) + s) = Some (map sum_list ?bins @ rest)"
    using p(1) by (simp add: wr_nat list_update_append map_update add.commute)
  moreover have "rd (?ls @ rest) (int p) = Some (sum_list (bins ! p))"
    using p(1) by (simp add: rd_nat nth_append)
  ultimately have "later_tasks (?ls @ rest) (ds @ (s # ss) @ more) (int (length bins))
      (int (length ds + length (s # ss))) (int (length ds))
    = later_tasks (map sum_list ?bins @ rest) ((ds @ [s]) @ ss @ more) (int (length ?bins))
      (int (length (ds @ [s]) + length ss)) (int (length (ds @ [s])))"
    using p by (subst later_tasks.simps) (simp add: rd_mid add.commute)
  moreover have "\<exists>bins'. later_tasks (map sum_list ?bins @ rest) ((ds @ [s]) @ ss @ more) (int (length ?bins))
      (int (length (ds @ [s]) + length ss)) (int (length (ds @ [s]))) = Some (map sum_list bins' @ rest) \<and>
      length bins' = length ?bins \<and> balanced_loads c ((ds @ [s]) @ ss) bins'"
    by (rule Cons.IH [OF bal]) (use Cons.prems in auto)
  ultimately show ?case by simp
qed

section \<open>What the result is worth\<close>

lemma sort_tasks_eq: "tasks \<noteq> [] \<Longrightarrow> sort_tasks (tasks @ rest) (int (length tasks)) = Some (sort tasks @ rest)"
  using insert_from_eq [of "[hd tasks]" "tl tasks" rest] by (cases tasks) (simp_all add: sort_tasks_def)

lemma schedule_mset: "mset tasks = mset tasks' \<Longrightarrow> schedule m tasks bins \<longleftrightarrow> schedule m tasks' bins"
  by (simp add: schedule_def)

lemma last_sort: "xs \<noteq> [] \<Longrightarrow> last (sort xs) = Max (set xs)" for xs :: "int list"
proof -
  assume "xs \<noteq> []"
  then have ne: "sort xs \<noteq> []" by (metis length_0_conv length_sort)
  then have "sorted (butlast (sort xs) @ [last (sort xs)])" by simp
  then have "\<forall>x\<in>set (butlast (sort xs) @ [last (sort xs)]). x \<le> last (sort xs)"
    unfolding sorted_append by auto
  then have "\<forall>x\<in>set (sort xs). x \<le> last (sort xs)" using ne by simp
  with last_in_set [OF ne] have "Max (set (sort xs)) = last (sort xs)" by (intro Max_eqI) auto
  then show ?thesis by simp
qed

text \<open>One processor for each task.\<close>

lemma one_each:
  assumes "tasks \<noteq> []" and "int (length tasks) \<le> m" and "\<forall>x\<in>set tasks. 0 \<le> x"
  shows "\<exists>bins. schedule m tasks bins \<and> finish bins = Max (set tasks)"
proof (intro exI conjI)
  let ?bins = "map (\<lambda>x. [x]) tasks @ replicate (nat m - length tasks) []"
  have conc: "concat (map (\<lambda>x. [x]) tasks @ replicate k []) = tasks" for k by (simp add: map_idI)
  then show "schedule m tasks ?bins" using assms(2) by (simp add: schedule_def del: concat_append)
  have sums: "sum_list ` set ?bins \<subseteq> insert 0 (set tasks)" "set tasks \<subseteq> sum_list ` set ?bins"
    by (auto simp: image_Un image_image)
  have "Max (set tasks) \<in> set tasks" using assms(1) by simp
  with assms(3) have "0 \<le> Max (set tasks)" by blast
  with sums(1) have "y \<le> Max (set tasks)" if "y \<in> sum_list ` set ?bins" for y
    using that by (auto dest: subsetD)
  moreover have "Max (set tasks) \<in> sum_list ` set ?bins"
    by (rule subsetD [OF sums(2) \<open>Max (set tasks) \<in> set tasks\<close>])
  ultimately show "finish ?bins = Max (set tasks)" unfolding finish_def by (intro Max_eqI) auto
qed

lemma first_schedule:
  assumes "length ss = nat m" and "0 < m" and "\<forall>x\<in>set ss. 0 \<le> x \<and> x \<le> c"
  shows "balanced_loads c ss (map (\<lambda>x. [x]) ss)"
proof -
  have "int (length ss) * x \<le> sum_list ss + (int (length ss) - 1) * c" if "x \<in> set ss" for x
  proof -
    have "(int (length ss) - 1) * x \<le> (int (length ss) - 1) * c"
      using assms that by (intro mult_left_mono) auto
    moreover have "x \<le> sum_list ss" using that assms(3) by (intro member_le_sum) auto
    ultimately show ?thesis by (simp add: algebra_simps)
  qed
  then show ?thesis by (simp add: balanced_loads_def schedule_def map_idI)
qed

text \<open>Fewer processors than tasks: the longest tasks are handed out last.\<close>

lemma caculate_few:
  assumes "1 \<le> m" and "tasks \<noteq> []" and "int (length tasks) \<le> MAX_TASKS"
    and nn: "\<forall>x\<in>set tasks. 0 \<le> x" and "sum_list tasks \<le> INT_MAX" and few: "m < int (length tasks)"
  shows "\<exists>bins. caculate m (int (length tasks)) (tasks @ rest) = Some (finish bins) \<and> schedule m tasks bins \<and>
    m * finish bins \<le> sum_list tasks + (m - 1) * Max (set tasks)"
proof -
  define ds where "ds = take (nat m) (sort tasks)"
  define ss where "ss = drop (nat m) (sort tasks)"
  let ?c = "Max (set tasks)" and ?zs = "replicate (nat MAX_TASKS - nat m) (0::int)"
  have cut: "sort tasks = ds @ ss" and len: "length ds = nat m" "int (length ds) = m"
    "length tasks = length ds + length ss"
    using few assms(1) by (simp_all add: ds_def ss_def)
  have elems: "set (ds @ ss) = set tasks" "sum_list (ds @ ss) = sum_list tasks" "mset (ds @ ss) = mset tasks"
    unfolding cut [symmetric] by (simp_all flip: sum_mset_sum_list)
  have bounds: "\<forall>x\<in>set (ds @ ss). 0 \<le> x \<and> x \<le> ?c" unfolding elems(1) using nn by auto
  have tm: "replicate (nat MAX_TASKS) 0 = replicate (nat m) (0::int) @ ?zs"
    using few assms(3) by (simp add: MAX_TASKS_def flip: replicate_add)
  have first: "first_tasks (replicate (nat MAX_TASKS) 0) (sort tasks @ rest) m 0 = Some (ds @ ?zs)"
    using first_tasks_eq [of "replicate (nat m) 0" ds "[]" ?zs "ss @ rest"] len by (simp add: tm cut)
  have "balanced_loads ?c ds (map (\<lambda>x. [x]) ds)"
    by (rule first_schedule [of _ m]) (use len assms(1) bounds in auto)
  from later_tasks_eq [OF this _ bounds, of ?zs rest] obtain bins where
    later: "later_tasks (ds @ ?zs) (sort tasks @ rest) m (int (length tasks)) m = Some (map sum_list bins @ ?zs)"
    and bins: "length bins = nat m" "balanced_loads ?c (ds @ ss) bins"
    using len assms(1,5) elems(2) by (cases "ds = []") (auto simp: o_def cut)
  from max_task_eq [of "map sum_list bins" ?zs] bins(1) assms(1) obtain p where
    last: "max_task (map sum_list bins @ ?zs) m = Some p" "rd (map sum_list bins @ ?zs) p = Some (finish bins)"
    by (cases "bins = []") (auto simp: finish_def)
  have "caculate m (int (length tasks)) (tasks @ rest) = Some (finish bins)"
    using few assms(2) first later last by (simp add: caculate_def sort_tasks_eq)
  moreover have "schedule m tasks bins"
    using bins schedule_mset [OF elems(3)] assms(1) by (simp add: balanced_loads_def)
  moreover have "finish bins \<in> sum_list ` set bins"
    unfolding finish_def using bins(1) assms(1) by (intro Max_in) auto
  then have "m * finish bins \<le> sum_list tasks + (m - 1) * ?c"
    using bins assms(1) elems(2) by (auto simp: balanced_loads_def)
  ultimately show ?thesis by blast
qed

lemma caculate_schedule:
  assumes "1 \<le> m" and "tasks \<noteq> []" and "int (length tasks) \<le> MAX_TASKS"
    and nn: "\<forall>x\<in>set tasks. 0 \<le> x" and "sum_list tasks \<le> INT_MAX"
  shows "\<exists>t bins. caculate m (int (length tasks)) (tasks @ rest) = Some t \<and>
    schedule m tasks bins \<and> finish bins = t \<and>
    (m \<ge> int (length tasks) \<and> t = Max (set tasks) \<or>
     m < int (length tasks) \<and> m * t \<le> sum_list tasks + (m - 1) * Max (set tasks))"
proof (cases "m \<ge> int (length tasks)")
  case True
  have "rd (sort tasks @ rest) (int (length tasks) - 1) = Some (last (sort tasks))"
  proof (cases "sort tasks" rule: rev_cases)
    case Nil
    with assms(2) show ?thesis by (metis length_0_conv length_sort)
  next
    case (snoc ys y)
    then have "length tasks = length (ys @ [y])" by (metis length_sort)
    with snoc show ?thesis by (simp add: rd_mid)
  qed
  then have "caculate m (int (length tasks)) (tasks @ rest) = Some (Max (set tasks))"
    using True assms(2) by (simp add: caculate_def sort_tasks_eq last_sort)
  with one_each [OF assms(2) True nn] True show ?thesis by blast
next
  case False
  with caculate_few [OF assms, of rest] show ?thesis by auto
qed

text \<open>
  C13. The exercise program, on at most 128 tasks of non-negative length whose sum fits an \<open>int\<close>:
  the number it computes is the finishing time of a schedule of these tasks on \<open>m\<close> processors, and
  no schedule finishes in less than \<open>m / (2 m - 1)\<close> of it (Graham's bound for list scheduling).
  With a processor for every task it is the best possible.
\<close>

theorem process_task_correct:
  assumes "1 \<le> m" and "tasks \<noteq> []" and "int (length tasks) \<le> MAX_TASKS"
    and "\<forall>x\<in>set tasks. 0 \<le> x" and "sum_list tasks \<le> INT_MAX"
  shows "\<exists>t. caculate m (int (length tasks)) (tasks @ rest) = Some t \<and>
    (\<exists>bins. schedule m tasks bins \<and> finish bins = t) \<and>
    (\<forall>bins. schedule m tasks bins \<longrightarrow> m * t \<le> (2 * m - 1) * finish bins) \<and>
    (m \<ge> int (length tasks) \<longrightarrow> (\<forall>bins. schedule m tasks bins \<longrightarrow> t \<le> finish bins))"
proof -
  from caculate_schedule [OF assms, of rest] obtain t bins where
    t: "caculate m (int (length tasks)) (tasks @ rest) = Some t" "schedule m tasks bins" "finish bins = t"
      "m \<ge> int (length tasks) \<and> t = Max (set tasks) \<or>
       m < int (length tasks) \<and> m * t \<le> sum_list tasks + (m - 1) * Max (set tasks)"
    by blast
  have opt: "Max (set tasks) \<le> finish bs" "0 \<le> finish bs" if "schedule m tasks bs" for bs
  proof -
    have "Max (set tasks) \<in> set tasks" using assms(2) by simp
    with schedule_task_le [OF that _ assms(4)] assms(4) show "Max (set tasks) \<le> finish bs" "0 \<le> finish bs"
      by (auto intro: order_trans)
  qed
  have "m * t \<le> (2 * m - 1) * finish bs" if "schedule m tasks bs" for bs
  proof -
    have "m * t \<le> m * finish bs + (m - 1) * finish bs"
      using t(4)
    proof
      assume "m \<ge> int (length tasks) \<and> t = Max (set tasks)"
      with opt [OF that] assms(1) have "m * t \<le> m * finish bs" "0 \<le> (m - 1) * finish bs"
        by (auto intro: mult_left_mono)
      then show ?thesis by linarith
    next
      assume "m < int (length tasks) \<and> m * t \<le> sum_list tasks + (m - 1) * Max (set tasks)"
      moreover have "(m - 1) * Max (set tasks) \<le> (m - 1) * finish bs"
        using opt [OF that] assms(1) by (intro mult_left_mono) auto
      ultimately show ?thesis using schedule_sum_le [OF that] by linarith
    qed
    then show ?thesis by (simp add: algebra_simps)
  qed
  moreover have "t \<le> finish bs" if "m \<ge> int (length tasks)" "schedule m tasks bs" for bs
    using that(1) t(4) opt [OF that(2)] by auto
  ultimately show ?thesis using t by blast
qed

theorem process_task_correct_witness:
  "\<exists>t. caculate 2 3 [5, 3, 4] = Some t \<and> schedule 2 [5, 3, 4] [[5, 3], [4]] \<and>
    2 * t \<le> 3 * finish [[5, 3], [4]]"
proof -
  have "schedule 2 [5, 3, 4] [[5, 3], [4]]" by (simp add: schedule_def)
  with process_task_correct [of 2 "[5, 3, 4]" "[]"] show ?thesis
    by (auto simp: MAX_TASKS_def INT_MAX_def)
qed

end
