(* ===== verification/MatrixExam.thy ===== *)
theory MatrixExam
  imports Prelude
begin

text \<open>
  Two exercises on matrices that are stored row by row: the longest run of ones of
  \<open>exam/huawei/getPathLen.c\<close>, and the product of a matrix and its transpose of
  \<open>exam/haier/matrixMultiplication.c\<close>, which allocates the matrix with \<open>rows + columns\<close> places
  where it needs \<open>rows * columns\<close>.
\<close>

section \<open>\<open>getPathLen.c\<close>\<close>

text \<open>
  The four scans of \<open>get_len\<close>, each from the start cell down its direction to the first cell
  that is not 1 or to the border; each keeps its own loop condition.
\<close>

function scan_row :: "int list \<Rightarrow> int \<Rightarrow> int \<Rightarrow> int \<Rightarrow> int \<Rightarrow> int \<Rightarrow> int option" where
  "scan_row arr rows columns start_y i len =
     (if i < rows then do {
        x \<leftarrow> rd arr (i * columns + start_y);
        if x = 1 then scan_row arr rows columns start_y (i + 1) (len + 1) else Some len }
      else Some len)"
  by pat_completeness auto
termination
  by (relation "measure (\<lambda>(arr, rows, columns, y, i, len). nat (rows - i))") auto

function scan_column :: "int list \<Rightarrow> int \<Rightarrow> int \<Rightarrow> int \<Rightarrow> int \<Rightarrow> int option" where
  "scan_column arr columns start_x i len =
     (if i < columns then do {
        x \<leftarrow> rd arr (start_x * columns + i);
        if x = 1 then scan_column arr columns start_x (i + 1) (len + 1) else Some len }
      else Some len)"
  by pat_completeness auto
termination
  by (relation "measure (\<lambda>(arr, columns, x, i, len). nat (columns - i))") auto

function scan_down_right :: "int list \<Rightarrow> int \<Rightarrow> int \<Rightarrow> int \<Rightarrow> int \<Rightarrow> int \<Rightarrow> int option" where
  "scan_down_right arr rows columns i j len =
     (if i < rows \<and> j < columns then do {
        x \<leftarrow> rd arr (i * columns + j);
        if x = 1 then scan_down_right arr rows columns (i + 1) (j + 1) (len + 1) else Some len }
      else Some len)"
  by pat_completeness auto
termination
  by (relation "measure (\<lambda>(arr, rows, columns, i, j, len). nat (rows - i))") auto

function scan_down_left :: "int list \<Rightarrow> int \<Rightarrow> int \<Rightarrow> int \<Rightarrow> int \<Rightarrow> int \<Rightarrow> int option" where
  "scan_down_left arr rows columns i j len =
     (if i < rows \<and> j \<ge> 0 then do {
        x \<leftarrow> rd arr (i * columns + j);
        if x = 1 then scan_down_left arr rows columns (i + 1) (j - 1) (len + 1) else Some len }
      else Some len)"
  by pat_completeness auto
termination
  by (relation "measure (\<lambda>(arr, rows, columns, i, j, len). nat (rows - i))") auto

declare scan_row.simps [simp del] scan_column.simps [simp del] scan_down_right.simps [simp del]
  scan_down_left.simps [simp del]

definition get_len :: "int list \<Rightarrow> int \<Rightarrow> int \<Rightarrow> int \<Rightarrow> int \<Rightarrow> int option" where
  "get_len arr rows columns start_x start_y = do {
     let mx = 0;
     len \<leftarrow> scan_row arr rows columns start_y start_x 0;
     let mx = (if len > mx then len else mx);
     len \<leftarrow> scan_column arr columns start_x start_y 0;
     let mx = (if len > mx then len else mx);
     len \<leftarrow> scan_down_right arr rows columns start_x start_y 0;
     let mx = (if len > mx then len else mx);
     len \<leftarrow> scan_down_left arr rows columns start_x start_y 0;
     let mx = (if len > mx then len else mx);
     Some mx }"

text \<open>The double loop of \<open>main\<close>, over an \<open>n\<close> by \<open>n\<close> matrix (4 in the program).\<close>

function path_columns :: "int list \<Rightarrow> int \<Rightarrow> int \<Rightarrow> int \<Rightarrow> int \<Rightarrow> int option" where
  "path_columns arr n i j mx =
     (if j < n then do {
        x \<leftarrow> rd arr (i * n + j);
        mx \<leftarrow> (if x = 1 then do {
                 len \<leftarrow> get_len arr n n i j;
                 Some (if len > mx then len else mx) }
               else Some mx);
        path_columns arr n i (j + 1) mx }
      else Some mx)"
  by pat_completeness auto
termination
  by (relation "measure (\<lambda>(arr, n, i, j, mx). nat (n - j))") auto

function path_rows :: "int list \<Rightarrow> int \<Rightarrow> int \<Rightarrow> int \<Rightarrow> int option" where
  "path_rows arr n i mx =
     (if i < n then do {
        mx \<leftarrow> path_columns arr n i 0 mx;
        path_rows arr n (i + 1) mx }
      else Some mx)"
  by pat_completeness auto
termination
  by (relation "measure (\<lambda>(arr, n, i, mx). nat (n - i))") auto

declare path_columns.simps [simp del] path_rows.simps [simp del]

definition path_arr :: "int list" where
  "path_arr = [0, 1, 1, 0,
               0, 1, 1, 0,
               0, 0, 0, 1,
               0, 0, 0, 0]"

definition path_main :: "int option" where
  "path_main = path_rows path_arr 4 0 0"

section \<open>\<open>matrixMultiplication.c\<close>\<close>

text \<open>
  The loops that fill the matrix with consecutive numbers, that sum the products into the result,
  and that print it. Sums and products are those of an \<open>int\<close>; an index that leaves the range of an
  \<open>int\<close> is outside of the array as well.
\<close>

function fill_columns :: "int list \<Rightarrow> int \<Rightarrow> int \<Rightarrow> int \<Rightarrow> int \<Rightarrow> (int list \<times> int) option" where
  "fill_columns arr columns i j start =
     (if j < columns then do {
        arr \<leftarrow> wr arr (i * columns + j) start;
        start \<leftarrow> c_int (start + 1);
        fill_columns arr columns i (j + 1) start }
      else Some (arr, start))"
  by pat_completeness auto
termination
  by (relation "measure (\<lambda>(arr, columns, i, j, start). nat (columns - j))") auto

function fill_rows :: "int list \<Rightarrow> int \<Rightarrow> int \<Rightarrow> int \<Rightarrow> int \<Rightarrow> int list option" where
  "fill_rows arr rows columns i start =
     (if i < rows then do {
        (arr, start) \<leftarrow> fill_columns arr columns i 0 start;
        fill_rows arr rows columns (i + 1) start }
      else Some arr)"
  by pat_completeness auto
termination
  by (relation "measure (\<lambda>(arr, rows, columns, i, start). nat (rows - i))") auto

function dot_loop :: "int list \<Rightarrow> int list \<Rightarrow> int \<Rightarrow> int \<Rightarrow> int \<Rightarrow> int \<Rightarrow> int \<Rightarrow> int list option" where
  "dot_loop result arr rows columns i j k =
     (if k < columns then do {
        x \<leftarrow> rd arr (i * columns + k);
        y \<leftarrow> rd arr (j * columns + k);
        p \<leftarrow> c_int (x * y);
        z \<leftarrow> rd result (i * rows + j);
        s \<leftarrow> c_int (z + p);
        result \<leftarrow> wr result (i * rows + j) s;
        dot_loop result arr rows columns i j (k + 1) }
      else Some result)"
  by pat_completeness auto
termination
  by (relation "measure (\<lambda>(result, arr, rows, columns, i, j, k). nat (columns - k))") auto

function product_columns :: "int list \<Rightarrow> int list \<Rightarrow> int \<Rightarrow> int \<Rightarrow> int \<Rightarrow> int \<Rightarrow> int list option" where
  "product_columns result arr rows columns i j =
     (if j < rows then do {
        result \<leftarrow> dot_loop result arr rows columns i j 0;
        product_columns result arr rows columns i (j + 1) }
      else Some result)"
  by pat_completeness auto
termination
  by (relation "measure (\<lambda>(result, arr, rows, columns, i, j). nat (rows - j))") auto

function product_rows :: "int list \<Rightarrow> int list \<Rightarrow> int \<Rightarrow> int \<Rightarrow> int \<Rightarrow> int list option" where
  "product_rows result arr rows columns i =
     (if i < rows then do {
        result \<leftarrow> product_columns result arr rows columns i 0;
        product_rows result arr rows columns (i + 1) }
      else Some result)"
  by pat_completeness auto
termination
  by (relation "measure (\<lambda>(result, arr, rows, columns, i). nat (rows - i))") auto

declare fill_columns.simps [simp del] fill_rows.simps [simp del] dot_loop.simps [simp del]
  product_columns.simps [simp del] product_rows.simps [simp del]

text \<open>
  \<open>caculate\<close>. Neither result of \<open>calloc\<close> is tested: a null pointer is an array of no elements,
  every access to which is undefined. The printed numbers are the elements of the result in their
  order; \<open>ok1\<close> and \<open>ok2\<close> say whether the allocator has memory.
\<close>

definition caculate :: "bool \<Rightarrow> bool \<Rightarrow> int \<Rightarrow> int \<Rightarrow> int \<Rightarrow> int list option" where
  "caculate ok1 ok2 start rows columns = do {
     n \<leftarrow> c_int (rows + columns);
     let arr = case_option [] id (calloc ok1 n);
     arr \<leftarrow> fill_rows arr rows columns 0 start;
     n \<leftarrow> c_int (rows * rows);
     let result = case_option [] id (calloc ok2 n);
     product_rows result arr rows columns 0 }"

definition matrix_main :: "bool \<Rightarrow> bool \<Rightarrow> int list option" where
  "matrix_main ok1 ok2 = caculate ok1 ok2 1 2 2"

section \<open>Lines of ones\<close>

datatype dir = Down | Across | DownRight | DownLeft

primrec step_row :: "dir \<Rightarrow> int" where
  "step_row Down = 1"
| "step_row Across = 0"
| "step_row DownRight = 1"
| "step_row DownLeft = 1"

primrec step_column :: "dir \<Rightarrow> int" where
  "step_column Down = 0"
| "step_column Across = 1"
| "step_column DownRight = 1"
| "step_column DownLeft = - 1"

definition inside :: "int \<Rightarrow> int \<Rightarrow> int \<Rightarrow> int \<Rightarrow> bool" where
  "inside rows columns i j \<longleftrightarrow> 0 \<le> i \<and> i < rows \<and> 0 \<le> j \<and> j < columns"

definition is_one :: "int list \<Rightarrow> int \<Rightarrow> int \<Rightarrow> int \<Rightarrow> int \<Rightarrow> bool" where
  "is_one arr rows columns i j \<longleftrightarrow> inside rows columns i j \<and> arr ! nat (i * columns + j) = 1"

text \<open>The line of \<open>k\<close> cells from \<open>(i, j)\<close> in direction \<open>d\<close> lies in the matrix and is all ones.\<close>

definition ones_line :: "int list \<Rightarrow> int \<Rightarrow> int \<Rightarrow> dir \<Rightarrow> int \<Rightarrow> int \<Rightarrow> nat \<Rightarrow> bool" where
  "ones_line arr rows columns d i j k \<longleftrightarrow>
     (\<forall>t < k. is_one arr rows columns (i + int t * step_row d) (j + int t * step_column d))"

text \<open>How far a line of ones goes from a cell.\<close>

function run :: "int list \<Rightarrow> int \<Rightarrow> int \<Rightarrow> dir \<Rightarrow> int \<Rightarrow> int \<Rightarrow> int" where
  "run arr rows columns d i j =
     (if is_one arr rows columns i j then 1 + run arr rows columns d (i + step_row d) (j + step_column d)
      else 0)"
  by pat_completeness auto
termination
proof (relation "measure (\<lambda>(arr, rows, columns, d, i, j). 2 * nat (rows - i) + nat (columns - j))",
    goal_cases)
  case (2 arr rows columns d i j)
  then have "0 \<le> i" "i < rows" "0 \<le> j" "j < columns" by (simp_all add: is_one_def inside_def)
  then have "nat (rows - i) = Suc (nat (rows - (i + 1)))" "nat (columns - j) = Suc (nat (columns - (j + 1)))"
    "nat (columns - (j - 1)) = Suc (nat (columns - j))" by arith+
  then show ?case by (cases d) simp_all
qed simp

declare run.simps [simp del]

lemma run_nonneg: "0 \<le> run arr rows columns d i j"
  by (induction arr rows columns d i j rule: run.induct) (subst run.simps, simp)

lemma run_ones_line: "ones_line arr rows columns d i j k \<longleftrightarrow> int k \<le> run arr rows columns d i j"
proof (induction k arbitrary: i j)
  case 0
  then show ?case by (simp add: ones_line_def run_nonneg)
next
  case (Suc k)
  have "ones_line arr rows columns d i j (Suc k) \<longleftrightarrow> is_one arr rows columns i j \<and>
      ones_line arr rows columns d (i + step_row d) (j + step_column d) k"
    unfolding ones_line_def All_less_Suc2 by (simp add: algebra_simps)
  also have "\<dots> \<longleftrightarrow> int (Suc k) \<le> run arr rows columns d i j"
    unfolding Suc.IH by (subst (2) run.simps) simp
  finally show ?case .
qed

lemma rd_cell:
  assumes "inside rows columns i j" and "int (length arr) = rows * columns"
  shows "rd arr (i * columns + j) = Some (arr ! nat (i * columns + j))"
proof -
  have "i * columns + j < (i + 1) * columns" using assms(1) by (simp add: inside_def distrib_right)
  also have "\<dots> \<le> rows * columns" using assms(1) by (intro mult_right_mono) (auto simp: inside_def)
  finally show ?thesis using assms by (intro rd_in) (auto simp: inside_def)
qed

lemma scan_row_eq:
  "int (length arr) = rows * columns \<Longrightarrow> 0 \<le> i \<Longrightarrow> 0 \<le> y \<Longrightarrow> y < columns \<Longrightarrow>
    scan_row arr rows columns y i len = Some (len + run arr rows columns Down i y)"
  by (induction arr rows columns y i len rule: scan_row.induct)
    (subst scan_row.simps, subst run.simps, simp add: rd_cell is_one_def inside_def)

lemma scan_column_eq:
  "int (length arr) = rows * columns \<Longrightarrow> 0 \<le> i \<Longrightarrow> 0 \<le> x \<Longrightarrow> x < rows \<Longrightarrow>
    scan_column arr columns x i len = Some (len + run arr rows columns Across x i)"
  by (induction arr columns x i len rule: scan_column.induct)
    (subst scan_column.simps, subst run.simps, simp add: rd_cell is_one_def inside_def)

lemma scan_down_right_eq:
  "int (length arr) = rows * columns \<Longrightarrow> 0 \<le> i \<Longrightarrow> 0 \<le> j \<Longrightarrow>
    scan_down_right arr rows columns i j len = Some (len + run arr rows columns DownRight i j)"
proof (induction arr rows columns i j len rule: scan_down_right.induct)
  case (1 arr rows columns i j len)
  with rd_cell [of rows columns i j arr] show ?case
    by (subst scan_down_right.simps, subst run.simps) (auto simp: is_one_def inside_def)
qed

lemma scan_down_left_eq:
  "int (length arr) = rows * columns \<Longrightarrow> 0 \<le> i \<Longrightarrow> j < columns \<Longrightarrow>
    scan_down_left arr rows columns i j len = Some (len + run arr rows columns DownLeft i j)"
proof (induction arr rows columns i j len rule: scan_down_left.induct)
  case (1 arr rows columns i j len)
  with rd_cell [of rows columns i j arr] show ?case
    by (subst scan_down_left.simps, subst run.simps) (auto simp: is_one_def inside_def)
qed

lemma if_max: "(if a > b then a else b) = max b a" for a b :: int
  by simp

lemma get_len_eq:
  assumes "int (length arr) = rows * columns" and "inside rows columns i j"
  shows "\<exists>len. get_len arr rows columns i j = Some len \<and> (\<exists>d. len = run arr rows columns d i j) \<and>
    (\<forall>d. run arr rows columns d i j \<le> len)"
proof -
  let ?r = "\<lambda>d. run arr rows columns d i j"
  let ?len = "max (max (max (?r Down) (?r Across)) (?r DownRight)) (?r DownLeft)"
  have "get_len arr rows columns i j = Some ?len"
    using assms run_nonneg [of arr rows columns _ i j]
    by (simp add: get_len_def Let_def scan_row_eq scan_column_eq scan_down_right_eq scan_down_left_eq
        inside_def if_max)
  moreover have "\<exists>d. ?len = ?r d" by (metis max_def)
  moreover have "?r d \<le> ?len" for d by (cases d) auto
  ultimately show ?thesis by blast
qed

text \<open>The loops of \<open>main\<close> keep the maximum of the runs of the cells visited so far.\<close>

definition best_so_far :: "int list \<Rightarrow> int \<Rightarrow> (int \<Rightarrow> int \<Rightarrow> bool) \<Rightarrow> int \<Rightarrow> bool" where
  "best_so_far arr n cells mx \<longleftrightarrow> 0 \<le> mx \<and>
     (mx = 0 \<or> (\<exists>d i j. inside n n i j \<and> mx = run arr n n d i j)) \<and>
     (\<forall>d i j. inside n n i j \<longrightarrow> cells i j \<longrightarrow> run arr n n d i j \<le> mx)"

lemma best_so_far_better:
  assumes "best_so_far arr n cells mx" and "mx < len" and "inside n n i j"
    and "\<exists>d. len = run arr n n d i j" and "\<forall>d. run arr n n d i j \<le> len"
  shows "best_so_far arr n (\<lambda>a b. cells a b \<or> a = i \<and> b = j) len"
  unfolding best_so_far_def
proof (intro conjI allI impI)
  show "0 \<le> len" using assms(1,2) by (simp add: best_so_far_def)
  show "len = 0 \<or> (\<exists>d i j. inside n n i j \<and> len = run arr n n d i j)" using assms(3,4) by blast
  fix d a b assume "inside n n a b" "cells a b \<or> a = i \<and> b = j"
  with assms show "run arr n n d a b \<le> len" unfolding best_so_far_def by (meson less_imp_le order_trans)
qed

lemma best_so_far_same:
  assumes "best_so_far arr n cells mx" and "\<And>d. run arr n n d i j \<le> mx"
  shows "best_so_far arr n (\<lambda>a b. cells a b \<or> a = i \<and> b = j) mx"
  unfolding best_so_far_def
proof (intro conjI allI impI)
  show "0 \<le> mx" "mx = 0 \<or> (\<exists>d i j. inside n n i j \<and> mx = run arr n n d i j)"
    using assms(1) by (simp_all add: best_so_far_def)
  fix d a b assume "inside n n a b" "cells a b \<or> a = i \<and> b = j"
  with assms show "run arr n n d a b \<le> mx" by (auto simp: best_so_far_def)
qed

lemma path_columns_eq:
  "int (length arr) = n * n \<Longrightarrow> 0 \<le> i \<Longrightarrow> i < n \<Longrightarrow> 0 \<le> j \<Longrightarrow>
    best_so_far arr n (\<lambda>a b. a < i \<or> a = i \<and> b < j) mx \<Longrightarrow>
    \<exists>mx'. path_columns arr n i j mx = Some mx' \<and> best_so_far arr n (\<lambda>a b. a < i + 1) mx'"
proof (induction arr n i j mx rule: path_columns.induct)
  case (1 arr n i j mx)
  show ?case
  proof (cases "j < n")
    case False
    have "best_so_far arr n (\<lambda>a b. a < i + 1) mx"
      using 1(6) False by (force simp: best_so_far_def inside_def)
    with False show ?thesis by (subst path_columns.simps) simp
  next
    case True
    have ins: "inside n n i j" using True 1(3-5) by (simp add: inside_def)
    note rd = rd_cell [OF ins 1(2)]
    have cells: "(a < i \<or> a = i \<and> b < j + 1) = ((a < i \<or> a = i \<and> b < j) \<or> a = i \<and> b = j)" for a b :: int
      by auto
    from get_len_eq [OF 1(2) ins] obtain len where
      len: "get_len arr n n i j = Some len" "\<exists>d. len = run arr n n d i j" "\<forall>d. run arr n n d i j \<le> len" by blast
    define mx' where "mx' = (if arr ! nat (i * n + j) = 1 \<and> len > mx then len else mx)"
    have zero: "run arr n n d i j = 0" if "arr ! nat (i * n + j) \<noteq> 1" for d
      using that by (subst run.simps) (simp add: is_one_def)
    have best: "best_so_far arr n (\<lambda>a b. a < i \<or> a = i \<and> b < j + 1) mx'"
    proof (cases "arr ! nat (i * n + j) = 1 \<and> len > mx")
      case True
      with best_so_far_better [OF 1(6) _ ins len(2,3)] show ?thesis unfolding cells by (simp add: mx'_def)
    next
      case False
      have le: "run arr n n d i j \<le> mx" for d
      proof (cases "arr ! nat (i * n + j) = 1")
        case True
        with False len(3) show ?thesis by (meson not_less order_trans)
      next
        case no: False
        with zero [OF no, of d] 1(6) show ?thesis by (simp add: best_so_far_def)
      qed
      have "mx' = mx" unfolding mx'_def using False by (rule if_not_P)
      with best_so_far_same [OF 1(6) le] show ?thesis unfolding cells by simp
    qed
    have step: "path_columns arr n i j mx = path_columns arr n i (j + 1) mx'"
      using True rd len(1) by (subst path_columns.simps) (auto simp: mx'_def)
    show ?thesis unfolding step
      by (rule 1(1) [OF True rd]) (use 1(2-5) best len(1) in \<open>auto simp: mx'_def\<close>)
  qed
qed

lemma path_rows_eq:
  "int (length arr) = n * n \<Longrightarrow> 0 \<le> i \<Longrightarrow> best_so_far arr n (\<lambda>a b. a < i) mx \<Longrightarrow>
    \<exists>mx'. path_rows arr n i mx = Some mx' \<and> best_so_far arr n (\<lambda>a b. True) mx'"
proof (induction arr n i mx rule: path_rows.induct)
  case (1 arr n i mx)
  show ?case
  proof (cases "i < n")
    case False
    with 1(4) show ?thesis by (subst path_rows.simps) (auto simp: best_so_far_def inside_def)
  next
    case True
    have "best_so_far arr n (\<lambda>a b. a < i \<or> a = i \<and> b < 0) mx"
      using 1(4) by (force simp: best_so_far_def inside_def)
    from path_columns_eq [OF 1(2,3) True order_refl this] obtain mx' where
      mx': "path_columns arr n i 0 mx = Some mx'" "best_so_far arr n (\<lambda>a b. a < i + 1) mx'" by blast
    have "\<exists>mx''. path_rows arr n (i + 1) mx' = Some mx'' \<and> best_so_far arr n (\<lambda>a b. True) mx''"
      by (rule 1(1) [OF True mx'(1)]) (use 1(2,3) mx'(2) in auto)
    with True mx'(1) show ?thesis by (subst path_rows.simps) simp
  qed
qed

text \<open>
  The search of \<open>getPathLen.c\<close> on a square matrix stays inside the matrix and computes the
  length of the longest line of ones, horizontal, vertical or along either diagonal: there is a
  line of that length and none is longer. On the matrix of the program this is 3.
\<close>

theorem path_longest_line:
  assumes "int (length arr) = n * n"
  shows "\<exists>mx. path_rows arr n 0 0 = Some (int mx) \<and>
    (\<forall>d i j k. inside n n i j \<longrightarrow> ones_line arr n n d i j k \<longrightarrow> k \<le> mx) \<and>
    (0 < mx \<longrightarrow> (\<exists>d i j. inside n n i j \<and> ones_line arr n n d i j mx)) \<and> path_main = Some 3"
proof -
  have "best_so_far arr n (\<lambda>a b. a < 0) 0" by (auto simp: best_so_far_def inside_def)
  from path_rows_eq [OF assms order_refl this] obtain mx where
    mx: "path_rows arr n 0 0 = Some mx" "best_so_far arr n (\<lambda>a b. True) mx" by blast
  then have le: "k \<le> nat mx" if "inside n n i j" "ones_line arr n n d i j k" for d i j k
    using that unfolding run_ones_line best_so_far_def by (meson le_nat_iff order_trans)
  have ex: "\<exists>d i j. inside n n i j \<and> ones_line arr n n d i j (nat mx)" if "0 < nat mx"
    using that mx(2) unfolding run_ones_line best_so_far_def by force
  have "path_main = Some 3" by code_simp
  with mx le ex show ?thesis by (intro exI [of _ "nat mx"]) (simp add: best_so_far_def)
qed

theorem path_longest_line_witness:
  "\<exists>mx. path_rows [1, 0, 0, 1] 2 0 0 = Some (int mx) \<and> ones_line [1, 0, 0, 1] 2 2 DownRight 0 0 2 \<and> 2 \<le> mx"
proof -
  have "inside 2 2 0 0" by (simp add: inside_def)
  moreover have line: "ones_line [1, 0, 0, 1] 2 2 DownRight 0 0 2"
    by (auto simp: ones_line_def is_one_def inside_def less_2_cases_iff)
  ultimately show ?thesis using path_longest_line [of "[1, 0, 0, 1]" 2] by fastforce
qed

section \<open>The product with the transpose\<close>

lemma fill_columns_eq:
  "length ds = i * C + j \<Longrightarrow> j + length zs = C \<Longrightarrow> 0 \<le> st \<Longrightarrow> st + int (length zs) \<le> INT_MAX \<Longrightarrow>
    fill_columns (ds @ zs @ rest) (int C) (int i) (int j) st
      = Some (ds @ map (\<lambda>t. st + int t) [0..<length zs] @ rest, st + int (length zs))"
proof (induction zs arbitrary: ds j st)
  case Nil
  then show ?case by (subst fill_columns.simps) simp
next
  case (Cons z zs)
  have "fill_columns ((ds @ [st]) @ zs @ rest) (int C) (int i) (int (Suc j)) (st + 1)
      = Some ((ds @ [st]) @ map (\<lambda>t. st + 1 + int t) [0..<length zs] @ rest, st + 1 + int (length zs))"
    by (rule Cons.IH) (use Cons.prems in auto)
  moreover have "map (\<lambda>t. st + int t) [0..<Suc (length zs)] = st # map (\<lambda>t. st + 1 + int t) [0..<length zs]"
    by (rule nth_equalityI) (auto simp: nth_Cons' simp del: upt_Suc)
  moreover have "wr (ds @ z # zs @ rest) (int i * int C + int j) st = Some (ds @ st # zs @ rest)"
    using Cons.prems(1) by (intro wr_mid) simp
  moreover have "in_int (st + 1)" using Cons.prems by (simp add: int_range)
  ultimately show ?case using Cons.prems(2)
    by (subst fill_columns.simps) (simp add: add.commute del: upt_Suc)
qed

lemma fill_rows_eq:
  "length ds = i * C \<Longrightarrow> i + m = R \<Longrightarrow> length zs = m * C \<Longrightarrow> 0 \<le> st \<Longrightarrow> st + int (m * C) \<le> INT_MAX \<Longrightarrow>
    fill_rows (ds @ zs @ rest) (int R) (int C) (int i) st
      = Some (ds @ map (\<lambda>t. st + int t) [0..<m * C] @ rest)"
proof (induction m arbitrary: ds zs i st)
  case 0
  then show ?case by (subst fill_rows.simps) simp
next
  case (Suc m)
  define us where "us = take C zs"
  define vs where "vs = drop C zs"
  have zs: "zs = us @ vs" "length us = C" "length vs = m * C"
    using Suc.prems(3) by (simp_all add: us_def vs_def)
  let ?row = "map (\<lambda>t. st + int t) [0..<C]"
  have row: "fill_columns (ds @ us @ vs @ rest) (int C) (int i) 0 st = Some (ds @ ?row @ vs @ rest, st + int C)"
  proof -
    have "int (Suc m * C) = int C + int (m * C)" by simp
    then have "st + int C \<le> INT_MAX" using Suc.prems(5) by linarith
    with fill_columns_eq [of ds i C 0 us st "vs @ rest"] Suc.prems zs show ?thesis by simp
  qed
  have "fill_rows ((ds @ ?row) @ vs @ rest) (int R) (int C) (int (Suc i)) (st + int C)
      = Some ((ds @ ?row) @ map (\<lambda>t. st + int C + int t) [0..<m * C] @ rest)"
    by (rule Suc.IH) (use Suc.prems zs in auto)
  moreover have "map (\<lambda>t. st + int t) [0..<Suc m * C] = ?row @ map (\<lambda>t. st + int C + int t) [0..<m * C]"
    by (rule nth_equalityI) (auto simp: nth_append)
  ultimately show ?case using row Suc.prems(2) zs(1)
    by (subst fill_rows.simps) (simp add: add.commute)
qed

text \<open>What does not fit is written outside the array.\<close>

lemma fill_columns_SomeD:
  "fill_columns arr columns i j st = Some (arr', st') \<Longrightarrow> j < columns \<Longrightarrow>
    length arr' = length arr \<and> i * columns + columns - 1 < int (length arr)"
proof (induction arr columns i j st rule: fill_columns.induct)
  case (1 arr columns i j st)
  from 1(2,3) obtain arr1 st1 where s: "wr arr (i * columns + j) st = Some arr1" "c_int (st + 1) = Some st1"
    "fill_columns arr1 columns i (j + 1) st1 = Some (arr', st')"
    by (subst (asm) fill_columns.simps) (auto split: Option.bind_splits)
  have len: "length arr1 = length arr" "i * columns + j < int (length arr)"
    using wr_SomeD [OF s(1)] by auto
  show ?case
  proof (cases "j + 1 < columns")
    case True
    from 1(1) [OF 1(3) s(1,2,3) True] len show ?thesis by simp
  next
    case False
    then have "arr' = arr1" using s(3) by (subst (asm) fill_columns.simps) simp
    with False len 1(3) show ?thesis by simp
  qed
qed

lemma fill_rows_SomeD:
  "fill_rows arr rows columns i st = Some arr' \<Longrightarrow> i < rows \<Longrightarrow> 0 < columns \<Longrightarrow> rows * columns \<le> int (length arr)"
proof (induction arr rows columns i st rule: fill_rows.induct)
  case (1 arr rows columns i st)
  from 1(2,3) obtain arr1 st1 where s: "fill_columns arr columns i 0 st = Some (arr1, st1)"
    "fill_rows arr1 rows columns (i + 1) st1 = Some arr'"
    by (subst (asm) fill_rows.simps) (auto split: Option.bind_splits)
  note len = fill_columns_SomeD [OF s(1) 1(4)]
  show ?case
  proof (cases "i + 1 < rows")
    case True
    from 1(1) [OF 1(3) s(1) refl s(2) True 1(4)] len show ?thesis by simp
  next
    case False
    then have "rows = i + 1" using 1(3) by simp
    then show ?thesis using len by (simp add: algebra_simps)
  qed
qed

text \<open>The loops that add up the products: \<open>A i k\<close> is the matrix that was filled in.\<close>

lemma dot_loop_eq:
  fixes A :: "nat \<Rightarrow> nat \<Rightarrow> int"
  assumes "\<And>i k. i < R \<Longrightarrow> k < C \<Longrightarrow> rd arr (int i * int C + int k) = Some (A i k)"
    and "i < R" "j < R" "length us = i * R + j"
    and "\<And>k. k \<le> C \<Longrightarrow> in_int (\<Sum>t<k. A i t * A j t)" "\<And>k. k < C \<Longrightarrow> in_int (A i k * A j k)"
  shows "k + m = C \<Longrightarrow> dot_loop (us @ (\<Sum>t<k. A i t * A j t) # vs) arr (int R) (int C) (int i) (int j) (int k)
    = Some (us @ (\<Sum>t<C. A i t * A j t) # vs)"
proof (induction m arbitrary: k)
  case 0
  then show ?case by (subst dot_loop.simps) simp
next
  case (Suc m)
  have "in_int ((\<Sum>t<k. A i t * A j t) + A i k * A j k)" using assms(5) [of "Suc k"] Suc.prems by simp
  moreover have "dot_loop (us @ (\<Sum>t<Suc k. A i t * A j t) # vs) arr (int R) (int C) (int i) (int j) (int (Suc k))
      = Some (us @ (\<Sum>t<C. A i t * A j t) # vs)"
    by (rule Suc.IH) (use Suc.prems in simp)
  moreover have "rd (us @ z # vs) (int i * int R + int j) = Some z" for z
    using assms(4) by (intro rd_mid) simp
  moreover have "wr (us @ z # vs) (int i * int R + int j) w = Some (us @ w # vs)" for z w
    using assms(4) by (intro wr_mid) simp
  ultimately show ?case using assms(1) [OF assms(2), of k] assms(1) [OF assms(3), of k] assms(6) [of k] Suc.prems
    by (subst dot_loop.simps) (simp add: add.commute)
qed

lemma product_columns_eq:
  fixes A :: "nat \<Rightarrow> nat \<Rightarrow> int"
  assumes "\<And>i k. i < R \<Longrightarrow> k < C \<Longrightarrow> rd arr (int i * int C + int k) = Some (A i k)" and "i < R"
    and "\<And>i j k. i < R \<Longrightarrow> j < R \<Longrightarrow> k \<le> C \<Longrightarrow> in_int (\<Sum>t<k. A i t * A j t)"
    and "\<And>i j k. i < R \<Longrightarrow> j < R \<Longrightarrow> k < C \<Longrightarrow> in_int (A i k * A j k)"
  shows "length us = i * R + j \<Longrightarrow> j + m = R \<Longrightarrow>
    product_columns (us @ replicate m 0 @ vs) arr (int R) (int C) (int i) (int j)
      = Some (us @ map (\<lambda>j. \<Sum>t<C. A i t * A j t) [j..<R] @ vs)"
proof (induction m arbitrary: us j)
  case 0
  then show ?case by (subst product_columns.simps) simp
next
  case (Suc m)
  let ?d = "\<Sum>t<C. A i t * A j t"
  have "product_columns ((us @ [?d]) @ replicate m 0 @ vs) arr (int R) (int C) (int i) (int (Suc j))
      = Some ((us @ [?d]) @ map (\<lambda>j. \<Sum>t<C. A i t * A j t) [Suc j..<R] @ vs)"
    by (rule Suc.IH) (use Suc.prems in auto)
  moreover have "dot_loop (us @ 0 # replicate m 0 @ vs) arr (int R) (int C) (int i) (int j) 0
      = Some (us @ ?d # replicate m 0 @ vs)"
    using dot_loop_eq [of R C arr A i j us 0 C "replicate m 0 @ vs"] assms Suc.prems by simp
  moreover have "[j..<R] = j # [Suc j..<R]" using Suc.prems by (simp add: upt_conv_Cons)
  ultimately show ?case using Suc.prems
    by (subst product_columns.simps) (simp add: add.commute)
qed

lemma product_rows_eq:
  fixes A :: "nat \<Rightarrow> nat \<Rightarrow> int"
  assumes "\<And>i k. i < R \<Longrightarrow> k < C \<Longrightarrow> rd arr (int i * int C + int k) = Some (A i k)"
    and "\<And>i j k. i < R \<Longrightarrow> j < R \<Longrightarrow> k \<le> C \<Longrightarrow> in_int (\<Sum>t<k. A i t * A j t)"
    and "\<And>i j k. i < R \<Longrightarrow> j < R \<Longrightarrow> k < C \<Longrightarrow> in_int (A i k * A j k)"
  shows "length us = i * R \<Longrightarrow> i + m = R \<Longrightarrow>
    product_rows (us @ replicate (m * R) 0) arr (int R) (int C) (int i)
      = Some (us @ concat (map (\<lambda>i. map (\<lambda>j. \<Sum>t<C. A i t * A j t) [0..<R]) [i..<R]))"
proof (induction m arbitrary: us i)
  case 0
  then show ?case by (subst product_rows.simps) simp
next
  case (Suc m)
  let ?row = "map (\<lambda>j. \<Sum>t<C. A i t * A j t) [0..<R]"
  have "product_rows ((us @ ?row) @ replicate (m * R) 0) arr (int R) (int C) (int (Suc i))
      = Some ((us @ ?row) @ concat (map (\<lambda>i. map (\<lambda>j. \<Sum>t<C. A i t * A j t) [0..<R]) [Suc i..<R]))"
    by (rule Suc.IH) (use Suc.prems in auto)
  moreover have "product_columns (us @ replicate R 0 @ replicate (m * R) 0) arr (int R) (int C) (int i) 0
      = Some (us @ ?row @ replicate (m * R) 0)"
    using product_columns_eq [of R C arr A i us 0 R "replicate (m * R) 0"] assms Suc.prems by simp
  moreover have "[i..<R] = i # [Suc i..<R]" using Suc.prems by (simp add: upt_conv_Cons)
  moreover have "replicate (Suc m * R) (0::int) = replicate R 0 @ replicate (m * R) 0"
    by (simp add: replicate_add)
  ultimately show ?case using Suc.prems
    by (subst product_rows.simps) (simp add: add.commute)
qed

text \<open>The entries of the filled matrix, and the bounds that keep every product and partial sum in range.\<close>

abbreviation mat_entry :: "int \<Rightarrow> nat \<Rightarrow> nat \<Rightarrow> nat \<Rightarrow> int" where
  "mat_entry start C i t \<equiv> start + int (i * C + t)"

definition mat_small :: "int \<Rightarrow> nat \<Rightarrow> nat \<Rightarrow> bool" where
  "mat_small start R C \<longleftrightarrow> 0 \<le> start \<and> 0 < R \<and> 0 < C \<and> int R + int C \<le> INT_MAX \<and> int R * int R \<le> INT_MAX \<and>
     int C * ((start + int (R * C)) * (start + int (R * C))) \<le> INT_MAX"

lemma mat_index: "i < R \<Longrightarrow> t < C \<Longrightarrow> i * C + t < R * (C :: nat)"
proof -
  assume a: "i < R" "t < C"
  then have "i * C + t < Suc i * C" by simp
  also have "\<dots> \<le> R * C" using a(1) by (intro mult_le_mono1) simp
  finally show ?thesis .
qed

lemma mat_last:
  assumes "mat_small start R C"
  shows "start + int (R * C) \<le> INT_MAX" and "(start + int (R * C)) * (start + int (R * C)) \<le> INT_MAX"
proof -
  let ?B = "start + int (R * C)"
  have B: "0 < ?B" using assms by (simp add: mat_small_def add_nonneg_pos)
  have "1 * (?B * ?B) \<le> int C * (?B * ?B)" using assms by (intro mult_right_mono) (auto simp: mat_small_def)
  then show le2: "?B * ?B \<le> INT_MAX" using assms by (simp add: mat_small_def)
  have "?B * 1 \<le> ?B * ?B" using B by (intro mult_left_mono) auto
  from order_trans [OF this le2] show "?B \<le> INT_MAX" by (simp only: mult_1_right)
qed

lemma mat_product:
  assumes "mat_small start R C" and "i < R" and "j < R" and "t < C"
  shows "0 \<le> mat_entry start C i t * mat_entry start C j t"
    and "mat_entry start C i t * mat_entry start C j t \<le> (start + int (R * C)) * (start + int (R * C))"
proof -
  have b: "0 \<le> mat_entry start C i t" "mat_entry start C i t \<le> start + int (R * C)" if "i < R" for i
    using mat_index [OF that assms(4)] assms(1) by (simp_all add: mat_small_def del: of_nat_add of_nat_mult)
  show "0 \<le> mat_entry start C i t * mat_entry start C j t"
    by (rule mult_nonneg_nonneg) (rule b(1) assms(2,3))+
  show "mat_entry start C i t * mat_entry start C j t \<le> (start + int (R * C)) * (start + int (R * C))"
    by (rule mult_mono [OF b(2) [OF assms(2)] b(2) [OF assms(3)]]) (use assms(1) b(1) [OF assms(3)] in \<open>simp_all add: mat_small_def\<close>)
qed

lemma mat_partial_sum:
  assumes "mat_small start R C" and "i < R" and "j < R" and "k \<le> C"
  shows "in_int (\<Sum>t<k. mat_entry start C i t * mat_entry start C j t)"
proof -
  let ?B = "start + int (R * C)"
  have "(\<Sum>t<k. mat_entry start C i t * mat_entry start C j t) \<le> int (card {..<k}) * (?B * ?B)"
    by (rule sum_bounded_above) (use mat_product(2) [OF assms(1-3)] assms(4) in auto)
  also have "\<dots> \<le> int C * (?B * ?B)" using assms(4) by (intro mult_right_mono) auto
  also have "\<dots> \<le> INT_MAX" using assms(1) by (simp add: mat_small_def)
  finally have "(\<Sum>t<k. mat_entry start C i t * mat_entry start C j t) \<le> INT_MAX" .
  moreover have "0 \<le> (\<Sum>t<k. mat_entry start C i t * mat_entry start C j t)"
    by (rule sum_nonneg) (use mat_product(1) [OF assms(1-3)] assms(4) in auto)
  ultimately show ?thesis by (simp add: int_range)
qed

lemma fill_fits:
  assumes "mat_small start R C" and "R * C \<le> R + C"
  shows "fill_rows (replicate (R + C) 0) (int R) (int C) 0 start =
    Some (map (\<lambda>t. start + int t) [0..<R * C] @ replicate (R + C - R * C) 0)"
proof -
  have "replicate (R + C) (0::int) = [] @ replicate (R * C) 0 @ replicate (R + C - R * C) 0"
    using assms(2) by (simp flip: replicate_add)
  then show ?thesis
    using fill_rows_eq [of "[]" 0 C R R "replicate (R * C) 0" start "replicate (R + C - R * C) 0"] mat_last(1) [OF assms(1)] assms(1)
    by (simp add: mat_small_def)
qed

lemma fill_overruns:
  assumes "0 < R" and "0 < C" and "\<not> R * C \<le> R + C"
  shows "fill_rows (replicate (R + C) 0) (int R) (int C) 0 start = None"
proof (rule ccontr)
  assume "fill_rows (replicate (R + C) 0) (int R) (int C) 0 start \<noteq> None"
  then obtain arr where "fill_rows (replicate (R + C) 0) (int R) (int C) 0 start = Some arr" by auto
  from fill_rows_SomeD [OF this] assms(1,2) have "int (R * C) \<le> int (R + C)" by simp
  with assms(3) show False by linarith
qed

lemma mat_cell:
  assumes "i < R" and "t < C"
  shows "rd (map (\<lambda>t. start + int t) [0..<R * C] @ rest) (int i * int C + int t) = Some (mat_entry start C i t)"
proof -
  have "rd (map (\<lambda>t. start + int t) [0..<R * C] @ rest) (int (i * C + t)) = Some (mat_entry start C i t)"
    unfolding rd_nat using mat_index [OF assms] by (simp add: nth_append)
  then show ?thesis by simp
qed

text \<open>
  The program of \<open>matrixMultiplication.c\<close> computes the product of the matrix of consecutive
  numbers with its transpose exactly for the shapes whose \<open>rows * columns\<close> elements fit the
  \<open>rows + columns\<close> places it allocates (one row, one column, or two by two as in its \<open>main\<close>); for
  every other shape it writes beyond the end of the array.
\<close>

theorem matrix_product_allocation:
  assumes "0 \<le> start" and "0 < R" and "0 < C" and "int R + int C \<le> INT_MAX" and "int R * int R \<le> INT_MAX"
    and small: "int C * ((start + int (R * C)) * (start + int (R * C))) \<le> INT_MAX"
  shows "caculate True True start (int R) (int C) =
    (if R * C \<le> R + C
     then Some (concat (map (\<lambda>i. map (\<lambda>j. \<Sum>t<C. (start + int (i * C + t)) * (start + int (j * C + t)))
                                    [0..<R]) [0..<R]))
     else None)"
proof -
  have ms: "mat_small start R C" using assms by (simp add: mat_small_def)
  have alloc: "calloc True (int R + int C) = Some (replicate (R + C) 0)"
    by (simp add: calloc_def nat_add_distrib)
  have res: "calloc True (int (R * R)) = Some (replicate (R * R) 0)" by (simp add: calloc_def del: of_nat_mult)
  have ok: "c_int (int R + int C) = Some (int R + int C)" "c_int (int R * int R) = Some (int (R * R))"
    using assms(4,5) order_trans [of "- 2147483648" 0 "int R * int R"] by (simp_all add: c_int_eq_Some int_range)
  show ?thesis
  proof (cases "R * C \<le> R + C")
    case False
    with alloc ok fill_overruns [OF assms(2,3)] show ?thesis by (simp add: caculate_def)
  next
    case True
    let ?rest = "replicate (R + C - R * C) (0::int)"
    have "product_rows ([] @ replicate (R * R) 0) (map (\<lambda>t. start + int t) [0..<R * C] @ ?rest) (int R) (int C) (int 0)
        = Some ([] @ concat (map (\<lambda>i. map (\<lambda>j. \<Sum>t<C. mat_entry start C i t * mat_entry start C j t) [0..<R]) [0..<R]))"
    proof (rule product_rows_eq)
      show "in_int (mat_entry start C i k * mat_entry start C j k)" if "i < R" "j < R" "k < C" for i j k
        using mat_product [OF ms that] mat_last(2) [OF ms] by (simp add: int_range del: of_nat_add of_nat_mult)
    qed (use mat_cell mat_partial_sum [OF ms] in auto)
    with True alloc ok fill_fits [OF ms True] res show ?thesis by (simp add: caculate_def)
  qed
qed

theorem matrix_product_allocation_witness:
  "caculate True True 1 2 3 = None \<and> matrix_main True True = Some [5, 11, 11, 25]"
  using matrix_product_allocation [of 1 2 3] matrix_product_allocation [of 1 2 2]
  by (simp add: INT_MAX_def matrix_main_def upt_rec numeral_eq_Suc)

end
