(* ===== verification/Rpc.thy ===== *)
theory Rpc
  imports Prelude
begin

unbundle bit_operations_syntax

text \<open>
  The RPC of \<open>rpc_intf\<close>: messages framed with a length and a checksum (\<open>intf/rpc_intf.c\<close>), the
  command table (\<open>src/rpc_cmd.c\<close>), and the loops of the server and of the client. Bytes and the
  fields of a message have the width of the code. The datagram sockets are parameters: what a
  \<open>send\<close> returns, and the datagram (or the error) a \<open>recv\<close> delivers. The memory behind the
  \<open>data\<close> pointer of a message is a list of bytes; a pointer that was never set points to no bytes
  (copying no bytes through it is harmless).
\<close>

section \<open>Messages\<close>

type_synonym byte = "8 word"

definition RPC_BUFFER_SIZE :: nat where
  "RPC_BUFFER_SIZE = 512"

definition E_OK :: int where "E_OK = 0"
definition E_SEND :: int where "E_SEND = - 3"
definition E_RECV :: int where "E_RECV = - 4"
definition E_CHECKSUM :: int where "E_CHECKSUM = - 5"

definition RQRS_REQUEST :: "1 word" where "RQRS_REQUEST = 0"
definition RQRS_RESPONSE :: "1 word" where "RQRS_RESPONSE = 1"

record rpc_msg =
  cmd :: "7 word"
  rqrs :: "1 word"
  data_len :: "16 word"
  msg_data :: "byte list"

text \<open>\<open>calculate_checksum\<close>, the sum of the bytes modulo 256.\<close>

function cks_from :: "byte list \<Rightarrow> nat \<Rightarrow> nat \<Rightarrow> byte \<Rightarrow> byte option" where
  "cks_from buf len i cks =
     (if i < len then do { x \<leftarrow> rd buf (int i); cks_from buf len (i + 1) (cks + x) } else Some cks)"
  by pat_completeness auto
termination
  by (relation "measure (\<lambda>(buf, len, i, cks). len - i)") auto

declare cks_from.simps [simp del]

definition calculate_checksum :: "byte list \<Rightarrow> nat \<Rightarrow> byte option" where
  "calculate_checksum buf len = cks_from buf len 0 0"

text \<open>\<open>memcpy\<close> of \<open>n\<close> bytes to position \<open>i\<close> of an array.\<close>

definition memcpy :: "'a list \<Rightarrow> nat \<Rightarrow> 'a list \<Rightarrow> nat \<Rightarrow> 'a list option" where
  "memcpy dst i src n =
     (if n = 0 then Some dst
      else if i + n \<le> length dst \<and> n \<le> length src then Some (take i dst @ take n src @ drop (i + n) dst)
      else None)"

text \<open>The operands of the shifts are promoted to \<open>int\<close> and cut to a byte when stored.\<close>

definition rpc_msg_serialize :: "byte list \<Rightarrow> rpc_msg \<Rightarrow> (byte list \<times> nat) option" where
  "rpc_msg_serialize buf msg = do {
     let n = unat (data_len msg);
     buf \<leftarrow> wr buf 0 (ucast (push_bit 1 (ucast (cmd msg) :: 32 word) OR ucast (rqrs msg)));
     buf \<leftarrow> wr buf 1 (ucast ((ucast (data_len msg) :: 32 word) AND 0xFF));
     buf \<leftarrow> wr buf 2 (ucast (push_bit 8 (ucast (data_len msg) :: 32 word) AND 0xFF));
     buf \<leftarrow> memcpy buf 3 (msg_data msg) n;
     cks \<leftarrow> calculate_checksum buf (3 + n);
     buf \<leftarrow> wr buf (3 + int n) (0 - cks);
     Some (buf, 3 + n + 1) }"

definition rpc_msg_deserialize :: "rpc_msg \<Rightarrow> byte list \<Rightarrow> nat \<Rightarrow> (int \<times> rpc_msg) option" where
  "rpc_msg_deserialize msg buf buf_len = do {
     cks \<leftarrow> calculate_checksum buf buf_len;
     if cks \<noteq> 0 then Some (E_CHECKSUM, msg)
     else do {
       b0 \<leftarrow> rd buf 0;
       b1 \<leftarrow> rd buf 1;
       b2 \<leftarrow> rd buf 2;
       let n = (push_bit 8 (ucast b2 :: 32 word)) OR ucast b1;
       let msg = msg\<lparr>cmd := ucast (drop_bit 1 b0), rqrs := ucast (b0 AND 1), data_len := ucast n\<rparr>;
       d \<leftarrow> memcpy (msg_data msg) 0 (drop 3 buf) (unat (data_len msg));
       Some (E_OK, msg\<lparr>msg_data := d\<rparr>) } }"

section \<open>Addresses\<close>

text \<open>\<open>htons\<close> and \<open>htonl\<close> on a little endian machine; \<open>ntohs\<close> and \<open>ntohl\<close> are the same.\<close>

definition htons :: "16 word \<Rightarrow> 16 word" where
  "htons w = push_bit 8 w OR drop_bit 8 w"

definition htonl :: "32 word \<Rightarrow> 32 word" where
  "htonl w = push_bit 24 w OR (push_bit 8 w AND 0xFF0000) OR (drop_bit 8 w AND 0xFF00) OR drop_bit 24 w"

definition AF_INET :: "16 word" where "AF_INET = 2"

record rpc_addr =
  sin_family :: "16 word"
  sin_port :: "16 word"
  s_addr :: "32 word"
  addr_len :: nat

definition rpc_addr_pack :: "32 word \<Rightarrow> 16 word \<Rightarrow> int \<times> rpc_addr" where
  "rpc_addr_pack host port =
     (E_OK, \<lparr>sin_family = AF_INET, sin_port = htons port, s_addr = htonl host, addr_len = 16\<rparr>)"

definition rpc_addr_unpack :: "rpc_addr \<Rightarrow> int \<times> 32 word \<times> 16 word" where
  "rpc_addr_unpack a = (E_OK, htonl (s_addr a), htons (sin_port a))"

section \<open>The interface\<close>

definition OFLAG_CLIENT :: int where "OFLAG_CLIENT = 0"
definition OFLAG_SERVER :: int where "OFLAG_SERVER = 1"

record rpc_intf =
  fd :: int
  oflag :: int

text \<open>
  Opening returns the interface or a null pointer; the results of \<open>malloc\<close> and \<open>socket\<close> are
  parameters. The counter is that of the allocated interfaces.
\<close>

definition rpc_intf_open :: "bool \<Rightarrow> int \<Rightarrow> int \<Rightarrow> nat \<Rightarrow> rpc_intf option \<times> nat" where
  "rpc_intf_open malloc_ok sock flag live =
     (if \<not> malloc_ok then (None, live)
      else let live = live + 1 in
        if sock < 0 then (None, live - 1)
        else (Some \<lparr>fd = sock, oflag = flag\<rparr>, live))"

definition rpc_intf_close :: "rpc_intf option \<Rightarrow> nat \<Rightarrow> (int \<times> nat) option" where
  "rpc_intf_close p live = do { intf \<leftarrow> p; Some (E_OK, live - 1) }"

text \<open>
  Sending: \<open>buf\<close> is the static buffer of the function, \<open>sent\<close> what the system call returns; the
  results are the return value, the buffer and the datagram handed to the socket.
\<close>

definition rpc_intf_sendto ::
    "rpc_intf option \<Rightarrow> rpc_msg \<Rightarrow> rpc_addr option \<Rightarrow> byte list \<Rightarrow> int \<Rightarrow>
     (int \<times> byte list \<times> byte list) option" where
  "rpc_intf_sendto p msg dst buf sent = do {
     (buf, n) \<leftarrow> rpc_msg_serialize buf msg;
     intf \<leftarrow> p;
     _ \<leftarrow> (if oflag intf AND OFLAG_SERVER \<noteq> 0 \<and> dst = None then None else Some ());
     Some (if sent < 0 then E_SEND else sent, buf, take n buf) }"

text \<open>
  Receiving: \<open>rx\<close> is \<open>None\<close> when the system call fails, and else the datagram with the address of
  its sender; what does not fit the buffer is cut off by the socket.
\<close>

definition rpc_intf_recvfrom ::
    "rpc_intf option \<Rightarrow> rpc_msg \<Rightarrow> rpc_addr option \<Rightarrow> byte list \<Rightarrow> (byte list \<times> rpc_addr) option \<Rightarrow>
     (int \<times> rpc_msg \<times> rpc_addr option \<times> byte list) option" where
  "rpc_intf_recvfrom p msg src buf rx = do {
     intf \<leftarrow> p;
     src' \<leftarrow> (if oflag intf AND OFLAG_SERVER \<noteq> 0 then do { a \<leftarrow> src; Some (Some (case_option a snd rx)) }
             else Some src);
     (case rx of
        None \<Rightarrow> Some (E_RECV, msg, src', buf)
      | Some (bytes, _) \<Rightarrow> do {
          let dg = take RPC_BUFFER_SIZE bytes;
          let buf = dg @ drop (length dg) buf;
          (r, msg) \<leftarrow> rpc_msg_deserialize msg buf (length dg);
          Some (if r \<noteq> E_OK then E_CHECKSUM else int (length dg), msg, src', buf) }) }"

section \<open>Commands\<close>

text \<open>The handlers only print their name: the result of a run names the handler that was called.\<close>

datatype handler =
    Rpc_cmd_login | Rpc_cmd_exit | Rpc_cmd_get_server_num | Rpc_cmd_get_server_info
  | Rpc_cmd_attach_server | Rpc_cmd_detach_server | Rpc_cmd_switch_rights | Rpc_cmd_sol_data

definition rpc_cmd_list :: "(handler option \<times> byte) list" where
  "rpc_cmd_list =
     [(Some Rpc_cmd_login, 0x00), (Some Rpc_cmd_exit, 0x01), (Some Rpc_cmd_get_server_num, 0x02),
      (Some Rpc_cmd_get_server_info, 0x03), (Some Rpc_cmd_attach_server, 0x04),
      (Some Rpc_cmd_detach_server, 0x05), (Some Rpc_cmd_switch_rights, 0x06),
      (Some Rpc_cmd_sol_data, 0x0F), (None, 0)]"

fun find_cmd :: "(handler option \<times> byte) list \<Rightarrow> 7 word \<Rightarrow> handler option option" where
  "find_cmd ((None, _) # _) c = Some None"
| "find_cmd ((Some h, k) # rest) c = (if unat k = unat c then Some (Some h) else find_cmd rest c)"
| "find_cmd [] c = None"

definition rpc_cmd_run :: "rpc_msg \<Rightarrow> (int \<times> rpc_msg \<times> handler option) option" where
  "rpc_cmd_run rq = do {
     h \<leftarrow> find_cmd rpc_cmd_list (cmd rq);
     let rs = rq;
     Some (case h of Some _ \<Rightarrow> (0, rs, h) | None \<Rightarrow> (- 1, rs, h)) }"

section \<open>Server and client\<close>

record server =
  s_intf :: "rpc_intf option"
  s_rq :: rpc_msg
  s_client :: rpc_addr
  s_rbuf :: "byte list"
  s_sbuf :: "byte list"

text \<open>
  One turn of the endless loop of \<open>server.c\<close>: the result is the new state, the peer it prints
  (\<open>htons\<close> applied to the port), the handler called and the datagram sent.
\<close>

definition server_step ::
    "server \<Rightarrow> (byte list \<times> rpc_addr) option \<Rightarrow> int \<Rightarrow>
     (server \<times> (32 word \<times> 16 word) \<times> handler option \<times> byte list) option" where
  "server_step s rx sent = do {
     (_, rq, src, rbuf) \<leftarrow> rpc_intf_recvfrom (s_intf s) (s_rq s) (Some (s_client s)) (s_rbuf s) rx;
     client \<leftarrow> src;
     let (_, host, port) = rpc_addr_unpack client;
     (_, rs, h) \<leftarrow> rpc_cmd_run rq;
     let rs = rs\<lparr>rqrs := RQRS_RESPONSE\<rparr>;
     (_, sbuf, dg) \<leftarrow> rpc_intf_sendto (s_intf s) rs (Some client) (s_sbuf s) sent;
     Some (s\<lparr>s_rq := rq, s_client := client, s_rbuf := rbuf, s_sbuf := sbuf\<rparr>, (host, htons port), h, dg) }"

text \<open>
  The loop of \<open>client.c\<close> from command \<open>i\<close> to 15; \<open>net\<close> is the network with what is behind it: it
  takes a datagram and gives what the following \<open>recv\<close> delivers. The result lists, for every
  command, what \<open>rpc_intf_recvfrom\<close> returned and the message it left.
\<close>

function client_loop ::
    "('w \<Rightarrow> byte list \<Rightarrow> ((byte list \<times> rpc_addr) option \<times> 'w) option) \<Rightarrow> rpc_intf option \<Rightarrow> rpc_msg \<Rightarrow>
     byte list \<Rightarrow> byte list \<Rightarrow> 'w \<Rightarrow> nat \<Rightarrow> ((int \<times> rpc_msg) list \<times> 'w) option" where
  "client_loop net p msg sbuf rbuf w i =
     (if i \<le> 0xF then do {
        let msg = msg\<lparr>cmd := of_nat i, rqrs := RQRS_REQUEST, data_len := 0\<rparr>;
        (_, sbuf, dg) \<leftarrow> rpc_intf_sendto p msg None sbuf (int (unat (data_len msg)) + 4);
        (rx, w) \<leftarrow> net w dg;
        (r, msg, _, rbuf) \<leftarrow> rpc_intf_recvfrom p msg None rbuf rx;
        (rest, w) \<leftarrow> client_loop net p msg sbuf rbuf w (i + 1);
        Some ((r, msg) # rest, w) }
      else Some ([], w))"
  by pat_completeness auto
termination
  by (relation "measure (\<lambda>(net, p, msg, sbuf, rbuf, w, i). 16 - i)") auto

declare client_loop.simps [simp del]

section \<open>Bytes and bits\<close>

lemma cks_from_eq:
  "i \<le> n \<Longrightarrow> n \<le> length buf \<Longrightarrow> cks_from buf n i cks = Some (cks + sum_list (take (n - i) (drop i buf)))"
proof (induction "n - i" arbitrary: i cks)
  case 0
  then show ?case by (subst cks_from.simps) simp
next
  case (Suc d)
  then have i: "i < n" "i < length buf" by simp_all
  have "n - i = Suc (n - (i + 1))" using i by simp
  then have "take (n - i) (drop i buf) = buf ! i # take (n - (i + 1)) (drop (i + 1) buf)"
    using i(2) by (simp add: Cons_nth_drop_Suc [symmetric])
  with Suc.hyps(1) [of "i + 1" "cks + buf ! i"] Suc.hyps(2) Suc.prems i show ?case
    by (subst cks_from.simps) (simp add: rd_nat add.assoc)
qed

lemma calculate_checksum_eq: "n \<le> length buf \<Longrightarrow> calculate_checksum buf n = Some (sum_list (take n buf))"
  by (simp add: calculate_checksum_def cks_from_eq)

text \<open>The byte in front of a frame, and what is read back from it.\<close>

definition header :: "rpc_msg \<Rightarrow> byte" where
  "header msg = ucast (push_bit 1 (ucast (cmd msg) :: 32 word) OR ucast (rqrs msg))"

lemma bit_header: "bit (header msg) n \<longleftrightarrow> (0 < n \<and> bit (cmd msg) (n - 1)) \<or> bit (rqrs msg) n"
  unfolding header_def bit_unsigned_iff bit_or_iff bit_push_bit_iff
  by (auto dest: bit_imp_le_length)

lemma header_cmd: "ucast (drop_bit 1 (header msg)) = cmd msg"
  by (rule bit_word_eqI) (auto simp: bit_simps bit_header dest: bit_imp_le_length)

lemma header_rqrs: "ucast (header msg AND 1) = rqrs msg"
  by (rule bit_word_eqI) (auto simp: bit_header bit_simps)

lemma byte_masks: "(0xFF :: 32 word) = mask 8" "(0xFF00 :: 32 word) = push_bit 8 (mask 8)"
    "(0xFF0000 :: 32 word) = push_bit 16 (mask 8)"
  by (simp_all add: mask_eq_exp_minus_1 push_bit_eq_mult)

lemma low_byte: "ucast ((ucast (w :: 16 word) :: 32 word) AND 0xFF) = (ucast w :: byte)"
  unfolding byte_masks by (rule bit_word_eqI) (auto simp: bit_simps)

text \<open>The third byte, meant for the high half of the length, is always zero.\<close>

lemma high_byte: "ucast (push_bit 8 (ucast (w :: 16 word) :: 32 word) AND 0xFF) = (0 :: byte)"
  unfolding byte_masks by (rule bit_word_eqI) (auto simp: bit_simps)

lemma length_back:
  "unat (ucast (push_bit 8 (ucast (0 :: byte) :: 32 word) OR ucast (ucast (w :: 16 word) :: byte)) :: 16 word)
    = unat w mod 256"
  by (simp add: unat_mod unsigned_ucast_eq take_bit_eq_mod mod_mod_cancel)

lemma word_of_unat: "unat (w :: 16 word) = k \<Longrightarrow> w = of_nat k"
  by auto

lemma htons_htons: "htons (htons w) = w"
  by (rule bit_word_eqI) (auto simp: htons_def bit_simps)

lemma bit_htonl: "bit (htonl w) n \<longleftrightarrow> n < 32 \<and>
    bit w (if n < 8 then n + 24 else if n < 16 then n + 8 else if n < 24 then n - 8 else n - 24)"
  unfolding htonl_def byte_masks by (auto simp: bit_simps add.commute dest: bit_imp_le_length)

lemma htonl_htonl: "htonl (htonl w) = w"
  by (rule bit_word_eqI) (auto simp: bit_htonl)

lemma rpc_addr_roundtrip: "rpc_addr_unpack (snd (rpc_addr_pack host port)) = (E_OK, host, port)"
  by (simp add: rpc_addr_unpack_def rpc_addr_pack_def htons_htons htonl_htonl)

section \<open>Frames\<close>

definition body :: "rpc_msg \<Rightarrow> byte list" where
  "body msg = [header msg, ucast (data_len msg), 0] @ take (unat (data_len msg)) (msg_data msg)"

definition frame :: "rpc_msg \<Rightarrow> byte list" where
  "frame msg = body msg @ [- sum_list (body msg)]"

definition msg_fits :: "rpc_msg \<Rightarrow> bool" where
  "msg_fits msg \<longleftrightarrow> unat (data_len msg) \<le> length (msg_data msg) \<and> unat (data_len msg) + 4 \<le> RPC_BUFFER_SIZE"

lemma length_frame: "msg_fits msg \<Longrightarrow> length (frame msg) = unat (data_len msg) + 4"
  by (simp add: frame_def body_def msg_fits_def)

lemma frame_sum: "sum_list (frame msg) = 0"
  by (simp add: frame_def)

lemma memcpy_at: "length ys = i \<Longrightarrow> length zs = n \<Longrightarrow> n \<le> length src \<Longrightarrow>
    memcpy (ys @ zs @ rest) i src n = Some (ys @ take n src @ rest)"
  by (auto simp: memcpy_def)

lemma serialize_eq:
  assumes "msg_fits msg" and "length buf = RPC_BUFFER_SIZE"
  shows "\<exists>rest. rpc_msg_serialize buf msg = Some (frame msg @ rest, length (frame msg)) \<and>
    length (frame msg @ rest) = RPC_BUFFER_SIZE"
proof -
  let ?n = "unat (data_len msg)"
  have room: "?n + 4 \<le> length buf" using assms by (simp add: msg_fits_def)
  then obtain a b c more where cut: "buf = a # b # c # more" "?n < length more"
    by (auto simp: numeral_eq_Suc Suc_le_length_iff)
  then obtain e rest where "drop ?n more = e # rest" by (cases "drop ?n more") auto
  with cut obtain zs where buf: "buf = a # b # c # zs @ e # rest" "length zs = ?n"
    by (metis append_take_drop_id length_take min.absorb4)
  let ?body = "body msg"
  have len: "length ?body = ?n + 3" using assms(1) by (simp add: body_def msg_fits_def)
  have m: "memcpy (header msg # ucast (data_len msg) # 0 # zs @ e # rest) 3 (msg_data msg) ?n = Some (?body @ e # rest)"
    using memcpy_at [of "[header msg, ucast (data_len msg), 0]" 3 zs ?n "msg_data msg" "e # rest"] buf(2) assms(1)
    by (simp add: body_def msg_fits_def)
  have c: "calculate_checksum (?body @ e # rest) (3 + ?n) = Some (sum_list ?body)"
    using calculate_checksum_eq [of "3 + ?n" "?body @ e # rest"] len by simp
  have w: "wr (?body @ e # rest) (3 + int ?n) v = Some (?body @ v # rest)" for v
    using len by (intro wr_mid) simp
  have "wr buf 0 x = Some (x # b # c # zs @ e # rest)" "wr (x # b # c # zs @ e # rest) 1 y = Some (x # y # c # zs @ e # rest)"
    "wr (x # y # c # zs @ e # rest) 2 z = Some (x # y # z # zs @ e # rest)" for x y z
    using buf(1) by (simp_all add: wr_def)
  with m c w have "rpc_msg_serialize buf msg = Some (?body @ (- sum_list ?body) # rest, 3 + ?n + 1)"
    unfolding rpc_msg_serialize_def low_byte high_byte header_def [symmetric] Let_def by simp
  moreover have "length (frame msg @ rest) = length buf" using len buf by (simp add: frame_def)
  ultimately show ?thesis using len assms(2)
    by (intro exI [of _ rest]) (simp add: frame_def)
qed

text \<open>
  What arrives: the length is cut to its low byte, and so is the data. The frame is rejected
  nowhere, since the checksum covers the bytes that were sent.
\<close>

definition received :: "rpc_msg \<Rightarrow> rpc_msg \<Rightarrow> rpc_msg" where
  "received msg q =
     (let k = unat (data_len msg) mod 256 in
      q\<lparr>cmd := cmd msg, rqrs := rqrs msg, data_len := of_nat k,
        msg_data := take k (msg_data msg) @ drop k (msg_data q)\<rparr>)"

lemma deserialize_frame:
  assumes "msg_fits msg"
  shows "rpc_msg_deserialize q (frame msg @ rest) (length (frame msg)) =
    (if unat (data_len msg) mod 256 \<le> length (msg_data q) then Some (E_OK, received msg q) else None)"
proof -
  let ?n = "unat (data_len msg)" and ?k = "unat (data_len msg) mod 256"
  let ?w = "ucast (push_bit 8 (ucast (0 :: byte) :: 32 word) OR ucast (ucast (data_len msg) :: byte)) :: 16 word"
  have b: "rd (frame msg @ rest) 0 = Some (header msg)" "rd (frame msg @ rest) 1 = Some (ucast (data_len msg))"
    "rd (frame msg @ rest) 2 = Some 0"
    by (simp_all add: rd_def frame_def body_def)
  have c: "calculate_checksum (frame msg @ rest) (length (frame msg)) = Some 0"
    by (simp add: calculate_checksum_eq frame_sum)
  have w: "?w = of_nat ?k" by (rule word_of_unat [OF length_back])
  have "drop 3 (frame msg @ rest) = take ?n (msg_data msg) @ - sum_list (body msg) # rest"
    by (simp add: frame_def body_def)
  moreover have "?k \<le> ?n" by simp
  ultimately have d: "take ?k (drop 3 (frame msg @ rest)) = take ?k (msg_data msg)"
    "?k \<le> length (drop 3 (frame msg @ rest))" using assms
    by (simp_all add: msg_fits_def)
  have k: "unat (of_nat ?k :: 16 word) = ?k"
    using length_back [of "data_len msg"] w by simp
  have m: "memcpy (msg_data q) 0 (drop 3 (frame msg @ rest)) ?k =
      (if ?k \<le> length (msg_data q) then Some (take ?k (msg_data msg) @ drop ?k (msg_data q)) else None)"
    using d by (auto simp: memcpy_def)
  show ?thesis
    by (simp only: rpc_msg_deserialize_def b c Option.bind.simps Let_def w header_cmd header_rqrs)
      (simp add: m k received_def Let_def del: drop_append)
qed

lemma sendto_eq:
  assumes "msg_fits msg" and "length buf = RPC_BUFFER_SIZE" and "oflag i AND OFLAG_SERVER = 0 \<or> dst \<noteq> None"
  shows "\<exists>buf'. rpc_intf_sendto (Some i) msg dst buf sent
      = Some (if sent < 0 then E_SEND else sent, buf', frame msg) \<and> length buf' = RPC_BUFFER_SIZE"
proof -
  from serialize_eq [OF assms(1,2)] obtain rest where
    s: "rpc_msg_serialize buf msg = Some (frame msg @ rest, length (frame msg))"
      "length (frame msg @ rest) = RPC_BUFFER_SIZE" by blast
  with assms(3) show ?thesis
    by (intro exI [of _ "frame msg @ rest"]) (auto simp: rpc_intf_sendto_def)
qed

definition sender :: "rpc_intf \<Rightarrow> rpc_addr \<Rightarrow> rpc_addr option \<Rightarrow> rpc_addr option" where
  "sender i a src = (if oflag i AND OFLAG_SERVER \<noteq> 0 then Some a else src)"

lemma recvfrom_eq:
  assumes "length dg \<le> RPC_BUFFER_SIZE" and "length buf = RPC_BUFFER_SIZE"
    and "oflag i AND OFLAG_SERVER = 0 \<or> src \<noteq> None"
    and "rpc_msg_deserialize q (dg @ drop (length dg) buf) (length dg) = Some (r, q')"
  shows "rpc_intf_recvfrom (Some i) q src buf (Some (dg, a))
    = Some (if r \<noteq> E_OK then E_CHECKSUM else int (length dg), q', sender i a src, dg @ drop (length dg) buf)"
  using assms by (auto simp: rpc_intf_recvfrom_def sender_def Let_def)

text \<open>
  C15. Sending and receiving. A message that fits the buffer is sent as one datagram, and the
  receiver gets its command, its direction and, when it carries less than 256 bytes, its length and
  data; the receiver's other bytes stay as they were. A longer message is accepted too, but cut to
  its length modulo 256: the high byte of the length is never written.
\<close>

theorem rpc_roundtrip:
  assumes "msg_fits msg" and "length buf = RPC_BUFFER_SIZE" and "length rbuf = RPC_BUFFER_SIZE"
    and "oflag i AND OFLAG_SERVER = 0 \<or> dst \<noteq> None" and "oflag j AND OFLAG_SERVER = 0 \<or> src \<noteq> None"
    and "unat (data_len msg) mod 256 \<le> length (msg_data q)"
  shows "\<exists>buf' dg rbuf' q'.
    rpc_intf_sendto (Some i) msg dst buf sent = Some (if sent < 0 then E_SEND else sent, buf', dg) \<and>
    rpc_intf_recvfrom (Some j) q src rbuf (Some (dg, a))
      = Some (int (unat (data_len msg)) + 4, q', sender j a src, rbuf') \<and>
    cmd q' = cmd msg \<and> rqrs q' = rqrs msg \<and> unat (data_len q') = unat (data_len msg) mod 256 \<and>
    msg_data q' = take (unat (data_len q')) (msg_data msg) @ drop (unat (data_len q')) (msg_data q) \<and>
    (unat (data_len msg) < 256 \<longrightarrow> data_len q' = data_len msg)"
proof -
  let ?k = "unat (data_len msg) mod 256"
  have len: "length (frame msg) = unat (data_len msg) + 4" by (rule length_frame [OF assms(1)])
  from sendto_eq [OF assms(1,2,4)] obtain buf' where
    s: "rpc_intf_sendto (Some i) msg dst buf sent = Some (if sent < 0 then E_SEND else sent, buf', frame msg)"
    by blast
  have r: "rpc_intf_recvfrom (Some j) q src rbuf (Some (frame msg, a))
      = Some (int (unat (data_len msg)) + 4, received msg q, sender j a src, frame msg @ drop (length (frame msg)) rbuf)"
    using recvfrom_eq [OF _ assms(3,5), of "frame msg" q E_OK "received msg q" a] assms(1,6)
      deserialize_frame [OF assms(1)] len by (simp add: msg_fits_def E_OK_def)
  have "?k < 2 ^ 16" by (rule less_trans [of _ 256]) simp_all
  then have k: "unat (of_nat ?k :: 16 word) = ?k" by (simp add: unat_of_nat take_bit_nat_eq_self)
  have "of_nat ?k = data_len msg" if "unat (data_len msg) < 256" using that by simp
  with k have "cmd (received msg q) = cmd msg \<and> rqrs (received msg q) = rqrs msg \<and>
      unat (data_len (received msg q)) = ?k \<and>
      msg_data (received msg q) = take (unat (data_len (received msg q))) (msg_data msg)
        @ drop (unat (data_len (received msg q))) (msg_data q) \<and>
      (unat (data_len msg) < 256 \<longrightarrow> data_len (received msg q) = data_len msg)"
    by (simp add: received_def Let_def)
  with s r show ?thesis by blast
qed

text \<open>Changing one byte changes the sum.\<close>

lemma sum_list_upd: "i < length xs \<Longrightarrow> sum_list (xs[i := v]) = sum_list xs + v - (xs ! i :: 'a :: ab_group_add)"
proof (induction xs arbitrary: i)
  case (Cons x xs)
  then show ?case by (cases i) (simp_all add: algebra_simps)
qed simp

text \<open>
  C16. A datagram in which one byte was damaged on its way is reported as \<open>E_CHECKSUM\<close>, and the
  message of the receiver is left alone.
\<close>

theorem rpc_detects_damage:
  assumes "msg_fits msg" and "length rbuf = RPC_BUFFER_SIZE" and "oflag j AND OFLAG_SERVER = 0 \<or> src \<noteq> None"
    and "k < length (frame msg)" and "v \<noteq> frame msg ! k"
  shows "\<exists>rbuf'. rpc_intf_recvfrom (Some j) q src rbuf (Some ((frame msg)[k := v], a))
    = Some (E_CHECKSUM, q, sender j a src, rbuf')"
proof -
  let ?dg = "(frame msg)[k := v]"
  have "sum_list ?dg \<noteq> 0" using assms(4,5) by (simp add: sum_list_upd frame_sum)
  then have "rpc_msg_deserialize q (?dg @ drop (length ?dg) rbuf) (length ?dg) = Some (E_CHECKSUM, q)"
    by (simp add: rpc_msg_deserialize_def calculate_checksum_eq)
  with assms(1-3) length_frame [OF assms(1)] show ?thesis
    by (subst recvfrom_eq) (auto simp: msg_fits_def E_CHECKSUM_def E_OK_def)
qed

text \<open>The message and the damage of the witnesses.\<close>

definition hello :: rpc_msg where
  "hello = \<lparr>cmd = 5, rqrs = 1, data_len = 2, msg_data = [7, 9]\<rparr>"

definition nobody :: rpc_addr where
  "nobody = snd (rpc_addr_pack 0 0)"

lemma hello_fits: "msg_fits hello"
  by (simp add: msg_fits_def hello_def RPC_BUFFER_SIZE_def)

theorem rpc_roundtrip_witness:
  "\<exists>buf' dg rbuf' q'. rpc_intf_sendto (Some \<lparr>fd = 3, oflag = 0\<rparr>) hello None (replicate 512 0) 6 = Some (6, buf', dg) \<and>
    rpc_intf_recvfrom (Some \<lparr>fd = 4, oflag = 0\<rparr>) (hello\<lparr>cmd := 0, msg_data := [0, 0, 8]\<rparr>) None (replicate 512 0) (Some (dg, nobody))
      = Some (6, q', None, rbuf') \<and> cmd q' = 5 \<and> data_len q' = 2 \<and> msg_data q' = [7, 9, 8]"
proof -
  have prem: "unat (data_len hello) mod 256 \<le> length (msg_data (hello\<lparr>cmd := 0, msg_data := [0, 0, 8]\<rparr>))"
    "length (replicate 512 (0 :: byte)) = RPC_BUFFER_SIZE"
    by (simp_all add: hello_def RPC_BUFFER_SIZE_def)
  have client: "oflag \<lparr>fd = n, oflag = 0\<rparr> AND OFLAG_SERVER = 0 \<or> (None :: rpc_addr option) \<noteq> None" for n
    by simp
  from rpc_roundtrip [OF hello_fits prem(2,2) client client prem(1), of 3 6 4 nobody]
  show ?thesis by (elim exE) (simp add: hello_def sender_def)
qed

theorem rpc_detects_damage_witness:
  "\<exists>rbuf'. rpc_intf_recvfrom (Some \<lparr>fd = 4, oflag = 0\<rparr>) hello None (replicate 512 0)
      (Some ((frame hello)[1 := 77], nobody)) = Some (E_CHECKSUM, hello, None, rbuf')"
  using rpc_detects_damage [OF hello_fits, of "replicate 512 0" "\<lparr>fd = 4, oflag = 0\<rparr>" None 1 77 hello nobody]
  by (simp add: RPC_BUFFER_SIZE_def sender_def frame_def body_def hello_def)

section \<open>The server\<close>

definition known_cmd :: "7 word \<Rightarrow> bool" where
  "known_cmd c \<longleftrightarrow> unat c \<le> 6 \<or> unat c = 15"

lemma rpc_cmd_run_eq:
  "\<exists>h. rpc_cmd_run rq = Some (if known_cmd (cmd rq) then 0 else - 1, rq, h) \<and> (h \<noteq> None \<longleftrightarrow> known_cmd (cmd rq))"
  by (simp add: rpc_cmd_run_def rpc_cmd_list_def known_cmd_def)

lemma rpc_cmd_run_table:
  "\<forall>rq. \<forall>(k, h)\<in>set (zip [0, 1, 2, 3, 4, 5, 6, 15] [Rpc_cmd_login, Rpc_cmd_exit, Rpc_cmd_get_server_num,
      Rpc_cmd_get_server_info, Rpc_cmd_attach_server, Rpc_cmd_detach_server, Rpc_cmd_switch_rights, Rpc_cmd_sol_data]).
    cmd rq = k \<longrightarrow> rpc_cmd_run rq = Some (0, rq, Some h)"
  by (simp add: rpc_cmd_run_def rpc_cmd_list_def)

definition server_ok :: "server \<Rightarrow> bool" where
  "server_ok s \<longleftrightarrow> (\<exists>i. s_intf s = Some i \<and> oflag i = OFLAG_SERVER) \<and>
     length (s_rbuf s) = RPC_BUFFER_SIZE \<and> length (s_sbuf s) = RPC_BUFFER_SIZE"

lemma frame_cong:
  "data_len m = 0 \<Longrightarrow> data_len m' = 0 \<Longrightarrow> cmd m = cmd m' \<Longrightarrow> rqrs m = rqrs m' \<Longrightarrow> frame m = frame m'"
  by (simp add: frame_def body_def header_def)

lemma empty_fits: "data_len msg = 0 \<Longrightarrow> msg_fits msg"
  by (simp add: msg_fits_def RPC_BUFFER_SIZE_def)

text \<open>The handler that belongs to a command.\<close>

definition handler_of :: "7 word \<Rightarrow> handler option" where
  "handler_of c = the (find_cmd rpc_cmd_list c)"

lemma rpc_cmd_run_handler:
  "rpc_cmd_run rq = Some (if known_cmd (cmd rq) then 0 else - 1, rq, handler_of (cmd rq))"
  "handler_of c \<noteq> None \<longleftrightarrow> known_cmd c"
  by (simp_all add: rpc_cmd_run_def rpc_cmd_list_def known_cmd_def handler_of_def)

text \<open>
  What the server does with a datagram only depends on the message it finds in its request after
  receiving: it answers this message, whatever the return value was.
\<close>

lemma server_step_eq:
  assumes "server_ok s" and "rpc_intf_recvfrom (s_intf s) (s_rq s) (Some (s_client s)) (s_rbuf s) rx
      = Some (r, rq, Some client, rbuf)"
    and "length rbuf = RPC_BUFFER_SIZE" and "data_len rq = 0"
  shows "\<exists>s'. server_step s rx sent = Some (s', (htonl (s_addr client), htons (htons (sin_port client))),
      handler_of (cmd rq), frame (rq\<lparr>rqrs := RQRS_RESPONSE\<rparr>)) \<and>
    server_ok s' \<and> s_rq s' = rq \<and> s_rbuf s' = rbuf"
proof -
  from assms(1) obtain i where i: "s_intf s = Some i" "length (s_sbuf s) = RPC_BUFFER_SIZE"
    by (auto simp: server_ok_def)
  have "msg_fits (rq\<lparr>rqrs := RQRS_RESPONSE\<rparr>)" by (rule empty_fits) (simp add: assms(4))
  from sendto_eq [OF this i(2), of i "Some client" sent] obtain sbuf where
    "rpc_intf_sendto (Some i) (rq\<lparr>rqrs := RQRS_RESPONSE\<rparr>) (Some client) (s_sbuf s) sent
      = Some (if sent < 0 then E_SEND else sent, sbuf, frame (rq\<lparr>rqrs := RQRS_RESPONSE\<rparr>))"
    "length sbuf = RPC_BUFFER_SIZE" by auto
  with assms i show ?thesis
    by (simp add: server_step_def rpc_addr_unpack_def rpc_cmd_run_handler server_ok_def)
qed

lemma server_receives:
  assumes "server_ok s" and "length dg \<le> RPC_BUFFER_SIZE"
    and "rpc_msg_deserialize (s_rq s) (dg @ drop (length dg) (s_rbuf s)) (length dg) = Some (r, q')"
  shows "rpc_intf_recvfrom (s_intf s) (s_rq s) (Some (s_client s)) (s_rbuf s) (Some (dg, a))
    = Some (if r \<noteq> E_OK then E_CHECKSUM else int (length dg), q', Some a, dg @ drop (length dg) (s_rbuf s))"
proof -
  from assms(1) obtain i where i: "s_intf s = Some i" "oflag i = OFLAG_SERVER" "length (s_rbuf s) = RPC_BUFFER_SIZE"
    by (auto simp: server_ok_def)
  have "OFLAG_SERVER AND OFLAG_SERVER \<noteq> 0" by (simp add: OFLAG_SERVER_def)
  with recvfrom_eq [OF assms(2) i(3) _ assms(3), of i "Some (s_client s)" a] i show ?thesis
    by (simp add: sender_def)
qed

lemma server_reply:
  assumes "server_ok s" and "data_len rq = 0"
  shows "\<exists>s'. server_step s (Some (frame rq, a)) sent = Some (s', (htonl (s_addr a), htons (htons (sin_port a))),
      handler_of (cmd rq), frame (rq\<lparr>rqrs := RQRS_RESPONSE\<rparr>)) \<and>
    server_ok s' \<and> data_len (s_rq s') = 0 \<and> cmd (s_rq s') = cmd rq \<and> (\<exists>rest. s_rbuf s' = frame rq @ rest)"
proof -
  let ?q = "received rq (s_rq s)" and ?buf = "frame rq @ drop (length (frame rq)) (s_rbuf s)"
  have len: "length (frame rq) = 4" by (simp add: frame_def body_def assms(2))
  have q: "data_len ?q = 0" "cmd ?q = cmd rq" using assms(2) by (simp_all add: received_def)
  have "rpc_msg_deserialize (s_rq s) ?buf (length (frame rq)) = Some (E_OK, ?q)"
    by (subst deserialize_frame) (simp_all add: empty_fits assms(2))
  from server_receives [OF assms(1) _ this] len
  have r: "rpc_intf_recvfrom (s_intf s) (s_rq s) (Some (s_client s)) (s_rbuf s) (Some (frame rq, a))
      = Some (4, ?q, Some a, ?buf)" by (simp add: RPC_BUFFER_SIZE_def)
  have "length ?buf = RPC_BUFFER_SIZE" using assms(1) len by (simp add: server_ok_def RPC_BUFFER_SIZE_def)
  moreover have "frame (?q\<lparr>rqrs := RQRS_RESPONSE\<rparr>) = frame (rq\<lparr>rqrs := RQRS_RESPONSE\<rparr>)"
    by (rule frame_cong) (simp_all add: q assms(2))
  ultimately show ?thesis using server_step_eq [OF assms(1) r _ q(1), of sent] q by auto
qed

text \<open>
  The server runs old commands again. After a request without data, an empty datagram and a
  damaged one from anybody make it call the handler of that request once more and answer it: the
  return value of the receive is ignored, and the empty datagram even passes the checksum.
\<close>

theorem rpc_server_replays:
  assumes "server_ok s" and "data_len rq = 0" and "k < 4" and "v \<noteq> frame rq ! k"
  shows "\<exists>s' s1 s2 p p1 p2. let out = frame (rq\<lparr>rqrs := RQRS_RESPONSE\<rparr>); h = handler_of (cmd rq) in
    server_step s (Some (frame rq, a)) sent = Some (s', p, h, out) \<and>
    server_step s' (Some ([], b)) sent = Some (s1, p1, h, out) \<and>
    server_step s' (Some ((frame rq)[k := v], b)) sent = Some (s2, p2, h, out)"
proof -
  let ?out = "frame (rq\<lparr>rqrs := RQRS_RESPONSE\<rparr>)"
  have len: "length (frame rq) = 4" by (simp add: frame_def body_def assms(2))
  from server_reply [OF assms(1,2)] obtain s' p rest where
    s': "server_step s (Some (frame rq, a)) sent = Some (s', p, handler_of (cmd rq), ?out)"
      "server_ok s'" "data_len (s_rq s') = 0" "cmd (s_rq s') = cmd rq" "s_rbuf s' = frame rq @ rest" by metis
  have out: "frame (q\<lparr>rqrs := RQRS_RESPONSE\<rparr>) = ?out" if "data_len q = 0" "cmd q = cmd rq" for q
    by (rule frame_cong) (simp_all add: that assms(2))
  have room: "length (s_rbuf s') = RPC_BUFFER_SIZE" using s'(2) by (simp add: server_ok_def)
  let ?q = "received rq (s_rq s')"
  have q: "data_len ?q = 0" "cmd ?q = cmd rq" using assms(2) by (simp_all add: received_def)
  have "rpc_msg_deserialize (s_rq s') (frame rq @ rest) 4 = Some (E_OK, ?q)"
    using deserialize_frame [of rq "s_rq s'" rest] len by (simp add: empty_fits assms(2))
  moreover have "rpc_msg_deserialize (s_rq s') (frame rq @ rest) 0 = rpc_msg_deserialize (s_rq s') (frame rq @ rest) 4"
    using len frame_sum [of rq] by (simp add: rpc_msg_deserialize_def calculate_checksum_eq)
  ultimately have "rpc_intf_recvfrom (s_intf s') (s_rq s') (Some (s_client s')) (s_rbuf s') (Some ([], b))
      = Some (0, ?q, Some b, s_rbuf s')"
    using server_receives [OF s'(2), of "[]" E_OK ?q b] s'(5) by simp
  from server_step_eq [OF s'(2) this room q(1)] out [OF q] q(2) obtain s1 p1 where
    one: "server_step s' (Some ([], b)) sent = Some (s1, p1, handler_of (cmd rq), ?out)" by metis
  let ?dg = "(frame rq)[k := v]"
  have "sum_list ?dg \<noteq> 0" using assms(3,4) len by (simp add: sum_list_upd frame_sum)
  then have "rpc_msg_deserialize (s_rq s') (?dg @ drop (length ?dg) (s_rbuf s')) (length ?dg) = Some (E_CHECKSUM, s_rq s')"
    by (simp add: rpc_msg_deserialize_def calculate_checksum_eq)
  from server_receives [OF s'(2) _ this, of b] len
  have r2: "rpc_intf_recvfrom (s_intf s') (s_rq s') (Some (s_client s')) (s_rbuf s') (Some (?dg, b))
      = Some (E_CHECKSUM, s_rq s', Some b, ?dg @ drop (length ?dg) (s_rbuf s'))"
    by (simp add: RPC_BUFFER_SIZE_def E_CHECKSUM_def E_OK_def)
  have "length (?dg @ drop (length ?dg) (s_rbuf s')) = RPC_BUFFER_SIZE"
    using room len by (simp add: RPC_BUFFER_SIZE_def)
  from server_step_eq [OF s'(2) r2 this s'(3)] out [OF s'(3,4)] s'(4) obtain s2 p2 where
    "server_step s' (Some (?dg, b)) sent = Some (s2, p2, handler_of (cmd rq), ?out)" by metis
  with s'(1) one show ?thesis unfolding Let_def by blast
qed

definition the_server :: server where
  "the_server = \<lparr>s_intf = Some \<lparr>fd = 3, oflag = OFLAG_SERVER\<rparr>, s_rq = hello\<lparr>data_len := 0, msg_data := []\<rparr>,
     s_client = nobody, s_rbuf = replicate 512 0, s_sbuf = replicate 512 0\<rparr>"

lemma the_server_ok: "server_ok the_server"
  by (simp add: the_server_def server_ok_def RPC_BUFFER_SIZE_def)

theorem rpc_server_replays_witness:
  "\<exists>s' s1 p p1. let out = frame (s_rq the_server\<lparr>rqrs := RQRS_RESPONSE\<rparr>) in
    server_step the_server (Some (frame (s_rq the_server), nobody)) 4 = Some (s', p, Some Rpc_cmd_detach_server, out) \<and>
    server_step s' (Some ([], nobody)) 4 = Some (s1, p1, Some Rpc_cmd_detach_server, out)"
proof -
  have z: "data_len (s_rq the_server) = 0" by (simp add: the_server_def)
  have "(1::byte) \<noteq> frame (s_rq the_server) ! 1" by (simp add: frame_def body_def z)
  from rpc_server_replays [OF the_server_ok z, of 1 1, OF _ this, of nobody 4 nobody]
  have "\<exists>s' s1 s2 p p1 p2. let out = frame (s_rq the_server\<lparr>rqrs := RQRS_RESPONSE\<rparr>); h = handler_of 5 in
    server_step the_server (Some (frame (s_rq the_server), nobody)) 4 = Some (s', p, h, out) \<and>
    server_step s' (Some ([], nobody)) 4 = Some (s1, p1, h, out) \<and>
    server_step s' (Some ((frame (s_rq the_server))[1 := 1], nobody)) 4 = Some (s2, p2, h, out)"
    by (simp add: the_server_def hello_def)
  moreover have "handler_of 5 = Some Rpc_cmd_detach_server" by (simp add: handler_of_def rpc_cmd_list_def)
  ultimately show ?thesis unfolding Let_def by metis
qed

text \<open>
  The \<open>data\<close> pointer of the server's request is never set: as long as it points nowhere, the first
  request that carries data makes the server write through it.
\<close>

lemma rpc_server_data_undefined:
  assumes "server_ok s" and "msg_data (s_rq s) = []" and "msg_fits rq" and "unat (data_len rq) mod 256 \<noteq> 0"
  shows "server_step s (Some (frame rq, a)) sent = None"
proof -
  let ?buf = "frame rq @ drop (length (frame rq)) (s_rbuf s)"
  from assms(1) obtain i where i: "s_intf s = Some i" by (auto simp: server_ok_def)
  have "length (frame rq) \<le> RPC_BUFFER_SIZE"
    using length_frame [OF assms(3)] assms(3) by (simp add: msg_fits_def)
  moreover have "rpc_msg_deserialize (s_rq s) ?buf (length (frame rq)) = None"
    using assms(2,4) by (subst deserialize_frame [OF assms(3)]) simp
  ultimately have "rpc_intf_recvfrom (Some i) (s_rq s) (Some (s_client s)) (s_rbuf s) (Some (frame rq, a)) = None"
    by (simp add: rpc_intf_recvfrom_def Let_def)
  then show ?thesis by (simp add: server_step_def i)
qed

section \<open>A session\<close>

text \<open>
  The network that hands every datagram of the client, from address \<open>ca\<close>, to the server and its
  reply, from address \<open>sa\<close>, back.
\<close>

definition loopback :: "rpc_addr \<Rightarrow> rpc_addr \<Rightarrow> int \<Rightarrow> server \<Rightarrow> byte list \<Rightarrow>
    ((byte list \<times> rpc_addr) option \<times> server) option" where
  "loopback ca sa sent s dg = do {
     (s, _, _, out) \<leftarrow> server_step s (Some (dg, ca)) sent;
     Some (Some (out, sa), s) }"

definition reply_of :: "int \<times> rpc_msg \<Rightarrow> int \<times> nat \<times> 1 word \<times> nat" where
  "reply_of r = (fst r, unat (cmd (snd r)), rqrs (snd r), unat (data_len (snd r)))"

lemma client_loop_eq:
  "server_ok s \<Longrightarrow> length sbuf = RPC_BUFFER_SIZE \<Longrightarrow> length rbuf = RPC_BUFFER_SIZE \<Longrightarrow> i \<le> 16 \<Longrightarrow>
    oflag c AND OFLAG_SERVER = 0 \<Longrightarrow>
    \<exists>rs s'. client_loop (loopback ca sa sent) (Some c) msg sbuf rbuf s i = Some (rs, s') \<and> server_ok s' \<and>
      map reply_of rs = map (\<lambda>i. (4, i, RQRS_RESPONSE, 0)) [i..<16]"
proof (induction "16 - i" arbitrary: i msg sbuf rbuf s)
  case 0
  then show ?case by (subst client_loop.simps) simp
next
  case (Suc d)
  then have i: "i \<le> 15" by simp
  let ?msg = "msg\<lparr>cmd := of_nat i, rqrs := RQRS_REQUEST, data_len := 0\<rparr>"
  let ?out = "?msg\<lparr>rqrs := RQRS_RESPONSE\<rparr>"
  have fits: "msg_fits ?msg" "msg_fits ?out" by (rule empty_fits, simp)+
  from sendto_eq [OF fits(1) Suc.prems(2), of c None 4] Suc.prems(5) obtain sbuf' where
    snd': "rpc_intf_sendto (Some c) ?msg None sbuf 4 = Some (4, sbuf', frame ?msg)" "length sbuf' = RPC_BUFFER_SIZE"
    by auto
  from server_reply [OF Suc.prems(1), of ?msg ca sent] obtain s' where
    srv: "loopback ca sa sent s (frame ?msg) = Some (Some (frame ?out, sa), s')" "server_ok s'"
    by (auto simp: loopback_def)
  let ?q = "received ?out ?msg" and ?rbuf = "frame ?out @ drop (length (frame ?out)) rbuf"
  have len: "length (frame ?out) = 4" by (simp add: frame_def body_def)
  have "rpc_msg_deserialize ?msg ?rbuf (length (frame ?out)) = Some (E_OK, ?q)"
    by (subst deserialize_frame [OF fits(2)]) simp
  from recvfrom_eq [OF _ Suc.prems(3) _ this, of c None sa] len Suc.prems(5) have
    rcv: "rpc_intf_recvfrom (Some c) ?msg None rbuf (Some (frame ?out, sa)) = Some (4, ?q, None, ?rbuf)"
    by (simp add: RPC_BUFFER_SIZE_def sender_def)
  have rlen: "length ?rbuf = RPC_BUFFER_SIZE" using Suc.prems(3) len by (simp add: RPC_BUFFER_SIZE_def)
  have d: "d = 16 - (i + 1)" "i + 1 \<le> 16" using Suc.hyps(2) by simp_all
  from Suc.hyps(1) [OF d(1) srv(2) snd'(2) rlen d(2) Suc.prems(5), of ?q] obtain rs s'' where
    rest: "client_loop (loopback ca sa sent) (Some c) ?q sbuf' ?rbuf s' (i + 1) = Some (rs, s'')" "server_ok s''"
      "map reply_of rs = map (\<lambda>i. (4, i, RQRS_RESPONSE, 0)) [i + 1..<16]" by blast
  have "reply_of (4, ?q) = (4, i, RQRS_RESPONSE, 0)"
    using i by (simp add: reply_of_def received_def unat_of_nat take_bit_nat_eq_self)
  moreover have "[i..<16] = i # [i + 1..<16]" using i by (simp add: upt_conv_Cons)
  ultimately show ?case using i snd'(1) srv(1) rcv rest
    by (subst client_loop.simps) (simp add: Let_def)
qed

text \<open>
  C14. The client of the repository against its server: over a network that loses nothing, each of
  the sixteen requests returns with a response of four bytes, with the command it asked for, and the
  server is left able to go on, whatever the buffers held before. Each of the eight commands the table knows is
  answered by its own handler, the others by an echo without one.
\<close>

theorem rpc_session:
  assumes "server_ok s" and "length sbuf = RPC_BUFFER_SIZE" and "length rbuf = RPC_BUFFER_SIZE"
    and "oflag c = OFLAG_CLIENT"
  shows "(\<exists>rs s'. client_loop (loopback ca sa sent) (Some c) msg sbuf rbuf s 0 = Some (rs, s') \<and> server_ok s' \<and>
      map reply_of rs = map (\<lambda>i. (4, i, RQRS_RESPONSE, 0)) [0..<16]) \<and>
    (\<forall>rq. \<exists>h. rpc_cmd_run rq = Some (if known_cmd (cmd rq) then 0 else - 1, rq, h) \<and>
      (h \<noteq> None \<longleftrightarrow> known_cmd (cmd rq))) \<and>
    (\<forall>rq. \<forall>(k, h)\<in>set (zip [0, 1, 2, 3, 4, 5, 6, 15] [Rpc_cmd_login, Rpc_cmd_exit, Rpc_cmd_get_server_num,
        Rpc_cmd_get_server_info, Rpc_cmd_attach_server, Rpc_cmd_detach_server, Rpc_cmd_switch_rights, Rpc_cmd_sol_data]).
      cmd rq = k \<longrightarrow> rpc_cmd_run rq = Some (0, rq, Some h))"
proof -
  have "oflag c AND OFLAG_SERVER = 0" using assms(4) by (simp add: OFLAG_CLIENT_def)
  from client_loop_eq [OF assms(1-3) le0 this] rpc_cmd_run_eq rpc_cmd_run_table show ?thesis by blast
qed

theorem rpc_session_witness:
  "\<exists>rs s'. client_loop (loopback nobody nobody 4) (Some \<lparr>fd = 5, oflag = OFLAG_CLIENT\<rparr>) hello (s_rbuf the_server)
      (s_sbuf the_server) the_server 0 = Some (rs, s') \<and> length rs = 16"
proof -
  have o: "oflag \<lparr>fd = 5, oflag = OFLAG_CLIENT\<rparr> = OFLAG_CLIENT" by simp
  have "length (s_rbuf the_server) = RPC_BUFFER_SIZE" "length (s_sbuf the_server) = RPC_BUFFER_SIZE"
    using the_server_ok by (simp_all only: server_ok_def)
  from rpc_session [OF the_server_ok this o] obtain rs s' where
    rs: "client_loop (loopback nobody nobody 4) (Some \<lparr>fd = 5, oflag = OFLAG_CLIENT\<rparr>) hello (s_rbuf the_server)
        (s_sbuf the_server) the_server 0 = Some (rs, s')"
      "map reply_of rs = map (\<lambda>i. (4, i, RQRS_RESPONSE, 0)) [0..<16]" by blast
  have "length rs = length (map reply_of rs)" by (rule length_map [symmetric])
  also have "\<dots> = 16" unfolding rs(2) by simp
  finally show ?thesis using rs(1) by blast
qed

end
