(* ===== verification/Completion.thy ===== *)
theory Completion
  imports Main
begin

text \<open>
  The completion demonstration \<open>kernel_module/completion/complete-uaf.c\<close>: a reader of the proc file
  starts a kernel thread, hands it a pointer to a completion on its own stack, and waits, unless it
  is killed. The two threads and outside signals are interleaved step by step; every access to the
  other's memory asks whether that memory is still there. The module exists to show that the access
  to the stack can come too late, and that the parameter \<open>use_fix\<close> repairs it; both are proved, and
  that a second access, to the work data, can come too late with and without the fix.
\<close>

section \<open>State\<close>

text \<open>Where the two threads are: each constructor names the statement to run next.\<close>

datatype show_pc =
    S_alloc      \<comment> \<open>\<open>kzalloc\<close>, then fill in the work data\<close>
  | S_create     \<comment> \<open>\<open>kthread_run\<close>\<close>
  | S_wait       \<comment> \<open>\<open>wait_for_completion_killable\<close>\<close>
  | S_xchg       \<comment> \<open>\<open>xchg(&workdata->complete, NULL)\<close> after a kill\<close>
  | S_fix_wait   \<comment> \<open>\<open>wait_for_completion\<close>, with \<open>use_fix\<close>\<close>
  | S_print      \<comment> \<open>\<open>seq_printf\<close>\<close>
  | S_returned
  | S_crashed

datatype thread_pc =
    T_absent
  | T_delay      \<comment> \<open>\<open>mdelay_with_yield\<close>\<close>
  | T_kill       \<comment> \<open>\<open>kill_pid\<close>\<close>
  | T_xchg       \<comment> \<open>\<open>xchg(&workdata->complete, NULL)\<close>\<close>
  | T_sleep      \<comment> \<open>\<open>msleep(100)\<close>\<close>
  | T_complete   \<comment> \<open>\<open>if (comp) complete(comp)\<close>\<close>
  | T_free       \<comment> \<open>\<open>kfree(workdata)\<close>\<close>
  | T_finished
  | T_crashed

text \<open>
  \<open>complete'\<close> says whether the field of the work data points to the completion, \<open>work_live\<close>
  whether the work data is allocated, \<open>stack_live\<close> whether the frame with the completion is there,
  \<open>done\<close> is the counter of the completion, \<open>comp\<close> the local variable of the thread, \<open>work_id\<close> the
  reader's \<open>id\<close>, of which the work data holds a copy.
\<close>

record uaf =
  spc :: show_pc
  tpc :: thread_pc
  work_live :: bool
  complete' :: bool
  work_id :: int
  comp :: bool
  stack_live :: bool
  done' :: nat
  killed :: bool
  test_instance_count :: int
  pid_refs :: nat
  printed :: "int list"
  retval :: int
  bad_stack :: bool
  bad_work :: bool

definition ENOMEM :: int where
  "ENOMEM = 12"

section \<open>The threads\<close>

definition return :: "int \<Rightarrow> uaf \<Rightarrow> uaf" where
  "return r s = s\<lparr>spc := S_returned, retval := r, stack_live := False\<rparr>"

text \<open>
  One step of \<open>complete_uaf_test_proc_show\<close>; \<open>fail\<close> is the error of the call made at this step, if
  it fails. A blocked step has no result. A wait that finds the completion done succeeds even when
  the process has been killed.
\<close>

definition show_step :: "bool \<Rightarrow> int option \<Rightarrow> uaf \<Rightarrow> uaf option" where
  "show_step use_fix fail s = (case spc s of
     S_alloc \<Rightarrow>
       (if fail \<noteq> None then Some (return (- ENOMEM) s)
        else let id = test_instance_count s + 1 in
          Some (s\<lparr>work_live := True, complete' := True, work_id := id, test_instance_count := id,
                  pid_refs := pid_refs s + 1, spc := S_create\<rparr>))
   | S_create \<Rightarrow>
       (case fail of
          Some e \<Rightarrow> Some (return (- e) (s\<lparr>work_live := False\<rparr>))
        | None \<Rightarrow> Some (s\<lparr>tpc := T_delay, spc := S_wait\<rparr>))
   | S_wait \<Rightarrow>
       (if done' s > 0 then Some (s\<lparr>done' := done' s - 1, spc := S_print\<rparr>)
        else if killed s then Some (s\<lparr>spc := S_xchg\<rparr>)
        else None)
   | S_xchg \<Rightarrow>
       (if \<not> work_live s then Some (s\<lparr>bad_work := True, spc := S_crashed\<rparr>)
        else if complete' s then Some (return 0 (s\<lparr>complete' := False\<rparr>))
        else Some (s\<lparr>spc := if use_fix then S_fix_wait else S_print\<rparr>))
   | S_fix_wait \<Rightarrow>
       (if done' s > 0 then Some (s\<lparr>done' := done' s - 1, spc := S_print\<rparr>) else None)
   | S_print \<Rightarrow> Some (return 0 (s\<lparr>printed := printed s @ [work_id s]\<rparr>))
   | S_returned \<Rightarrow> None
   | S_crashed \<Rightarrow> None)"

text \<open>One step of \<open>completion_thread\<close> with \<open>test_work_complete\<close>.\<close>

definition thread_step :: "uaf \<Rightarrow> uaf option" where
  "thread_step s = (case tpc s of
     T_absent \<Rightarrow> None
   | T_delay \<Rightarrow> Some (s\<lparr>tpc := T_kill\<rparr>)
   | T_kill \<Rightarrow> Some (s\<lparr>killed := True, tpc := T_xchg\<rparr>)
   | T_xchg \<Rightarrow>
       (if \<not> work_live s then Some (s\<lparr>bad_work := True, tpc := T_crashed\<rparr>)
        else Some (s\<lparr>comp := complete' s, complete' := False, tpc := T_sleep\<rparr>))
   | T_sleep \<Rightarrow> Some (s\<lparr>tpc := T_complete\<rparr>)
   | T_complete \<Rightarrow>
       (if \<not> comp s then Some (s\<lparr>tpc := T_free\<rparr>)
        else if \<not> stack_live s then Some (s\<lparr>bad_stack := True, tpc := T_crashed\<rparr>)
        else Some (s\<lparr>done' := done' s + 1, tpc := T_free\<rparr>))
   | T_free \<Rightarrow>
       (if \<not> work_live s then Some (s\<lparr>bad_work := True, tpc := T_crashed\<rparr>)
        else Some (s\<lparr>work_live := False, tpc := T_finished\<rparr>))
   | T_finished \<Rightarrow> None
   | T_crashed \<Rightarrow> None)"

text \<open>Who runs: the reader, the thread, or somebody who sends the reader a fatal signal.\<close>

datatype actor = Show "int option" | Thread | Kill

primrec step :: "bool \<Rightarrow> actor \<Rightarrow> uaf \<Rightarrow> uaf option" where
  "step use_fix (Show fail) s = show_step use_fix fail s"
| "step use_fix Thread s = thread_step s"
| "step use_fix Kill s = Some (s\<lparr>killed := True\<rparr>)"

definition init :: "int \<Rightarrow> uaf" where
  "init n = \<lparr>spc = S_alloc, tpc = T_absent, work_live = False, complete' = False, work_id = 0, comp = False,
     stack_live = True, done' = 0, killed = False, test_instance_count = n, pid_refs = 0, printed = [],
     retval = 0, bad_stack = False, bad_work = False\<rparr>"

inductive reach :: "bool \<Rightarrow> uaf \<Rightarrow> bool" for use_fix where
  reach_init: "reach use_fix (init n)"
| reach_step: "reach use_fix s \<Longrightarrow> step use_fix a s = Some s' \<Longrightarrow> reach use_fix s'"

inductive_cases reachE: "reach use_fix s"

text \<open>A schedule, run from a state.\<close>

primrec run :: "bool \<Rightarrow> actor list \<Rightarrow> uaf \<Rightarrow> uaf option" where
  "run use_fix [] s = Some s"
| "run use_fix (a # as) s = (case step use_fix a s of None \<Rightarrow> None | Some s' \<Rightarrow> run use_fix as s')"

lemma run_reach: "run use_fix as s = Some s' \<Longrightarrow> reach use_fix s \<Longrightarrow> reach use_fix s'"
  by (induction as arbitrary: s) (auto split: option.splits intro: reach_step)

text \<open>\<open>complete_uaf_test_init\<close>: creates the proc file and ignores whether that worked.\<close>

definition complete_uaf_test_init :: "bool \<Rightarrow> string list \<Rightarrow> int \<times> string list" where
  "complete_uaf_test_init ok procs = (0, if ok then ''complete_uaf_test'' # procs else procs)"

section \<open>What holds of every reachable state\<close>

text \<open>
  Where the reader can be, and what the work data and the completion hold, for every position of
  the thread. With the fix the reader never leaves while the thread holds the pointer.
\<close>

definition waiting :: "bool \<Rightarrow> uaf \<Rightarrow> bool" where
  "waiting use_fix s \<longleftrightarrow> spc s \<in> {S_wait, S_xchg} \<or> (use_fix \<and> spc s = S_fix_wait)"

definition leaving :: "uaf \<Rightarrow> bool" where
  "leaving s \<longleftrightarrow> spc s \<in> {S_print, S_returned}"

definition inv :: "uaf \<Rightarrow> bool" where
  "inv s \<longleftrightarrow> (stack_live s \<longleftrightarrow> spc s \<noteq> S_returned) \<and> \<not> bad_stack s \<and> (bad_work s \<longleftrightarrow> spc s = S_crashed) \<and>
     (case tpc s of
        T_absent \<Rightarrow> done' s = 0 \<and> (spc s = S_alloc \<and> \<not> work_live s \<or> spc s = S_create \<and> work_live s \<and> complete' s \<or>
          spc s = S_returned \<and> \<not> work_live s)
      | T_delay \<Rightarrow> work_live s \<and> done' s = 0 \<and> (if complete' s then spc s \<in> {S_wait, S_xchg} else spc s = S_returned)
      | T_kill \<Rightarrow> work_live s \<and> done' s = 0 \<and> (if complete' s then spc s \<in> {S_wait, S_xchg} else spc s = S_returned)
      | T_xchg \<Rightarrow> work_live s \<and> done' s = 0 \<and> (if complete' s then spc s \<in> {S_wait, S_xchg} else spc s = S_returned)
      | T_sleep \<Rightarrow> work_live s \<and> \<not> complete' s \<and> done' s = 0 \<and> (if comp s then waiting True s else spc s = S_returned)
      | T_complete \<Rightarrow> work_live s \<and> \<not> complete' s \<and> done' s = 0 \<and> (if comp s then waiting True s else spc s = S_returned)
      | T_free \<Rightarrow> work_live s \<and> \<not> complete' s \<and> (done' s = 1 \<and> waiting True s \<or> done' s = 0 \<and> leaving s)
      | T_finished \<Rightarrow> \<not> work_live s \<and> (done' s = 1 \<and> (waiting True s \<or> spc s = S_crashed) \<or> done' s = 0 \<and> leaving s)
      | T_crashed \<Rightarrow> False)"

lemma inv_init: "inv (init n)"
  by (simp add: inv_def init_def)

lemma inv_show: "inv s \<Longrightarrow> show_step True fail s = Some s' \<Longrightarrow> inv s'"
  by (cases "spc s"; cases "tpc s"; clarsimp simp: inv_def show_step_def waiting_def leaving_def return_def Let_def
      split: if_split_asm option.split_asm)

lemma inv_thread: "inv s \<Longrightarrow> thread_step s = Some s' \<Longrightarrow> inv s'"
  by (cases "tpc s"; cases "spc s"; clarsimp simp: inv_def thread_step_def waiting_def leaving_def
      split: if_split_asm)

lemma inv_kill: "inv (s\<lparr>killed := b\<rparr>) = inv s"
  by (cases "tpc s"; cases "complete' s"; cases "comp s"; simp add: inv_def waiting_def leaving_def)

lemma reach_inv: "reach True s \<Longrightarrow> inv s"
proof (induction rule: reach.induct)
  case (reach_step s a s')
  then show ?case by (cases a) (auto simp: inv_kill intro: inv_show inv_thread)
qed (rule inv_init)

text \<open>
  C18. With \<open>use_fix\<close>, whatever the schedule, the signals and the failing calls: the thread never
  completes a completion whose stack frame has been left, the work data is not freed twice, and
  there is no deadlock: until the reader has returned (or has run into the other defect, below),
  the reader or the thread can go on without any further signal.
\<close>

theorem completion_fix_safe:
  assumes "reach True s"
  shows "\<not> bad_stack s \<and> tpc s \<noteq> T_crashed \<and>
    (spc s \<noteq> S_returned \<longrightarrow> spc s \<noteq> S_crashed \<longrightarrow>
      (\<exists>s'. show_step True None s = Some s') \<or> (\<exists>s'. thread_step s = Some s'))"
proof -
  have i: "inv s" by (rule reach_inv [OF assms])
  then have "\<not> bad_stack s \<and> tpc s \<noteq> T_crashed" by (auto simp: inv_def)
  moreover have "(\<exists>s'. show_step True None s = Some s') \<or> (\<exists>s'. thread_step s = Some s')"
    if "spc s \<noteq> S_returned" "spc s \<noteq> S_crashed"
    using that i
    by (cases "spc s"; cases "tpc s"; clarsimp simp: inv_def show_step_def thread_step_def waiting_def leaving_def
        Let_def)
  ultimately show ?thesis by blast
qed

definition killed_late :: "actor list" where
  "killed_late = [Show None, Show None, Thread, Thread, Thread, Show None, Show None, Show None, Thread, Thread]"

definition freed_early :: "actor list" where
  "freed_early = [Show None, Show None, Thread, Thread, Show None, Thread, Thread, Thread, Thread, Show None]"

theorem completion_fix_safe_witness:
  "\<exists>s. run True [Show None, Show None, Thread, Thread, Thread, Show None, Show None] (init 0) = Some s \<and>
    \<not> bad_stack s \<and> spc s = S_fix_wait \<and> tpc s = T_sleep"
proof -
  have "\<exists>s. run True [Show None, Show None, Thread, Thread, Thread, Show None, Show None] (init 0) = Some s \<and>
      spc s = S_fix_wait \<and> tpc s = T_sleep"
    by (simp add: init_def show_step_def thread_step_def Let_def)
  with completion_fix_safe [OF run_reach [OF _ reach_init]] show ?thesis by blast
qed

text \<open>
  C19. What the module demonstrates, and what it does not mention. Without the fix a schedule exists
  in which the thread completes the completion after the reader has returned. With and without it
  a schedule exists in which the thread frees the work data before the killed reader exchanges the
  pointer in it: the fix repairs the first use after free and leaves the second.
\<close>

theorem completion_use_after_free:
  "(\<exists>s. reach False s \<and> bad_stack s) \<and> (\<forall>use_fix. \<exists>s. reach use_fix s \<and> bad_work s)"
proof (intro conjI allI)
  have "\<exists>s. run False killed_late (init 0) = Some s \<and> bad_stack s"
    by (simp add: killed_late_def init_def show_step_def thread_step_def return_def Let_def)
  then show "\<exists>s. reach False s \<and> bad_stack s" using run_reach [OF _ reach_init] by blast
next
  fix use_fix
  have "\<exists>s. run use_fix freed_early (init 0) = Some s \<and> bad_work s"
    by (simp add: freed_early_def init_def show_step_def thread_step_def return_def Let_def)
  then show "\<exists>s. reach use_fix s \<and> bad_work s" using run_reach [OF _ reach_init] by blast
qed

text \<open>The reference to the reader's pid is taken and never dropped.\<close>

lemma pid_refs_step: "step use_fix a s = Some s' \<Longrightarrow> pid_refs s \<le> pid_refs s'"
  by (cases a; cases "spc s"; cases "tpc s"; clarsimp simp: show_step_def thread_step_def return_def Let_def
      split: if_split_asm option.split_asm)

lemma pid_refs_leak:
  assumes "reach use_fix s"
  shows "tpc s \<noteq> T_absent \<Longrightarrow> 1 \<le> pid_refs s"
proof -
  have "(spc s = S_create \<or> tpc s \<noteq> T_absent \<longrightarrow> 1 \<le> pid_refs s)" using assms
  proof (induction rule: reach.induct)
    case (reach_step s a s')
    then show ?case
      by (cases a; cases "spc s"; cases "tpc s"; clarsimp simp: show_step_def thread_step_def return_def Let_def
          split: if_split_asm option.split_asm)
  qed (simp add: init_def)
  then show "tpc s \<noteq> T_absent \<Longrightarrow> 1 \<le> pid_refs s" by blast
qed

end
