(* ===== verification/Kernel.thy ===== *)
theory Kernel
  imports Prelude
begin

unbundle bit_operations_syntax

text \<open>
  What the kernel modules share: error numbers, 32 bit numbers in user memory, and a ledger of the
  kernel objects a module holds. The functions of the kernel are no part of the repository: whether
  a call succeeds is a parameter of every operation that makes one. A negative return value is the
  negated error number, as in the code. As everywhere, \<open>None\<close> is undefined behaviour: here,
  releasing an object that is not held or following a null pointer.
\<close>

section \<open>Errors\<close>

definition ENOENT :: int where "ENOENT = 2"
definition EIO :: int where "EIO = 5"
definition ENOMEM :: int where "ENOMEM = 12"
definition EFAULT :: int where "EFAULT = 14"
definition ENODEV :: int where "ENODEV = 19"
definition EINVAL :: int where "EINVAL = 22"
definition ENOSPC :: int where "ENOSPC = 28"
definition ENOSYS :: int where "ENOSYS = 38"
definition ENODATA :: int where "ENODATA = 61"
definition ENOBUFS :: int where "ENOBUFS = 105"
definition ETIMEDOUT :: int where "ETIMEDOUT = 110"

named_theorems errnos \<open>the values of the error numbers\<close>
declare ENOENT_def [errnos] EIO_def [errnos] ENOMEM_def [errnos] EFAULT_def [errnos] ENODEV_def [errnos]
  EINVAL_def [errnos] ENOSPC_def [errnos] ENOSYS_def [errnos] ENODATA_def [errnos] ENOBUFS_def [errnos]
  ETIMEDOUT_def [errnos]

section \<open>User memory\<close>

text \<open>
  The buffer a system call is given is the list of the bytes that can be accessed there; copying
  beyond it is a fault (the copy functions return non-zero). Numbers are stored with their least
  significant byte first.
\<close>

type_synonym byte = "8 word"

definition le_bytes :: "32 word \<Rightarrow> byte list" where
  "le_bytes w = [ucast w, ucast (drop_bit 8 w), ucast (drop_bit 16 w), ucast (drop_bit 24 w)]"

definition le_word :: "byte \<Rightarrow> byte \<Rightarrow> byte \<Rightarrow> byte \<Rightarrow> 32 word" where
  "le_word a b c d = ucast a OR push_bit 8 (ucast b) OR push_bit 16 (ucast c) OR push_bit 24 (ucast d)"

definition get_s32 :: "byte list \<Rightarrow> nat \<Rightarrow> 32 word option" where
  "get_s32 buf i =
     (if i + 4 \<le> length buf then Some (le_word (buf ! i) (buf ! (i + 1)) (buf ! (i + 2)) (buf ! (i + 3)))
      else None)"

definition put_s32 :: "byte list \<Rightarrow> nat \<Rightarrow> 32 word \<Rightarrow> byte list option" where
  "put_s32 buf i w =
     (if i + 4 \<le> length buf then Some (take i buf @ le_bytes w @ drop (i + 4) buf) else None)"

lemma le_word_bytes: "le_word (ucast w) (ucast (drop_bit 8 w)) (ucast (drop_bit 16 w)) (ucast (drop_bit 24 w)) = w"
proof (rule bit_word_eqI)
  fix n :: nat
  assume "n < LENGTH(32)"
  then consider "n < 8" | "8 \<le> n" "n < 16" | "16 \<le> n" "n < 24" | "24 \<le> n" "n < 32"
    by (simp, linarith)
  then show "bit (le_word (ucast w) (ucast (drop_bit 8 w)) (ucast (drop_bit 16 w)) (ucast (drop_bit 24 w))) n = bit w n"
    by cases (auto simp: le_word_def bit_simps)
qed

lemma length_le_bytes [simp]: "length (le_bytes w) = 4"
  by (simp add: le_bytes_def)

lemma get_le_bytes: "i = length xs \<Longrightarrow> get_s32 (xs @ le_bytes w @ ys) i = Some w"
  by (simp add: get_s32_def nth_append le_bytes_def le_word_bytes)

lemma get_put: "put_s32 buf i w = Some buf' \<Longrightarrow> get_s32 buf' i = Some w"
  by (auto simp: put_s32_def get_le_bytes split: if_splits)

lemma put_length: "put_s32 buf i w = Some buf' \<Longrightarrow> length buf' = length buf"
  by (auto simp: put_s32_def split: if_splits)

lemma le_bytes_word: "le_bytes (le_word a b c d) = [a, b, c, d]"
proof -
  have high: "8 \<le> k \<Longrightarrow> \<not> bit w k" for w :: byte and k
    using bit_imp_le_length [of w k] by auto
  have "(ucast (le_word a b c d) :: byte) = a" "(ucast (drop_bit 8 (le_word a b c d)) :: byte) = b"
    "(ucast (drop_bit 16 (le_word a b c d)) :: byte) = c" "(ucast (drop_bit 24 (le_word a b c d)) :: byte) = d"
    by (rule bit_word_eqI, simp add: le_word_def bit_simps high)+
  then show ?thesis by (simp add: le_bytes_def)
qed

lemma le_bytes_get: "get_s32 xs i = Some w \<Longrightarrow> le_bytes w = take 4 (drop i xs)"
proof -
  assume "get_s32 xs i = Some w"
  then have "i + 4 \<le> length xs" "w = le_word (xs ! i) (xs ! (i + 1)) (xs ! (i + 2)) (xs ! (i + 3))"
    by (auto simp: get_s32_def split: if_splits)
  moreover from this(1) have "take 4 (drop i xs) = [xs ! i, xs ! (i + 1), xs ! (i + 2), xs ! (i + 3)]"
    by (simp add: take_Suc_conv_app_nth numeral_eq_Suc)
  ultimately show ?thesis by (simp add: le_bytes_word)
qed

text \<open>The two numbers of a pair of limits.\<close>

definition get_pair :: "byte list \<Rightarrow> (32 word \<times> 32 word) option" where
  "get_pair buf = do { a \<leftarrow> get_s32 buf 0; b \<leftarrow> get_s32 buf 4; Some (a, b) }"

lemma put_pair:
  assumes "8 \<le> length buf"
  shows "\<exists>buf1 buf2. put_s32 buf 0 a = Some buf1 \<and> put_s32 buf1 4 b = Some buf2 \<and>
    get_pair buf2 = Some (a, b) \<and> length buf2 = length buf"
proof -
  let ?buf1 = "le_bytes a @ drop 4 buf" and ?buf2 = "le_bytes a @ le_bytes b @ drop 8 buf"
  have "put_s32 buf 0 a = Some ?buf1" "put_s32 ?buf1 4 b = Some ?buf2"
    using assms by (auto simp: put_s32_def)
  moreover have "get_pair ?buf2 = Some (a, b)"
    using get_le_bytes [of 0 "[]" a "le_bytes b @ drop 8 buf"] get_le_bytes [of 4 "le_bytes a" b "drop 8 buf"]
    by (simp add: get_pair_def)
  ultimately show ?thesis using assms by auto
qed

section \<open>The ledger\<close>

text \<open>The kernel objects a module holds, counted.\<close>

definition acquire :: "'r \<Rightarrow> 'r multiset \<Rightarrow> 'r multiset" where
  "acquire r held = add_mset r held"

definition release :: "'r \<Rightarrow> 'r multiset \<Rightarrow> 'r multiset option" where
  "release r held = (if r \<in># held then Some (held - {#r#}) else None)"

text \<open>
  Some functions of the kernel look the object up and do nothing when it is not there
  (\<open>device_destroy\<close>, \<open>unregister_chrdev_region\<close>, \<open>sysfs_remove_link\<close>, unregistering a notifier).
\<close>

definition discard :: "'r \<Rightarrow> 'r multiset \<Rightarrow> 'r multiset" where
  "discard r held = held - {#r#}"

text \<open>
  Unregistering what may not be registered: some functions of the kernel happen to ignore it, none documents that it may be done. Whether it
  is ignored is an argument, and the theorems cover both answers.
\<close>

definition unregister :: "bool \<Rightarrow> 'r \<Rightarrow> 'r multiset \<Rightarrow> 'r multiset option" where
  "unregister ignored r held = (if r \<in># held then Some (held - {#r#}) else if ignored then Some held else None)"

lemma unregister_held [simp]: "r \<in># held \<Longrightarrow> unregister ignored r held = Some (held - {#r#})"
  by (simp add: unregister_def)

lemma unregister_absent: "r \<notin># held \<Longrightarrow> unregister ignored r held = (if ignored then Some held else None)"
  by (simp add: unregister_def)

lemma discard_acquired [simp]: "discard r (add_mset r held) = held"
  by (simp add: discard_def)

lemma discard_absent [simp]: "r \<notin># held \<Longrightarrow> discard r held = held"
  by (simp add: discard_def)

lemma release_acquired [simp]: "release r (add_mset r held) = Some held"
  by (simp add: release_def)

lemma release_absent: "r \<notin># held \<Longrightarrow> release r held = None"
  by (simp add: release_def)

section \<open>A file with two limits\<close>

text \<open>
  The contract of the modules whose device file takes two 32 bit limits in a \<open>write\<close> and hands them
  out in a \<open>read\<close>: \<open>limits\<close> is what a state answers a read with, and \<open>norm\<close> what becomes of a limit
  that is written. From it, a client's view of the file: what is written is what is read.
\<close>

locale limits_file =
  fixes limits :: "'s \<Rightarrow> 32 word \<times> 32 word"
    and norm :: "32 word \<Rightarrow> 32 word"
    and rd_file :: "'s \<Rightarrow> nat \<Rightarrow> nat \<Rightarrow> byte list \<Rightarrow> int \<times> byte list"
    and wr_file :: "'s \<Rightarrow> nat \<Rightarrow> nat \<Rightarrow> byte list \<Rightarrow> (int \<times> 's) option"
    and ready :: "'s \<Rightarrow> bool"
  assumes read_law: "8 \<le> n \<Longrightarrow> 8 \<le> length buf \<Longrightarrow>
      fst (rd_file s n 0 buf) = 8 \<and> get_pair (snd (rd_file s n 0 buf)) = Some (limits s)"
    and write_law: "ready s \<Longrightarrow> get_pair buf = Some (a, b) \<Longrightarrow>
      \<exists>s'. wr_file s 8 0 buf = Some (8, s') \<and> ready s' \<and> limits s' = (norm a, norm b)"
begin

lemma write_read:
  assumes "ready s" and "get_pair buf = Some (a, b)" and "8 \<le> n" and "8 \<le> length out"
  shows "\<exists>s'. wr_file s 8 0 buf = Some (8, s') \<and> fst (rd_file s' n 0 out) = 8 \<and>
    get_pair (snd (rd_file s' n 0 out)) = Some (norm a, norm b)"
  using write_law [OF assms(1,2)] read_law [OF assms(3,4)] by metis

lemma last_write_wins:
  assumes "ready s" and "get_pair buf = Some (a, b)" and "get_pair buf' = Some (c, d)"
    and "8 \<le> n" and "8 \<le> length out"
  shows "\<exists>s' s''. wr_file s 8 0 buf = Some (8, s') \<and> wr_file s' 8 0 buf' = Some (8, s'') \<and>
    get_pair (snd (rd_file s'' n 0 out)) = Some (norm c, norm d)"
  using write_law [OF assms(1,2)] write_law [OF _ assms(3)] read_law [OF assms(4,5)] by metis

end

section \<open>Delays\<close>

text \<open>
  The modules for tests delay by yielding the processor until the clock has moved on by the timeout:
  the result is the number of yields. \<open>clock k\<close> is the \<open>k\<close>-th reading of \<open>jiffies\<close>, \<open>msecs\<close> is
  \<open>jiffies_to_msecs\<close>. The delay ends if the clock ever gets there, at the first reading that shows it.
\<close>

partial_function (option) yield_from :: "(nat \<Rightarrow> nat) \<Rightarrow> (nat \<Rightarrow> nat) \<Rightarrow> nat \<Rightarrow> nat \<Rightarrow> nat option" where
  "yield_from msecs clock timeout k =
     (if msecs (clock (k + 1) - clock 0) < timeout then yield_from msecs clock timeout (k + 1) else Some (k + 1))"

lemma yield_from_least:
  assumes "timeout \<le> msecs (clock (k + 1 + d) - clock 0)" and "\<forall>j<d. msecs (clock (k + 1 + j) - clock 0) < timeout"
  shows "yield_from msecs clock timeout k = Some (k + 1 + d)"
  using assms
proof (induction d arbitrary: k)
  case 0
  then show ?case by (subst yield_from.simps) simp
next
  case (Suc d)
  have "yield_from msecs clock timeout (k + 1) = Some (k + 1 + 1 + d)"
  proof (rule Suc.IH)
    show "timeout \<le> msecs (clock (k + 1 + 1 + d) - clock 0)" using Suc.prems(1) by simp
    show "\<forall>j<d. msecs (clock (k + 1 + 1 + j) - clock 0) < timeout" using Suc.prems(2) by (auto dest: spec [of _ "Suc _"])
  qed
  moreover have "msecs (clock (k + 1) - clock 0) < timeout" using Suc.prems(2) by (auto dest: spec [of _ 0])
  ultimately show ?case by (subst yield_from.simps) simp
qed

lemma yield_from_ends:
  assumes "\<exists>k. timeout \<le> msecs (clock (k + 1) - clock 0)"
  shows "yield_from msecs clock timeout 0 = Some (1 + (LEAST k. timeout \<le> msecs (clock (k + 1) - clock 0)))"
proof -
  let ?P = "\<lambda>k. timeout \<le> msecs (clock (k + 1) - clock 0)"
  have "?P (LEAST k. ?P k)" using assms by (rule LeastI_ex)
  moreover have "\<forall>j<(LEAST k. ?P k). \<not> ?P j" using not_less_Least by blast
  ultimately show ?thesis using yield_from_least [of timeout msecs clock 0 "LEAST k. ?P k"]
    by (simp add: not_le)
qed

section \<open>Machines\<close>

text \<open>
  The modules that are machines have a relation of steps, from a state to a state or to \<open>None\<close>, a
  step into undefined behaviour. What every step keeps holds in every state that is reached.
\<close>

inductive reaches :: "('s \<Rightarrow> 's option \<Rightarrow> bool) \<Rightarrow> 's \<Rightarrow> 's \<Rightarrow> bool" for stp x where
  start: "reaches stp x x"
| go: "reaches stp x y \<Longrightarrow> stp y (Some z) \<Longrightarrow> reaches stp x z"

lemma reaches_inv:
  "reaches stp x y \<Longrightarrow> I x \<Longrightarrow> (\<And>s s'. stp s (Some s') \<Longrightarrow> I s \<Longrightarrow> I s') \<Longrightarrow> I y"
  by (induction rule: reaches.induct) auto

end
