(* ===== verification/CpuHp.thy ===== *)
theory CpuHp
  imports Kernel
begin

text \<open>
  The module \<open>kernel_module/qos/cpuhp-qos.c\<close>: it keeps the number of online processors between two
  limits that a program writes to its device file. Modelled are the hotplug callbacks, the control
  thread, the device file, and loading and unloading with every failing kernel call.
\<close>

section \<open>State\<close>

text \<open>
  \<open>struct cpuhp_status\<close>: the limits and the count are unsigned; the thread is there or not; \<open>wakes\<close>
  counts the calls of \<open>wake_up_process\<close>.
\<close>

record cpuhp_status =
  min_cpus :: "32 word"
  max_cpus :: "32 word"
  has_thread :: bool
  online_cpus :: "32 word"
  wakes :: nat

datatype res = Class | Cpuhp_state | Kthread | Chrdev | Memory | Cdev | Device

text \<open>The module: its status, whether \<open>cpuhp_qos_class\<close> and \<open>cpu_hp_dev\<close> are set, what it holds.\<close>

record cpu_hp =
  cpuhp_stat :: cpuhp_status
  class_set :: bool
  dev_set :: bool
  held :: "res multiset"

definition need_adjuest :: "cpuhp_status \<Rightarrow> bool" where
  "need_adjuest st \<longleftrightarrow> online_cpus st < min_cpus st \<or> online_cpus st > max_cpus st"

definition wake_up_cpuhp_thread :: "cpuhp_status \<Rightarrow> cpuhp_status option" where
  "wake_up_cpuhp_thread st = (if has_thread st then Some (st\<lparr>wakes := wakes st + 1\<rparr>) else None)"

definition cpufreq_hp_offline :: "cpuhp_status \<Rightarrow> cpuhp_status option" where
  "cpufreq_hp_offline st =
     (let st = st\<lparr>online_cpus := online_cpus st - 1\<rparr> in
      if need_adjuest st then wake_up_cpuhp_thread st else Some st)"

definition cpufreq_hp_online :: "cpuhp_status \<Rightarrow> cpuhp_status option" where
  "cpufreq_hp_online st =
     (let st = st\<lparr>online_cpus := online_cpus st + 1\<rparr> in
      if need_adjuest st then wake_up_cpuhp_thread st else Some st)"

section \<open>The control thread\<close>

text \<open>
  \<open>do_core_ctl\<close> asks the kernel to take the processor with the highest number offline, or to bring
  the next one online. When the request succeeds the kernel calls the module's callback.
\<close>

datatype core_call = Add_cpu "32 word" | Remove_cpu "32 word"

definition do_core_ctl :: "cpuhp_status \<Rightarrow> core_call option" where
  "do_core_ctl st =
     (if online_cpus st > max_cpus st then Some (Remove_cpu (online_cpus st - 1))
      else if online_cpus st < min_cpus st then Some (Add_cpu (online_cpus st))
      else None)"

primrec core_call_effect :: "core_call \<Rightarrow> cpuhp_status \<Rightarrow> cpuhp_status option" where
  "core_call_effect (Add_cpu c) st = cpufreq_hp_online st"
| "core_call_effect (Remove_cpu c) st = cpufreq_hp_offline st"

definition core_ctl :: "bool \<Rightarrow> cpuhp_status \<Rightarrow> (core_call option \<times> cpuhp_status) option" where
  "core_ctl ok st =
     (case do_core_ctl st of
        None \<Rightarrow> Some (None, st)
      | Some c \<Rightarrow> do { st \<leftarrow> (if ok then core_call_effect c st else Some st); Some (Some c, st) })"

text \<open>
  One turn of the loop of \<open>try_core_ctl\<close>. \<open>schedule'\<close> is what the thread finds when it wakes up: the
  status, and whether it has been told to stop, which ends the loop.
\<close>

definition try_core_ctl ::
    "(cpuhp_status \<Rightarrow> cpuhp_status \<times> bool) \<Rightarrow> bool \<Rightarrow> cpuhp_status \<Rightarrow>
     (bool \<times> core_call option \<times> cpuhp_status) option" where
  "try_core_ctl schedule' ok st =
     (let (st, stop) = (if \<not> need_adjuest st then schedule' st else (st, False)) in
      if stop then Some (False, None, st)
      else do { (c, st) \<leftarrow> core_ctl ok st; Some (True, c, st) })"

text \<open>The turns the thread makes without sleeping, at most \<open>n\<close> of them, while every request succeeds.\<close>

primrec core_run :: "nat \<Rightarrow> cpuhp_status \<Rightarrow> (core_call list \<times> cpuhp_status) option" where
  "core_run 0 st = Some ([], st)"
| "core_run (Suc n) st =
     (if \<not> need_adjuest st then Some ([], st)
      else do {
        (_, c, st) \<leftarrow> try_core_ctl (\<lambda>st. (st, True)) True st;
        (cs, st) \<leftarrow> core_run n st;
        Some ((case c of None \<Rightarrow> cs | Some c \<Rightarrow> c # cs), st) })"

section \<open>The device file\<close>

text \<open>Opening the file notes the device in it: the result and the file's private data.\<close>

definition cpu_hp_open :: "'dev \<Rightarrow> 'dev option \<Rightarrow> int \<times> 'dev option" where
  "cpu_hp_open i_cdev private_data = (0, Some i_cdev)"

definition cpu_hp_close :: "'dev option \<Rightarrow> int \<times> 'dev option" where
  "cpu_hp_close private_data = (0, private_data)"

definition cpuhp_qos_read :: "cpu_hp \<Rightarrow> nat \<Rightarrow> nat \<Rightarrow> byte list \<Rightarrow> int \<times> byte list" where
  "cpuhp_qos_read s n pos buf =
     (if n < 8 then (- ENOBUFS, buf)
      else if pos \<noteq> 0 then (0, buf)
      else (case put_s32 buf 0 (min_cpus (cpuhp_stat s)) of
              None \<Rightarrow> (- EFAULT, buf)
            | Some buf \<Rightarrow>
                (case put_s32 buf 4 (max_cpus (cpuhp_stat s)) of
                   None \<Rightarrow> (- EFAULT, buf)
                 | Some buf \<Rightarrow> (8, buf))))"

definition cpuhp_qos_write :: "cpu_hp \<Rightarrow> nat \<Rightarrow> nat \<Rightarrow> byte list \<Rightarrow> (int \<times> cpu_hp) option" where
  "cpuhp_qos_write s n pos buf =
     (if pos \<noteq> 0 then Some (- ENOBUFS, s)
      else if n \<noteq> 8 then Some (- EINVAL, s)
      else (case get_s32 buf 0 of
              None \<Rightarrow> Some (- EFAULT, s)
            | Some mn \<Rightarrow>
                (case get_s32 buf 4 of
                   None \<Rightarrow> Some (- EFAULT, s)
                 | Some mx \<Rightarrow> do {
                     st \<leftarrow> wake_up_cpuhp_thread ((cpuhp_stat s)\<lparr>min_cpus := mn, max_cpus := mx\<rparr>);
                     Some (int n, s\<lparr>cpuhp_stat := st\<rparr>) })))"

section \<open>Loading and unloading\<close>

text \<open>
  The environment of a load: which kernel call fails, and with which error, the processors that
  are online and the largest number of them. Registering the callbacks calls them for every
  online processor, and so does removing them.
\<close>

record env =
  class_err :: "int option"
  state_err :: bool
  thread_err :: "int option"
  chrdev_err :: "int option"
  alloc_ok :: bool
  cdev_err :: "int option"
  device_err :: "int option"
  online :: nat
  nr_cpus :: nat

primrec times :: "nat \<Rightarrow> ('a \<Rightarrow> 'a option) \<Rightarrow> 'a \<Rightarrow> 'a option" where
  "times 0 f x = Some x"
| "times (Suc n) f x = do { x \<leftarrow> f x; times n f x }"

definition drop_res :: "res \<Rightarrow> cpu_hp \<Rightarrow> cpu_hp option" where
  "drop_res r s = do { h \<leftarrow> release r (held s); Some (s\<lparr>held := h\<rparr>) }"

definition take_res :: "res \<Rightarrow> cpu_hp \<Rightarrow> cpu_hp" where
  "take_res r s = s\<lparr>held := acquire r (held s)\<rparr>"

text \<open>The error exits of \<open>cpu_hp_drv_init\<close>, from the last label up: each falls through to the next.\<close>

definition destory_class :: "cpu_hp \<Rightarrow> cpu_hp option" where
  "destory_class s = (if class_set s then do { s \<leftarrow> drop_res Class s; Some (s\<lparr>class_set := False\<rparr>) } else Some s)"

definition cpuhp_remove_state :: "env \<Rightarrow> cpu_hp \<Rightarrow> cpu_hp option" where
  "cpuhp_remove_state e s = do {
     s \<leftarrow> drop_res Cpuhp_state s;
     st \<leftarrow> times (online e) cpufreq_hp_offline (cpuhp_stat s);
     Some (s\<lparr>cpuhp_stat := st\<rparr>) }"

definition remove_cpuhp_state :: "env \<Rightarrow> cpu_hp \<Rightarrow> cpu_hp option" where
  "remove_cpuhp_state e s = do { s \<leftarrow> cpuhp_remove_state e s; destory_class s }"

definition free_chrdev_region :: "env \<Rightarrow> cpu_hp \<Rightarrow> cpu_hp option" where
  "free_chrdev_region e s = remove_cpuhp_state e (s\<lparr>held := discard Chrdev (held s)\<rparr>)"

definition free_chrdev :: "env \<Rightarrow> cpu_hp \<Rightarrow> cpu_hp option" where
  "free_chrdev e s = do {
     s \<leftarrow> (if dev_set s then do { s \<leftarrow> drop_res Memory s; Some (s\<lparr>dev_set := False\<rparr>) } else Some s);
     free_chrdev_region e s }"

definition remove_cdev :: "env \<Rightarrow> cpu_hp \<Rightarrow> cpu_hp option" where
  "remove_cdev e s = do {
     s \<leftarrow> (if dev_set s then drop_res Cdev s else Some s);
     free_chrdev e s }"

text \<open>
  \<open>cpu_hp_drv_init\<close>, first the part behind the creation of the thread. When \<open>device_create\<close> fails
  the pointer is set to null before its error is taken, so the value returned is that of a null
  pointer, 0.
\<close>

definition load_rest :: "env \<Rightarrow> cpu_hp \<Rightarrow> (int \<times> cpu_hp) option" where
  "load_rest e s = (case chrdev_err e of
     Some r \<Rightarrow> do { s \<leftarrow> remove_cpuhp_state e s; Some (- r, s) }
   | None \<Rightarrow> do {
       let s = take_res Chrdev s;
       if \<not> alloc_ok e then do { s \<leftarrow> free_chrdev_region e s; Some (- ENOMEM, s) }
       else do {
         let s = take_res Memory (s\<lparr>dev_set := True\<rparr>);
         (case cdev_err e of
            Some r \<Rightarrow> do { s \<leftarrow> free_chrdev e s; Some (- r, s) }
          | None \<Rightarrow> do {
              let s = take_res Cdev s;
              (case device_err e of
                 Some r \<Rightarrow> do { s \<leftarrow> remove_cdev e s; Some (0, s) }
               | None \<Rightarrow> Some (0, take_res Device s)) }) } })"

definition cpu_hp_drv_init :: "env \<Rightarrow> cpu_hp \<Rightarrow> (int \<times> cpu_hp) option" where
  "cpu_hp_drv_init e s = (case class_err e of
     Some r \<Rightarrow> Some (- r, s\<lparr>class_set := False\<rparr>)
   | None \<Rightarrow> do {
       let s = take_res Class (s\<lparr>class_set := True\<rparr>);
       let s = s\<lparr>cpuhp_stat := (cpuhp_stat s)\<lparr>min_cpus := 0, max_cpus := of_nat (nr_cpus e)\<rparr>\<rparr>;
       if state_err e then do { s \<leftarrow> destory_class s; Some (- ENOSYS, s) }
       else do {
         let s = take_res Cpuhp_state s;
         st \<leftarrow> times (online e) cpufreq_hp_online (cpuhp_stat s);
         let s = s\<lparr>cpuhp_stat := st\<rparr>;
         (case thread_err e of
            Some r \<Rightarrow> do { s \<leftarrow> remove_cpuhp_state e s; Some (- r, s) }
          | None \<Rightarrow> do {
              let s = take_res Kthread (s\<lparr>cpuhp_stat := (cpuhp_stat s)\<lparr>has_thread := True\<rparr>\<rparr>);
              load_rest e s }) } })"

definition cpu_hp_drv_exit :: "env \<Rightarrow> cpu_hp \<Rightarrow> cpu_hp option" where
  "cpu_hp_drv_exit e s = do {
     let s = s\<lparr>held := discard Device (held s)\<rparr>;
     s \<leftarrow> (if dev_set s
          then do { s \<leftarrow> drop_res Cdev s; s \<leftarrow> drop_res Memory s; Some (s\<lparr>dev_set := False\<rparr>) } else Some s);
     let s = s\<lparr>held := discard Chrdev (held s)\<rparr>;
     s \<leftarrow> cpuhp_remove_state e s;
     destory_class s }"

section \<open>The control thread reaches the limits\<close>

lemma unat_up: "x < y \<Longrightarrow> unat (x + 1) = unat x + 1" for x y :: "32 word"
  using unsigned_less [of y, where ?'a = nat] by (simp add: unat_word_ariths word_less_nat_alt)

lemma unat_down: "y < x \<Longrightarrow> unat (x - 1) = unat x - 1" for x y :: "32 word"
  by (metis unat_minus_one word_not_simps(1))

lemma wake_defined: "has_thread st \<Longrightarrow> wake_up_cpuhp_thread st = Some (st\<lparr>wakes := wakes st + 1\<rparr>)"
  by (simp add: wake_up_cpuhp_thread_def)

text \<open>One turn while the count is out of the limits: one request, and the count moves by one.\<close>

lemma turn_up:
  assumes "has_thread st" and "online_cpus st < min_cpus st" and "\<not> max_cpus st < online_cpus st"
  shows "\<exists>st'. try_core_ctl sch True st = Some (True, Some (Add_cpu (online_cpus st)), st') \<and> has_thread st' \<and>
    min_cpus st' = min_cpus st \<and> max_cpus st' = max_cpus st \<and> online_cpus st' = online_cpus st + 1"
  using assms by (auto simp: try_core_ctl_def core_ctl_def do_core_ctl_def need_adjuest_def
      cpufreq_hp_online_def wake_defined Let_def)

lemma turn_down:
  assumes "has_thread st" and "max_cpus st < online_cpus st"
  shows "\<exists>st'. try_core_ctl sch True st = Some (True, Some (Remove_cpu (online_cpus st - 1)), st') \<and> has_thread st' \<and>
    min_cpus st' = min_cpus st \<and> max_cpus st' = max_cpus st \<and> online_cpus st' = online_cpus st - 1"
  using assms by (auto simp: try_core_ctl_def core_ctl_def do_core_ctl_def need_adjuest_def
      cpufreq_hp_offline_def wake_defined Let_def)

lemma core_run_up:
  "has_thread st \<Longrightarrow> min_cpus st \<le> max_cpus st \<Longrightarrow> unat (min_cpus st) = unat (online_cpus st) + d \<Longrightarrow>
    \<exists>st'. core_run d st = Some (map (\<lambda>i. Add_cpu (online_cpus st + of_nat i)) [0..<d], st') \<and> \<not> need_adjuest st'"
proof (induction d arbitrary: st)
  case 0
  then have "min_cpus st = online_cpus st" by (simp add: word_unat_eq_iff)
  with 0 show ?case by (simp add: need_adjuest_def not_less)
next
  case (Suc d)
  then have lt: "online_cpus st < min_cpus st" "\<not> max_cpus st < online_cpus st"
    by (auto simp: word_less_nat_alt word_le_nat_alt)
  from turn_up [OF Suc.prems(1) lt] obtain st1 where
    t: "try_core_ctl (\<lambda>st. (st, True)) True st = Some (True, Some (Add_cpu (online_cpus st)), st1)" "has_thread st1"
      "min_cpus st1 = min_cpus st" "max_cpus st1 = max_cpus st" "online_cpus st1 = online_cpus st + 1" by blast
  from Suc.IH [OF t(2)] t(3-5) Suc.prems(2,3) unat_up [OF lt(1)] obtain st' where
    "core_run d st1 = Some (map (\<lambda>i. Add_cpu (online_cpus st + 1 + of_nat i)) [0..<d], st')" "\<not> need_adjuest st'"
    by auto
  moreover have "map (\<lambda>i. Add_cpu (online_cpus st + of_nat i)) [0..<Suc d]
      = Add_cpu (online_cpus st) # map (\<lambda>i. Add_cpu (online_cpus st + 1 + of_nat i)) [0..<d]"
    by (rule nth_equalityI) (auto simp: nth_Cons' add.assoc simp del: upt_Suc)
  moreover have "need_adjuest st" using lt by (simp add: need_adjuest_def)
  ultimately show ?case using t(1) by (simp del: upt_Suc)
qed

lemma core_run_down:
  "has_thread st \<Longrightarrow> min_cpus st \<le> max_cpus st \<Longrightarrow> unat (online_cpus st) = unat (max_cpus st) + d \<Longrightarrow>
    \<exists>st'. core_run d st = Some (map (\<lambda>i. Remove_cpu (online_cpus st - 1 - of_nat i)) [0..<d], st') \<and> \<not> need_adjuest st'"
proof (induction d arbitrary: st)
  case 0
  then have "max_cpus st = online_cpus st" by (simp add: word_unat_eq_iff)
  with 0 show ?case by (simp add: need_adjuest_def not_less)
next
  case (Suc d)
  then have lt: "max_cpus st < online_cpus st" by (simp add: word_less_nat_alt)
  from turn_down [OF Suc.prems(1) lt] obtain st1 where
    t: "try_core_ctl (\<lambda>st. (st, True)) True st = Some (True, Some (Remove_cpu (online_cpus st - 1)), st1)" "has_thread st1"
      "min_cpus st1 = min_cpus st" "max_cpus st1 = max_cpus st" "online_cpus st1 = online_cpus st - 1" by blast
  from Suc.IH [OF t(2)] t(3-5) Suc.prems(2,3) unat_down [OF lt] obtain st' where
    "core_run d st1 = Some (map (\<lambda>i. Remove_cpu (online_cpus st - 1 - 1 - of_nat i)) [0..<d], st')" "\<not> need_adjuest st'"
    by auto
  moreover have "map (\<lambda>i. Remove_cpu (online_cpus st - 1 - of_nat i)) [0..<Suc d]
      = Remove_cpu (online_cpus st - 1) # map (\<lambda>i. Remove_cpu (online_cpus st - 1 - 1 - of_nat i)) [0..<d]"
    by (rule nth_equalityI) (auto simp: nth_Cons' algebra_simps simp del: upt_Suc)
  moreover have "need_adjuest st" using lt by (simp add: need_adjuest_def)
  ultimately show ?case using t(1) by (simp del: upt_Suc)
qed

text \<open>With the limits the wrong way round there is no count to rest at.\<close>

lemma core_run_restless:
  "has_thread st \<Longrightarrow> max_cpus st < min_cpus st \<Longrightarrow>
    \<exists>cs st'. core_run n st = Some (cs, st') \<and> need_adjuest st' \<and> length cs = n"
proof (induction n arbitrary: st)
  case 0
  then show ?case by (auto simp: need_adjuest_def)
next
  case (Suc n)
  have need: "need_adjuest st" using Suc.prems(2) by (auto simp: need_adjuest_def)
  obtain c st1 where t: "try_core_ctl (\<lambda>st. (st, True)) True st = Some (True, Some c, st1)" "has_thread st1"
    "min_cpus st1 = min_cpus st" "max_cpus st1 = max_cpus st"
  proof (cases "max_cpus st < online_cpus st")
    case True
    from turn_down [OF Suc.prems(1) this] that show thesis by blast
  next
    case False
    with need have "online_cpus st < min_cpus st" by (simp add: need_adjuest_def)
    from turn_up [OF Suc.prems(1) this False] that show thesis by blast
  qed
  from Suc.IH [OF t(2)] t(3,4) Suc.prems(2) obtain cs st' where
    "core_run n st1 = Some (cs, st')" "need_adjuest st'" "length cs = n" by auto
  with need t(1) show ?case by simp
qed

text \<open>
  C20. The control thread. While the kernel grants its requests and the limits are in order, the
  number of online processors reaches the limits in as many requests as it is away from them, one
  processor at a time, from the next number up or from the highest number down. With the limits
  the wrong way round, which a write does not refuse, the thread never rests.
\<close>

theorem cpuhp_core_control:
  assumes "has_thread st"
  shows "(min_cpus st \<le> max_cpus st \<longrightarrow>
      (\<exists>d cs st'. core_run d st = Some (cs, st') \<and> \<not> need_adjuest st' \<and>
        (if online_cpus st < min_cpus st
         then d = unat (min_cpus st) - unat (online_cpus st) \<and> cs = map (\<lambda>i. Add_cpu (online_cpus st + of_nat i)) [0..<d]
         else d = unat (online_cpus st) - unat (max_cpus st) \<and>
              cs = map (\<lambda>i. Remove_cpu (online_cpus st - 1 - of_nat i)) [0..<d]))) \<and>
    (max_cpus st < min_cpus st \<longrightarrow>
      (\<forall>n. \<exists>cs st'. core_run n st = Some (cs, st') \<and> need_adjuest st' \<and> length cs = n))"
proof (intro conjI impI allI)
  assume le: "min_cpus st \<le> max_cpus st"
  show "\<exists>d cs st'. core_run d st = Some (cs, st') \<and> \<not> need_adjuest st' \<and>
      (if online_cpus st < min_cpus st
       then d = unat (min_cpus st) - unat (online_cpus st) \<and> cs = map (\<lambda>i. Add_cpu (online_cpus st + of_nat i)) [0..<d]
       else d = unat (online_cpus st) - unat (max_cpus st) \<and>
            cs = map (\<lambda>i. Remove_cpu (online_cpus st - 1 - of_nat i)) [0..<d])"
  proof (cases "online_cpus st < min_cpus st")
    case True
    then have "unat (min_cpus st) = unat (online_cpus st) + (unat (min_cpus st) - unat (online_cpus st))"
      by (simp add: word_less_nat_alt)
    from core_run_up [OF assms le this] True show ?thesis by auto
  next
    case low: False
    show ?thesis
    proof (cases "max_cpus st < online_cpus st")
      case True
      then have "unat (online_cpus st) = unat (max_cpus st) + (unat (online_cpus st) - unat (max_cpus st))"
        by (simp add: word_less_nat_alt)
      from core_run_down [OF assms le this] low show ?thesis by auto
    next
      case False
      with low show ?thesis
        by (intro exI [of _ 0] exI [of _ "[]"] exI [of _ st]) (simp add: need_adjuest_def word_less_nat_alt)
    qed
  qed
next
  fix n
  assume "max_cpus st < min_cpus st"
  from core_run_restless [OF assms this]
  show "\<exists>cs st'. core_run n st = Some (cs, st') \<and> need_adjuest st' \<and> length cs = n" .
qed

theorem cpuhp_core_control_witness:
  "\<exists>st'. core_run 2 \<lparr>min_cpus = 1, max_cpus = 2, has_thread = True, online_cpus = 4, wakes = 0\<rparr>
    = Some ([Remove_cpu 3, Remove_cpu 2], st') \<and> \<not> need_adjuest st'"
  using cpuhp_core_control [of "\<lparr>min_cpus = 1, max_cpus = 2, has_thread = True, online_cpus = 4, wakes = 0\<rparr>"]
  by (simp add: upt_rec)

section \<open>The device file keeps its contract\<close>

lemma cpuhp_read_pair:
  assumes "8 \<le> n" and "8 \<le> length buf"
  shows "fst (cpuhp_qos_read s n 0 buf) = 8 \<and>
    get_pair (snd (cpuhp_qos_read s n 0 buf)) = Some (min_cpus (cpuhp_stat s), max_cpus (cpuhp_stat s))"
  using put_pair [OF assms(2), of "min_cpus (cpuhp_stat s)" "max_cpus (cpuhp_stat s)"] assms(1)
  by (auto simp: cpuhp_qos_read_def)

interpretation cpuhp: limits_file "\<lambda>s. (min_cpus (cpuhp_stat s), max_cpus (cpuhp_stat s))" "\<lambda>w. w"
  cpuhp_qos_read cpuhp_qos_write "\<lambda>s. has_thread (cpuhp_stat s)"
proof unfold_locales
  fix n :: nat and buf :: "byte list" and s :: cpu_hp
  assume "8 \<le> n" "8 \<le> length buf"
  then show "fst (cpuhp_qos_read s n 0 buf) = 8 \<and>
      get_pair (snd (cpuhp_qos_read s n 0 buf)) = Some (min_cpus (cpuhp_stat s), max_cpus (cpuhp_stat s))"
    by (rule cpuhp_read_pair)
next
  fix s :: cpu_hp and buf a b
  assume "has_thread (cpuhp_stat s)" "get_pair buf = Some (a, b)"
  then show "\<exists>s'. cpuhp_qos_write s 8 0 buf = Some (8, s') \<and> has_thread (cpuhp_stat s') \<and>
      (min_cpus (cpuhp_stat s'), max_cpus (cpuhp_stat s')) = (a, b)"
    by (auto simp: cpuhp_qos_write_def get_pair_def wake_defined split: Option.bind_splits)
qed

text \<open>A write that is refused changes nothing.\<close>

lemma cpuhp_write_refused:
  "has_thread (cpuhp_stat s) \<Longrightarrow> pos \<noteq> 0 \<or> n \<noteq> 8 \<or> length buf < 8 \<Longrightarrow>
    \<exists>r. r < 0 \<and> cpuhp_qos_write s n pos buf = Some (r, s)"
  by (auto simp: cpuhp_qos_write_def get_s32_def errnos)

section \<open>What loading and unloading leave behind\<close>

definition fresh :: "res multiset \<Rightarrow> cpu_hp" where
  "fresh h = \<lparr>cpuhp_stat = \<lparr>min_cpus = 0, max_cpus = 0, has_thread = False, online_cpus = 0, wakes = 0\<rparr>,
     class_set = False, dev_set = False, held = h\<rparr>"

definition env_ok :: "env \<Rightarrow> bool" where
  "env_ok e \<longleftrightarrow> online e \<le> nr_cpus e \<and> nr_cpus e < 2 ^ 32 \<and>
     (\<forall>r. class_err e = Some r \<or> thread_err e = Some r \<or> chrdev_err e = Some r \<or> cdev_err e = Some r \<longrightarrow> 0 < r)"

text \<open>The callbacks of a registration, while no lower limit is set, never wake anybody.\<close>

lemma of_nat_less_32: "n < 2 ^ 32 \<Longrightarrow> unat (of_nat n :: 32 word) = n"
  by (simp add: unat_of_nat take_bit_nat_eq_self)

lemma times_online:
  "min_cpus st = 0 \<Longrightarrow> unat (online_cpus st) + n \<le> unat (max_cpus st) \<Longrightarrow>
    times n cpufreq_hp_online st = Some (st\<lparr>online_cpus := online_cpus st + of_nat n\<rparr>)"
proof (induction n arbitrary: st)
  case (Suc n)
  have lt: "online_cpus st < max_cpus st" using Suc.prems(2) by (simp add: word_less_nat_alt)
  let ?st = "st\<lparr>online_cpus := online_cpus st + 1\<rparr>"
  have "unat (online_cpus ?st) + n \<le> unat (max_cpus ?st)" using unat_up [OF lt] Suc.prems(2) by simp
  from Suc.IH [OF _ this] Suc.prems(1) have "times n cpufreq_hp_online ?st
      = Some (st\<lparr>online_cpus := online_cpus st + of_nat (Suc n)\<rparr>)"
    by (simp add: add.assoc)
  moreover have "\<not> max_cpus st < online_cpus st + 1"
    using unat_up [OF lt] Suc.prems(2) by (simp add: word_less_nat_alt)
  then have "cpufreq_hp_online st = Some ?st"
    using Suc.prems(1) by (simp add: cpufreq_hp_online_def need_adjuest_def Let_def)
  ultimately show ?case by simp
qed simp

lemma times_offline:
  "min_cpus st = 0 \<Longrightarrow> n \<le> unat (online_cpus st) \<Longrightarrow> online_cpus st \<le> max_cpus st \<Longrightarrow>
    \<exists>c. times n cpufreq_hp_offline st = Some (st\<lparr>online_cpus := c\<rparr>)"
proof (induction n arbitrary: st)
  case 0
  then show ?case by (intro exI [of _ "online_cpus st"]) simp
next
  case (Suc n)
  have pos: "0 < online_cpus st" using Suc.prems(2) by (simp add: word_less_nat_alt)
  let ?st = "st\<lparr>online_cpus := online_cpus st - 1\<rparr>"
  have le: "online_cpus st - 1 \<le> max_cpus st"
    using unat_down [OF pos] Suc.prems(3) by (simp add: word_le_nat_alt)
  from Suc.IH [of ?st] le Suc.prems unat_down [OF pos]
  have "\<exists>c. times n cpufreq_hp_offline ?st = Some (st\<lparr>online_cpus := c\<rparr>)" by simp
  moreover have "cpufreq_hp_offline st = Some ?st"
    using Suc.prems(1) le by (auto simp: cpufreq_hp_offline_def need_adjuest_def Let_def dest: leD)
  ultimately show ?case by simp
qed

text \<open>With the thread there, the callbacks are defined whatever the limits.\<close>

lemma times_offline_thread:
  "has_thread st \<Longrightarrow> \<exists>st'. times n cpufreq_hp_offline st = Some st' \<and> has_thread st'"
proof (induction n arbitrary: st)
  case (Suc n)
  have "\<exists>st1. cpufreq_hp_offline st = Some st1 \<and> has_thread st1"
    using Suc.prems by (simp add: cpufreq_hp_offline_def wake_defined Let_def)
  with Suc.IH show ?case by auto
qed simp

lemma remove_cpuhp_state_eq:
  assumes "min_cpus (cpuhp_stat s) = 0" and "online e \<le> unat (online_cpus (cpuhp_stat s))"
    and "online_cpus (cpuhp_stat s) \<le> max_cpus (cpuhp_stat s)" and "class_set s"
    and "held s = add_mset Cpuhp_state (add_mset Class H)"
  shows "\<exists>s'. remove_cpuhp_state e s = Some s' \<and> held s' = H \<and> \<not> class_set s' \<and> dev_set s' = dev_set s"
  using times_offline [OF assms(1-3)] assms(4,5)
  by (auto simp: remove_cpuhp_state_def cpuhp_remove_state_def destory_class_def drop_res_def)

text \<open>The module when its callbacks are registered and its thread runs: the common start of the later exits.\<close>

definition started :: "env \<Rightarrow> res multiset \<Rightarrow> cpu_hp \<Rightarrow> bool" where
  "started e H s \<longleftrightarrow> min_cpus (cpuhp_stat s) = 0 \<and> online_cpus (cpuhp_stat s) = of_nat (online e) \<and>
     max_cpus (cpuhp_stat s) = of_nat (nr_cpus e) \<and> class_set s \<and>
     held s = H + {#Class, Cpuhp_state#}"

lemma started_remove:
  assumes "env_ok e" and "started e H s"
  shows "\<exists>s'. remove_cpuhp_state e s = Some s' \<and> held s' = H \<and> \<not> class_set s' \<and> dev_set s' = dev_set s"
proof (rule remove_cpuhp_state_eq)
  show "online e \<le> unat (online_cpus (cpuhp_stat s))" "online_cpus (cpuhp_stat s) \<le> max_cpus (cpuhp_stat s)"
    using assms by (auto simp: started_def env_ok_def of_nat_less_32 word_le_nat_alt)
qed (use assms(2) in \<open>auto simp: started_def\<close>)

lemma exit_free_chrdev_region:
  assumes "env_ok e" and "started e (add_mset Chrdev H) s"
  shows "\<exists>s'. free_chrdev_region e s = Some s' \<and> held s' = H \<and> \<not> class_set s' \<and> dev_set s' = dev_set s"
proof -
  have "started e H (s\<lparr>held := H + {#Class, Cpuhp_state#}\<rparr>)" using assms(2) by (simp add: started_def)
  from started_remove [OF assms(1) this] assms(2) show ?thesis
    by (simp add: free_chrdev_region_def discard_def started_def)
qed

lemma exit_free_chrdev:
  assumes "env_ok e" and "started e (add_mset Memory (add_mset Chrdev H)) s" and "dev_set s"
  shows "\<exists>s'. free_chrdev e s = Some s' \<and> held s' = H \<and> \<not> class_set s' \<and> \<not> dev_set s'"
proof -
  have "started e (add_mset Chrdev H) (s\<lparr>held := add_mset Chrdev H + {#Class, Cpuhp_state#}, dev_set := False\<rparr>)"
    using assms(2) by (simp add: started_def)
  from exit_free_chrdev_region [OF assms(1) this] assms(2,3) show ?thesis
    by (simp add: free_chrdev_def drop_res_def release_def started_def)
qed

lemma exit_remove_cdev:
  assumes "env_ok e" and "started e (add_mset Cdev (add_mset Memory (add_mset Chrdev H))) s" and "dev_set s"
  shows "\<exists>s'. remove_cdev e s = Some s' \<and> held s' = H \<and> \<not> class_set s' \<and> \<not> dev_set s'"
proof -
  have "started e (add_mset Memory (add_mset Chrdev H))
      (s\<lparr>held := add_mset Memory (add_mset Chrdev H) + {#Class, Cpuhp_state#}\<rparr>)"
    using assms(2) by (simp add: started_def)
  from exit_free_chrdev [OF assms(1) this] assms(2,3) show ?thesis
    by (simp add: remove_cdev_def drop_res_def release_def started_def)
qed

lemma times_online_fresh:
  "env_ok e \<Longrightarrow> times (online e) cpufreq_hp_online
      \<lparr>min_cpus = 0, max_cpus = of_nat (nr_cpus e), has_thread = False, online_cpus = 0, wakes = 0\<rparr>
    = Some \<lparr>min_cpus = 0, max_cpus = of_nat (nr_cpus e), has_thread = False, online_cpus = of_nat (online e), wakes = 0\<rparr>"
  by (subst times_online) (simp_all add: env_ok_def of_nat_less_32)

definition ready_cpu_hp :: "env \<Rightarrow> res multiset \<Rightarrow> cpu_hp" where
  "ready_cpu_hp e H = \<lparr>cpuhp_stat = \<lparr>min_cpus = 0, max_cpus = of_nat (nr_cpus e), has_thread = True,
       online_cpus = of_nat (online e), wakes = 0\<rparr>, class_set = True, dev_set = False, held = H + {#Class, Cpuhp_state#}\<rparr>"

lemma init_eq:
  assumes "env_ok e"
  shows "cpu_hp_drv_init e (fresh h) = (case class_err e of
     Some r \<Rightarrow> Some (- r, fresh h)
   | None \<Rightarrow>
       if state_err e then Some (- ENOSYS, (fresh h)\<lparr>cpuhp_stat := (cpuhp_stat (fresh h))\<lparr>max_cpus := of_nat (nr_cpus e)\<rparr>\<rparr>)
       else (case thread_err e of
          Some r \<Rightarrow> do { s \<leftarrow> remove_cpuhp_state e ((ready_cpu_hp e h)\<lparr>cpuhp_stat := (cpuhp_stat (ready_cpu_hp e h))\<lparr>has_thread := False\<rparr>\<rparr>);
            Some (- r, s) }
        | None \<Rightarrow> load_rest e (ready_cpu_hp e (add_mset Kthread h))))"
  using times_online_fresh [OF assms]
  by (simp add: cpu_hp_drv_init_def fresh_def take_res_def acquire_def destory_class_def drop_res_def
      ready_cpu_hp_def load_rest_def add_mset_commute split: option.splits)

lemma started_ready: "started e H (ready_cpu_hp e H)"
  by (simp add: started_def ready_cpu_hp_def)

lemma started_take:
  "started e H s \<Longrightarrow> started e (add_mset r H) (take_res r s)"
  "started e H s \<Longrightarrow> started e H (s\<lparr>dev_set := d\<rparr>)"
  "dev_set (take_res r s) = dev_set s" "has_thread (cpuhp_stat (take_res r s)) = has_thread (cpuhp_stat s)"
  by (simp_all add: started_def take_res_def acquire_def)

lemma load_rest_eq:
  assumes "env_ok e" and "started e H s" and "has_thread (cpuhp_stat s)"
  shows "\<exists>r s'. load_rest e s = Some (r, s') \<and>
    (if chrdev_err e \<noteq> None \<or> \<not> alloc_ok e \<or> cdev_err e \<noteq> None then r < 0 \<and> held s' = H
     else if device_err e \<noteq> None then r = 0 \<and> held s' = H \<and> \<not> class_set s'
     else r = 0 \<and> class_set s' \<and> dev_set s' \<and> has_thread (cpuhp_stat s') \<and>
       held s' = H + {#Class, Cpuhp_state, Chrdev, Memory, Cdev, Device#})"
proof (cases "chrdev_err e")
  case (Some r)
  with started_remove [OF assms(1,2)] assms(1) show ?thesis by (auto simp: load_rest_def env_ok_def)
next
  case ce: None
  let ?s1 = "take_res Chrdev s"
  let ?s2 = "take_res Memory (?s1\<lparr>dev_set := True\<rparr>)"
  let ?s3 = "take_res Cdev ?s2"
  note s1 = started_take(1) [OF assms(2), of Chrdev]
  note s2 = started_take(1) [OF started_take(2) [OF s1], of Memory True]
  note s3 = started_take(1) [OF s2, of Cdev]
  have set: "dev_set ?s2" "dev_set ?s3" by (simp_all add: take_res_def)
  show ?thesis
  proof (cases "alloc_ok e")
    case False
    with exit_free_chrdev_region [OF assms(1) s1] ce show ?thesis by (auto simp: load_rest_def errnos)
  next
    case al: True
    show ?thesis
    proof (cases "cdev_err e")
      case (Some r)
      with exit_free_chrdev [OF assms(1) s2 set(1)] ce al assms(1) show ?thesis
        by (auto simp: load_rest_def env_ok_def)
    next
      case cd: None
      show ?thesis
      proof (cases "device_err e")
        case (Some r)
        with exit_remove_cdev [OF assms(1) s3 set(2)] ce al cd show ?thesis by (auto simp: load_rest_def)
      next
        case None
        with ce al cd assms(2,3) show ?thesis
          by (simp add: load_rest_def started_def take_res_def acquire_def)
      qed
    qed
  qed
qed

lemma exit_eq:
  assumes "held s = H + {#Class, Cpuhp_state, Chrdev, Memory, Cdev, Device#}" and "class_set s" and "dev_set s"
    and "has_thread (cpuhp_stat s)"
  shows "\<exists>s'. cpu_hp_drv_exit e s = Some s' \<and> held s' = H"
  using times_offline_thread [OF assms(4), of "online e"] assms(1-3)
  by (auto simp: cpu_hp_drv_exit_def drop_res_def release_def discard_def cpuhp_remove_state_def destory_class_def)

text \<open>
  C21. Loading and unloading the module, whatever kernel calls fail. A load that fails before the
  control thread exists returns an error and leaves nothing behind; one that fails later leaves the
  thread behind. When only the last call, \<open>device_create\<close>, fails, everything but the thread is
  torn down and yet 0 is returned, so the module stays loaded and unloading it removes hotplug
  callbacks it no longer holds. A complete load holds all seven objects, and unloading it gives back six:
  the thread is never stopped.
\<close>

theorem cpuhp_lifecycle:
  assumes "env_ok e" and "Cpuhp_state \<notin># h"
  shows "\<exists>r s. cpu_hp_drv_init e (fresh h) = Some (r, s) \<and>
    (if class_err e \<noteq> None \<or> state_err e \<or> thread_err e \<noteq> None then r < 0 \<and> held s = h
     else if chrdev_err e \<noteq> None \<or> \<not> alloc_ok e \<or> cdev_err e \<noteq> None then r < 0 \<and> held s = h + {#Kthread#}
     else if device_err e \<noteq> None then r = 0 \<and> held s = h + {#Kthread#} \<and> cpu_hp_drv_exit e s = None
     else r = 0 \<and> held s = h + {#Kthread, Class, Cpuhp_state, Chrdev, Memory, Cdev, Device#} \<and>
       (\<exists>s'. cpu_hp_drv_exit e s = Some s' \<and> held s' = h + {#Kthread#}))"
proof (cases "class_err e \<noteq> None \<or> state_err e \<or> thread_err e \<noteq> None")
  case True
  let ?s = "(ready_cpu_hp e h)\<lparr>cpuhp_stat := (cpuhp_stat (ready_cpu_hp e h))\<lparr>has_thread := False\<rparr>\<rparr>"
  have "started e h ?s" by (simp add: started_def ready_cpu_hp_def)
  from started_remove [OF assms(1) this] obtain s where s: "remove_cpuhp_state e ?s = Some s" "held s = h" by blast
  have fh: "held (fresh h) = h" by (simp add: fresh_def)
  show ?thesis
  proof (cases "class_err e")
    case (Some r)
    with assms(1) fh show ?thesis by (simp add: init_eq env_ok_def)
  next
    case None
    with True s fh assms(1) show ?thesis
      by (cases "state_err e"; cases "thread_err e") (auto simp: init_eq env_ok_def errnos)
  qed
next
  case False
  let ?H = "add_mset Kthread h"
  have "has_thread (cpuhp_stat (ready_cpu_hp e ?H))" by (simp add: ready_cpu_hp_def)
  from load_rest_eq [OF assms(1) started_ready this] obtain r s where
    rs: "load_rest e (ready_cpu_hp e ?H) = Some (r, s)"
      "if chrdev_err e \<noteq> None \<or> \<not> alloc_ok e \<or> cdev_err e \<noteq> None then r < 0 \<and> held s = ?H
       else if device_err e \<noteq> None then r = 0 \<and> held s = ?H \<and> \<not> class_set s
       else r = 0 \<and> class_set s \<and> dev_set s \<and> has_thread (cpuhp_stat s) \<and>
         held s = ?H + {#Class, Cpuhp_state, Chrdev, Memory, Cdev, Device#}" by blast
  have "cpu_hp_drv_init e (fresh h) = Some (r, s)"
    using rs(1) False by (simp add: init_eq [OF assms(1)] split: option.splits)
  moreover have "cpu_hp_drv_exit e s = None" if "held s = ?H"
    using that assms(2) in_diffD [of Cpuhp_state h "{#Chrdev, Device#}"]
    by (cases "dev_set s") (auto simp: Let_def cpu_hp_drv_exit_def cpuhp_remove_state_def drop_res_def release_def discard_def
        split: Option.bind_splits dest!: in_diffD)
  moreover have "\<exists>s'. cpu_hp_drv_exit e s = Some s' \<and> held s' = ?H"
    if "held s = ?H + {#Class, Cpuhp_state, Chrdev, Memory, Cdev, Device#}" "class_set s" "dev_set s"
      "has_thread (cpuhp_stat s)"
    by (rule exit_eq [OF that])
  ultimately show ?thesis using rs(2) False
    by (intro exI [of _ r] exI [of _ s]) (auto simp: add_mset_commute split: if_splits)
qed

definition good_env :: env where
  "good_env = \<lparr>class_err = None, state_err = False, thread_err = None, chrdev_err = None, alloc_ok = True,
     cdev_err = None, device_err = None, online = 4, nr_cpus = 8\<rparr>"

theorem cpuhp_lifecycle_witness:
  "\<exists>s s' r. cpu_hp_drv_init (good_env\<lparr>device_err := Some 12\<rparr>) (fresh {#}) = Some (0, s) \<and>
    cpu_hp_drv_exit (good_env\<lparr>device_err := Some 12\<rparr>) s = None \<and>
    cpu_hp_drv_init (good_env\<lparr>cdev_err := Some 12\<rparr>) (fresh {#}) = Some (r, s') \<and> r < 0 \<and> held s' = {#Kthread#}"
  using cpuhp_lifecycle [of "good_env\<lparr>device_err := Some 12\<rparr>" "{#}"]
    cpuhp_lifecycle [of "good_env\<lparr>cdev_err := Some 12\<rparr>" "{#}"]
  by (auto simp: env_ok_def good_env_def)

end
