(* ===== verification/CpuFreq.thy ===== *)
theory CpuFreq
  imports Kernel
begin

text \<open>
  The module \<open>kernel_module/qos/cpufreq-qos.c\<close>: one device file per processor, through which a
  program puts limits on its frequency. The operations of the file, the policy notifier, and
  loading and unloading with every failing kernel call are modelled. A policy is known by its
  number; a frequency request is known by its value.
\<close>

section \<open>State\<close>

record cpu_data =
  policy :: "nat option"
  dmin :: "32 word"
  dmax :: "32 word"
  cdev_ready :: bool
  has_dev :: bool

datatype res =
    Class | Chrdev nat | Notifier | Cdev nat | Device nat | Symlink nat | Policy_ref nat
  | Handle | Request_min | Request_max

record freq_mod =
  per_cpu :: "nat \<Rightarrow> cpu_data"
  class_set :: bool
  dev_major :: nat
  held :: "res multiset"

definition on_cpu :: "nat \<Rightarrow> (cpu_data \<Rightarrow> cpu_data) \<Rightarrow> freq_mod \<Rightarrow> freq_mod" where
  "on_cpu c f s = s\<lparr>per_cpu := (per_cpu s)(c := f (per_cpu s c))\<rparr>"

definition take_res :: "res \<Rightarrow> freq_mod \<Rightarrow> freq_mod" where
  "take_res r s = s\<lparr>held := acquire r (held s)\<rparr>"

definition lose_res :: "res \<Rightarrow> freq_mod \<Rightarrow> freq_mod" where
  "lose_res r s = s\<lparr>held := discard r (held s)\<rparr>"

section \<open>The notifier\<close>

datatype event = CPUFREQ_CREATE_POLICY | CPUFREQ_REMOVE_POLICY

primrec perf_qos_adjust_notify :: "event \<Rightarrow> nat \<Rightarrow> nat list \<Rightarrow> freq_mod \<Rightarrow> freq_mod" where
  "perf_qos_adjust_notify ev p [] s = s"
| "perf_qos_adjust_notify ev p (i # related) s =
     perf_qos_adjust_notify ev p related
       (on_cpu i (\<lambda>d. d\<lparr>policy := case ev of CPUFREQ_CREATE_POLICY \<Rightarrow> Some p | CPUFREQ_REMOVE_POLICY \<Rightarrow> None\<rparr>) s)"

section \<open>The device file\<close>

record handle =
  hcpu :: nat
  req_min :: "32 word"
  req_max :: "32 word"

text \<open>
  Opening allocates the handle and adds two requests to the policy of the processor, following its
  pointer. The error exits keep what was taken so far, and the kernel does not call \<open>close\<close> for an
  open that failed.
\<close>

definition cpu_freq_qos_open ::
    "nat \<Rightarrow> bool \<Rightarrow> int \<Rightarrow> int \<Rightarrow> 32 word \<times> 32 word \<Rightarrow> freq_mod \<Rightarrow> (int \<times> handle option \<times> freq_mod) option" where
  "cpu_freq_qos_open c alloc_ok add_min add_max defaults s =
     (if \<not> alloc_ok then Some (- ENOMEM, None, s)
      else do {
        let s = take_res Handle s;
        _ \<leftarrow> policy (per_cpu s c);
        if add_min < 0 then Some (add_min, None, s)
        else do {
          let s = take_res Request_min s;
          if add_max < 0 then Some (add_max, None, s)
          else Some (0, Some \<lparr>hcpu = c, req_min = fst defaults, req_max = snd defaults\<rparr>, take_res Request_max s) } })"

definition cpu_freq_qos_close :: "handle \<Rightarrow> freq_mod \<Rightarrow> (int \<times> freq_mod) option" where
  "cpu_freq_qos_close h s = do {
     let s = lose_res Request_max (lose_res Request_min s);
     m \<leftarrow> release Handle (held s);
     Some (0, s\<lparr>held := m\<rparr>) }"

text \<open>\<open>targets\<close> are the limits the policy currently aggregates from all requests.\<close>

definition cpu_freq_qos_read :: "32 word \<times> 32 word \<Rightarrow> nat \<Rightarrow> nat \<Rightarrow> byte list \<Rightarrow> int \<times> byte list" where
  "cpu_freq_qos_read targets n pos buf =
     (if n < 8 then (- ENOBUFS, buf)
      else if pos \<noteq> 0 then (0, buf)
      else (case put_s32 buf 0 (fst targets) of
              None \<Rightarrow> (- EFAULT, buf)
            | Some buf \<Rightarrow>
                (case put_s32 buf 4 (snd targets) of
                   None \<Rightarrow> (- EFAULT, buf)
                 | Some buf \<Rightarrow> (8, buf))))"

text \<open>\<open>upd_min\<close> and \<open>upd_max\<close> are what the two updates of the requests return.\<close>

definition cpu_freq_qos_write ::
    "int \<Rightarrow> int \<Rightarrow> handle \<Rightarrow> freq_mod \<Rightarrow> nat \<Rightarrow> nat \<Rightarrow> byte list \<Rightarrow> int \<times> handle \<times> freq_mod" where
  "cpu_freq_qos_write upd_min upd_max h s n pos buf =
     (if pos \<noteq> 0 then (- ENOBUFS, h, s)
      else if policy (per_cpu s (hcpu h)) = None then (- ENOENT, h, s)
      else if n \<noteq> 8 then (- EINVAL, h, s)
      else (case get_s32 buf 0 of
              None \<Rightarrow> (- EFAULT, h, s)
            | Some mn \<Rightarrow>
                (case get_s32 buf 4 of
                   None \<Rightarrow> (- EFAULT, h, s)
                 | Some mx \<Rightarrow>
                     let s = on_cpu (hcpu h) (\<lambda>d. d\<lparr>dmin := mn, dmax := mx\<rparr>) s;
                         writen = (0 :: int);
                         (h, writen) = (if upd_min \<ge> 0 then (h\<lparr>req_min := mn\<rparr>, writen + 4) else (h, writen));
                         (h, writen) = (if upd_max \<ge> 0 then (h\<lparr>req_max := mx\<rparr>, writen + 4) else (h, writen))
                     in (if writen = int n then writen else - EINVAL, h, s))))"

section \<open>Loading and unloading\<close>

record env =
  class_err :: "int option"
  region_err :: "int option"
  notifier_err :: "int option"
  major :: nat
  minor :: nat
  cpu_policy :: "nat \<Rightarrow> nat option"
  cdev_err :: "nat \<Rightarrow> int option"
  device_err :: "nat \<Rightarrow> int option"
  link_ok :: "nat \<Rightarrow> bool"

text \<open>The link from the processor's own device, which is only missing when it cannot be made.\<close>

definition add_cpu_dev_symlink :: "env \<Rightarrow> nat \<Rightarrow> freq_mod \<Rightarrow> freq_mod" where
  "add_cpu_dev_symlink e c s = (if link_ok e c then take_res (Symlink c) s else s)"

definition remove_cpu_dev_symlink :: "nat \<Rightarrow> freq_mod \<Rightarrow> freq_mod" where
  "remove_cpu_dev_symlink c s = lose_res (Symlink c) s"

declare add_cpu_dev_symlink_def [simp] remove_cpu_dev_symlink_def [simp]

text \<open>
  The loop over the processors of \<open>cpu_freq_qos_drv_init\<close>: \<open>Some r\<close> is a jump to \<open>FAIL\<close> with \<open>ret = r\<close>.
  As in the other module the error of \<open>device_create\<close> is taken from the pointer after it was
  set to null.
\<close>

definition setup_cpu :: "env \<Rightarrow> nat \<Rightarrow> freq_mod \<Rightarrow> int option \<times> freq_mod" where
  "setup_cpu e c s =
     (let s = on_cpu c (\<lambda>d. d\<lparr>policy := cpu_policy e c, cdev_ready := True\<rparr>) s;
          s = (case cpu_policy e c of None \<Rightarrow> s | Some p \<Rightarrow> take_res (Policy_ref p) s)
      in (case cdev_err e c of
            Some r \<Rightarrow> (Some (- r), s)
          | None \<Rightarrow>
              let s = take_res (Cdev c) s in
              (case device_err e c of
                 Some r \<Rightarrow> (Some 0, on_cpu c (\<lambda>d. d\<lparr>has_dev := False\<rparr>) s)
               | None \<Rightarrow>
                   let s = take_res (Device c) (on_cpu c (\<lambda>d. d\<lparr>has_dev := True\<rparr>) s)
                   in (None, add_cpu_dev_symlink e c s))))"

primrec setup_cpus :: "env \<Rightarrow> nat list \<Rightarrow> freq_mod \<Rightarrow> int option \<times> freq_mod" where
  "setup_cpus e [] s = (None, s)"
| "setup_cpus e (c # cs) s =
     (case setup_cpu e c s of
        (Some r, s) \<Rightarrow> (Some r, s)
      | (None, s) \<Rightarrow> setup_cpus e cs s)"

text \<open>
  The body of the loops behind \<open>FAIL\<close> and in \<open>cpu_freq_qos_drv_exit\<close>. Deleting a character device
  that was never initialised, and dropping a reference through a null policy, are undefined.
\<close>

definition teardown_cpu :: "nat \<Rightarrow> freq_mod \<Rightarrow> freq_mod option" where
  "teardown_cpu c s = do {
     let s = remove_cpu_dev_symlink c s;
     let s = lose_res (Device c) s;
     s \<leftarrow> (if cdev_ready (per_cpu s c) then Some (on_cpu c (\<lambda>d. d\<lparr>cdev_ready := False\<rparr>) (lose_res (Cdev c) s))
          else None);
     p \<leftarrow> policy (per_cpu s c);
     m \<leftarrow> release (Policy_ref p) (held s);
     Some (on_cpu c (\<lambda>d. d\<lparr>policy := None\<rparr>) (s\<lparr>held := m\<rparr>)) }"

primrec teardown_cpus :: "nat list \<Rightarrow> freq_mod \<Rightarrow> freq_mod option" where
  "teardown_cpus [] s = Some s"
| "teardown_cpus (c # cs) s = do { s \<leftarrow> teardown_cpu c s; teardown_cpus cs s }"

definition destory_class :: "freq_mod \<Rightarrow> freq_mod option" where
  "destory_class s =
     (if class_set s then do { m \<leftarrow> release Class (held s); Some (s\<lparr>held := m, class_set := False\<rparr>) } else Some s)"

definition unregister_cpufreq_notifier :: "freq_mod \<Rightarrow> freq_mod option" where
  "unregister_cpufreq_notifier s = destory_class (lose_res Notifier s)"

definition FAIL :: "nat list \<Rightarrow> freq_mod \<Rightarrow> freq_mod option" where
  "FAIL cpus s = do {
     s \<leftarrow> teardown_cpus cpus s;
     unregister_cpufreq_notifier (lose_res (Chrdev 0) s) }"

definition cpu_freq_qos_drv_init :: "env \<Rightarrow> nat list \<Rightarrow> freq_mod \<Rightarrow> (int \<times> freq_mod) option" where
  "cpu_freq_qos_drv_init e cpus s = (case class_err e of
     Some r \<Rightarrow> Some (- r, s\<lparr>class_set := False\<rparr>)
   | None \<Rightarrow> do {
       let s = take_res Class (s\<lparr>class_set := True\<rparr>);
       (case region_err e of
          Some r \<Rightarrow> do { s \<leftarrow> destory_class s; Some (- r, s) }
        | None \<Rightarrow> do {
            let s = take_res (Chrdev (minor e)) (s\<lparr>dev_major := major e\<rparr>);
            (case notifier_err e of
               Some r \<Rightarrow> do { s \<leftarrow> unregister_cpufreq_notifier s; Some (- r, s) }
             | None \<Rightarrow>
                 (case setup_cpus e cpus (take_res Notifier s) of
                    (None, s) \<Rightarrow> Some (0, s)
                  | (Some r, s) \<Rightarrow> do { s \<leftarrow> FAIL cpus s; Some (r, s) })) }) })"

text \<open>Behind the loop of the exit, \<open>devno\<close> is the number of the last processor's device.\<close>

definition cpu_freq_qos_drv_exit :: "nat list \<Rightarrow> freq_mod \<Rightarrow> freq_mod option" where
  "cpu_freq_qos_drv_exit cpus s = do {
     s \<leftarrow> teardown_cpus cpus s;
     let s = lose_res Notifier s;
     let s = (if dev_major s \<noteq> 0 then lose_res (Chrdev (if cpus = [] then 0 else last cpus)) s else s);
     destory_class s }"

section \<open>The loops\<close>

definition good_cpu :: "env \<Rightarrow> nat \<Rightarrow> bool" where
  "good_cpu e c \<longleftrightarrow> cdev_err e c = None \<and> device_err e c = None"

text \<open>What one processor holds: the reference to its policy, and those of three objects it got so far.\<close>

definition cpu_res :: "nat \<Rightarrow> nat \<Rightarrow> bool \<Rightarrow> bool \<Rightarrow> bool \<Rightarrow> res multiset" where
  "cpu_res p c a b l = {#Policy_ref p#} + (if a then {#Cdev c#} else {#}) + (if b then {#Device c#} else {#}) +
     (if l then {#Symlink c#} else {#})"

definition clean :: "nat \<Rightarrow> res multiset \<Rightarrow> bool" where
  "clean c H \<longleftrightarrow> Cdev c \<notin># H \<and> Device c \<notin># H \<and> Symlink c \<notin># H"

lemma setup_cpu_good:
  assumes "good_cpu e c" and "cpu_policy e c = Some p"
  shows "\<exists>s'. setup_cpu e c s = (None, s') \<and> held s' = held s + cpu_res p c True True (link_ok e c) \<and>
    class_set s' = class_set s \<and> dev_major s' = dev_major s \<and>
    per_cpu s' = (per_cpu s)(c := (per_cpu s c)\<lparr>policy := Some p, cdev_ready := True, has_dev := True\<rparr>)"
  using assms by (auto simp: setup_cpu_def good_cpu_def cpu_res_def on_cpu_def take_res_def acquire_def Let_def)

lemma setup_cpu_bad:
  assumes "\<not> good_cpu e c" and "cpu_policy e c = Some p"
  shows "\<exists>s' hd. setup_cpu e c s = (Some (case cdev_err e c of None \<Rightarrow> 0 | Some r \<Rightarrow> - r), s') \<and>
    held s' = held s + cpu_res p c (cdev_err e c = None) False False \<and>
    class_set s' = class_set s \<and> dev_major s' = dev_major s \<and>
    per_cpu s' = (per_cpu s)(c := (per_cpu s c)\<lparr>policy := Some p, cdev_ready := True, has_dev := hd\<rparr>)"
proof (cases "cdev_err e c")
  case None
  with assms show ?thesis
    by (auto simp: setup_cpu_def good_cpu_def cpu_res_def on_cpu_def take_res_def acquire_def Let_def
        intro!: exI [of _ False])
next
  case (Some r)
  with assms show ?thesis
    by (auto simp: setup_cpu_def good_cpu_def cpu_res_def on_cpu_def take_res_def acquire_def Let_def
        intro!: exI [of _ "has_dev (per_cpu s c)"])
qed

definition pol :: "env \<Rightarrow> nat \<Rightarrow> nat" where
  "pol e c = the (cpu_policy e c)"

definition full_res :: "env \<Rightarrow> nat \<Rightarrow> res multiset" where
  "full_res e c = cpu_res (pol e c) c True True (link_ok e c)"

lemma setup_cpus_good:
  "\<forall>c\<in>set xs. good_cpu e c \<and> cpu_policy e c \<noteq> None \<Longrightarrow>
    \<exists>s'. setup_cpus e xs s = (None, s') \<and> held s' = held s + (\<Sum>c\<leftarrow>xs. full_res e c) \<and>
      class_set s' = class_set s \<and> dev_major s' = dev_major s \<and>
      (\<forall>c. if c \<in> set xs then cdev_ready (per_cpu s' c) \<and> policy (per_cpu s' c) = Some (pol e c)
           else per_cpu s' c = per_cpu s c)"
proof (induction xs arbitrary: s)
  case (Cons x xs)
  then have "good_cpu e x" "cpu_policy e x = Some (pol e x)" by (auto simp: pol_def)
  from setup_cpu_good [OF this, of s] obtain s1 where
    s1: "setup_cpu e x s = (None, s1)" "held s1 = held s + full_res e x" "class_set s1 = class_set s"
      "dev_major s1 = dev_major s"
      "per_cpu s1 = (per_cpu s)(x := (per_cpu s x)\<lparr>policy := Some (pol e x), cdev_ready := True, has_dev := True\<rparr>)"
    by (auto simp: full_res_def)
  from Cons.IH [of s1] Cons.prems obtain s' where
    s': "setup_cpus e xs s1 = (None, s')" "held s' = held s1 + (\<Sum>c\<leftarrow>xs. full_res e c)"
      "class_set s' = class_set s1" "dev_major s' = dev_major s1"
      "\<forall>c. if c \<in> set xs then cdev_ready (per_cpu s' c) \<and> policy (per_cpu s' c) = Some (pol e c)
           else per_cpu s' c = per_cpu s1 c" by auto
  have "if c \<in> set (x # xs) then cdev_ready (per_cpu s' c) \<and> policy (per_cpu s' c) = Some (pol e c)
      else per_cpu s' c = per_cpu s c" for c
    using spec [OF s'(5), of c] s1(5) by (auto split: if_splits)
  with s1 s' show ?case by (simp add: add.assoc)
qed simp

lemma setup_cpus_append: "setup_cpus e (xs @ ys) s =
    (case setup_cpus e xs s of (Some r, s) \<Rightarrow> (Some r, s) | (None, s) \<Rightarrow> setup_cpus e ys s)"
  by (induction xs arbitrary: s) (auto split: prod.splits option.splits)

lemma teardown_cpu_eq:
  assumes "cdev_ready (per_cpu s c)" and "policy (per_cpu s c) = Some p"
    and "held s = H + cpu_res p c a b l" and "clean c H"
  shows "\<exists>s'. teardown_cpu c s = Some s' \<and> held s' = H \<and> class_set s' = class_set s \<and> dev_major s' = dev_major s \<and>
    (\<forall>d. d \<noteq> c \<longrightarrow> per_cpu s' d = per_cpu s d)"
  using assms
  by (cases a; cases b; cases l)
    (auto simp: teardown_cpu_def on_cpu_def lose_res_def cpu_res_def clean_def release_def discard_def
      add_mset_commute Let_def)

lemma clean_plus: "clean c (A + B) \<longleftrightarrow> clean c A \<and> clean c B"
  by (auto simp: clean_def)

lemma clean_cpu_res: "clean c (cpu_res p d a b l) \<longleftrightarrow> (d = c \<longrightarrow> \<not> a \<and> \<not> b \<and> \<not> l)"
  by (cases a; cases b; cases l) (simp_all add: clean_def cpu_res_def eq_commute [of c d])

lemma clean_cpus: "clean c (H + (\<Sum>d\<leftarrow>cs. cpu_res (p d) d (a d) (b d) (l d)))
    \<longleftrightarrow> clean c H \<and> (\<forall>d\<in>set cs. d = c \<longrightarrow> \<not> a d \<and> \<not> b d \<and> \<not> l d)"
  by (induction cs) (auto simp: clean_plus clean_cpu_res)

lemma teardown_cpus_eq:
  "\<forall>c\<in>set cs. cdev_ready (per_cpu s c) \<and> policy (per_cpu s c) = Some (p c) \<and> clean c H \<Longrightarrow> distinct cs \<Longrightarrow>
    held s = H + (\<Sum>c\<leftarrow>cs. cpu_res (p c) c (a c) (b c) (l c)) \<Longrightarrow>
    \<exists>s'. teardown_cpus cs s = Some s' \<and> held s' = H \<and> class_set s' = class_set s \<and> dev_major s' = dev_major s"
proof (induction cs arbitrary: s)
  case (Cons c cs)
  let ?H = "H + (\<Sum>c\<leftarrow>cs. cpu_res (p c) c (a c) (b c) (l c))"
  have "clean c ?H" using Cons.prems(1,2) by (auto simp: clean_cpus)
  moreover have "held s = ?H + cpu_res (p c) c (a c) (b c) (l c)" using Cons.prems(3) by (simp add: add_ac)
  ultimately obtain s1 where
    s1: "teardown_cpu c s = Some s1" "held s1 = ?H" "class_set s1 = class_set s" "dev_major s1 = dev_major s"
      "\<forall>d. d \<noteq> c \<longrightarrow> per_cpu s1 d = per_cpu s d"
    using teardown_cpu_eq [of s c "p c" ?H "a c" "b c" "l c"] Cons.prems(1) by auto
  have "\<forall>d\<in>set cs. cdev_ready (per_cpu s1 d) \<and> policy (per_cpu s1 d) = Some (p d) \<and> clean d H"
    using Cons.prems(1,2) s1(5) by (metis distinct.simps(2) list.set_intros(2))
  from Cons.IH [OF this _ s1(2)] Cons.prems(2) s1 show ?case by auto
qed simp

lemma teardown_cpus_append: "teardown_cpus (xs @ ys) s = do { s \<leftarrow> teardown_cpus xs s; teardown_cpus ys s }"
  by (induction xs arbitrary: s) (auto split: Option.bind_splits)

text \<open>A processor the loop did not come to stops the tear-down for good.\<close>

lemma teardown_cpu_other: "teardown_cpu c s = Some s' \<Longrightarrow> d \<noteq> c \<Longrightarrow> per_cpu s' d = per_cpu s d"
  by (simp add: teardown_cpu_def on_cpu_def lose_res_def Let_def split: Option.bind_split_asm if_split_asm)
    auto

lemma teardown_cpus_unready: "d \<in> set cs \<Longrightarrow> \<not> cdev_ready (per_cpu s d) \<Longrightarrow> distinct cs \<Longrightarrow> teardown_cpus cs s = None"
proof (induction cs arbitrary: s)
  case (Cons c cs)
  show ?case
  proof (cases "teardown_cpu c s")
    case (Some s1)
    then have "d \<noteq> c" using Cons.prems(2) by (simp add: teardown_cpu_def lose_res_def Let_def split: if_split_asm) auto
    with Some Cons.IH [of s1] Cons.prems teardown_cpu_other [OF Some this] show ?thesis by auto
  qed simp
qed simp

section \<open>What loading and unloading leave behind\<close>

definition fresh :: freq_mod where
  "fresh = \<lparr>per_cpu = (\<lambda>_. \<lparr>policy = None, dmin = 0, dmax = 0, cdev_ready = False, has_dev = False\<rparr>),
     class_set = False, dev_major = 0, held = {#}\<rparr>"

definition env_ok :: "env \<Rightarrow> nat list \<Rightarrow> bool" where
  "env_ok e cpus \<longleftrightarrow> distinct cpus \<and> cpus \<noteq> [] \<and> major e \<noteq> 0 \<and> (\<forall>c\<in>set cpus. cpu_policy e c \<noteq> None) \<and>
     (\<forall>r. class_err e = Some r \<or> region_err e = Some r \<or> notifier_err e = Some r \<longrightarrow> 0 < r)"

text \<open>The state in which the loop over the processors starts.\<close>

definition looping :: "env \<Rightarrow> freq_mod" where
  "looping e = fresh\<lparr>class_set := True, dev_major := major e, held := {#Notifier, Chrdev (minor e), Class#}\<rparr>"

lemma init_loop:
  "class_err e = None \<Longrightarrow> region_err e = None \<Longrightarrow> notifier_err e = None \<Longrightarrow>
    cpu_freq_qos_drv_init e cpus fresh = (case setup_cpus e cpus (looping e) of
      (None, s) \<Rightarrow> Some (0, s) | (Some r, s) \<Rightarrow> do { s \<leftarrow> FAIL cpus s; Some (r, s) })"
  by (simp add: cpu_freq_qos_drv_init_def looping_def fresh_def take_res_def acquire_def)

lemma clean_start: "clean c {#Notifier, Chrdev m, Class#}"
  by (simp add: clean_def)

text \<open>Where the loop stops: the processors before it are complete, the ones behind it untouched.\<close>

lemma loop_stops:
  assumes "env_ok e cpus" and "cpus = xs @ c # ys" and "\<forall>d\<in>set xs. good_cpu e d" and "\<not> good_cpu e c"
  obtains s where "setup_cpus e cpus (looping e) = (Some (case cdev_err e c of None \<Rightarrow> 0 | Some r \<Rightarrow> - r), s)"
    and "held s = {#Notifier, Chrdev (minor e), Class#} + (\<Sum>c\<leftarrow>xs. full_res e c) +
      cpu_res (pol e c) c (cdev_err e c = None) False False" and "class_set s"
    and "\<And>d. d \<in> set xs \<or> d = c \<Longrightarrow> cdev_ready (per_cpu s d) \<and> policy (per_cpu s d) = Some (pol e d)"
    and "\<And>d. d \<in> set ys \<Longrightarrow> \<not> cdev_ready (per_cpu s d)"
proof -
  have pol: "\<forall>d\<in>set xs. good_cpu e d \<and> cpu_policy e d \<noteq> None" "cpu_policy e c = Some (pol e c)"
    and dist: "distinct cpus"
    using assms(1-3) by (auto simp: env_ok_def pol_def)
  from setup_cpus_good [OF pol(1), of "looping e"] obtain s1 where
    s1: "setup_cpus e xs (looping e) = (None, s1)" "held s1 = {#Notifier, Chrdev (minor e), Class#} + (\<Sum>c\<leftarrow>xs. full_res e c)"
      "class_set s1"
      "\<forall>d. if d \<in> set xs then cdev_ready (per_cpu s1 d) \<and> policy (per_cpu s1 d) = Some (pol e d)
           else per_cpu s1 d = per_cpu (looping e) d"
    by (auto simp: looping_def)
  from setup_cpu_bad [OF assms(4) pol(2), of s1] obtain s2 hd where
    s2: "setup_cpu e c s1 = (Some (case cdev_err e c of None \<Rightarrow> 0 | Some r \<Rightarrow> - r), s2)"
      "held s2 = held s1 + cpu_res (pol e c) c (cdev_err e c = None) False False" "class_set s2 = class_set s1"
      "per_cpu s2 = (per_cpu s1)(c := (per_cpu s1 c)\<lparr>policy := Some (pol e c), cdev_ready := True, has_dev := hd\<rparr>)"
    by blast
  show thesis
  proof
    show "setup_cpus e cpus (looping e) = (Some (case cdev_err e c of None \<Rightarrow> 0 | Some r \<Rightarrow> - r), s2)"
      using s1(1) s2(1) by (simp add: assms(2) setup_cpus_append)
    show "cdev_ready (per_cpu s2 d) \<and> policy (per_cpu s2 d) = Some (pol e d)" if "d \<in> set xs \<or> d = c" for d
      using that spec [OF s1(4), of d] s2(4) by auto
    show "\<not> cdev_ready (per_cpu s2 d)" if "d \<in> set ys" for d
    proof -
      have "d \<notin> set xs" "d \<noteq> c" using that dist assms(2) by auto
      with spec [OF s1(4), of d] s2(4) show ?thesis by (simp add: looping_def fresh_def)
    qed
  qed (use s1 s2 in simp_all)
qed

lemma loop_fails:
  assumes "env_ok e cpus" and "cpus = xs @ c # ys" and "\<forall>d\<in>set xs. good_cpu e d" and "\<not> good_cpu e c"
  shows "\<exists>s. setup_cpus e cpus (looping e) = (Some (case cdev_err e c of None \<Rightarrow> 0 | Some r \<Rightarrow> - r), s) \<and>
    (ys \<noteq> [] \<longrightarrow> FAIL cpus s = None) \<and>
    (ys = [] \<longrightarrow> (\<exists>s'. FAIL cpus s = Some s' \<and> held s' = discard (Chrdev 0) {#Chrdev (minor e)#}))"
proof -
  have dist: "distinct cpus" using assms(1) by (simp add: env_ok_def)
  from loop_stops [OF assms] obtain s where
    run: "setup_cpus e cpus (looping e) = (Some (case cdev_err e c of None \<Rightarrow> 0 | Some r \<Rightarrow> - r), s)"
    and held_s: "held s = {#Notifier, Chrdev (minor e), Class#} + (\<Sum>c\<leftarrow>xs. full_res e c) +
      cpu_res (pol e c) c (cdev_err e c = None) False False" and "class_set s"
    and set_up: "\<And>d. d \<in> set xs \<or> d = c \<Longrightarrow> cdev_ready (per_cpu s d) \<and> policy (per_cpu s d) = Some (pol e d)"
    and untouched: "\<And>d. d \<in> set ys \<Longrightarrow> \<not> cdev_ready (per_cpu s d)" by blast
  have "FAIL cpus s = None" if ne: "ys \<noteq> []"
  proof -
    obtain d where "d \<in> set ys" using ne by (cases ys) auto
    with untouched teardown_cpus_unready [of d cpus s] dist show ?thesis by (simp add: FAIL_def assms(2))
  qed
  moreover have "\<exists>s'. FAIL cpus s = Some s' \<and> held s' = discard (Chrdev 0) {#Chrdev (minor e)#}" if "ys = []"
  proof -
    let ?a = "\<lambda>d. d \<noteq> c \<or> cdev_err e c = None" and ?b = "\<lambda>d. d \<noteq> c" and ?l = "\<lambda>d. d \<noteq> c \<and> link_ok e d"
    have cx: "x \<noteq> c" if "x \<in> set xs" for x using dist assms(2) that by auto
    then have "(\<Sum>c\<leftarrow>xs. full_res e c) = (\<Sum>d\<leftarrow>xs. cpu_res (pol e d) d (?a d) (?b d) (?l d))"
      by (intro arg_cong [where f = sum_list] map_cong) (simp_all add: full_res_def)
    then have h: "held s = {#Notifier, Chrdev (minor e), Class#} + (\<Sum>d\<leftarrow>cpus. cpu_res (pol e d) d (?a d) (?b d) (?l d))"
      using held_s that by (simp add: assms(2) add_ac)
    have "\<forall>d\<in>set cpus. cdev_ready (per_cpu s d) \<and> policy (per_cpu s d) = Some (pol e d) \<and>
        clean d {#Notifier, Chrdev (minor e), Class#}"
      using set_up that by (auto simp: assms(2) clean_start)
    from teardown_cpus_eq [OF this dist h] \<open>class_set s\<close> obtain s3 where
      "teardown_cpus cpus s = Some s3" "held s3 = {#Notifier, Chrdev (minor e), Class#}" "class_set s3"
      by auto
    then show ?thesis
      by (auto simp: FAIL_def unregister_cpufreq_notifier_def destory_class_def lose_res_def release_def discard_def)
  qed
  ultimately show ?thesis using run by blast
qed

lemma loop_succeeds:
  assumes "env_ok e cpus" and "\<forall>d\<in>set cpus. good_cpu e d"
  shows "\<exists>s s'. setup_cpus e cpus (looping e) = (None, s) \<and>
    held s = {#Notifier, Chrdev (minor e), Class#} + (\<Sum>c\<leftarrow>cpus. full_res e c) \<and>
    cpu_freq_qos_drv_exit cpus s = Some s' \<and> held s' = discard (Chrdev (last cpus)) {#Chrdev (minor e)#}"
proof -
  have "\<forall>d\<in>set cpus. good_cpu e d \<and> cpu_policy e d \<noteq> None" using assms by (auto simp: env_ok_def)
  from setup_cpus_good [OF this, of "looping e"] obtain s where
    s: "setup_cpus e cpus (looping e) = (None, s)" "class_set s" "dev_major s = major e"
      "held s = {#Notifier, Chrdev (minor e), Class#} + (\<Sum>c\<leftarrow>cpus. full_res e c)"
      "\<forall>d\<in>set cpus. cdev_ready (per_cpu s d) \<and> policy (per_cpu s d) = Some (pol e d)"
    by (auto simp: looping_def)
  have "\<forall>d\<in>set cpus. cdev_ready (per_cpu s d) \<and> policy (per_cpu s d) = Some (pol e d) \<and>
      clean d {#Notifier, Chrdev (minor e), Class#}" using s(5) by (simp add: clean_start)
  from teardown_cpus_eq [OF this _ s(4) [unfolded full_res_def]] assms(1) obtain s3 where
    "teardown_cpus cpus s = Some s3" "held s3 = {#Notifier, Chrdev (minor e), Class#}" "class_set s3"
      "dev_major s3 = major e"
    using s(2,3) by (auto simp: env_ok_def)
  with assms(1) s(1,4) show ?thesis
    by (cases "minor e = last cpus") (auto simp: cpu_freq_qos_drv_exit_def destory_class_def lose_res_def release_def discard_def env_ok_def)
qed

text \<open>
  Loading and unloading the per-processor files, when every processor has a policy. An early
  failure is undone, but one of the notifier leaves the device numbers reserved. When the device
  of a processor cannot be added or created, the tear-down runs over all processors: unless it was
  the last one, it deletes a device that was never initialised; and for the failure of
  \<open>device_create\<close> the module then returns 0. A complete load is undone by unloading, up to the
  device numbers, which stay reserved unless the last processor's number is the base of the region.
\<close>

theorem cpufreq_lifecycle:
  assumes "env_ok e cpus"
  shows "let init = cpu_freq_qos_drv_init e cpus fresh in
    if class_err e \<noteq> None \<or> region_err e \<noteq> None then \<exists>r s. init = Some (r, s) \<and> r < 0 \<and> held s = {#}
    else if notifier_err e \<noteq> None then \<exists>r s. init = Some (r, s) \<and> r < 0 \<and> held s = {#Chrdev (minor e)#}
    else (case dropWhile (good_cpu e) cpus of
        [] \<Rightarrow> \<exists>s s'. init = Some (0, s) \<and>
          held s = {#Notifier, Chrdev (minor e), Class#} + (\<Sum>c\<leftarrow>cpus. full_res e c) \<and>
          cpu_freq_qos_drv_exit cpus s = Some s' \<and> held s' = discard (Chrdev (last cpus)) {#Chrdev (minor e)#}
      | c # ys \<Rightarrow>
          if ys \<noteq> [] then init = None
          else \<exists>s. init = Some (case cdev_err e c of None \<Rightarrow> 0 | Some r \<Rightarrow> - r, s) \<and>
            held s = discard (Chrdev 0) {#Chrdev (minor e)#})"
proof (cases "class_err e \<noteq> None \<or> region_err e \<noteq> None \<or> notifier_err e \<noteq> None")
  case True
  with assms show ?thesis
    by (auto simp: cpu_freq_qos_drv_init_def fresh_def take_res_def acquire_def destory_class_def release_def
        unregister_cpufreq_notifier_def lose_res_def discard_def env_ok_def Let_def split: option.splits)
next
  case False
  then have init: "cpu_freq_qos_drv_init e cpus fresh = (case setup_cpus e cpus (looping e) of
      (None, s) \<Rightarrow> Some (0, s) | (Some r, s) \<Rightarrow> do { s \<leftarrow> FAIL cpus s; Some (r, s) })"
    by (intro init_loop) auto
  show ?thesis
  proof (cases "dropWhile (good_cpu e) cpus")
    case Nil
    then have "\<forall>d\<in>set cpus. good_cpu e d" by (simp add: dropWhile_eq_Nil_conv)
    from loop_succeeds [OF assms this] False init Nil show ?thesis
      by (auto simp: Let_def simp del: dropWhile_eq_Nil_conv)
  next
    case (Cons c ys)
    then have "cpus = takeWhile (good_cpu e) cpus @ c # ys" "\<not> good_cpu e c"
      by (metis takeWhile_dropWhile_id, metis dropWhile_eq_Cons_conv)
    moreover have "\<forall>d\<in>set (takeWhile (good_cpu e) cpus). good_cpu e d" by (auto dest: set_takeWhileD)
    ultimately obtain s where
      "setup_cpus e cpus (looping e) = (Some (case cdev_err e c of None \<Rightarrow> 0 | Some r \<Rightarrow> - r), s)"
      "ys \<noteq> [] \<longrightarrow> FAIL cpus s = None"
      "ys = [] \<longrightarrow> (\<exists>s'. FAIL cpus s = Some s' \<and> held s' = discard (Chrdev 0) {#Chrdev (minor e)#})"
      using loop_fails [OF assms] by blast
    with False init Cons show ?thesis by (auto simp: Let_def)
  qed
qed

definition good_env :: env where
  "good_env = \<lparr>class_err = None, region_err = None, notifier_err = None, major = 240, minor = 0,
     cpu_policy = Some, cdev_err = (\<lambda>_. None), device_err = (\<lambda>_. None), link_ok = (\<lambda>_. True)\<rparr>"

theorem cpufreq_lifecycle_witness:
  "(\<exists>s s'. cpu_freq_qos_drv_init good_env [0, 1] fresh = Some (0, s) \<and>
      cpu_freq_qos_drv_exit [0, 1] s = Some s' \<and> held s' = {#Chrdev 0#}) \<and>
    cpu_freq_qos_drv_init (good_env\<lparr>device_err := (\<lambda>_. Some 12)\<rparr>) [0, 1] fresh = None \<and>
    (\<exists>s. cpu_freq_qos_drv_init (good_env\<lparr>device_err := (\<lambda>_. Some 12)\<rparr>) [0] fresh = Some (0, s))"
  using cpufreq_lifecycle [of good_env "[0, 1]"]
    cpufreq_lifecycle [of "good_env\<lparr>device_err := (\<lambda>_. Some 12)\<rparr>" "[0, 1]"]
    cpufreq_lifecycle [of "good_env\<lparr>device_err := (\<lambda>_. Some 12)\<rparr>" "[0]"]
  by (auto simp: env_ok_def good_env_def good_cpu_def Let_def)

section \<open>Using a file\<close>

text \<open>
  A file of a processor with a policy. Opened and closed, it gives back what it took; an open
  that fails keeps the handle, and also the first request when it is the second that fails. A write
  of two limits returns 8 when the policy accepts both, and \<open>-EINVAL\<close> when it refuses one, although
  the other one and the recorded limits have changed by then.
\<close>

theorem cpufreq_file:
  assumes "policy (per_cpu s c) = Some p" and "get_pair buf = Some (mn, mx)"
  shows "(\<exists>r h s'. cpu_freq_qos_open c True add_min add_max defaults s = Some (r, h, s') \<and>
      (if add_min < 0 then r < 0 \<and> h = None \<and> held s' = held s + {#Handle#}
       else if add_max < 0 then r < 0 \<and> h = None \<and> held s' = held s + {#Handle, Request_min#}
       else \<exists>hn s''. r = 0 \<and> h = Some hn \<and> hcpu hn = c \<and> cpu_freq_qos_close hn s' = Some (0, s'') \<and> s'' = s)) \<and>
    (hcpu hn = c \<longrightarrow> (\<exists>r hn' s'. cpu_freq_qos_write upd_min upd_max hn s 8 0 buf = (r, hn', s') \<and>
      dmin (per_cpu s' c) = mn \<and> dmax (per_cpu s' c) = mx \<and> held s' = held s \<and>
      req_min hn' = (if upd_min \<ge> 0 then mn else req_min hn) \<and> req_max hn' = (if upd_max \<ge> 0 then mx else req_max hn) \<and>
      r = (if upd_min \<ge> 0 \<and> upd_max \<ge> 0 then 8 else - EINVAL)))"
proof
  show "\<exists>r h s'. cpu_freq_qos_open c True add_min add_max defaults s = Some (r, h, s') \<and>
      (if add_min < 0 then r < 0 \<and> h = None \<and> held s' = held s + {#Handle#}
       else if add_max < 0 then r < 0 \<and> h = None \<and> held s' = held s + {#Handle, Request_min#}
       else \<exists>hn s''. r = 0 \<and> h = Some hn \<and> hcpu hn = c \<and> cpu_freq_qos_close hn s' = Some (0, s'') \<and> s'' = s)"
    using assms(1)
    by (cases "add_min < 0"; cases "add_max < 0")
      (simp_all add: cpu_freq_qos_open_def cpu_freq_qos_close_def take_res_def lose_res_def acquire_def release_def
        discard_def add_mset_commute)
next
  show "hcpu hn = c \<longrightarrow> (\<exists>r hn' s'. cpu_freq_qos_write upd_min upd_max hn s 8 0 buf = (r, hn', s') \<and>
      dmin (per_cpu s' c) = mn \<and> dmax (per_cpu s' c) = mx \<and> held s' = held s \<and>
      req_min hn' = (if upd_min \<ge> 0 then mn else req_min hn) \<and> req_max hn' = (if upd_max \<ge> 0 then mx else req_max hn) \<and>
      r = (if upd_min \<ge> 0 \<and> upd_max \<ge> 0 then 8 else - EINVAL))"
    using assms
    by (auto simp: cpu_freq_qos_write_def get_pair_def on_cpu_def Let_def errnos split: Option.bind_splits)
qed

theorem cpufreq_file_witness:
  "\<exists>r h s'. cpu_freq_qos_open 0 True 1 (- 12) (0, 0) (fresh\<lparr>per_cpu := (\<lambda>_. (per_cpu fresh 0)\<lparr>policy := Some 0\<rparr>)\<rparr>)
    = Some (r, h, s') \<and> r < 0 \<and> held s' = {#Handle, Request_min#}"
proof -
  have "get_pair [0, 0, 0, 0, 0, 0, 0, 0] = Some (0, 0)" by (simp add: get_pair_def get_s32_def le_word_def)
  from cpufreq_file [OF _ this, of "fresh\<lparr>per_cpu := (\<lambda>_. (per_cpu fresh 0)\<lparr>policy := Some 0\<rparr>)\<rparr>" 0 0 1 "- 12" "(0, 0)", THEN conjunct1]
  show ?thesis by (auto simp: fresh_def)
qed

end
