(* ===== verification/CString.thy ===== *)
theory CString
  imports Prelude
begin

text \<open>
  Strings of C as lists of characters: the functions of the C library that several components use,
  with the properties their parsers need. The end of the list is the terminating 0.
\<close>

section \<open>\<open>strsep\<close>\<close>

text \<open>\<open>strsep\<close> with the separator \<open>;\<close> cuts the string into its fields, empty ones included.\<close>

fun strsep :: "string \<Rightarrow> string \<times> string option" where
  "strsep [] = ([], None)"
| "strsep (c # cs) = (if c = CHR '';'' then ([], Some cs) else let (t, r) = strsep cs in (c # t, r))"

lemma strsep_shorter: "snd (strsep cs) = Some r \<Longrightarrow> length r < length cs"
  by (induction cs) (auto split: if_splits prod.splits)

text \<open>The specification of a loop over \<open>strsep\<close>: the string, split at the separators.\<close>

fun sep_fields :: "string \<Rightarrow> string list" where
  "sep_fields [] = [[]]"
| "sep_fields (c # cs) = (if c = CHR '';'' then [] # sep_fields cs
     else case sep_fields cs of [] \<Rightarrow> [[c]] | f # fs \<Rightarrow> (c # f) # fs)"

lemma sep_fields_strsep: "sep_fields cs = fst (strsep cs) # (case snd (strsep cs) of None \<Rightarrow> [] | Some r \<Rightarrow> sep_fields r)"
  by (induction cs) (auto split: prod.splits option.splits)

section \<open>\<open>fgets\<close> and \<open>strchr\<close>\<close>

abbreviation newline :: char where
  "newline \<equiv> CHR 0x0A"

primrec cut :: "nat \<Rightarrow> string \<Rightarrow> string \<times> string" where
  "cut 0 cs = ([], cs)"
| "cut (Suc n) cs = (case cs of
     [] \<Rightarrow> ([], [])
   | c # cs \<Rightarrow> if c = newline then ([c], cs) else let (l, r) = cut n cs in (c # l, r))"

text \<open>At most \<open>n - 1\<close> characters up to and with the next newline, and the rest of the file.\<close>

definition fgets :: "nat \<Rightarrow> string \<Rightarrow> (string \<times> string) option" where
  "fgets n cs = (if cs = [] then None else Some (cut (n - 1) cs))"

text \<open>A buffer read as a string: up to its first 0.\<close>

definition cstr :: "string \<Rightarrow> string" where
  "cstr cs = takeWhile (\<lambda>c. c \<noteq> CHR 0x00) cs"

text \<open>What is in front of the first character \<open>x\<close> and what is behind it, if there is one.\<close>

fun split_at :: "char \<Rightarrow> string \<Rightarrow> (string \<times> string) option" where
  "split_at x [] = None"
| "split_at x (c # cs) = (if c = x then Some ([], cs) else map_option (\<lambda>(a, b). (c # a, b)) (split_at x cs))"

lemma cut_shorter: "length (snd (cut n cs)) \<le> length cs"
  by (induction n arbitrary: cs) (auto split: list.splits prod.splits, metis le_Suc_eq snd_conv)

lemma fgets_shorter: "fgets n cs = Some (l, r) \<Longrightarrow> 2 \<le> n \<Longrightarrow> length r < length cs"
proof -
  assume a: "fgets n cs = Some (l, r)" "2 \<le> n"
  then obtain c cs' k where "cs = c # cs'" "n - 1 = Suc k" by (cases cs; cases "n - 1") (auto simp: fgets_def)
  with a cut_shorter [of k cs'] show ?thesis by (auto simp: fgets_def split: if_splits prod.splits)
qed

lemma cut_line: "newline \<notin> set l \<Longrightarrow> length l < n \<Longrightarrow> cut n (l @ newline # rest) = (l @ [newline], rest)"
  by (induction l arbitrary: n) (case_tac n; auto)+

lemma fgets_line: "newline \<notin> set l \<Longrightarrow> length l + 1 < n \<Longrightarrow> fgets n (l @ newline # rest) = Some (l @ [newline], rest)"
  by (simp add: fgets_def cut_line)

lemma split_at_first: "x \<notin> set a \<Longrightarrow> split_at x (a @ x # b) = Some (a, b)"
  by (induction a) auto

lemma cstr_id: "CHR 0x00 \<notin> set cs \<Longrightarrow> cstr cs = cs"
  by (auto simp: cstr_def intro: takeWhile_eq_all_conv [THEN iffD2])

lemma cstr_append: "CHR 0x00 \<notin> set a \<Longrightarrow> cstr (a @ b) = a @ cstr b"
  by (induction a) (auto simp: cstr_def)

lemma sep_fields_join:
  "\<forall>c\<in>set cols. CHR '';'' \<notin> set c \<Longrightarrow> cols \<noteq> [] \<Longrightarrow> sep_fields (concat (map (\<lambda>c. c @ '';'') (butlast cols)) @ last cols) = cols"
proof (induction cols)
  case (Cons c cols)
  have one: "CHR '';'' \<notin> set c \<Longrightarrow> sep_fields c = [c]" for c by (induction c) auto
  have more: "CHR '';'' \<notin> set c \<Longrightarrow> sep_fields (c @ CHR '';'' # r) = c # sep_fields r" for c r
    by (induction c) (auto split: list.splits)
  from Cons show ?case by (auto simp: one more)
qed simp

section \<open>Numbers\<close>

text \<open>The output of a number by \<open>%lx\<close> and \<open>%lu\<close>.\<close>

function digits_in :: "nat \<Rightarrow> nat \<Rightarrow> string" where
  "digits_in b n = (if b < 2 \<or> n < b then [''0123456789abcdef'' ! (n mod 16)]
     else digits_in b (n div b) @ [''0123456789abcdef'' ! (n mod b mod 16)])"
  by auto
termination
  by (relation "measure snd") auto

declare digits_in.simps [simp del]

definition lower :: string where "lower = ''0123456789abcdef''"

definition upper :: string where "upper = ''0123456789ABCDEF''"

text \<open>A string that spells the digits \<open>vs\<close>, in either case, and its value.\<close>

definition spells :: "string \<Rightarrow> nat list \<Rightarrow> bool" where
  "spells cs vs \<longleftrightarrow> list_all2 (\<lambda>c v. v < 16 \<and> (c = lower ! v \<or> c = upper ! v)) cs vs"

definition hex_value :: "nat list \<Rightarrow> nat" where
  "hex_value vs = fold (\<lambda>v n. 16 * n + v) vs 0"

lemma hex_value_Nil [simp]: "hex_value [] = 0"
  by (simp add: hex_value_def)

lemma hex_value_snoc [simp]: "hex_value (vs @ [v]) = 16 * hex_value vs + v"
  by (simp add: hex_value_def)

lemma hex_value_append: "hex_value (us @ vs) = 16 ^ length vs * hex_value us + hex_value vs"
  by (induction vs rule: rev_induct) (simp_all add: algebra_simps flip: append_assoc)

lemma spells_append: "spells cs us \<Longrightarrow> spells ds vs \<Longrightarrow> spells (cs @ ds) (us @ vs)"
  by (simp add: spells_def list_all2_appendI)

lemma digits_in_spells: "\<exists>vs. spells (digits_in 16 n) vs \<and> hex_value vs = n"
proof (induction "16 :: nat" n rule: digits_in.induct)
  case (1 n)
  show ?case
  proof (cases "n < 16")
    case True
    then show ?thesis
      using hex_value_snoc [of "[]" n] by (intro exI [of _ "[n]"]) (simp add: digits_in.simps spells_def lower_def)
  next
    case False
    with 1 obtain vs where "spells (digits_in 16 (n div 16)) vs" "hex_value vs = n div 16" by auto
    moreover have "spells [''0123456789abcdef'' ! (n mod 16)] [n mod 16]"
      by (simp add: spells_def lower_def)
    ultimately show ?thesis using False
      by (intro exI [of _ "vs @ [n mod 16]"]) (subst digits_in.simps, auto simp: spells_append)
  qed
qed

text \<open>The value of a hexadecimal digit, and \<open>strtoll\<close> in base 16: blanks, a sign, a prefix, digits.\<close>

definition hexval :: "char \<Rightarrow> nat option" where
  "hexval c = List.find (\<lambda>v. c = lower ! v \<or> c = upper ! v) [0..<16]"

definition isspace :: "char \<Rightarrow> bool" where
  "isspace c \<longleftrightarrow> c = CHR '' '' \<or> (9 :: nat) \<le> of_char c \<and> of_char c \<le> (13 :: nat)"

definition strip_prefix :: "string \<Rightarrow> string" where
  "strip_prefix s = (case s of
     a # x # d # _ \<Rightarrow> if a = CHR ''0'' \<and> (x = CHR ''x'' \<or> x = CHR ''X'') \<and> hexval d \<noteq> None then drop 2 s else s
   | _ \<Rightarrow> s)"

definition strtoll16 :: "string \<Rightarrow> int" where
  "strtoll16 str =
     (let s = dropWhile isspace str;
          neg = (s \<noteq> [] \<and> hd s = CHR ''-'');
          s = (if s \<noteq> [] \<and> hd s \<in> {CHR ''-'', CHR ''+''} then tl s else s);
          ds = takeWhile (\<lambda>c. hexval c \<noteq> None) (strip_prefix s);
          v = int (hex_value (map (\<lambda>c. the (hexval c)) ds));
          v = (if neg then - v else v)
      in max (- (2 ^ 63)) (min (2 ^ 63 - 1) v))"

lemma hexval_table: "list_all (\<lambda>v. hexval (lower ! v) = Some v \<and> hexval (upper ! v) = Some v \<and>
    \<not> isspace (lower ! v) \<and> \<not> isspace (upper ! v)) [0..<16]"
  by code_simp

lemma hexval_spelled: "v < 16 \<Longrightarrow> c = lower ! v \<or> c = upper ! v \<Longrightarrow> hexval c = Some v \<and> \<not> isspace c"
  using hexval_table by (auto simp: list_all_iff)

lemma spelled_digits: "spells cs vs \<Longrightarrow> takeWhile (\<lambda>c. hexval c \<noteq> None) cs = cs \<and> map (\<lambda>c. the (hexval c)) cs = vs"
proof (induction cs vs rule: list_induct2')
  case (4 c cs v vs)
  then show ?case using hexval_spelled [of v c] by (auto simp: spells_def)
qed (simp_all add: spells_def)

lemma strtoll16_spelled:
  assumes "spells cs vs" and "cs \<noteq> []" and "hex_value vs < 2 ^ 63"
  shows "strtoll16 (''0x'' @ cs) = int (hex_value vs)"
proof -
  obtain c cs' v vs' where cv: "cs = c # cs'" "vs = v # vs'" "v < 16" "c = lower ! v \<or> c = upper ! v"
    using assms(1,2) by (cases cs; cases vs) (auto simp: spells_def)
  have "strip_prefix (''0x'' @ cs) = cs" using hexval_spelled [OF cv(3,4)] cv(1) by (simp add: strip_prefix_def)
  moreover have "dropWhile isspace (''0x'' @ cs) = ''0x'' @ cs" by (simp add: isspace_def)
  ultimately show ?thesis using spelled_digits [OF assms(1)] assms(3)
    by (simp add: strtoll16_def Let_def del: not_None_eq takeWhile_eq_all_conv)
qed

end
