(* ===== verification/DevFreq.thy ===== *)
theory DevFreq
  imports Kernel CString
begin

text \<open>
  The module \<open>kernel_module/qos/devfreq-qos.c\<close>: a device file for every device named in the module
  parameter \<open>devfreq_compatibles\<close>, through which a program puts limits on its frequency. A device
  tree node and a frequency device are known by their numbers; user memory is as in \<open>Kernel\<close>.
\<close>

section \<open>State\<close>

definition NR_DEVFREQS :: nat where
  "NR_DEVFREQS = 10"

definition HZ_PER_KHZ :: int where
  "HZ_PER_KHZ = 1000"

record qos_dev =
  qmin :: "32 word"
  qmax :: "32 word"
  qminor :: nat
  df :: nat

datatype res =
    Class | Chrdev nat | Memory nat | Cdev nat | Device nat | Compat_string | Node_ref
  | Handle | Request_min | Request_max

record devfreq_mod =
  class_set :: bool
  dev_major :: nat
  dev_minor :: nat
  devices :: "qos_dev list"
  held :: "res multiset"

definition take_res :: "res \<Rightarrow> devfreq_mod \<Rightarrow> devfreq_mod" where
  "take_res r s = s\<lparr>held := acquire r (held s)\<rparr>"

definition lose_res :: "res \<Rightarrow> devfreq_mod \<Rightarrow> devfreq_mod" where
  "lose_res r s = s\<lparr>held := discard r (held s)\<rparr>"

section \<open>The device file\<close>

record handle =
  req_min :: "32 word"
  req_max :: "32 word"

definition dev_freq_qos_open ::
    "bool \<Rightarrow> int \<Rightarrow> int \<Rightarrow> 32 word \<times> 32 word \<Rightarrow> devfreq_mod \<Rightarrow> int \<times> handle option \<times> devfreq_mod" where
  "dev_freq_qos_open alloc_ok add_min add_max defaults s =
     (if \<not> alloc_ok then (- ENOMEM, None, s)
      else let s = take_res Handle s in
        if add_min < 0 then (add_min, None, s)
        else let s = take_res Request_min s in
          if add_max < 0 then (add_max, None, s)
          else (0, Some \<lparr>req_min = fst defaults, req_max = snd defaults\<rparr>, take_res Request_max s))"

definition dev_freq_qos_close :: "handle \<Rightarrow> devfreq_mod \<Rightarrow> (int \<times> devfreq_mod) option" where
  "dev_freq_qos_close h s = do {
     let s = lose_res Request_max (lose_res Request_min s);
     m \<leftarrow> release Handle (held s);
     Some (0, s\<lparr>held := m\<rparr>) }"

text \<open>The limits are kept in kHz; the kernel's arithmetic on \<open>s32\<close> wraps around.\<close>

definition dev_freq_qos_read :: "qos_dev \<Rightarrow> nat \<Rightarrow> nat \<Rightarrow> byte list \<Rightarrow> int \<times> byte list" where
  "dev_freq_qos_read d n pos buf =
     (if n < 8 then (- ENOBUFS, buf)
      else if pos \<noteq> 0 then (0, buf)
      else (case put_s32 buf 0 (qmin d * of_int HZ_PER_KHZ) of
              None \<Rightarrow> (- EFAULT, buf)
            | Some buf \<Rightarrow>
                (case put_s32 buf 4 (qmax d * of_int HZ_PER_KHZ) of
                   None \<Rightarrow> (- EFAULT, buf)
                 | Some buf \<Rightarrow> (8, buf))))"

definition khz :: "32 word \<Rightarrow> 32 word" where
  "khz w = word_of_int (sint w sdiv HZ_PER_KHZ)"

text \<open>
  A write: the limits are stored before the two requests are updated. \<open>get_dev_status\<close> is called
  without asking whether the driver has it (\<open>has_status\<close>).
\<close>

definition dev_freq_qos_write ::
    "bool \<Rightarrow> int \<Rightarrow> int \<Rightarrow> handle \<times> qos_dev \<Rightarrow> nat \<Rightarrow> nat \<Rightarrow> byte list \<Rightarrow> (int \<times> handle \<times> qos_dev) option" where
  "dev_freq_qos_write has_status upd_min upd_max hq n pos buf = (case hq of (h, d) \<Rightarrow>
     (if pos \<noteq> 0 then Some (- ENOBUFS, h, d)
      else if n \<noteq> 8 then Some (- EINVAL, h, d)
      else (case get_s32 buf 0 of
              None \<Rightarrow> Some (- EFAULT, h, d)
            | Some mn \<Rightarrow>
                (case get_s32 buf 4 of
                   None \<Rightarrow> Some (- EFAULT, h, d)
                 | Some mx \<Rightarrow>
                     let d = d\<lparr>qmin := khz mn, qmax := khz mx\<rparr>;
                         writen = (0 :: int);
                         (h, writen) = (if upd_min \<ge> 0 then (h\<lparr>req_min := qmin d\<rparr>, writen + 4) else (h, writen));
                         (h, writen) = (if upd_max \<ge> 0 then (h\<lparr>req_max := qmax d\<rparr>, writen + 4) else (h, writen))
                     in if writen \<noteq> int n then Some (- EINVAL, h, d)
                        else if \<not> has_status then None
                        else Some (writen, h, d)))))"

section \<open>Registering devices\<close>

text \<open>
  The environment of a load. Looking a frequency device up by its node answers a pointer that is
  null, an error in disguise, or a device; only null is tested for.
\<close>

datatype df_ptr = Df_null | Df_err int | Df nat

record env =
  class_err :: "int option"
  region_err :: "int option"
  major :: nat
  compatibles :: string
  strdup_ok :: bool
  node :: "string \<Rightarrow> nat option"
  devfreq_of :: "nat \<Rightarrow> df_ptr"
  alloc_ok :: "nat \<Rightarrow> bool"
  cdev_err :: "nat \<Rightarrow> int option"
  device_err :: "nat \<Rightarrow> int option"

text \<open>The error exit \<open>free_dev\<close>, to which \<open>cdev_del\<close> falls through.\<close>

definition free_dev :: "nat \<Rightarrow> devfreq_mod \<Rightarrow> devfreq_mod option" where
  "free_dev mn s = do {
     m \<leftarrow> release (Memory mn) (held s);
     Some (s\<lparr>dev_minor := dev_minor s - 1, held := m\<rparr>) }"

definition cdev_del :: "nat \<Rightarrow> devfreq_mod \<Rightarrow> devfreq_mod option" where
  "cdev_del mn s = do {
     m \<leftarrow> release (Cdev mn) (held s);
     free_dev mn (s\<lparr>held := m\<rparr>) }"

definition devfreq_qos_register_by_compatible :: "env \<Rightarrow> string \<Rightarrow> devfreq_mod \<Rightarrow> (int \<times> devfreq_mod) option" where
  "devfreq_qos_register_by_compatible e compatible s =
     (if dev_minor s \<ge> NR_DEVFREQS - 1 then Some (- ENODATA, s)
      else (case node e compatible of
        None \<Rightarrow> Some (- ENOENT, s)
      | Some np \<Rightarrow>
          let s = take_res Node_ref s in
          (case devfreq_of e np of
             Df_null \<Rightarrow> Some (- ENODEV, s)
           | p \<Rightarrow>
               let mn = dev_minor s in
               if \<not> alloc_ok e mn then Some (- ENOMEM, s)
               else
                 let s = take_res (Memory mn) (s\<lparr>dev_minor := dev_minor s + 1\<rparr>) in
                 (case cdev_err e mn of
                    Some r \<Rightarrow> do { s \<leftarrow> free_dev mn s; Some (- r, s) }
                  | None \<Rightarrow>
                      let s = take_res (Cdev mn) s in
                      (case p of
                         Df d \<Rightarrow>
                           (case device_err e mn of
                              Some r \<Rightarrow> do { s \<leftarrow> cdev_del mn s; Some (- r, s) }
                            | None \<Rightarrow>
                                Some (0, take_res (Device mn) (s\<lparr>devices := devices s @
                                  [\<lparr>qmin = 0, qmax = 0, qminor = mn, df = d\<rparr>]\<rparr>)))
                       | _ \<Rightarrow> None)))))"

function register_all :: "env \<Rightarrow> string option \<Rightarrow> devfreq_mod \<Rightarrow> devfreq_mod option" where
  "register_all e None s = Some s"
| "register_all e (Some sep) s = do {
     (_, s') \<leftarrow> devfreq_qos_register_by_compatible e (fst (strsep sep)) s;
     register_all e (snd (strsep sep)) s' }"
  by pat_completeness auto
termination
  by (relation "measure (\<lambda>(e, sep, s). case sep of None \<Rightarrow> 0 | Some cs \<Rightarrow> Suc (length cs))")
    (auto split: option.splits dest: strsep_shorter)

definition destory_class :: "devfreq_mod \<Rightarrow> devfreq_mod option" where
  "destory_class s =
     (if class_set s then do { m \<leftarrow> release Class (held s); Some (s\<lparr>held := m, class_set := False\<rparr>) } else Some s)"

text \<open>Behind the loop \<open>sep\<close> is null, so \<open>kfree(sep)\<close> frees nothing and the copy is lost.\<close>

definition dev_freq_qos_drv_init :: "env \<Rightarrow> devfreq_mod \<Rightarrow> (int \<times> devfreq_mod) option" where
  "dev_freq_qos_drv_init e s = (case (if class_set s then None else class_err e) of
     Some r \<Rightarrow> Some (- r, s\<lparr>class_set := False\<rparr>)
   | None \<Rightarrow>
       let s = (if class_set s then s else take_res Class (s\<lparr>class_set := True\<rparr>)) in
       (case region_err e of
          Some r \<Rightarrow> do { s \<leftarrow> destory_class s; Some (- r, s) }
        | None \<Rightarrow> do {
            let s = take_res (Chrdev (dev_minor s)) (s\<lparr>dev_major := major e\<rparr>);
            s \<leftarrow> (if strdup_ok e then register_all e (Some (compatibles e)) (take_res Compat_string s)
                 else register_all e None s);
            Some (0, s) }))"

text \<open>The exit calls \<open>devfreq_qos_destory\<close> for every device of the class.\<close>

definition devfreq_qos_destory :: "qos_dev \<Rightarrow> devfreq_mod \<Rightarrow> devfreq_mod option" where
  "devfreq_qos_destory d s = do {
     let s = lose_res (Device (qminor d)) s;
     m \<leftarrow> release (Cdev (qminor d)) (held s);
     Some (s\<lparr>held := m, dev_minor := dev_minor s - 1\<rparr>) }"

primrec destory_all :: "qos_dev list \<Rightarrow> devfreq_mod \<Rightarrow> devfreq_mod option" where
  "destory_all [] s = Some (s\<lparr>devices := []\<rparr>)"
| "destory_all (d # ds) s = do { s \<leftarrow> devfreq_qos_destory d s; destory_all ds s }"

definition dev_freq_qos_drv_exit :: "devfreq_mod \<Rightarrow> devfreq_mod option" where
  "dev_freq_qos_drv_exit s = do {
     s \<leftarrow> destory_all (devices s) s;
     let s = (if dev_major s \<noteq> 0 then lose_res (Chrdev 0) s else s);
     destory_class s }"

section \<open>The device file keeps its contract\<close>

lemma devfreq_read_pair:
  assumes "8 \<le> n" and "8 \<le> length buf"
  shows "fst (dev_freq_qos_read d n 0 buf) = 8 \<and>
    get_pair (snd (dev_freq_qos_read d n 0 buf)) = Some (qmin d * of_int HZ_PER_KHZ, qmax d * of_int HZ_PER_KHZ)"
  using put_pair [OF assms(2), of "qmin d * of_int HZ_PER_KHZ" "qmax d * of_int HZ_PER_KHZ"] assms(1)
  by (auto simp: dev_freq_qos_read_def)

interpretation devfreq: limits_file
  "\<lambda>hq. (qmin (snd hq) * of_int HZ_PER_KHZ, qmax (snd hq) * of_int HZ_PER_KHZ)"
  "\<lambda>w. khz w * of_int HZ_PER_KHZ" "\<lambda>hq. dev_freq_qos_read (snd hq)"
  "\<lambda>hq n pos buf. map_option (\<lambda>(r, hq). (r, hq)) (dev_freq_qos_write True 0 0 hq n pos buf)" "\<lambda>hq. True"
proof unfold_locales
  fix n :: nat and buf :: "byte list" and hq :: "handle \<times> qos_dev"
  assume "8 \<le> n" "8 \<le> length buf"
  then show "fst (dev_freq_qos_read (snd hq) n 0 buf) = 8 \<and> get_pair (snd (dev_freq_qos_read (snd hq) n 0 buf))
      = Some (qmin (snd hq) * of_int HZ_PER_KHZ, qmax (snd hq) * of_int HZ_PER_KHZ)"
    by (rule devfreq_read_pair)
next
  fix hq :: "handle \<times> qos_dev" and buf a b
  assume "get_pair buf = Some (a, b)"
  then show "\<exists>s'. map_option (\<lambda>(r, hq). (r, hq)) (dev_freq_qos_write True 0 0 hq 8 0 buf) = Some (8, s') \<and> True \<and>
      (qmin (snd s') * of_int HZ_PER_KHZ, qmax (snd s') * of_int HZ_PER_KHZ)
        = (khz a * of_int HZ_PER_KHZ, khz b * of_int HZ_PER_KHZ)"
    by (auto simp: dev_freq_qos_write_def get_pair_def Let_def split: Option.bind_splits prod.splits)
qed

text \<open>Cutting a limit to whole kHz loses less than one of them and keeps its sign.\<close>

lemma khz_sint: "sint (khz w * of_int HZ_PER_KHZ) = sint w sdiv HZ_PER_KHZ * HZ_PER_KHZ"
proof -
  have r: "- (2 ^ 31) \<le> sint w" "sint w < 2 ^ 31"
    using sint_greater_eq [of w] sint_less [of w] by simp_all
  have "- (2 ^ 31) \<le> sint w sdiv HZ_PER_KHZ * HZ_PER_KHZ \<and> sint w sdiv HZ_PER_KHZ * HZ_PER_KHZ < 2 ^ 31"
    using r by (auto simp: signed_divide_int_def HZ_PER_KHZ_def sgn_if)
  then have "sint (word_of_int (sint w sdiv HZ_PER_KHZ * HZ_PER_KHZ) :: 32 word) = sint w sdiv HZ_PER_KHZ * HZ_PER_KHZ"
    unfolding sint_sbintrunc' by (intro signed_take_bit_int_eq_self) simp_all
  then show ?thesis unfolding khz_def wi_hom_mult .
qed

section \<open>Registering and destroying\<close>

definition dev_res :: "nat \<Rightarrow> res multiset" where
  "dev_res m = {#Memory m, Cdev m, Device m#}"

text \<open>
  The devices have the minor numbers from \<open>base\<close> on, one by one, each holds its three objects, and
  of the rest only the references to nodes change.
\<close>

definition dev_inv :: "nat \<Rightarrow> res multiset \<Rightarrow> devfreq_mod \<Rightarrow> bool" where
  "dev_inv base H s \<longleftrightarrow> map qminor (devices s) = [base..<dev_minor s] \<and> base \<le> dev_minor s \<and>
     dev_minor s \<le> max base (NR_DEVFREQS - 1) \<and>
     (\<exists>k. held s = H + replicate_mset k Node_ref + (\<Sum>m\<leftarrow>[base..<dev_minor s]. dev_res m))"

definition no_err_ptr :: "env \<Rightarrow> bool" where
  "no_err_ptr e \<longleftrightarrow> (\<forall>np r. devfreq_of e np \<noteq> Df_err r)"

lemma register_inv:
  assumes "no_err_ptr e" and "dev_inv base H s"
  shows "\<exists>r s'. devfreq_qos_register_by_compatible e c s = Some (r, s') \<and> dev_inv base H s' \<and>
    class_set s' = class_set s \<and> dev_major s' = dev_major s"
proof (cases "dev_minor s \<ge> NR_DEVFREQS - 1")
  case True
  with assms(2) show ?thesis by (simp add: devfreq_qos_register_by_compatible_def)
next
  case room: False
  show ?thesis
  proof (cases "node e c")
    case None
    with room assms(2) show ?thesis by (simp add: devfreq_qos_register_by_compatible_def)
  next
    case (Some np)
    let ?s = "take_res Node_ref s"
    have inv: "dev_inv base H ?s"
      using assms(2) by (auto simp: dev_inv_def take_res_def acquire_def intro: exI [of _ "Suc _"])
    then obtain k where k: "held ?s = H + replicate_mset k Node_ref + (\<Sum>m\<leftarrow>[base..<dev_minor s]. dev_res m)"
      by (auto simp: dev_inv_def take_res_def)
    consider "devfreq_of e np = Df_null" | d where "devfreq_of e np = Df d"
      using assms(1) by (cases "devfreq_of e np") (auto simp: no_err_ptr_def)
    then show ?thesis
    proof cases
      case 1
      with room Some inv show ?thesis
        by (simp add: devfreq_qos_register_by_compatible_def take_res_def)
    next
      case (2 d)
      let ?ok = "take_res (Device (dev_minor s)) (take_res (Cdev (dev_minor s)) (take_res (Memory (dev_minor s))
        (?s\<lparr>dev_minor := dev_minor s + 1, devices := devices s @ [\<lparr>qmin = 0, qmax = 0, qminor = dev_minor s, df = d\<rparr>]\<rparr>)))"
      have "dev_inv base H ?ok" using inv room k unfolding dev_inv_def
        by (intro conjI exI [of _ k]) (auto simp: take_res_def acquire_def dev_res_def [of "dev_minor s"] NR_DEVFREQS_def)
      with room Some inv 2 show ?thesis
        by (auto simp: devfreq_qos_register_by_compatible_def take_res_def acquire_def free_dev_def cdev_del_def Let_def
            dev_inv_def split: option.splits)
    qed
  qed
qed

lemma register_all_inv:
  "no_err_ptr e \<Longrightarrow> dev_inv base H s \<Longrightarrow>
    \<exists>s'. register_all e sep s = Some s' \<and> dev_inv base H s' \<and> class_set s' = class_set s \<and> dev_major s' = dev_major s"
proof (induction e sep s rule: register_all.induct)
  case (2 e sep s)
  from register_inv [OF 2(2,3)] obtain r s1 where
    s1: "devfreq_qos_register_by_compatible e (fst (strsep sep)) s = Some (r, s1)" "dev_inv base H s1"
      "class_set s1 = class_set s" "dev_major s1 = dev_major s" by blast
  from 2(1) [OF s1(1) refl 2(2) s1(2)] s1 show ?case by auto
qed simp

text \<open>The exit leaves the memory of every device and takes back the other two objects.\<close>

lemma destory_all_eq:
  "\<forall>m\<in>set (map qminor ds). Device m \<notin># H \<Longrightarrow> distinct (map qminor ds) \<Longrightarrow>
    held s = H + (\<Sum>m\<leftarrow>map qminor ds. dev_res m) \<Longrightarrow>
    \<exists>s'. destory_all ds s = Some s' \<and> held s' = H + (\<Sum>m\<leftarrow>map qminor ds. {#Memory m#}) \<and>
      dev_minor s' = dev_minor s - length ds \<and> class_set s' = class_set s \<and> dev_major s' = dev_major s"
proof (induction ds arbitrary: s H)
  case (Cons d ds)
  let ?m = "qminor d"
  let ?H = "add_mset (Memory ?m) H"
  have "\<exists>s1. devfreq_qos_destory d s = Some s1 \<and> held s1 = ?H + (\<Sum>m\<leftarrow>map qminor ds. dev_res m) \<and>
      dev_minor s1 = dev_minor s - 1 \<and> class_set s1 = class_set s \<and> dev_major s1 = dev_major s"
    using Cons.prems(3)
    by (simp add: devfreq_qos_destory_def lose_res_def release_def discard_def dev_res_def)
  then obtain s1 where s1: "devfreq_qos_destory d s = Some s1" "held s1 = ?H + (\<Sum>m\<leftarrow>map qminor ds. dev_res m)"
    "dev_minor s1 = dev_minor s - 1" "class_set s1 = class_set s" "dev_major s1 = dev_major s" by blast
  have "\<forall>m\<in>set (map qminor ds). Device m \<notin># ?H" using Cons.prems(1) by auto
  from Cons.IH [OF this _ s1(2)] Cons.prems(2) s1 show ?case by auto
qed simp

definition fresh :: "nat \<Rightarrow> devfreq_mod" where
  "fresh base = \<lparr>class_set = False, dev_major = 0, dev_minor = base, devices = [], held = {#}\<rparr>"

text \<open>
  Loading and unloading, whatever the tree holds and whichever devices fail to register. The
  devices of a load have consecutive minor numbers below the ninth, each with its three objects;
  unloading sets the minor number back, and leaves behind the memory of every device, the copy of
  the parameter, a reference to every node that was looked up and, unless the region started at 0,
  the device numbers. A load that cannot get its class or its numbers leaves nothing.
\<close>

theorem devfreq_lifecycle:
  assumes "no_err_ptr e" and "major e \<noteq> 0" and "\<forall>r. class_err e = Some r \<or> region_err e = Some r \<longrightarrow> 0 < r"
  shows "if class_err e \<noteq> None \<or> region_err e \<noteq> None
    then \<exists>r s. dev_freq_qos_drv_init e (fresh base) = Some (r, s) \<and> r < 0 \<and> held s = {#}
    else \<exists>s s' k. dev_freq_qos_drv_init e (fresh base) = Some (0, s) \<and>
      map qminor (devices s) = [base..<dev_minor s] \<and> dev_minor s \<le> max base (NR_DEVFREQS - 1) \<and>
      dev_freq_qos_drv_exit s = Some s' \<and> dev_minor s' = base \<and>
      held s' = discard (Chrdev 0) {#Chrdev base#} + (if strdup_ok e then {#Compat_string#} else {#}) +
        replicate_mset k Node_ref + (\<Sum>m\<leftarrow>[base..<dev_minor s]. {#Memory m#})"
proof (cases "class_err e \<noteq> None \<or> region_err e \<noteq> None")
  case True
  with assms(3) show ?thesis
    by (auto simp: dev_freq_qos_drv_init_def fresh_def take_res_def acquire_def destory_class_def release_def Let_def
        split: option.splits)
next
  case False
  let ?str = "if strdup_ok e then {#Compat_string#} else {#}"
  let ?H = "{#Class, Chrdev base#} + ?str"
  let ?s = "(fresh base)\<lparr>class_set := True, dev_major := major e, held := ?H\<rparr>"
  have "dev_inv base ?H ?s" by (auto simp: dev_inv_def fresh_def intro!: exI [of _ 0])
  from register_all_inv [OF assms(1) this, of "if strdup_ok e then Some (compatibles e) else None"] obtain s where
    s: "register_all e (if strdup_ok e then Some (compatibles e) else None) ?s = Some s" "dev_inv base ?H s"
      "class_set s" "dev_major s = major e" by (auto simp: fresh_def)
  have init: "dev_freq_qos_drv_init e (fresh base) = Some (0, s)"
    using s(1) False
    by (auto simp: dev_freq_qos_drv_init_def fresh_def take_res_def acquire_def add_mset_commute simp del: register_all.simps(2)
        split: if_splits)
  from s(2) obtain k where
    k: "map qminor (devices s) = [base..<dev_minor s]" "base \<le> dev_minor s" "dev_minor s \<le> max base (NR_DEVFREQS - 1)"
      "held s = (?H + replicate_mset k Node_ref) + (\<Sum>m\<leftarrow>[base..<dev_minor s]. dev_res m)"
    by (auto simp: dev_inv_def)
  have len: "length (devices s) = dev_minor s - base" using arg_cong [OF k(1), of length] by simp
  have "\<forall>m\<in>set (map qminor (devices s)). Device m \<notin># ?H + replicate_mset k Node_ref" by auto
  from destory_all_eq [OF this, of s] k len obtain s1 where
    s1: "destory_all (devices s) s = Some s1" "dev_minor s1 = base" "class_set s1" "dev_major s1 = major e"
      "held s1 = ?H + replicate_mset k Node_ref + (\<Sum>m\<leftarrow>[base..<dev_minor s]. {#Memory m#})"
    using s(3,4) by auto
  have absent: "X - {#Chrdev 0#} = X" if "X = replicate_mset k Node_ref + image_mset Memory A" for X A
    unfolding that by (rule diff_single_trivial) auto
  have "\<exists>s'. dev_freq_qos_drv_exit s = Some s' \<and> dev_minor s' = base \<and>
      held s' = discard (Chrdev 0) {#Chrdev base#} + ?str + replicate_mset k Node_ref +
        (\<Sum>m\<leftarrow>[base..<dev_minor s]. {#Memory m#})"
    using s1 assms(2) by (cases "base = 0")
      (auto simp: dev_freq_qos_drv_exit_def destory_class_def lose_res_def release_def discard_def absent [OF refl])
  with init k(1,3) False show ?thesis by auto
qed

definition two_devices :: env where
  "two_devices = \<lparr>class_err = None, region_err = None, major = 240, compatibles = ''a;;b'', strdup_ok = True,
     node = (\<lambda>c. if c = ''a'' then Some 1 else if c = ''b'' then Some 2 else None), devfreq_of = Df,
     alloc_ok = (\<lambda>_. True), cdev_err = (\<lambda>_. None), device_err = (\<lambda>_. None)\<rparr>"

lemma two_devices_load:
  "map_option (\<lambda>(r, s). (r, map df (devices s))) (dev_freq_qos_drv_init two_devices (fresh 0)) = Some (0, [1, 2])"
  by (simp add: dev_freq_qos_drv_init_def devfreq_qos_register_by_compatible_def two_devices_def fresh_def take_res_def
      acquire_def NR_DEVFREQS_def)

theorem devfreq_lifecycle_witness:
  "\<exists>s s' k. dev_freq_qos_drv_init two_devices (fresh 0) = Some (0, s) \<and> map qminor (devices s) = [0, 1] \<and>
    dev_freq_qos_drv_exit s = Some s' \<and> held s' = {#Compat_string, Memory 0, Memory 1#} + replicate_mset k Node_ref"
proof -
  have "no_err_ptr two_devices" by (simp add: no_err_ptr_def two_devices_def)
  from devfreq_lifecycle [OF this, of 0] obtain s s' k where
    s: "dev_freq_qos_drv_init two_devices (fresh 0) = Some (0, s)" "map qminor (devices s) = [0..<dev_minor s]"
      "dev_freq_qos_drv_exit s = Some s'"
      "held s' = {#Compat_string#} + replicate_mset k Node_ref + (\<Sum>m\<leftarrow>[0..<dev_minor s]. {#Memory m#})"
    by (auto simp: two_devices_def)
  from two_devices_load s(1) have "length (devices s) = 2"
    by (auto dest: arg_cong [where f = length])
  with arg_cong [OF s(2), of length] have "dev_minor s = 2" by simp
  with s show ?thesis by (auto simp: numeral_2_eq_2 add_mset_commute)
qed

section \<open>Which devices get a file\<close>

text \<open>The specification: split the parameter at the separators, look every field up, keep the first nine.\<close>

definition named_device :: "env \<Rightarrow> string \<Rightarrow> nat option" where
  "named_device e c = do { np \<leftarrow> node e c; case devfreq_of e np of Df d \<Rightarrow> Some d | _ \<Rightarrow> None }"

definition all_ok :: "env \<Rightarrow> bool" where
  "all_ok e \<longleftrightarrow> no_err_ptr e \<and> (\<forall>n. alloc_ok e n \<and> cdev_err e n = None \<and> device_err e n = None)"

lemma register_step:
  assumes "all_ok e"
  shows "\<exists>r s'. devfreq_qos_register_by_compatible e c s = Some (r, s') \<and>
    (case named_device e c of
       Some d \<Rightarrow> if dev_minor s < NR_DEVFREQS - 1
         then dev_minor s' = dev_minor s + 1 \<and> map df (devices s') = map df (devices s) @ [d] else s' = s
     | None \<Rightarrow> dev_minor s' = dev_minor s \<and> devices s' = devices s)"
proof (cases "node e c")
  case None
  then show ?thesis by (simp add: devfreq_qos_register_by_compatible_def named_device_def)
next
  case (Some np)
  with assms show ?thesis
    by (cases "devfreq_of e np")
      (auto simp: devfreq_qos_register_by_compatible_def named_device_def all_ok_def no_err_ptr_def take_res_def Let_def)
qed

lemma register_all_devices:
  "all_ok e \<Longrightarrow> \<exists>s'. register_all e (Some sep) s = Some s' \<and>
    map df (devices s') = map df (devices s) @
      take (NR_DEVFREQS - 1 - dev_minor s) (List.map_filter (named_device e) (sep_fields sep))"
proof (induction "Some sep" s arbitrary: sep rule: register_all.induct [case_names None Some])
  case (Some e sep s)
  let ?c = "fst (strsep sep)"
  let ?rest = "case snd (strsep sep) of None \<Rightarrow> [] | Some r \<Rightarrow> List.map_filter (named_device e) (sep_fields r)"
  from register_step [OF Some(2)] obtain r s1 where
    s1: "devfreq_qos_register_by_compatible e ?c s = Some (r, s1)"
      "case named_device e ?c of
         Some d \<Rightarrow> if dev_minor s < NR_DEVFREQS - 1
           then dev_minor s1 = dev_minor s + 1 \<and> map df (devices s1) = map df (devices s) @ [d] else s1 = s
       | None \<Rightarrow> dev_minor s1 = dev_minor s \<and> devices s1 = devices s" by blast
  have "\<exists>s'. register_all e (snd (strsep sep)) s1 = Some s' \<and>
      map df (devices s') = map df (devices s1) @ take (NR_DEVFREQS - 1 - dev_minor s1) ?rest"
    using Some(1) [OF s1(1) refl] Some(2) by (cases "snd (strsep sep)") auto
  moreover have "take (NR_DEVFREQS - 1 - dev_minor s) (List.map_filter (named_device e) (sep_fields sep)) =
      (case named_device e ?c of
         Some d \<Rightarrow> if dev_minor s < NR_DEVFREQS - 1 then d # take (NR_DEVFREQS - 1 - (dev_minor s + 1)) ?rest else []
       | None \<Rightarrow> take (NR_DEVFREQS - 1 - dev_minor s) ?rest)"
    by (subst sep_fields_strsep) (auto simp: take_Cons' split: option.splits)
  ultimately show ?case using s1
    by (cases "named_device e ?c") (auto split: if_splits)
qed

text \<open>
  C22. Which devices get a file: when every kernel call succeeds, loading the module makes one for each field
  of the parameter, cut at the semicolons, that names a frequency device, in that order, until the
  minor number 9 is reached; fields that name nothing are passed over.
\<close>

theorem devfreq_registers:
  assumes "all_ok e" and "strdup_ok e" and "class_err e = None" and "region_err e = None"
  shows "\<exists>s. dev_freq_qos_drv_init e (fresh base) = Some (0, s) \<and>
    map df (devices s) = take (NR_DEVFREQS - 1 - base) (List.map_filter (named_device e) (sep_fields (compatibles e)))"
proof -
  let ?s = "take_res Compat_string (take_res (Chrdev base) ((take_res Class ((fresh base)\<lparr>class_set := True\<rparr>))\<lparr>dev_major := major e\<rparr>))"
  have "dev_minor ?s = base" "devices ?s = []" "dev_minor (fresh base) = base" "\<not> class_set (fresh base)"
    by (simp_all add: take_res_def fresh_def)
  with register_all_devices [OF assms(1), of "compatibles e" ?s] assms(2-4) show ?thesis
    by (auto simp: dev_freq_qos_drv_init_def Let_def take_res_def simp del: register_all.simps(2))
qed

theorem devfreq_registers_witness:
  "\<exists>s. dev_freq_qos_drv_init two_devices (fresh 8) = Some (0, s) \<and> map df (devices s) = [1]"
proof -
  have "all_ok two_devices" by (simp add: all_ok_def no_err_ptr_def two_devices_def)
  from devfreq_registers [OF this, of 8] show ?thesis
    by (simp add: two_devices_def NR_DEVFREQS_def named_device_def)
qed

text \<open>Where the driver has no \<open>get_dev_status\<close>, every successful write calls a null pointer.\<close>

lemma devfreq_no_status_undefined:
  "get_pair buf = Some (a, b) \<Longrightarrow> 0 \<le> r1 \<Longrightarrow> 0 \<le> r2 \<Longrightarrow> dev_freq_qos_write False r1 r2 hq 8 0 buf = None"
  by (auto simp: dev_freq_qos_write_def get_pair_def Let_def split: Option.bind_splits prod.splits)

end
