(* ===== verification/QosFiles.thy ===== *)
theory QosFiles
  imports CpuHp DevFreq
begin

text \<open>
  The limit files of \<open>cpuhp-qos.c\<close> and \<open>devfreq-qos.c\<close> side by side: both keep the contract
  \<open>limits_file\<close> of \<open>Kernel\<close>, and what it promises a client is written out here.
\<close>

text \<open>
  The limit files of the two modules that keep the limits themselves: after two writes of a
  pair, with any pairs of 32 bit numbers, a read hands out the last pair. The processor counts
  come back as they were written; a device frequency comes back cut to whole kHz towards zero.
\<close>

theorem qos_files_roundtrip:
  assumes "get_pair b1 = Some (x1, y1)" and "get_pair b2 = Some (x2, y2)" and "8 \<le> n" and "8 \<le> length obuf"
  shows "(\<forall>s. has_thread (cpuhp_stat s) \<longrightarrow>
      (\<exists>s' s''. cpuhp_qos_write s 8 0 b1 = Some (8, s') \<and> cpuhp_qos_write s' 8 0 b2 = Some (8, s'') \<and>
        get_pair (snd (cpuhp_qos_read s'' n 0 obuf)) = Some (x2, y2))) \<and>
    (\<forall>hq. \<exists>hq' h q lo hi. dev_freq_qos_write True 0 0 hq 8 0 b1 = Some (8, hq') \<and>
      dev_freq_qos_write True 0 0 hq' 8 0 b2 = Some (8, h, q) \<and>
      get_pair (snd (dev_freq_qos_read q n 0 obuf)) = Some (lo, hi) \<and>
      sint lo = sint x2 sdiv HZ_PER_KHZ * HZ_PER_KHZ \<and> sint hi = sint y2 sdiv HZ_PER_KHZ * HZ_PER_KHZ)"
proof (intro conjI allI impI)
  show "\<exists>s' s''. cpuhp_qos_write s 8 0 b1 = Some (8, s') \<and> cpuhp_qos_write s' 8 0 b2 = Some (8, s'') \<and>
      get_pair (snd (cpuhp_qos_read s'' n 0 obuf)) = Some (x2, y2)" if "has_thread (cpuhp_stat s)" for s
    using that assms by (rule cpuhp.last_write_wins)
  show "\<exists>hq' h q lo hi. dev_freq_qos_write True 0 0 hq 8 0 b1 = Some (8, hq') \<and>
      dev_freq_qos_write True 0 0 hq' 8 0 b2 = Some (8, h, q) \<and>
      get_pair (snd (dev_freq_qos_read q n 0 obuf)) = Some (lo, hi) \<and>
      sint lo = sint x2 sdiv HZ_PER_KHZ * HZ_PER_KHZ \<and> sint hi = sint y2 sdiv HZ_PER_KHZ * HZ_PER_KHZ" for hq
    using devfreq.last_write_wins [OF TrueI assms, of hq] khz_sint [of x2] khz_sint [of y2] by auto
qed

theorem qos_files_roundtrip_witness:
  "\<exists>hq h q lo hi. dev_freq_qos_write True 0 0 hq 8 0 (le_bytes (- 2147483648) @ le_bytes 16843009) = Some (8, h, q) \<and>
    get_pair (snd (dev_freq_qos_read q 8 0 (replicate 8 0))) = Some (lo, hi) \<and>
    sint lo = - 2147483000 \<and> sint hi = 16843000"
proof -
  let ?b = "le_bytes (- 2147483648) @ le_bytes 16843009"
  have "get_pair ?b = Some (- 2147483648, 16843009)"
    using get_le_bytes [of 0 "[]" "- 2147483648"] get_le_bytes [of 4 "le_bytes (- 2147483648)" 16843009 "[]"]
    by (simp add: get_pair_def)
  from qos_files_roundtrip [OF this this, of 8 "replicate 8 0"] obtain hq h q lo hi where
    "dev_freq_qos_write True 0 0 hq 8 0 ?b = Some (8, h, q)"
    "get_pair (snd (dev_freq_qos_read q 8 0 (replicate 8 0))) = Some (lo, hi)"
    "sint lo = sint (- 2147483648 :: 32 word) sdiv HZ_PER_KHZ * HZ_PER_KHZ"
    "sint hi = sint (16843009 :: 32 word) sdiv HZ_PER_KHZ * HZ_PER_KHZ" by simp blast
  then show ?thesis 
    by (intro exI [of _ hq] exI [of _ h] exI [of _ q] exI [of _ lo] exI [of _ hi])
      (simp add: HZ_PER_KHZ_def signed_divide_int_def)
qed

end
