(* ===== verification/Smc.thy ===== *)
theory Smc
  imports Kernel
begin

text \<open>
  The module \<open>kernel_module/smc/smc_helper.c\<close>: a program writes the eight arguments of a secure
  monitor call to the device file, the module makes the call and queues the four results, and a
  read hands the queue out. The monitor is a parameter: what it answers is an argument of the write.
\<close>

section \<open>State\<close>

type_synonym u64 = "64 word"

datatype res = Class | Chrdev int | Dev_memory | Cdev | Device | Cmdb

record smc_cmd_buf =
  cmd_buf :: "u64 list"
  result_buf :: "u64 list"

record smc_mod =
  class_set :: bool
  dev_major :: nat
  dev_minor :: int
  has_device :: bool
  cmdb_head :: "smc_cmd_buf list"
  held :: "res multiset"

definition take_res :: "res \<Rightarrow> smc_mod \<Rightarrow> smc_mod" where
  "take_res r s = s\<lparr>held := acquire r (held s)\<rparr>"

definition lose_res :: "res \<Rightarrow> smc_mod \<Rightarrow> smc_mod" where
  "lose_res r s = s\<lparr>held := discard r (held s)\<rparr>"

section \<open>64 bit numbers in user memory\<close>

definition u64_bytes :: "u64 \<Rightarrow> byte list" where
  "u64_bytes w = le_bytes (ucast w) @ le_bytes (ucast (drop_bit 32 w))"

definition get_u64 :: "byte list \<Rightarrow> nat \<Rightarrow> u64 option" where
  "get_u64 xs i = do {
     lo \<leftarrow> get_s32 xs i;
     hi \<leftarrow> get_s32 xs (i + 4);
     Some (ucast lo OR push_bit 32 (ucast hi)) }"

definition words_bytes :: "u64 list \<Rightarrow> byte list" where
  "words_bytes ws = concat (map u64_bytes ws)"

primrec get_words :: "byte list \<Rightarrow> nat \<Rightarrow> nat \<Rightarrow> u64 list option" where
  "get_words xs i 0 = Some []"
| "get_words xs i (Suc n) = do { w \<leftarrow> get_u64 xs i; ws \<leftarrow> get_words xs (i + 8) n; Some (w # ws) }"

lemma u64_halves: "ucast (ucast w :: 32 word) OR push_bit 32 (ucast (ucast (drop_bit 32 w) :: 32 word)) = (w :: u64)"
proof (rule bit_word_eqI)
  fix n :: nat
  assume "n < LENGTH(64)"
  then consider "n < 32" | "32 \<le> n" "n < 64" by (simp, linarith)
  then show "bit (ucast (ucast w :: 32 word) OR push_bit 32 (ucast (ucast (drop_bit 32 w) :: 32 word)) :: u64) n = bit w n"
    by cases (auto simp: bit_simps)
qed

lemma length_u64_bytes [simp]: "length (u64_bytes w) = 8"
  by (simp add: u64_bytes_def)

lemma length_words_bytes [simp]: "length (words_bytes ws) = 8 * length ws"
  by (induction ws) (simp_all add: words_bytes_def)

lemma get_u64_bytes: "get_u64 (xs @ u64_bytes w @ ys) (length xs) = Some w"
  using get_le_bytes [of "length xs" xs "ucast w" "le_bytes (ucast (drop_bit 32 w)) @ ys"]
    get_le_bytes [of "length xs + 4" "xs @ le_bytes (ucast w)" "ucast (drop_bit 32 w)" ys]
  by (simp add: get_u64_def u64_bytes_def u64_halves)

lemma get_words_bytes: "get_words (xs @ words_bytes ws @ ys) (length xs) (length ws) = Some ws"
proof (induction ws arbitrary: xs)
  case (Cons w ws)
  from Cons.IH [of "xs @ u64_bytes w"] show ?case
    using get_u64_bytes [of xs w "words_bytes ws @ ys"] by (simp add: words_bytes_def)
qed simp

section \<open>The device file\<close>

text \<open>Opening the file notes the device in it: the result and the file's private data.\<close>

definition smc_helper_open :: "'dev \<Rightarrow> 'dev option \<Rightarrow> int \<times> 'dev option" where
  "smc_helper_open i_cdev private_data = (0, Some i_cdev)"

definition smc_helper_close :: "'dev option \<Rightarrow> int \<times> 'dev option" where
  "smc_helper_close private_data = (0, private_data)"

text \<open>
  The loop of a read: every result is copied to the start of the buffer. The entries that were
  copied leave the list, and nothing frees them.
\<close>

fun read_from :: "smc_cmd_buf list \<Rightarrow> nat \<Rightarrow> nat \<Rightarrow> byte list \<Rightarrow> int \<times> smc_cmd_buf list \<times> byte list" where
  "read_from [] n bytes_read buf = (int bytes_read, [], buf)"
| "read_from (c # cs) n bytes_read buf =
     (if n < bytes_read + 32 then (int bytes_read, c # cs, buf)
      else if length buf < 32 then (- EFAULT, c # cs, buf)
      else read_from cs n (bytes_read + 32) (words_bytes (result_buf c) @ drop 32 buf))"

definition smc_read :: "smc_mod \<Rightarrow> nat \<Rightarrow> byte list \<Rightarrow> int \<times> smc_mod \<times> byte list" where
  "smc_read s n buf = (let (r, cs, buf) = read_from (cmdb_head s) n 0 buf in (r, s\<lparr>cmdb_head := cs\<rparr>, buf))"

definition smc_write :: "bool \<Rightarrow> (u64 list \<Rightarrow> u64 list) \<Rightarrow> smc_mod \<Rightarrow> nat \<Rightarrow> byte list \<Rightarrow> int \<times> smc_mod" where
  "smc_write alloc_ok arm_smccc_smc s n buf =
     (if n \<noteq> 64 then (- EINVAL, s)
      else if \<not> alloc_ok then (- ENOMEM, s)
      else let s = take_res Cmdb s in
        (case get_words buf 0 8 of
           None \<Rightarrow> (- EFAULT, s)
         | Some args \<Rightarrow>
             (int n, s\<lparr>cmdb_head := cmdb_head s @ [\<lparr>cmd_buf = args, result_buf = arm_smccc_smc args\<rparr>]\<rparr>)))"

section \<open>Loading and unloading\<close>

record env =
  class_err :: "int option"
  region_err :: "int option"
  major :: nat
  alloc_ok :: bool
  cdev_err :: "int option"
  device_err :: bool

definition FAIL :: "int \<Rightarrow> smc_mod \<Rightarrow> (int \<times> smc_mod) option" where
  "FAIL r s = Some (r, lose_res (Chrdev (dev_minor s)) s)"

definition free_dev :: "int \<Rightarrow> smc_mod \<Rightarrow> (int \<times> smc_mod) option" where
  "free_dev r s = do { m \<leftarrow> release Dev_memory (held s); FAIL r (s\<lparr>held := m\<rparr>) }"

definition smc_helper_drv_init :: "env \<Rightarrow> smc_mod \<Rightarrow> (int \<times> smc_mod) option" where
  "smc_helper_drv_init e s = (case (if class_set s then None else class_err e) of
     Some r \<Rightarrow> Some (- r, s\<lparr>class_set := False\<rparr>)
   | None \<Rightarrow>
       let s = (if class_set s then s else take_res Class (s\<lparr>class_set := True\<rparr>)) in
       (case region_err e of
          Some r \<Rightarrow> Some (- r, s)
        | None \<Rightarrow>
            let s = take_res (Chrdev (dev_minor s)) (s\<lparr>dev_major := major e\<rparr>) in
            if \<not> alloc_ok e then FAIL (- ENOMEM) s
            else let s = take_res Dev_memory (s\<lparr>cmdb_head := []\<rparr>) in
              (case cdev_err e of
                 Some r \<Rightarrow> free_dev (- r) s
               | None \<Rightarrow>
                   let s = take_res Cdev s in
                   Some (0, if device_err e then s else take_res Device (s\<lparr>has_device := True\<rparr>)))))"

definition smc_helper_destory :: "smc_mod \<Rightarrow> smc_mod option" where
  "smc_helper_destory s = do {
     let s = lose_res Device (s\<lparr>has_device := False\<rparr>);
     m \<leftarrow> release Cdev (held s);
     m \<leftarrow> release Dev_memory m;
     Some (s\<lparr>held := m, cmdb_head := [], dev_minor := dev_minor s - 1\<rparr>) }"

definition smc_helper_drv_exit :: "smc_mod \<Rightarrow> smc_mod option" where
  "smc_helper_drv_exit s = do {
     s \<leftarrow> (if has_device s then smc_helper_destory s else Some s);
     let s = lose_res (Chrdev 0) s;
     if class_set s then do { m \<leftarrow> release Class (held s); Some (s\<lparr>held := m, class_set := False\<rparr>) } else Some s }"

section \<open>Reading and writing\<close>

definition smc_inv :: "smc_mod \<Rightarrow> bool" where
  "smc_inv s \<longleftrightarrow> (\<forall>c\<in>set (cmdb_head s). length (result_buf c) = 4) \<and> length (cmdb_head s) \<le> count (held s) Cmdb"

lemma read_from_eq:
  assumes "32 \<le> length buf" and "\<forall>c\<in>set cs. length (result_buf c) = 4" and "b \<le> n"
  shows "read_from cs n b buf = (let k = min ((n - b) div 32) (length cs) in
    (int (b + 32 * k), drop k cs, if k = 0 then buf else words_bytes (result_buf (cs ! (k - 1))) @ drop 32 buf))"
  using assms
proof (induction cs n b buf rule: read_from.induct)
  case (2 c cs n b buf)
  show ?case
  proof (cases "n < b + 32")
    case True
    then have "(n - b) div 32 = 0" by auto
    with True show ?thesis by simp
  next
    case False
    define k where "k = min ((n - (b + 32)) div 32) (length cs)"
    have k: "min ((n - b) div 32) (length (c # cs)) = Suc k"
      using False le_div_geq [of 32 "n - b"] by (simp add: k_def)
    have "read_from (c # cs) n b buf = read_from cs n (b + 32) (words_bytes (result_buf c) @ drop 32 buf)"
      using False 2(2) by simp
    also have "\<dots> = (int (b + 32 + 32 * k), drop k cs,
        if k = 0 then words_bytes (result_buf c) @ drop 32 buf
        else words_bytes (result_buf (cs ! (k - 1))) @ drop 32 buf)"
      using 2(1) [OF False] 2(2,3) False unfolding k_def [symmetric] by (auto simp: Let_def simp flip: k_def)
    finally show ?thesis unfolding k by (cases k) simp_all
  qed
qed simp

text \<open>
  A read with room for \<open>k\<close> results takes the \<open>k\<close> oldest ones off the queue and delivers only the
  last of them.
\<close>

lemma smc_read_eq:
  assumes "smc_inv s" and "32 \<le> length buf"
  shows "smc_read s n buf = (let k = min (n div 32) (length (cmdb_head s)) in
    (int (32 * k), s\<lparr>cmdb_head := drop k (cmdb_head s)\<rparr>,
     if k = 0 then buf else words_bytes (result_buf (cmdb_head s ! (k - 1))) @ drop 32 buf))"
  using assms read_from_eq [of buf "cmdb_head s" 0 n]
  by (auto simp: smc_read_def smc_inv_def Let_def)

lemma smc_read_inv: "smc_inv s \<Longrightarrow> smc_inv (fst (snd (smc_read s n buf)))"
proof -
  have "\<exists>k. fst (snd (read_from cs n b buf)) = drop k cs" for cs b
  proof (induction cs n b buf rule: read_from.induct)
    case (2 c cs n b buf)
    show ?case
    proof (cases "n < b + 32 \<or> length buf < 32")
      case True
      then show ?thesis by (auto intro: exI [of _ 0])
    next
      case False
      with 2 obtain k where "fst (snd (read_from (c # cs) n b buf)) = drop (Suc k) (c # cs)" by auto
      then show ?thesis ..
    qed
  qed simp
  then obtain k where "fst (snd (read_from (cmdb_head s) n 0 buf)) = drop k (cmdb_head s)" by blast
  then show "smc_inv s \<Longrightarrow> ?thesis"
    by (auto simp: smc_inv_def smc_read_def split: prod.splits dest!: in_set_dropD)
qed

lemma smc_write_ok:
  assumes "length args = 8"
  shows "smc_write True smc s 64 (words_bytes args) =
    (64, (take_res Cmdb s)\<lparr>cmdb_head := cmdb_head s @ [\<lparr>cmd_buf = args, result_buf = smc args\<rparr>]\<rparr>)"
  using get_words_bytes [of "[]" args "[]"] assms by (simp add: smc_write_def take_res_def)

lemma smc_write_inv:
  assumes "smc_inv s" and "\<forall>a. length (smc a) = 4"
  shows "smc_inv (snd (smc_write ok smc s n buf))"
  using assms by (auto simp: smc_inv_def smc_write_def take_res_def acquire_def Let_def split: option.splits)

text \<open>The memory of the entries is given back neither by a read nor by a write that fails.\<close>

lemma smc_read_held [simp]: "held (fst (snd (smc_read s n buf))) = held s"
  by (simp add: smc_read_def split: prod.splits)

lemma smc_write_fault_leaks:
  "length buf < 64 \<Longrightarrow> smc_write True smc s 64 buf = (- EFAULT, take_res Cmdb s)"
  by (simp add: smc_write_def get_u64_def get_s32_def eval_nat_numeral split: Option.bind_splits)

section \<open>The life of the module\<close>

definition fresh :: "int \<Rightarrow> smc_mod" where
  "fresh base = \<lparr>class_set = False, dev_major = 0, dev_minor = base, has_device = False, cmdb_head = [], held = {#}\<rparr>"

definition env_ok :: "env \<Rightarrow> bool" where
  "env_ok e \<longleftrightarrow> (\<forall>r. class_err e = Some r \<or> region_err e = Some r \<or> cdev_err e = Some r \<longrightarrow> 0 < r)"

text \<open>What may happen between loading and unloading: writes and reads of programs.\<close>

datatype file_op = Write bool nat "byte list" | Read nat "byte list"

fun file_op_run :: "(u64 list \<Rightarrow> u64 list) \<Rightarrow> file_op \<Rightarrow> smc_mod \<Rightarrow> smc_mod" where
  "file_op_run smc (Write ok n buf) s = snd (smc_write ok smc s n buf)"
| "file_op_run smc (Read n buf) s = fst (snd (smc_read s n buf))"

definition leaks :: "file_op \<Rightarrow> bool" where
  "leaks f = (case f of Write ok n _ \<Rightarrow> ok \<and> n = 64 | Read _ _ \<Rightarrow> False)"

lemma file_op_frame:
  "held (file_op_run smc f s) = held s + (if leaks f then {#Cmdb#} else {#}) \<and>
   class_set (file_op_run smc f s) = class_set s \<and> dev_major (file_op_run smc f s) = dev_major s \<and>
   dev_minor (file_op_run smc f s) = dev_minor s \<and> has_device (file_op_run smc f s) = has_device s"
  by (cases f) (auto simp: smc_write_def smc_read_def take_res_def acquire_def leaks_def Let_def split: option.splits prod.splits)

lemma file_ops_frame:
  "held (fold (file_op_run smc) fs s) = held s + replicate_mset (length (filter leaks fs)) Cmdb \<and>
   class_set (fold (file_op_run smc) fs s) = class_set s \<and> dev_major (fold (file_op_run smc) fs s) = dev_major s \<and>
   dev_minor (fold (file_op_run smc) fs s) = dev_minor s \<and> has_device (fold (file_op_run smc) fs s) = has_device s"
  by (induction fs arbitrary: s) (simp_all add: file_op_frame)

text \<open>Loading with a call that fails, loading with none, and unloading after that.\<close>

definition load_fails :: "env \<Rightarrow> bool" where
  "load_fails e \<longleftrightarrow> class_err e \<noteq> None \<or> region_err e \<noteq> None \<or> \<not> alloc_ok e \<or> cdev_err e \<noteq> None"

lemma smc_load_fails:
  assumes "env_ok e" and "load_fails e"
  shows "\<exists>r s. smc_helper_drv_init e (fresh base) = Some (r, s) \<and> r < 0 \<and>
    held s = (if class_err e = None then {#Class#} else {#})"
  using assms
  by (cases "class_err e"; cases "region_err e"; cases "alloc_ok e"; cases "cdev_err e")
    (simp_all add: smc_helper_drv_init_def fresh_def take_res_def lose_res_def acquire_def release_def free_dev_def
      FAIL_def discard_def env_ok_def load_fails_def errnos Let_def)

lemma smc_loads:
  assumes "\<not> load_fails e"
  shows "\<exists>s. smc_helper_drv_init e (fresh base) = Some (0, s) \<and> class_set s \<and> has_device s = (\<not> device_err e) \<and>
    held s = {#Class, Chrdev base, Dev_memory, Cdev#} + (if device_err e then {#} else {#Device#})"
  using assms
  by (simp add: smc_helper_drv_init_def load_fails_def fresh_def take_res_def acquire_def Let_def add_mset_commute)

lemma smc_unloads:
  assumes "class_set s" and "held s = {#Class, Chrdev base, Dev_memory, Cdev#} + (if has_device s then {#Device#} else {#})"
  shows "\<exists>s'. smc_helper_drv_exit (fold (file_op_run smc) fs s) = Some s' \<and> \<not> class_set s' \<and>
    held s' = (if has_device s then {#} else {#Dev_memory, Cdev#}) + (if base = 0 then {#} else {#Chrdev base#}) +
      replicate_mset (length (filter leaks fs)) Cmdb"
proof -
  let ?l = "replicate_mset (length (filter leaks fs)) Cmdb" and ?s = "fold (file_op_run smc) fs s"
  have f: "held ?s = held s + ?l" "class_set ?s = class_set s" "has_device ?s = has_device s"
    using file_ops_frame [of smc fs s] by simp_all
  have absent: "?l - {#Chrdev 0#} = ?l" by (rule diff_single_trivial) simp
  show ?thesis
    using assms f absent
    by (cases "has_device s"; cases "base = 0")
      (simp_all add: smc_helper_drv_exit_def smc_helper_destory_def lose_res_def release_def discard_def)
qed

text \<open>
  The life of the module: a load that fails returns an error and keeps the class; when only
  \<open>device_create\<close> fails, 0 is returned and the exit later leaves the character device registered and
  its memory in use. After a complete load and any sequence of writes and reads, unloading gives back what the
  load took, if the device number starts at 0, and keeps the memory of every command that was
  written, also of those that were read.
\<close>

theorem smc_lifecycle:
  assumes "env_ok e"
  shows "if class_err e \<noteq> None
    then \<exists>r s. smc_helper_drv_init e (fresh base) = Some (r, s) \<and> r < 0 \<and> held s = {#}
    else if region_err e \<noteq> None \<or> \<not> alloc_ok e \<or> cdev_err e \<noteq> None
    then \<exists>r s. smc_helper_drv_init e (fresh base) = Some (r, s) \<and> r < 0 \<and> held s = {#Class#}
    else \<exists>s s'. smc_helper_drv_init e (fresh base) = Some (0, s) \<and>
      smc_helper_drv_exit (fold (file_op_run smc) fs s) = Some s' \<and> \<not> class_set s' \<and>
      held s' = (if device_err e then {#Dev_memory, Cdev#} else {#}) +
        (if base = 0 then {#} else {#Chrdev base#}) + replicate_mset (length (filter leaks fs)) Cmdb"
proof (cases "load_fails e")
  case True
  with smc_load_fails [OF assms True, of base] show ?thesis by (auto simp: load_fails_def)
next
  case False
  from smc_loads [OF this, of base] obtain s where s: "smc_helper_drv_init e (fresh base) = Some (0, s)" "class_set s"
    "has_device s = (\<not> device_err e)" "held s = {#Class, Chrdev base, Dev_memory, Cdev#} + (if has_device s then {#Device#} else {#})"
    by auto
  from smc_unloads [OF s(2,4), of smc fs] s(1,3) False show ?thesis by (auto simp: load_fails_def)
qed

definition good_env :: env where
  "good_env = \<lparr>class_err = None, region_err = None, major = 240, alloc_ok = True, cdev_err = None, device_err = False\<rparr>"

theorem smc_lifecycle_witness:
  "\<exists>s s'. smc_helper_drv_init good_env (fresh 0) = Some (0, s) \<and>
    smc_helper_drv_exit (fold (file_op_run (\<lambda>_. [0, 0, 0, 0])) [Write True 64 [], Write True 64 (replicate 64 0), Read 64 []] s)
      = Some s' \<and> held s' = {#Cmdb, Cmdb#}"
proof -
  have "env_ok good_env" by (simp add: env_ok_def good_env_def)
  from smc_lifecycle [OF this, of 0 "\<lambda>_. [0, 0, 0, 0]" "[Write True 64 [], Write True 64 (replicate 64 0), Read 64 []]"]
  show ?thesis by (auto simp: good_env_def leaks_def numeral_2_eq_2)
qed

end
