(* ===== verification/SmcClient.thy ===== *)
theory SmcClient
  imports Smc CString
begin

text \<open>
  The program \<open>kernel_module/smc/utils/smc.c\<close>, which sends one command to the device file of \<open>Smc\<close>
  and prints the four results, and a session of the two. A string is its list of characters, its
  end the terminating 0. The processor is a 64 bit Arm, on which \<open>char\<close> is unsigned.
\<close>

section \<open>Hexadecimal numbers\<close>

definition SMC_CMD_LENGTH :: nat where
  "SMC_CMD_LENGTH = 8"

definition SMC_RES_LENGTH :: nat where
  "SMC_RES_LENGTH = 4"

definition hex_digit :: "char \<Rightarrow> u64" where
  "hex_digit x = (let c = ucast (of_char x :: 8 word) :: 32 word;
       v = ((c AND 15) + drop_bit 6 c) OR (drop_bit 3 c AND 8)
     in ucast (ucast v :: 8 word))"

definition xtou64 :: "string \<Rightarrow> u64" where
  "xtou64 str = fold (\<lambda>c res. push_bit 4 res OR hex_digit c) str 0"

section \<open>The program\<close>

text \<open>
  \<open>getopt\<close> is the C library's: the list of the options it answers one by one, and the remaining
  arguments, stand for its work on \<open>argv\<close>. The program is called \<open>smc\<close>.
\<close>

datatype opt = Opt_h | Opt_D | Opt_d string | Opt_error

datatype choice = Return int string | Proceed bool string

fun options :: "opt list \<Rightarrow> bool \<Rightarrow> string \<Rightarrow> choice" where
  "options [] use_hex path = Proceed use_hex path"
| "options (Opt_h # os) use_hex path = Return 0 (''Usage smc a0 a1 a2 a3 ...'' @ [CHR 0x0A])"
| "options (Opt_D # os) use_hex path = options os False path"
| "options (Opt_d p # os) use_hex path = options os use_hex p"
| "options (Opt_error # os) use_hex path = Return 1 []"

text \<open>\<open>atol\<close>: blanks, a sign, digits; a value that is no \<open>long\<close> is undefined.\<close>

definition blank :: "char \<Rightarrow> bool" where
  "blank c \<longleftrightarrow> c = CHR '' '' \<or> (9 :: nat) \<le> of_char c \<and> of_char c \<le> (13 :: nat)"

definition digit :: "char \<Rightarrow> bool" where
  "digit c \<longleftrightarrow> (48 :: nat) \<le> of_char c \<and> of_char c \<le> (57 :: nat)"

definition dec_value :: "string \<Rightarrow> int" where
  "dec_value ds = fold (\<lambda>c v. 10 * v + (int (of_char c) - 48)) ds 0"

definition atol :: "string \<Rightarrow> u64 option" where
  "atol str = (let s = dropWhile blank str;
       sign = (case s of c # _ \<Rightarrow> if c = CHR ''-'' then - 1 else 1 | [] \<Rightarrow> 1);
       s = (case s of c # cs \<Rightarrow> if c = CHR ''-'' \<or> c = CHR ''+'' then cs else s | [] \<Rightarrow> s);
       v = sign * dec_value (takeWhile digit s)
     in if - (2 ^ 63) \<le> v \<and> v < 2 ^ 63 then Some (word_of_int v) else None)"

text \<open>The loop over the arguments; a ninth one is written beyond \<open>cmd\<close>.\<close>

fun fill_cmd :: "bool \<Rightarrow> nat \<Rightarrow> string list \<Rightarrow> u64 list \<Rightarrow> u64 list option" where
  "fill_cmd use_hex i [] cmd = Some cmd"
| "fill_cmd use_hex i (a # as) cmd =
     (if i < length cmd then do {
        v \<leftarrow> (if use_hex then Some (xtou64 a) else atol a);
        fill_cmd use_hex (i + 1) as (cmd[i := v]) }
      else None)"

text \<open>The output, of every number by \<open>%lx\<close> or \<open>%lu\<close>.\<close>

definition show_res :: "bool \<Rightarrow> u64 list \<Rightarrow> string" where
  "show_res use_hex ws = ''Res:'' @
     concat (map (\<lambda>w. '' 0x'' @ digits_in (if use_hex then 16 else 10) (unat w)) ws) @ [CHR 0x0A]"

text \<open>
  What the file does: opening it fails with an error, writing the command or reading the results
  fails, or the results are a function of the command. Both error exits close the file twice.
\<close>

datatype smc_file = Open_fails int | Write_fails | Read_fails | Answers "u64 list"

definition smc_main :: "opt list \<Rightarrow> string list \<Rightarrow> (string \<Rightarrow> u64 list \<Rightarrow> smc_file) \<Rightarrow> (int \<times> string) option" where
  "smc_main opts args file = (case options opts True ''/dev/smc-helper'' of
     Return r t \<Rightarrow> Some (r, t)
   | Proceed use_hex path \<Rightarrow>
       if args = [] then Some (2, [])
       else do {
         cmd \<leftarrow> fill_cmd use_hex 0 args (replicate SMC_CMD_LENGTH 0);
         (case file path cmd of
            Open_fails errno \<Rightarrow> Some (errno, [])
          | Write_fails \<Rightarrow> None
          | Read_fails \<Rightarrow> None
          | Answers res \<Rightarrow> Some (0, show_res use_hex (take SMC_RES_LENGTH res))) })"

section \<open>Reading hexadecimal numbers\<close>

lemma hex_digit_table: "list_all (\<lambda>v. hex_digit (lower ! v) = of_nat v \<and> hex_digit (upper ! v) = of_nat v) [0..<16]"
  by code_simp

lemma hex_digit_eq: "v < 16 \<Longrightarrow> hex_digit (lower ! v) = of_nat v" "v < 16 \<Longrightarrow> hex_digit (upper ! v) = of_nat v"
  using hex_digit_table by (simp_all add: list_all_iff)

lemma or_nibble:
  assumes "v < 16"
  shows "push_bit 4 w OR of_nat v = (16 * w + of_nat v :: u64)"
proof -
  have "take_bit 4 (of_nat v :: u64) = of_nat v"
    using assms by (simp add: take_bit_of_nat take_bit_nat_eq_self)
  then have "\<not> bit (of_nat v :: u64) n" if "n \<ge> 4" for n
    using that by (metis bit_take_bit_iff leD)
  then have "push_bit 4 w AND of_nat v = 0"
    by (intro bit_word_eqI) (auto simp: bit_simps not_le)
  then have "push_bit 4 w OR of_nat v = push_bit 4 w + of_nat v"
    by (simp add: disjunctive_add_eq_or)
  then show ?thesis by (simp add: push_bit_eq_mult)
qed

lemma xtou64_spells: "spells cs vs \<Longrightarrow> xtou64 cs = of_nat (hex_value vs)"
proof -
  have "spells cs vs \<Longrightarrow> fold (\<lambda>c res. push_bit 4 res OR hex_digit c) cs (of_nat n :: u64) = of_nat (fold (\<lambda>v n. 16 * n + v) vs n)" for n
  proof (induction cs vs arbitrary: n rule: list_induct2')
    case (4 c cs v vs)
    then have "push_bit 4 (of_nat n) OR hex_digit c = (of_nat (16 * n + v) :: u64)" "spells cs vs"
      by (auto simp: spells_def or_nibble hex_digit_eq)
    with 4(1) [of "16 * n + v"] show ?case by simp
  qed (simp_all add: spells_def)
  from this [of 0] show "spells cs vs \<Longrightarrow> ?thesis" by (simp add: xtou64_def hex_value_def)
qed

lemma xtou64_digits: "xtou64 (digits_in 16 (unat w)) = w"
  using digits_in_spells [of "unat w"] by (auto simp: xtou64_spells)

text \<open>
  Reading hexadecimal numbers: a string of hexadecimal digits in either case is read as its
  value modulo \<open>2 ^ 64\<close>, so what \<open>%lx\<close> prints for a number is read as that number. The \<open>x\<close> of a
  prefix \<open>0x\<close>, as in the README's example, is read as a digit nine in front of the number.
\<close>

theorem xtou64_hex:
  "xtou64 (digits_in 16 (unat w)) = w \<and>
   (spells cs vs \<longrightarrow> xtou64 cs = of_nat (hex_value vs) \<and>
      xtou64 (''0x'' @ cs) = of_nat (9 * 16 ^ length cs + hex_value vs))"
proof (intro conjI impI)
  show "xtou64 (digits_in 16 (unat w)) = w" by (rule xtou64_digits)
  assume s: "spells cs vs"
  then show "xtou64 cs = of_nat (hex_value vs)" by (rule xtou64_spells)
  have "hex_digit (CHR ''0'') = 0" "hex_digit (CHR ''x'') = 9" by code_simp+
  then have "fold (\<lambda>c res. push_bit 4 res OR hex_digit c) (''0x'' @ cs) 0 =
      fold (\<lambda>c res. push_bit 4 res OR hex_digit c) (''9'' @ cs) 0"
    using hex_digit_eq(1) [of 9] by (simp add: lower_def)
  moreover have "spells (''9'' @ cs) ([9] @ vs)"
    by (rule spells_append [OF _ s]) (simp add: spells_def lower_def)
  moreover have "length vs = length cs" using s by (simp add: spells_def list_all2_lengthD)
  ultimately show "xtou64 (''0x'' @ cs) = of_nat (9 * 16 ^ length cs + hex_value vs)"
    using xtou64_spells [of "''9'' @ cs"] hex_value_append [of "[9]" vs] hex_value_snoc [of "[]" 9]
    by (simp add: xtou64_def algebra_simps)
qed

theorem xtou64_hex_witness: "xtou64 ''0x84000000'' = 0x984000000 \<and> xtou64 ''84000000'' = 0x84000000"
proof -
  have "spells ''84000000'' [8, 4, 0, 0, 0, 0, 0, 0]" by (simp add: spells_def lower_def)
  with xtou64_hex [of 0 "''84000000''" "[8, 4, 0, 0, 0, 0, 0, 0]"] show ?thesis
    by (simp add: hex_value_def)
qed

section \<open>A session\<close>

text \<open>
  The device file of the module as the program sees it through \<open>stdio\<close>, with a buffer of \<open>B\<close>
  bytes: the command is written and the results are read, up to \<open>B\<close> bytes, when the program reads.
\<close>

definition driver_file :: "nat \<Rightarrow> bool \<Rightarrow> (u64 list \<Rightarrow> u64 list) \<Rightarrow> smc_mod \<Rightarrow> string \<Rightarrow> u64 list \<Rightarrow> smc_file" where
  "driver_file B ok smc s path cmd =
     (let (r, s) = smc_write ok smc s 64 (words_bytes cmd) in
      if r \<noteq> 64 then Read_fails
      else let (r, s, buf) = smc_read s B (replicate B 0) in
        if r < 32 then Read_fails
        else (case get_words buf 0 4 of Some ws \<Rightarrow> Answers ws | None \<Rightarrow> Read_fails))"

lemma driver_answers:
  assumes "smc_inv s" and "\<forall>a. length (smc a) = 4" and "32 \<le> B" and "length cmd = 8"
  shows "driver_file B True smc s path cmd = Answers
    (if length (cmdb_head s) < B div 32 then smc cmd else result_buf (cmdb_head s ! (B div 32 - 1)))"
proof -
  let ?s = "(take_res Cmdb s)\<lparr>cmdb_head := cmdb_head s @ [\<lparr>cmd_buf = cmd, result_buf = smc cmd\<rparr>]\<rparr>"
  let ?k = "min (B div 32) (length (cmdb_head s) + 1)"
  let ?ws = "result_buf (cmdb_head ?s ! (?k - 1))"
  have w: "smc_write True smc s 64 (words_bytes cmd) = (64, ?s)"
    by (rule smc_write_ok [OF assms(4)])
  from smc_write_inv [OF assms(1,2), of True 64 "words_bytes cmd"] w have inv: "smc_inv ?s" by simp
  have k: "0 < ?k" using assms(3) by (simp add: div_greater_zero_iff)
  have "?k - 1 < length (cmdb_head ?s)" by simp
  then have len: "length ?ws = 4" using inv unfolding smc_inv_def by (metis nth_mem)
  have "smc_read ?s B (replicate B 0) = (int (32 * ?k), ?s\<lparr>cmdb_head := drop ?k (cmdb_head ?s)\<rparr>,
      words_bytes ?ws @ drop 32 (replicate B 0))"
    using smc_read_eq [OF inv, of "replicate B 0" B] k assms(3) less_imp_neq [OF k] by (auto simp: Let_def min_def)
  moreover have "get_words (words_bytes ?ws @ drop 32 (replicate B 0)) 0 4 = Some ?ws"
    using get_words_bytes [of "[]" ?ws] len by simp
  ultimately have "driver_file B True smc s path cmd = Answers ?ws"
    using k w by (simp add: driver_file_def)
  also have "?ws = (if length (cmdb_head s) < B div 32 then smc cmd else result_buf (cmdb_head s ! (B div 32 - 1)))"
    using assms(3) by (auto simp: nth_append min_def)
  finally show ?thesis .
qed

lemma fill_cmd_eq:
  "i + length args \<le> length cmd \<Longrightarrow>
    fill_cmd True i args cmd = Some (take i cmd @ map xtou64 args @ drop (i + length args) cmd)"
proof (induction args arbitrary: i cmd)
  case (Cons a as)
  then show ?case by (simp add: take_Suc_conv_app_nth upd_conv_take_nth_drop add.commute [of "length as"])
qed simp

text \<open>
  C23. A session of the program with the module: up to eight numbers in hexadecimal are sent as the
  arguments of one call, the missing ones as 0, and what is printed is the answer to this call,
  although a read hands out the answers in the order of the calls: of the answers it copies, the
  last one survives. When more answers of earlier programs are waiting than fit the buffer, an older answer is
  printed instead; nine arguments run over the array, and when the module has no memory the file is closed twice.
\<close>

theorem smc_session:
  assumes "smc_inv s" and "\<forall>a. length (smc a) = 4" and "32 \<le> B" and "ws \<noteq> []"
  shows "smc_main [] (map (\<lambda>w. digits_in 16 (unat w)) ws) (driver_file B True smc s) =
      (if length ws \<le> 8 then
         Some (0, show_res True (if length (cmdb_head s) < B div 32 then smc (ws @ replicate (8 - length ws) 0)
           else result_buf (cmdb_head s ! (B div 32 - 1))))
       else None) \<and>
    smc_main [] (map (\<lambda>w. digits_in 16 (unat w)) ws) (driver_file B False smc s) = None"
proof -
  let ?args = "map (\<lambda>w. digits_in 16 (unat w)) ws"
  have x: "map xtou64 ?args = ws" by (simp add: o_def xtou64_digits)
  have over: "fill_cmd True i as cmd = None" if "i + length as > length cmd" "i \<le> length cmd" for i as cmd
    using that by (induction as arbitrary: i cmd) auto
  show ?thesis
  proof (cases "length ws \<le> 8")
    case True
    have "fill_cmd True 0 ?args (replicate SMC_CMD_LENGTH 0) = Some (ws @ replicate (8 - length ws) 0)"
      using fill_cmd_eq [of 0 ?args "replicate 8 0"] x True by (simp add: SMC_CMD_LENGTH_def)
    moreover have "length (ws @ replicate (8 - length ws) 0) = 8" using True by simp
    from driver_answers [OF assms(1-3) this] have
      "driver_file B True smc s p (ws @ replicate (8 - length ws) 0) =
        Answers (if length (cmdb_head s) < B div 32 then smc (ws @ replicate (8 - length ws) 0)
          else result_buf (cmdb_head s ! (B div 32 - 1)))" for p .
    moreover have "driver_file B False smc s p c = Read_fails" for p c
      by (simp add: driver_file_def smc_write_def ENOMEM_def)
    ultimately show ?thesis using True assms by (auto simp: smc_main_def SMC_RES_LENGTH_def smc_inv_def)
  next
    case False
    then have "fill_cmd True 0 ?args (replicate SMC_CMD_LENGTH 0) = None"
      by (intro over) (simp_all add: SMC_CMD_LENGTH_def)
    with False assms(4) show ?thesis by (simp add: smc_main_def)
  qed
qed

theorem smc_session_witness:
  "smc_main [] [''84000000''] (driver_file 4096 True (\<lambda>a. [0x10001, 0, 0, 0])
      ((fresh 0)\<lparr>cmdb_head := [\<lparr>cmd_buf = [], result_buf = [7, 7, 7, 7]\<rparr>], held := {#Cmdb#}\<rparr>)) =
    Some (0, ''Res: 0x10001 0x0 0x0 0x0'' @ [CHR 0x0A])"
proof -
  have "digits_in 16 (unat (0x84000000 :: u64)) = ''84000000''" "show_res True [0x10001, 0, 0, 0] = ''Res: 0x10001 0x0 0x0 0x0'' @ [CHR 0x0A]"
    by (simp_all add: digits_in.simps show_res_def)
  moreover have "smc_inv ((fresh 0)\<lparr>cmdb_head := [\<lparr>cmd_buf = [], result_buf = [7, 7, 7, 7]\<rparr>], held := {#Cmdb#}\<rparr>)"
    by (simp add: smc_inv_def)
  ultimately show ?thesis
    using smc_session [of "(fresh 0)\<lparr>cmdb_head := [\<lparr>cmd_buf = [], result_buf = [7, 7, 7, 7]\<rparr>], held := {#Cmdb#}\<rparr>"
        "\<lambda>a. [0x10001, 0, 0, 0]" 4096 "[0x84000000]"]
    by (simp add: fresh_def)
qed

end
