(* ===== verification/RetProbe.thy ===== *)
theory RetProbe
  imports Kernel
begin

text \<open>
  Return probes, which five modules use to measure a function of the kernel: one handler runs at the entry of
  the function and notes the time in an instance, one runs at its return and reports the value with
  the duration. What the kernel promises of the calls of the handlers is the contract of this
  theory; the modules interpret it with their own handlers.
\<close>

section \<open>Probes and what the kernel does with them\<close>

text \<open>
  \<open>struct kretprobe\<close>: the handler at the entry gets what it looks at, \<open>'x\<close>, and the time; it leaves its
  private data \<open>'d\<close> in the instance, or skips the activation, and delays for some milliseconds.
  The handler at the return gets the data, the value returned and the time.
\<close>

record ('x, 'd) kretprobe =
  symbol_name :: string
  handler :: "'d \<Rightarrow> 64 word \<Rightarrow> int \<Rightarrow> 64 word \<times> int"
  entry_fn :: "'x \<Rightarrow> int \<Rightarrow> 'd option \<times> nat"
  data_size :: nat
  maxactive :: nat

text \<open>
  The calls of one probe in their order, with the number of the instance and the time in nanoseconds: the entries,
  the returns, and entries that found no free instance.
\<close>

datatype 'x event = Enter nat 'x int | Leave nat "64 word" int | Missed

text \<open>
  The documented behaviour of the kernel: there are \<open>maxactive\<close> instances, one is given to at most one activation at a time,
  a return belongs to an entry that was not skipped and comes behind its delay, an entry is missed when
  no instance is free, and the clock, 63 bits wide, does not go back. The map holds the time of the entry of the activations
  that are under way, and when its handler is done.
\<close>

fun legal :: "('x, 'd) kretprobe \<Rightarrow> (nat \<rightharpoonup> int \<times> int) \<Rightarrow> int \<Rightarrow> 'x event list \<Rightarrow> bool" where
  "legal p busy now [] \<longleftrightarrow> True"
| "legal p busy now (Enter i x t # es) \<longleftrightarrow> i < maxactive p \<and> busy i = None \<and> now \<le> t \<and> t < 2 ^ 63 \<and>
     (case entry_fn p x t of
        (None, _) \<Rightarrow> legal p busy t es
      | (Some _, ms) \<Rightarrow> legal p (busy(i \<mapsto> (t, t + int ms * 1000000))) t es)"
| "legal p busy now (Leave i r t # es) \<longleftrightarrow> now \<le> t \<and> t < 2 ^ 63 \<and>
     (case busy i of None \<Rightarrow> False | Some (_, ready) \<Rightarrow> ready \<le> t \<and> legal p (busy(i := None)) t es)"
| "legal p busy now (Missed # es) \<longleftrightarrow> card (dom busy) = maxactive p \<and> legal p busy now es"

text \<open>What the handlers do with such calls: the instances, and the reports.\<close>

fun run_probe :: "('x, 'd) kretprobe \<Rightarrow> (nat \<Rightarrow> 'd option) \<Rightarrow> 'x event list \<Rightarrow> (64 word \<times> int) list option" where
  "run_probe p inst [] = Some []"
| "run_probe p inst (Enter i x t # es) =
     (case fst (entry_fn p x t) of
        None \<Rightarrow> run_probe p inst es
      | Some d \<Rightarrow> run_probe p (inst(i := Some d)) es)"
| "run_probe p inst (Leave i r t # es) = do {
     d \<leftarrow> inst i;
     reps \<leftarrow> run_probe p inst es;
     Some (handler p d r t # reps) }"
| "run_probe p inst (Missed # es) = run_probe p inst es"

text \<open>The activations as they are: the value and the duration of each that returns, and the number under way at the end.\<close>

fun activations :: "('x, 'd) kretprobe \<Rightarrow> (nat \<rightharpoonup> int) \<Rightarrow> 'x event list \<Rightarrow> (64 word \<times> int) list \<times> nat set" where
  "activations p since [] = ([], dom since)"
| "activations p since (Enter i x t # es) =
     (if fst (entry_fn p x t) = None then activations p since es else activations p (since(i \<mapsto> t)) es)"
| "activations p since (Leave i r t # es) =
     (case since i of
        None \<Rightarrow> activations p since es
      | Some t0 \<Rightarrow> let (reps, open) = activations p (since(i := None)) es in ((r, t - t0) # reps, open))"
| "activations p since (Missed # es) = activations p since es"

section \<open>The contract of the handlers\<close>

locale return_probe =
  fixes p :: "('x, 'd) kretprobe" and least_ms :: nat
  assumes measures: "0 \<le> t \<Longrightarrow> t \<le> t' \<Longrightarrow> t' < 2 ^ 63 \<Longrightarrow> fst (entry_fn p x t) = Some d \<Longrightarrow>
      handler p d r t' = (r, t' - t)"
    and delays: "fst (entry_fn p x t) \<noteq> None \<Longrightarrow> least_ms \<le> snd (entry_fn p x t)"
begin

text \<open>
  The state during a run: the instance of every activation under way holds data that were noted at its entry, and its
  delay is at least \<open>least_ms\<close>.
\<close>

definition noted :: "(nat \<rightharpoonup> int \<times> int) \<Rightarrow> int \<Rightarrow> (nat \<Rightarrow> 'd option) \<Rightarrow> bool" where
  "noted busy now inst \<longleftrightarrow> 0 \<le> now \<and> dom busy \<subseteq> {..<maxactive p} \<and>
     (\<forall>i t ready. busy i = Some (t, ready) \<longrightarrow> 0 \<le> t \<and> t \<le> now \<and> t + int least_ms * 1000000 \<le> ready \<and>
       (\<exists>d x. inst i = Some d \<and> fst (entry_fn p x t) = Some d))"

lemma noted_empty: "noted Map.empty 0 inst"
  by (simp add: noted_def)

lemma noted_skip:
  assumes "noted busy now inst" and "now \<le> t"
  shows "noted busy t inst"
proof -
  have "u \<le> t" if "busy i = Some (u, ready)" for i u ready
    using that assms unfolding noted_def by (meson order_trans)
  with assms show ?thesis unfolding noted_def by (meson order_trans)
qed

lemma noted_enter:
  assumes "noted busy now inst" and "i < maxactive p" and "now \<le> t" and "entry_fn p x t = (Some d, ms)"
  shows "noted (busy(i \<mapsto> (t, t + int ms * 1000000))) t (inst(i := Some d))"
proof -
  have "int least_ms \<le> int ms" using delays [of x t] assms(4) by simp
  moreover have "\<exists>x. fst (entry_fn p x t) = Some d" using assms(4) by (metis fst_conv)
  ultimately show ?thesis using noted_skip [OF assms(1,3)] assms(2) by (auto simp: noted_def)
qed

lemma noted_leave: "noted busy now inst \<Longrightarrow> now \<le> t \<Longrightarrow> noted (busy(i := None)) t inst"
  by (drule (1) noted_skip) (auto simp: noted_def split: if_splits)

lemma reports:
  assumes "legal p busy now es" and "noted busy now inst"
  shows "\<exists>reps open. activations p (\<lambda>j. map_option fst (busy j)) es = (reps, open) \<and> run_probe p inst es = Some reps \<and>
    open \<subseteq> {..<maxactive p} \<and> (\<forall>(r, d)\<in>set reps. int least_ms * 1000000 \<le> d \<and> d < 2 ^ 63)"
  using assms
proof (induction es arbitrary: busy now inst)
  case Nil
  then show ?case by (auto simp: noted_def dom_def)
next
  case (Cons e es)
  show ?case
  proof (cases e)
    case (Enter i x t)
    obtain o' ms where f: "entry_fn p x t = (o', ms)" by fastforce
    show ?thesis
    proof (cases o')
      case None
      with Cons.IH [of busy t inst] Cons.prems Enter f noted_skip show ?thesis by simp
    next
      case (Some d)
      have m: "(\<lambda>j. map_option fst ((busy(i \<mapsto> (t, t + int ms * 1000000))) j)) = (\<lambda>j. map_option fst (busy j))(i \<mapsto> t)" by auto
      have l: "legal p (busy(i \<mapsto> (t, t + int ms * 1000000))) t es" "i < maxactive p" "now \<le> t"
        "entry_fn p x t = (Some d, ms)" using Cons.prems(1) by (simp_all add: Enter f Some)
      from Cons.IH [OF l(1) noted_enter [OF Cons.prems(2) l(2-4)]] show ?thesis
        unfolding m by (simp add: Enter f Some del: fun_upd_apply)
    qed
  next
    case (Leave i r t)
    with Cons.prems obtain t0 ready where b: "busy i = Some (t0, ready)" "ready \<le> t" "now \<le> t" "t < 2 ^ 63"
      "legal p (busy(i := None)) t es" by (auto split: option.splits)
    with Cons.prems(2) obtain d x where d: "inst i = Some d" "fst (entry_fn p x t0) = Some d" "0 \<le> t0" "t0 \<le> t"
      "t0 + int least_ms * 1000000 \<le> t" unfolding noted_def by (meson order_trans)
    have h: "handler p d r t = (r, t - t0)" using measures d(2-4) b(4) by blast
    have m: "(\<lambda>j. map_option fst ((busy(i := None)) j)) = (\<lambda>j. map_option fst (busy j))(i := None)" by auto
    from Cons.IH [OF b(5) noted_leave [OF Cons.prems(2) b(3)]] obtain reps under where
      "activations p ((\<lambda>j. map_option fst (busy j))(i := None)) es = (reps, under)" "run_probe p inst es = Some reps"
      "under \<subseteq> {..<maxactive p}" "\<forall>(r, d)\<in>set reps. int least_ms * 1000000 \<le> d \<and> d < 2 ^ 63"
      unfolding m by blast
    with Leave b(1,4) d h show ?thesis by (simp del: fun_upd_apply)
  next
    case Missed
    with Cons.IH [of busy now inst] Cons.prems show ?thesis by simp
  qed
qed

lemma run_reports:
  assumes "legal p Map.empty 0 es"
  shows "\<exists>reps open. activations p Map.empty es = (reps, open) \<and> run_probe p inst es = Some reps \<and>
    open \<subseteq> {..<maxactive p} \<and> (\<forall>(r, d)\<in>set reps. int least_ms * 1000000 \<le> d \<and> d < 2 ^ 63)"
proof -
  have e: "(\<lambda>j. map_option fst (Map.empty j :: (int \<times> int) option)) = (Map.empty :: nat \<rightharpoonup> int)" by simp
  from reports [OF assms noted_empty, of inst] show ?thesis unfolding e .
qed

lemma run_durations:
  assumes "legal p Map.empty 0 es"
  shows "run_probe p inst es = Some (fst (activations p Map.empty es)) \<and>
    card (snd (activations p Map.empty es)) \<le> maxactive p \<and>
    (\<forall>(r, d)\<in>set (fst (activations p Map.empty es)). int least_ms * 1000000 \<le> d \<and> d < 2 ^ 63)"
proof -
  from run_reports [OF assms] obtain reps under where
    "activations p Map.empty es = (reps, under)" "run_probe p inst es = Some reps"
    "under \<subseteq> {..<maxactive p}" "\<forall>(r, d)\<in>set reps. int least_ms * 1000000 \<le> d \<and> d < 2 ^ 63" by blast
  moreover from this(3) have "card under \<le> maxactive p" using subset_eq_atLeast0_lessThan_card [of under "maxactive p"]
    by (simp add: atLeast0LessThan)
  ultimately show ?thesis by simp
qed

end

end
