(* ===== verification/SeqFile.thy ===== *)
theory SeqFile
  imports Kernel
begin

text \<open>
  Files of \<open>/proc\<close> whose text is made by an iterator, as the two work queue listings are: the operations a
  module gives to the kernel, what the kernel promises to do with them in a \<open>read\<close>, which is a parameter, and the contract that every
  lock the start takes is given back by the stop.
\<close>

section \<open>The operations\<close>

text \<open>
  \<open>struct seq_operations\<close> over the state \<open>'s\<close> of the module: \<open>seq_start\<close> prints some lines, gives an entry or none, and moves the
  position; \<open>seq_next\<close> gives the next entry and moves the position; \<open>seq_show\<close> prints the line of an entry; \<open>seq_stop\<close> ends what \<open>seq_start\<close> began.
\<close>

record ('s, 'e, 'l) seq_operations =
  seq_start :: "'s \<Rightarrow> nat \<Rightarrow> ('l list \<times> 'e option \<times> nat \<times> 's) option"
  seq_next :: "'s \<Rightarrow> nat \<Rightarrow> 'e option \<times> nat"
  seq_stop :: "'s \<Rightarrow> 's option"
  seq_show :: "'e \<Rightarrow> 'l"

text \<open>\<open>struct proc_ops\<close>: an entry that is said to be permanent is never to be removed.\<close>

record 'f proc_ops =
  permanent :: bool
  proc_open :: 'f

section \<open>What a read is\<close>

text \<open>
  The lines of \<open>k\<close> entries from one that was given on, and the position that is reached: \<open>seq_next\<close> is called behind every entry
  that was shown, also behind the last one the buffer had room for.
\<close>

fun entries :: "('s, 'e, 'l) seq_operations \<Rightarrow> 's \<Rightarrow> nat \<Rightarrow> 'e option \<Rightarrow> nat \<Rightarrow> 'l list \<times> nat" where
  "entries ops s k None pos = ([], pos)"
| "entries ops s 0 (Some e) pos = ([], pos)"
| "entries ops s (Suc k) (Some e) pos =
     (let (e', pos') = seq_next ops s pos; (ls, p) = entries ops s k e' pos' in (seq_show ops e # ls, p))"

text \<open>
  The documented behaviour of a \<open>read\<close> (\<open>seq_read_iter\<close>), whose buffer has room for \<open>k\<close> entries. It starts at the position
  the file has. When there is no entry there, the file is at its end: \<open>seq_stop\<close> is called and nothing is delivered, also nothing of what
  the start has printed. Else what the start has printed is delivered with the entries, of which there is always
  one; the next read starts at the position that was reached.
\<close>

definition seq_file_law :: "(('s, 'e, 'l) seq_operations \<Rightarrow> nat \<Rightarrow> nat \<times> 's \<Rightarrow> ('l list \<times> nat \<times> 's) option) \<Rightarrow> bool" where
  "seq_file_law seq_read \<longleftrightarrow> (\<forall>ops k pos s. seq_read ops k (pos, s) = do {
     (head, e, pos, s1) \<leftarrow> seq_start ops s pos;
     s2 \<leftarrow> seq_stop ops s1;
     (case e of
        None \<Rightarrow> Some ([], pos, s2)
      | Some e \<Rightarrow> let (ls, pos) = entries ops s1 (max 1 k) (Some e) pos in Some (head @ ls, pos, s2)) })"

text \<open>Reads one after the other: all that is delivered, and where the file is then.\<close>

primrec seq_reads :: "(('s, 'e, 'l) seq_operations \<Rightarrow> nat \<Rightarrow> nat \<times> 's \<Rightarrow> ('l list \<times> nat \<times> 's) option) \<Rightarrow>
    ('s, 'e, 'l) seq_operations \<Rightarrow> nat list \<Rightarrow> nat \<times> 's \<Rightarrow> ('l list \<times> nat \<times> 's) option" where
  "seq_reads seq_read ops [] ps = Some ([], ps)"
| "seq_reads seq_read ops (k # ks) ps = do {
     (ls, ps) \<leftarrow> seq_read ops k ps;
     (ls', ps) \<leftarrow> seq_reads seq_read ops ks ps;
     Some (ls @ ls', ps) }"

text \<open>A kernel that behaves so, for the examples.\<close>

definition plain_read :: "('s, 'e, 'l) seq_operations \<Rightarrow> nat \<Rightarrow> nat \<times> 's \<Rightarrow> ('l list \<times> nat \<times> 's) option" where
  "plain_read ops k = (\<lambda>(pos, s). do {
     (head, e, pos, s1) \<leftarrow> seq_start ops s pos;
     s2 \<leftarrow> seq_stop ops s1;
     (case e of
        None \<Rightarrow> Some ([], pos, s2)
      | Some e \<Rightarrow> let (ls, pos) = entries ops s1 (max 1 k) (Some e) pos in Some (head @ ls, pos, s2)) })"

lemma plain_read_law: "seq_file_law plain_read"
  by (simp add: seq_file_law_def plain_read_def)

section \<open>The lock of the listing\<close>

text \<open>A mutex: whoever locks it while it is locked waits, for ever when nobody gives it back.\<close>

definition mutex_lock :: "bool \<Rightarrow> bool option" where
  "mutex_lock locked = (if locked then None else Some True)"

definition mutex_unlock :: "bool \<Rightarrow> bool option" where
  "mutex_unlock locked = (if locked then Some False else None)"

section \<open>The contract\<close>

locale balanced_listing =
  fixes ops :: "('s, 'e, 'l) seq_operations" and idle :: "'s \<Rightarrow> bool"
  assumes balanced: "idle s \<Longrightarrow> \<exists>head e pos' s'. seq_start ops s pos = Some (head, e, pos', s') \<and> seq_stop ops s' = Some s"
begin

lemma read_balanced:
  assumes "seq_file_law seq_read" and "idle s"
  shows "\<exists>ls pos'. seq_read ops k (pos, s) = Some (ls, pos', s)"
proof -
  from balanced [OF assms(2)] obtain head e p s' where "seq_start ops s pos = Some (head, e, p, s')" "seq_stop ops s' = Some s"
    by blast
  with assms(1) show ?thesis by (cases e) (simp_all add: seq_file_law_def split: prod.split)
qed

lemma reads_balanced:
  "seq_file_law seq_read \<Longrightarrow> idle s \<Longrightarrow> \<exists>ls pos'. seq_reads seq_read ops ks (pos, s) = Some (ls, pos', s)"
proof (induction ks arbitrary: pos)
  case (Cons k ks)
  from read_balanced [OF Cons.prems, of k pos] obtain ls p where "seq_read ops k (pos, s) = Some (ls, p, s)" by blast
  with Cons.IH [OF Cons.prems, of p] show ?case by auto
qed simp

end

end
