(* ===== verification/WorkTest.thy ===== *)
theory WorkTest
  imports RetProbe SeqFile
begin

text \<open>
  The module \<open>kernel_module/workqueue_test/work-test.c\<close>: a number of test works, each with a timer that queues it
  and a thread, the hotplug callback that spreads the timers over the processors, and the file in
  \<open>/proc\<close> that lists the works, its lock, and the return probes. Random numbers and the processor a function runs on are parameters.
  The works are kept in an IDR whose numbers are never given back: it is the list of its entries,
  \<open>None\<close> a number whose pointer is null.
\<close>

section \<open>State\<close>

record test_work =
  last_run_cpu :: nat
  timer_cpu :: nat
  kthread_cpu :: nat
  delay_time :: nat
  timer_on :: "nat option"
  kthread_ok :: bool
  wid :: nat

type_synonym idr = "test_work option list"

datatype res = Entry nat | Thread nat | Timer nat | Cpuhp_state | Proc_file | Probe | Offline_probe

record work_mod =
  test_work_idr :: idr
  g_cpuhp_state :: int
  held :: "res multiset"

text \<open>A new number, the lowest that is free, below a bound; it may also fail with an error.\<close>

definition idr_alloc :: "int option \<Rightarrow> int \<Rightarrow> idr \<Rightarrow> int + nat \<times> idr" where
  "idr_alloc err bound x = (case err of
     Some r \<Rightarrow> Inl (- r)
   | None \<Rightarrow> if int (length x) < bound then Inr (length x, x @ [None]) else Inl (- ENOSPC))"

fun next_from :: "nat \<Rightarrow> idr \<Rightarrow> (nat \<times> test_work) option" where
  "next_from j [] = None"
| "next_from j (None # x) = next_from (j + 1) x"
| "next_from j (Some e # x) = Some (j, e)"

definition idr_get_next :: "idr \<Rightarrow> nat \<Rightarrow> (nat \<times> test_work) option" where
  "idr_get_next x i = next_from i (drop i x)"

section \<open>The listing\<close>

datatype line = Header | Row nat nat nat nat nat

definition c_show :: "test_work \<Rightarrow> line" where
  "c_show e = Row (wid e) (timer_cpu e) (last_run_cpu e) (kthread_cpu e) (delay_time e)"

text \<open>An entry, or none, and the position behind it; \<open>c_start\<close> prints the heading.\<close>

definition c_next :: "idr \<Rightarrow> nat \<Rightarrow> test_work option \<times> nat" where
  "c_next x pos = (case idr_get_next x pos of Some (j, e) \<Rightarrow> (Some e, j + 1) | None \<Rightarrow> (None, pos + 1))"

definition c_start :: "idr \<Rightarrow> nat \<Rightarrow> line list \<times> test_work option \<times> nat" where
  "c_start x pos = ([Header], c_next x pos)"

section \<open>Timers, works and threads\<close>

definition mdelay_with_yield :: "(nat \<Rightarrow> nat) \<Rightarrow> (nat \<Rightarrow> nat) \<Rightarrow> nat \<Rightarrow> nat option" where
  "mdelay_with_yield msecs clock timeout = yield_from msecs clock timeout 0"

text \<open>The timer goes off on a processor: it is set again behind \<open>delay_time\<close> and queues the work.\<close>

definition hrtimer_func :: "nat \<Rightarrow> test_work \<Rightarrow> test_work \<times> nat" where
  "hrtimer_func cpu e = (e\<lparr>timer_cpu := cpu\<rparr>, delay_time e)"

text \<open>The work: its own delay in milliseconds, and the period of the timer from now on.\<close>

definition test_work_func :: "nat \<Rightarrow> nat \<Rightarrow> nat \<Rightarrow> bool \<Rightarrow> test_work \<Rightarrow> test_work \<times> nat" where
  "test_work_func cpu r1 r2 online e =
     (let delay_ms = r1 mod 3;
          e = e\<lparr>last_run_cpu := cpu, delay_time := r2 mod 2\<rparr>;
          e = e\<lparr>delay_time := delay_time e + 5\<rparr>
      in (e, delay_ms + (if online then 0 else 200)))"

text \<open>
  One turn of the thread: it sleeps, ends when it is told to stop or its sleep was interrupted, or
  notes its processor and delays. \<open>None\<close> is the end of the thread.
\<close>

definition kthread_turn :: "nat \<Rightarrow> nat \<Rightarrow> bool \<Rightarrow> test_work \<Rightarrow> test_work option" where
  "kthread_turn cpu timeleft stop e =
     (if stop \<or> timeleft \<noteq> 0 then None else Some (e\<lparr>kthread_cpu := cpu\<rparr>))"

definition kthread_sleep :: "nat \<Rightarrow> nat" where
  "kthread_sleep r = r mod 1000 + 500"

datatype work_event = Expire nat nat | Work nat nat nat nat bool | Turn nat nat nat

definition upd :: "nat \<Rightarrow> (test_work \<Rightarrow> test_work) \<Rightarrow> idr \<Rightarrow> idr" where
  "upd i f x = (if i < length x then x[i := map_option f (x ! i)] else x)"

fun do_event :: "work_event \<Rightarrow> idr \<Rightarrow> idr" where
  "do_event (Expire i cpu) x = upd i (\<lambda>e. fst (hrtimer_func cpu e)) x"
| "do_event (Work i cpu r1 r2 online) x = upd i (\<lambda>e. fst (test_work_func cpu r1 r2 online e)) x"
| "do_event (Turn i cpu timeleft) x = upd i (\<lambda>e. case kthread_turn cpu timeleft False e of Some e \<Rightarrow> e | None \<Rightarrow> e) x"

section \<open>Loading and unloading\<close>

record env =
  num_work :: int
  possible :: nat
  online_cpus :: "nat list"
  load_cpu :: nat
  probe_ok :: bool
  offline_probe_ok :: bool
  idr_err :: "nat \<Rightarrow> int option"
  kzalloc_ok :: "nat \<Rightarrow> bool"
  thread_ok :: "nat \<Rightarrow> bool"
  setup_state :: int

definition take_res :: "res \<Rightarrow> work_mod \<Rightarrow> work_mod" where
  "take_res r s = s\<lparr>held := acquire r (held s)\<rparr>"

text \<open>
  Both probes note the time on entry, the first then delays by 50 ms; on return they report the value and the duration.
\<close>

definition entry_handler :: "int \<Rightarrow> int \<times> nat" where
  "entry_handler now = (now, 50)"

definition ret_handler :: "int \<Rightarrow> 64 word \<Rightarrow> int \<Rightarrow> 64 word \<times> int" where
  "ret_handler entry_stamp retval now = (retval, now - entry_stamp)"

definition wq_entry_handler :: "int \<Rightarrow> int" where
  "wq_entry_handler now = now"

definition wq_ret_handler :: "int \<Rightarrow> 64 word \<Rightarrow> int \<Rightarrow> 64 word \<times> int" where
  "wq_ret_handler entry_stamp retval now = (retval, now - entry_stamp)"

text \<open>The two probes, of the function that a parameter names and of \<open>workqueue_offline_cpu\<close>.\<close>

definition func_name :: string where
  "func_name = ''worker_thread''"

definition my_kretprobe :: "(unit, int) kretprobe" where
  "my_kretprobe = \<lparr>symbol_name = func_name, handler = ret_handler,
     entry_fn = \<lambda>_ now. (Some (fst (entry_handler now)), snd (entry_handler now)), data_size = 8, maxactive = 512\<rparr>"

definition my_wq_offline_kretprobe :: "(unit, int) kretprobe" where
  "my_wq_offline_kretprobe = \<lparr>symbol_name = ''workqueue_offline_cpu'', handler = wq_ret_handler,
     entry_fn = \<lambda>_ now. (Some (wq_entry_handler now), 0), data_size = 8, maxactive = 128\<rparr>"

lemmas probe_defs = my_kretprobe_def my_wq_offline_kretprobe_def entry_handler_def ret_handler_def
  wq_entry_handler_def wq_ret_handler_def

interpretation worker: return_probe my_kretprobe 50
  by unfold_locales (auto simp: probe_defs)

interpretation offline: return_probe my_wq_offline_kretprobe 0
  by unfold_locales (auto simp: probe_defs)

definition kretprobe_init :: "env \<Rightarrow> work_mod \<Rightarrow> int \<times> work_mod" where
  "kretprobe_init e s =
     (if \<not> probe_ok e then (- 1, s)
      else let s = take_res Probe s in
        if \<not> offline_probe_ok e then (- 1, s) else (0, take_res Offline_probe s))"


text \<open>The callback runs on the processor that comes up: the timers it restarts move there.\<close>

function rebind :: "env \<Rightarrow> nat \<Rightarrow> nat \<Rightarrow> idr \<Rightarrow> idr option" where
  "rebind e cpu i x =
     (if int i < num_work e then
        if i mod possible e \<noteq> cpu then rebind e cpu (i + 1) x
        else (case idr_get_next x i of
                None \<Rightarrow> None
              | Some (j, _) \<Rightarrow> rebind e cpu (i + 1) (upd j (\<lambda>w. w\<lparr>timer_on := Some cpu\<rparr>) x))
      else Some x)"
  by auto
termination
  by (relation "measure (\<lambda>(e, cpu, i, x). nat (num_work e) - i)") auto

declare rebind.simps [simp del]

definition wq_test_cpu_online :: "env \<Rightarrow> nat \<Rightarrow> work_mod \<Rightarrow> work_mod option" where
  "wq_test_cpu_online e cpu s = do { x \<leftarrow> rebind e cpu 0 (test_work_idr s); Some (s\<lparr>test_work_idr := x\<rparr>) }"

text \<open>When a processor goes down nothing is done: its timers stay where they are.\<close>

definition wq_test_cpu_offline :: "nat \<Rightarrow> work_mod \<Rightarrow> int \<times> work_mod" where
  "wq_test_cpu_offline cpu s = (0, s)"

text \<open>The loop that makes the works: it stops with the error of a failing \<open>idr_alloc\<close>.\<close>

definition make_work :: "env \<Rightarrow> work_mod \<Rightarrow> (int \<times> work_mod) option" where
  "make_work e s = (case idr_alloc (idr_err e (length (test_work_idr s))) (num_work e + 1) (test_work_idr s) of
     Inl r \<Rightarrow> Some (r, s)
   | Inr (rc, x) \<Rightarrow>
       if \<not> kzalloc_ok e rc then None
       else
         let s = take_res (Timer rc) (take_res (Entry rc) s);
             entry = \<lparr>last_run_cpu = 0, timer_cpu = 0, kthread_cpu = 0, delay_time = 0,
               timer_on = Some (load_cpu e), kthread_ok = thread_ok e rc, wid = rc\<rparr>;
             s = (if thread_ok e rc then take_res (Thread rc) s else s)
         in Some (int rc, s\<lparr>test_work_idr := x[rc := Some entry]\<rparr>))"

primrec make_works :: "env \<Rightarrow> nat \<Rightarrow> work_mod \<Rightarrow> (int \<times> work_mod) option" where
  "make_works e 0 s = Some (0, s)"
| "make_works e (Suc n) s = do {
     (rc, s) \<leftarrow> make_work e s;
     if rc < 0 then Some (rc, s) else make_works e n s }"

primrec online_all :: "env \<Rightarrow> nat list \<Rightarrow> work_mod \<Rightarrow> work_mod option" where
  "online_all e [] s = Some s"
| "online_all e (c # cs) s = do { s \<leftarrow> wq_test_cpu_online e c s; online_all e cs s }"

text \<open>Registering the callbacks calls them for every processor that is online.\<close>

definition proc_workqueue_unbound_test_init :: "env \<Rightarrow> work_mod \<Rightarrow> (int \<times> work_mod) option" where
  "proc_workqueue_unbound_test_init e s = do {
     let s = snd (kretprobe_init e s);
     (rc, s) \<leftarrow> make_works e (nat (num_work e)) s;
     if rc < 0 then Some (rc, s)
     else do {
       s \<leftarrow> (if setup_state e \<ge> 0 then online_all e (online_cpus e) (take_res Cpuhp_state s) else Some s);
       let s = s\<lparr>g_cpuhp_state := setup_state e\<rparr>;
       Some (0, take_res Proc_file s) } }"




section \<open>The works after a load\<close>

definition full :: "idr \<Rightarrow> test_work list \<Rightarrow> bool" where
  "full x es \<longleftrightarrow> x = map Some es \<and> map wid es = [0..<length es]"

lemma next_full: "idr_get_next (map Some es) i = (if i < length es then Some (i, es ! i) else None)"
proof (cases "i < length es")
  case True
  then have "drop i es = es ! i # drop (Suc i) es" by (rule Cons_nth_drop_Suc [symmetric])
  with True show ?thesis by (simp add: idr_get_next_def drop_map)
qed (simp add: idr_get_next_def)

lemma ids_nth: "map wid es = [0..<length es] \<Longrightarrow> i < length es \<Longrightarrow> wid (es ! i) = i"
  by (metis nth_map nth_upt add_0)

lemma full_id: "full x es \<Longrightarrow> i < length es \<Longrightarrow> wid (es ! i) = i"
  by (simp add: full_def ids_nth)

lemma full_upd:
  assumes "full x es" and "\<forall>e. wid (f e) = wid e"
  shows "full (upd i f x) (if i < length es then es[i := f (es ! i)] else es)"
  using assms full_id [OF assms(1)]
  by (auto simp: full_def upd_def map_update list_update_same_conv)

section \<open>The file and its lock\<close>

text \<open>
  The state the listing works on, the works and their lock: \<open>c_start\<close> locks before it looks for the first entry,
  \<open>c_stop\<close> unlocks.
\<close>

record work_file =
  file_idr :: idr
  test_work_lock :: bool

definition c_start_locked :: "work_file \<Rightarrow> nat \<Rightarrow> (line list \<times> test_work option \<times> nat \<times> work_file) option" where
  "c_start_locked f pos = do {
     l \<leftarrow> mutex_lock (test_work_lock f);
     let (head, e, pos) = c_start (file_idr f) pos;
     Some (head, e, pos, f\<lparr>test_work_lock := l\<rparr>) }"

definition c_stop :: "work_file \<Rightarrow> work_file option" where
  "c_stop f = do { l \<leftarrow> mutex_unlock (test_work_lock f); Some (f\<lparr>test_work_lock := l\<rparr>) }"

definition work_test_op :: "(work_file, test_work, line) seq_operations" where
  "work_test_op = \<lparr>seq_start = c_start_locked, seq_next = \<lambda>f. c_next (file_idr f), seq_stop = c_stop, seq_show = c_show\<rparr>"

definition work_test_open :: "((work_file, test_work, line) seq_operations \<Rightarrow> int) \<Rightarrow> int" where
  "work_test_open seq_open = seq_open work_test_op"

definition cpuinfo_proc_ops :: "(((work_file, test_work, line) seq_operations \<Rightarrow> int) \<Rightarrow> int) proc_ops" where
  "cpuinfo_proc_ops = \<lparr>permanent = True, proc_open = work_test_open\<rparr>"

interpretation listing: balanced_listing work_test_op "\<lambda>f. \<not> test_work_lock f"
proof
  fix f :: work_file and pos assume "\<not> test_work_lock f"
  then have "f\<lparr>test_work_lock := False\<rparr> = f" by (cases f) simp
  then show "\<exists>head e pos' f'. seq_start work_test_op f pos = Some (head, e, pos', f') \<and> seq_stop work_test_op f' = Some f"
    using \<open>\<not> test_work_lock f\<close>
    by (cases "c_start (file_idr f) pos")
      (simp add: work_test_op_def c_start_locked_def c_stop_def mutex_lock_def mutex_unlock_def)
qed

section \<open>What the listing shows\<close>

text \<open>The entries from number \<open>i\<close> on that one read shows, and the position behind it: one more than it showed.\<close>

lemma entries_full:
  assumes "file_idr f = map Some es" and "i < length es"
  shows "entries work_test_op f k (Some (es ! i)) (i + 1) =
    (map c_show (take k (drop i es)), if i + k < length es then i + k + 1 else length es + 1)"
  using assms(2)
proof (induction k arbitrary: i)
  case (Suc k)
  have d: "drop i es = es ! i # drop (Suc i) es" using Suc.prems by (rule Cons_nth_drop_Suc [symmetric])
  show ?case
  proof (cases "i + 1 < length es")
    case True
    from Suc.IH [OF True] d True show ?thesis by (simp add: work_test_op_def assms(1) c_next_def next_full)
  next
    case False
    with Suc.prems have "length es = i + 1" by simp
    with d show ?thesis by (simp add: work_test_op_def assms(1) c_next_def next_full)
  qed
qed simp

lemma read_full:
  assumes "seq_file_law seq_read" and "\<not> test_work_lock f" and "file_idr f = map Some es"
  shows "seq_read work_test_op k (pos, f) =
    Some (if pos < length es then Header # map c_show (take (max 1 k) (drop pos es)) else [],
      if pos + max 1 k < length es then pos + max 1 k + 1 else max pos (length es) + 1, f)"
proof -
  let ?f = "f\<lparr>test_work_lock := True\<rparr>"
  have unlocked: "f\<lparr>test_work_lock := False\<rparr> = f" using assms(2) by (cases f) simp
  have start: "seq_start work_test_op f pos = (case c_start (file_idr f) pos of (h, e, p) \<Rightarrow> Some (h, e, p, ?f))"
    using assms(2) by (simp add: work_test_op_def c_start_locked_def mutex_lock_def split: prod.split)
  have stop: "seq_stop work_test_op ?f = Some f"
    using unlocked by (simp add: work_test_op_def c_stop_def mutex_unlock_def)
  note law = assms(1) [unfolded seq_file_law_def, rule_format, of work_test_op k pos f]
  show ?thesis
  proof (cases "pos < length es")
    case True
    with entries_full [of ?f es pos "max 1 k"] assms(3) show ?thesis
      unfolding law start by (simp add: stop c_start_def c_next_def next_full)
  next
    case False
    then show ?thesis unfolding law start by (simp add: stop c_start_def c_next_def next_full assms(3))
  qed
qed

text \<open>What a sequence of reads shows: the entry behind those of a read that did not reach the end is passed over.\<close>

fun seen :: "nat list \<Rightarrow> test_work list \<Rightarrow> line list" where
  "seen [] es = []"
| "seen (k # ks) es =
     (if es = [] then [] else Header # map c_show (take (max 1 k) es)) @ seen ks (drop (max 1 k + 1) es)"

lemma reads_full:
  assumes "seq_file_law seq_read" and "\<not> test_work_lock f" and "file_idr f = map Some es"
  shows "\<exists>pos'. seq_reads seq_read work_test_op ks (pos, f) = Some (seen ks (drop pos es), pos', f)"
proof (induction ks arbitrary: pos)
  case (Cons k ks)
  let ?p = "if pos + max 1 k < length es then pos + max 1 k + 1 else max pos (length es) + 1"
  have "drop ?p es = drop (max 1 k + 1) (drop pos es)"
  proof (cases "pos + max 1 k < length es")
    case True
    then show ?thesis by (simp add: ac_simps)
  next
    case False
    then have "drop ?p es = []" and "drop (max 1 k + 1) (drop pos es) = []" by simp_all
    then show ?thesis by simp
  qed
  with Cons.IH [of ?p] read_full [OF assms, of k pos] show ?case by auto
qed simp

lemma seen_set: "l \<in> set (seen ks es) \<Longrightarrow> l = Header \<or> (\<exists>w\<in>set es. l = c_show w)"
proof (induction ks arbitrary: es)
  case (Cons k ks)
  then show ?case by (auto split: if_splits dest: in_set_takeD in_set_dropD Cons.IH)
qed simp

lemma seen_whole: "length es \<le> k \<Longrightarrow> seen [k] es = (if es = [] then [] else Header # map c_show es)"
  by simp

lemma seen_step:
  assumes "map wid es = [0..<length es]" and "1 \<le> k" and "k < length es"
  shows "seen (k # ks) es = Header # map c_show (take k es) @ seen ks (drop (k + 1) es)"
    and "l \<in> set (seen (k # ks) es) \<Longrightarrow> l = Header \<or> (\<exists>w\<in>set es. l = c_show w \<and> wid w \<noteq> k)"
proof -
  show eq: "seen (k # ks) es = Header # map c_show (take k es) @ seen ks (drop (k + 1) es)"
    using assms(2,3) by (auto simp: max_def)
  have "wid w < k" if "w \<in> set (take k es)" for w
    using that assms(3) ids_nth [OF assms(1)] by (auto simp: in_set_conv_nth)
  moreover have "k < wid w" if "w \<in> set (drop (k + 1) es)" for w
    using that ids_nth [OF assms(1)] by (auto simp: in_set_conv_nth)
  ultimately show "l = Header \<or> (\<exists>w\<in>set es. l = c_show w \<and> wid w \<noteq> k)" if "l \<in> set (seen (k # ks) es)"
    using that seen_set [of l ks "drop (k + 1) es"] unfolding eq
    by (auto dest: in_set_takeD in_set_dropD)
qed

text \<open>The works a read with room for \<open>k\<close> of them passes over are those whose number is \<open>k\<close> modulo \<open>k + 1\<close>.\<close>

definition rows :: "line list \<Rightarrow> line list" where
  "rows ls = filter (\<lambda>l. l \<noteq> Header) ls"

lemma rows_simps [simp]: "rows [] = []" "rows (Header # ls) = rows ls" "rows (map c_show es) = map c_show es"
  "rows (ls @ ls') = rows ls @ rows ls'"
  by (induction es) (simp_all add: rows_def c_show_def)

lemma nths_upto_gap: "length es \<le> k + 1 \<Longrightarrow> nths es {i. i mod (k + 1) \<noteq> k} = take k es"
proof -
  assume le: "length es \<le> k + 1"
  have "nths es {i. i mod (k + 1) \<noteq> k} = nths es {..<k}"
    unfolding nths_def
  proof (intro arg_cong [of _ _ "map fst"] filter_cong refl)
    fix p assume "p \<in> set (zip es [0..<length es])"
    then have "snd p < length es" by (auto simp: in_set_zip)
    with le show "(snd p \<in> {i. i mod (k + 1) \<noteq> k}) = (snd p \<in> {..<k})" by (cases "snd p = k") auto
  qed
  then show ?thesis by simp
qed

lemma seen_gaps:
  "1 \<le> k \<Longrightarrow> length es \<le> n * (k + 1) \<Longrightarrow> rows (seen (replicate n k) es) = map c_show (nths es {i. i mod (k + 1) \<noteq> k})"
proof (induction n arbitrary: es)
  case (Suc n)
  let ?A = "{i. i mod (k + 1) \<noteq> k}"
  have r: "rows (seen (replicate (Suc n) k) es) = map c_show (take k es) @ map c_show (nths (drop (k + 1) es) ?A)"
    using Suc.IH [of "drop (k + 1) es"] Suc.prems by (cases "es = []") (auto simp: max_def)
  have "nths es ?A = take k es @ nths (drop (k + 1) es) ?A"
  proof (cases "length es \<le> k + 1")
    case True
    with nths_upto_gap [OF True] show ?thesis by simp
  next
    case False
    then have len: "length (take (k + 1) es) = k + 1" by simp
    have shift: "{j. j + (k + 1) \<in> ?A} = ?A" unfolding mem_Collect_eq mod_add_self2 ..
    have "nths es ?A = nths (take (k + 1) es @ drop (k + 1) es) ?A" by simp
    also have "\<dots> = nths (take (k + 1) es) ?A @ nths (drop (k + 1) es) ?A"
      unfolding nths_append len shift ..
    also have "nths (take (k + 1) es) ?A = take k es" using nths_upto_gap [of "take (k + 1) es" k] by simp
    finally show ?thesis .
  qed
  with r show ?case by simp
qed simp

section \<open>Events\<close>

text \<open>The numbers never change, and the period of a timer is 0 until its work first ran, then 5 or 6.\<close>

definition period_ok :: "test_work \<Rightarrow> bool" where
  "period_ok e \<longleftrightarrow> delay_time e \<in> {0, 5, 6}"

abbreviation periods_ok :: "test_work list \<Rightarrow> bool" where
  "periods_ok es \<equiv> list_all period_ok es"

lemma upd_full_periods:
  assumes "full x es" and "periods_ok es" and "\<forall>e. wid (f e) = wid e"
    and "\<forall>e. period_ok e \<longrightarrow> period_ok (f e)" and "\<forall>e. kthread_ok (f e) = kthread_ok e"
  shows "\<exists>es'. full (upd i f x) es' \<and> periods_ok es' \<and> map kthread_ok es' = map kthread_ok es"
proof (intro exI conjI)
  show "full (upd i f x) (if i < length es then es[i := f (es ! i)] else es)"
    by (rule full_upd [OF assms(1,3)])
  show "periods_ok (if i < length es then es[i := f (es ! i)] else es)"
    using assms(2,4) set_update_subset_insert [of es i "f (es ! i)"]
    by (auto simp: list_all_iff)
  show "map kthread_ok (if i < length es then es[i := f (es ! i)] else es) = map kthread_ok es"
    using assms(5) by (auto simp: map_update list_update_same_conv)
qed

lemma event_full:
  assumes "full x es" and "periods_ok es"
  shows "\<exists>es'. full (do_event v x) es' \<and> periods_ok es' \<and> map kthread_ok es' = map kthread_ok es"
proof (cases v)
  case (Expire i cpu)
  then show ?thesis using upd_full_periods [OF assms, of "\<lambda>e. fst (hrtimer_func cpu e)"]
    by (simp add: hrtimer_func_def period_ok_def)
next
  case (Work i cpu r1 r2 online)
  have "r2 mod 2 = 0 \<or> r2 mod 2 = 1" by auto
  then have "r2 mod 2 + 5 \<in> {0, 5, 6}" by auto
  with Work show ?thesis using upd_full_periods [OF assms, of "\<lambda>e. fst (test_work_func cpu r1 r2 online e)" i]
    by (simp add: test_work_func_def period_ok_def Let_def)
next
  case (Turn i cpu timeleft)
  then show ?thesis using upd_full_periods [OF assms, of "\<lambda>e. case kthread_turn cpu timeleft False e of Some e \<Rightarrow> e | None \<Rightarrow> e"]
    by (simp add: kthread_turn_def period_ok_def)
qed

lemma events_full:
  "full x es \<Longrightarrow> periods_ok es \<Longrightarrow> \<exists>es'. full (fold do_event vs x) es' \<and> periods_ok es' \<and>
    map kthread_ok es' = map kthread_ok es"
proof (induction vs arbitrary: x es)
  case (Cons v vs)
  from event_full [OF Cons.prems] obtain es1 where
    "full (do_event v x) es1" "periods_ok es1" "map kthread_ok es1 = map kthread_ok es" by blast
  with Cons.IH [OF this(1,2)] show ?case by auto
qed auto

section \<open>Loading and unloading, proved\<close>

definition entry :: "env \<Rightarrow> nat \<Rightarrow> test_work" where
  "entry e i = \<lparr>last_run_cpu = 0, timer_cpu = 0, kthread_cpu = 0, delay_time = 0,
     timer_on = Some (load_cpu e), kthread_ok = thread_ok e i, wid = i\<rparr>"

definition works :: "env \<Rightarrow> nat \<Rightarrow> res multiset" where
  "works e n = (\<Sum>i\<leftarrow>[0..<n]. {#Entry i, Timer i#} + (if thread_ok e i then {#Thread i#} else {#}))"

lemma make_works_ok:
  assumes "\<forall>i<n + k. idr_err e i = None \<and> kzalloc_ok e i" and "int (n + k) \<le> num_work e"
    and "test_work_idr s = map (Some \<circ> entry e) [0..<n]" and "held s = H + works e n"
  shows "\<exists>s'. make_works e k s = Some (0, s') \<and> test_work_idr s' = map (Some \<circ> entry e) [0..<n + k] \<and>
    held s' = H + works e (n + k)"
  using assms
proof (induction k arbitrary: n s)
  case (Suc k)
  let ?s = "take_res (Timer n) (take_res (Entry n) s)"
  let ?s' = "(if thread_ok e n then take_res (Thread n) ?s else ?s)\<lparr>test_work_idr := map (Some \<circ> entry e) [0..<n + 1]\<rparr>"
  have mk: "make_work e s = Some (int n, ?s')"
    using Suc.prems
    by (simp add: make_work_def idr_alloc_def take_res_def Let_def list_update_append entry_def)
  have "held ?s' = H + works e (n + 1)"
    using Suc.prems(4) by (simp add: take_res_def acquire_def works_def)
  from Suc.IH [of "n + 1", OF _ _ _ this] Suc.prems(1,2) mk show ?case by simp
qed simp

text \<open>The timers a processor takes over when it comes up: those whose number is its own, modulo the processors.\<close>

definition move :: "env \<Rightarrow> nat \<Rightarrow> nat \<Rightarrow> test_work \<Rightarrow> test_work" where
  "move e cpu i w = (if i \<le> wid w \<and> wid w mod possible e = cpu then w\<lparr>timer_on := Some cpu\<rparr> else w)"

lemma move_sel [simp]:
  "wid (move e cpu i w) = wid w" "delay_time (move e cpu i w) = delay_time w"
  "kthread_ok (move e cpu i w) = kthread_ok w"
  "timer_on (move e cpu 0 w) = (if wid w mod possible e = cpu then Some cpu else timer_on w)"
  by (simp_all add: move_def)

lemma map_move_step:
  assumes "map wid es = [0..<length es]" and "i < length es"
  shows "map (move e cpu (i + 1)) (es[i := (if i mod possible e = cpu then (es ! i)\<lparr>timer_on := Some cpu\<rparr> else es ! i)])
    = map (move e cpu i) es"
proof (rule nth_equalityI)
  fix j
  assume "j < length (map (move e cpu (i + 1)) (es[i := (if i mod possible e = cpu then (es ! i)\<lparr>timer_on := Some cpu\<rparr> else es ! i)]))"
  then show "map (move e cpu (i + 1)) (es[i := (if i mod possible e = cpu then (es ! i)\<lparr>timer_on := Some cpu\<rparr> else es ! i)]) ! j
      = map (move e cpu i) es ! j"
    using ids_nth [OF assms(1), of j] by (cases "j = i") (auto simp: move_def)
qed simp

lemma rebind_full:
  "x = map Some es \<Longrightarrow> map wid es = [0..<length es] \<Longrightarrow> int (length es) = num_work e \<Longrightarrow>
    rebind e cpu i x = Some (map Some (map (move e cpu i) es))"
proof (induction e cpu i x arbitrary: es rule: rebind.induct)
  case (1 e cpu i x)
  show ?case
  proof (cases "int i < num_work e")
    case False
    have "map (move e cpu i) es = es"
    proof (rule map_idI)
      fix w
      assume "w \<in> set es"
      then have "wid w \<in> set [0..<length es]" using "1.prems"(2) by (metis image_eqI set_map)
      then show "move e cpu i w = w" using False "1.prems"(3) by (simp add: move_def)
    qed
    with False "1.prems"(1) show ?thesis by (simp add: rebind.simps)
  next
    case lt: True
    with "1.prems"(3) have i: "i < length es" by simp
    note step = map_move_step [OF "1.prems"(2) i, of e cpu]
    show ?thesis
    proof (cases "i mod possible e = cpu")
      case False
      from "1.IH"(1) [OF lt False "1.prems"] step False lt show ?thesis
        by (simp add: rebind.simps)
    next
      case True
      let ?es = "es[i := (es ! i)\<lparr>timer_on := Some cpu\<rparr>]"
      have nxt: "idr_get_next x i = Some (i, es ! i)" using next_full i "1.prems"(1) by simp
      have u: "upd i (\<lambda>w. w\<lparr>timer_on := Some cpu\<rparr>) x = map Some ?es"
        using i "1.prems"(1) by (simp add: upd_def map_update)
      have "map wid ?es = [0..<length ?es]"
        using "1.prems"(2) i ids_nth [OF "1.prems"(2) i] by (simp add: map_update list_update_same_conv)
      from "1.IH"(2) [OF lt _ nxt refl u this] True "1.prems"(3) step lt nxt show ?thesis
        by (simp add: rebind.simps [of e cpu i x] del: map_map)
    qed
  qed
qed

lemma online_all_full:
  "test_work_idr s = map Some es \<Longrightarrow> map wid es = [0..<length es] \<Longrightarrow> int (length es) = num_work e \<Longrightarrow>
    \<exists>s' es'. online_all e cs s = Some s' \<and> full (test_work_idr s') es' \<and> length es' = length es \<and>
      held s' = held s \<and> map (\<lambda>w. (delay_time w, kthread_ok w)) es' = map (\<lambda>w. (delay_time w, kthread_ok w)) es \<and>
      map timer_on es' = map (\<lambda>w. if wid w mod possible e \<in> set cs then Some (wid w mod possible e) else timer_on w) es"
proof (induction cs arbitrary: s es)
  case Nil
  then show ?case by (auto simp: full_def)
next
  case (Cons c cs)
  let ?es = "map (move e c 0) es"
  have w: "wq_test_cpu_online e c s = Some (s\<lparr>test_work_idr := map Some ?es\<rparr>)"
    using rebind_full [OF Cons.prems] by (simp add: wq_test_cpu_online_def)
  have ids: "map wid ?es = [0..<length ?es]" using Cons.prems(2) by (simp add: o_def)
  have timers: "map (\<lambda>w. if wid w mod possible e \<in> set cs then Some (wid w mod possible e) else timer_on w) ?es =
      map (\<lambda>w. if wid w mod possible e \<in> set (c # cs) then Some (wid w mod possible e) else timer_on w) es"
    by auto
  have rest: "map (\<lambda>w. (delay_time w, kthread_ok w)) ?es = map (\<lambda>w. (delay_time w, kthread_ok w)) es" by simp
  show ?case
    using Cons.IH [OF _ ids, of "s\<lparr>test_work_idr := map Some ?es\<rparr>"] Cons.prems(3) w
    unfolding timers rest by auto
qed








definition fresh :: work_mod where
  "fresh = \<lparr>test_work_idr = [], g_cpuhp_state = - 1, held = {#}\<rparr>"

definition probes :: "env \<Rightarrow> res multiset" where
  "probes e = (if probe_ok e then {#Probe#} + (if offline_probe_ok e then {#Offline_probe#} else {#}) else {#})"

lemma kretprobe_init_held: "held (snd (kretprobe_init e fresh)) = probes e"
    "test_work_idr (snd (kretprobe_init e fresh)) = []" "g_cpuhp_state (snd (kretprobe_init e fresh)) = - 1"
  by (simp_all add: kretprobe_init_def fresh_def take_res_def acquire_def probes_def Let_def)

lemma load_eq:
  assumes "0 \<le> num_work e" and "\<forall>i<nat (num_work e). idr_err e i = None \<and> kzalloc_ok e i"
  shows "\<exists>s es. proc_workqueue_unbound_test_init e fresh = Some (0, s) \<and> full (test_work_idr s) es \<and>
    map kthread_ok es = map (thread_ok e) [0..<nat (num_work e)] \<and> periods_ok es \<and>
    g_cpuhp_state s = setup_state e \<and>
    (setup_state e \<ge> 0 \<longrightarrow> map timer_on es = map (\<lambda>i. Some (if i mod possible e \<in> set (online_cpus e) then i mod possible e
        else load_cpu e)) [0..<nat (num_work e)]) \<and>
    held s = probes e + works e (nat (num_work e)) + (if setup_state e \<ge> 0 then {#Cpuhp_state#} else {#}) + {#Proc_file#}"
proof -
  let ?n = "nat (num_work e)" and ?s0 = "snd (kretprobe_init e fresh)"
  let ?es = "map (entry e) [0..<?n]"
  from make_works_ok [of 0 ?n e ?s0 "probes e"] assms obtain s1 where
    s1: "make_works e ?n ?s0 = Some (0, s1)" "test_work_idr s1 = map Some ?es" "held s1 = probes e + works e ?n"
    by (auto simp: kretprobe_init_held works_def)
  have ids: "map wid ?es = [0..<length ?es]" by (simp add: o_def entry_def)
  have f: "kthread_ok (entry e i) = thread_ok e i" "wid (entry e i) = i" "delay_time (entry e i) = 0"
    "timer_on (entry e i) = Some (load_cpu e)" for i
    by (simp_all add: entry_def)
  have periods: "periods_ok es" if "map (\<lambda>w. (delay_time w, kthread_ok w)) es = map (\<lambda>w. (delay_time w, kthread_ok w)) ?es" for es
    using arg_cong [OF that, of "list_all (\<lambda>(d, _). d = 0)"] by (auto simp: list_all_iff f period_ok_def)
  show ?thesis
  proof (cases "setup_state e \<ge> 0")
    case False
    with s1 assms(1) periods [of ?es] ids show ?thesis
      by (intro exI [of _ ?es] exI [of _ "take_res Proc_file (s1\<lparr>g_cpuhp_state := setup_state e\<rparr>)"])
        (simp add: proc_workqueue_unbound_test_init_def take_res_def acquire_def full_def f o_def)
  next
    case True
    from online_all_full [of "take_res Cpuhp_state s1" ?es e "online_cpus e"] s1 ids assms(1) obtain s2 es where
      s2: "online_all e (online_cpus e) (take_res Cpuhp_state s1) = Some s2" "full (test_work_idr s2) es"
        "held s2 = held (take_res Cpuhp_state s1)"
        "map (\<lambda>w. (delay_time w, kthread_ok w)) es = map (\<lambda>w. (delay_time w, kthread_ok w)) ?es"
        "map timer_on es = map (\<lambda>w. if wid w mod possible e \<in> set (online_cpus e)
          then Some (wid w mod possible e) else timer_on w) ?es"
      by (auto simp: take_res_def simp del: map_map)
    have "map kthread_ok es = map (thread_ok e) [0..<?n]"
      using arg_cong [OF s2(4), of "map snd"] by (simp add: o_def f)
    moreover have "map timer_on es = map (\<lambda>i. Some (if i mod possible e \<in> set (online_cpus e) then i mod possible e
        else load_cpu e)) [0..<?n]"
      unfolding s2(5) by (auto simp: f)
    ultimately show ?thesis using s1 s2 True periods [OF s2(4)]
      by (auto simp: proc_workqueue_unbound_test_init_def take_res_def acquire_def full_def)
  qed
qed






definition good_env :: env where
  "good_env = \<lparr>num_work = 8, possible = 4, online_cpus = [0, 1, 2], load_cpu = 0, probe_ok = True,
     offline_probe_ok = True, idr_err = (\<lambda>_. None), kzalloc_ok = (\<lambda>_. True), thread_ok = (\<lambda>_. True), setup_state = 200\<rparr>"


text \<open>
  A load that gets no number for a work returns the error and leaves the works made before it
  running, with their threads and timers, although the module goes away.
\<close>

lemma make_works_fail:
  "\<forall>i<k. idr_err e i = None \<and> kzalloc_ok e i \<Longrightarrow> idr_err e k = Some r \<Longrightarrow> 0 < r \<Longrightarrow> n \<le> k \<Longrightarrow> k < n + m \<Longrightarrow>
    int (n + m) \<le> num_work e \<Longrightarrow> test_work_idr s = map (Some \<circ> entry e) [0..<n] \<Longrightarrow> held s = H + works e n \<Longrightarrow>
    \<exists>s'. make_works e m s = Some (- r, s') \<and> held s' = H + works e k"
proof (induction m arbitrary: n s)
  case (Suc m)
  show ?case
  proof (cases "n = k")
    case True
    with Suc.prems show ?thesis by (simp add: make_work_def idr_alloc_def)
  next
    case False
    with Suc.prems(1,4) have ok: "\<forall>i<n + 1. idr_err e i = None \<and> kzalloc_ok e i" by auto
    from make_works_ok [of n 1 e s H] ok Suc.prems(5-8) obtain s1 where
      "make_work e s = Some (int n, s1)" "test_work_idr s1 = map (Some \<circ> entry e) [0..<n + 1]" "held s1 = H + works e (n + 1)"
      using Suc.prems(5,6) by (auto simp: make_work_def idr_alloc_def Let_def split: if_splits)
    with Suc.IH [of "n + 1" s1] Suc.prems False show ?thesis by auto
  qed
qed simp

lemma worktest_failed_load_leaks:
  assumes "\<forall>i<k. idr_err e i = None \<and> kzalloc_ok e i" and "idr_err e k = Some r" and "0 < r" and "int k < num_work e"
  shows "\<exists>s. proc_workqueue_unbound_test_init e fresh = Some (- r, s) \<and> held s = probes e + works e k"
proof -
  have "held (snd (kretprobe_init e fresh)) = probes e + works e 0"
    by (simp add: kretprobe_init_held works_def)
  moreover have "k < nat (num_work e)" using assms(4) by simp
  ultimately obtain s where
    "make_works e (nat (num_work e)) (snd (kretprobe_init e fresh)) = Some (- r, s)" "held s = probes e + works e k"
    using make_works_fail [OF assms(1-3), of 0 "nat (num_work e)" "snd (kretprobe_init e fresh)" "probes e"] assms(4)
    by (auto simp: kretprobe_init_held)
  with assms(3) show ?thesis by (simp add: proc_workqueue_unbound_test_init_def)
qed

text \<open>
  C24. What the file in \<open>/proc\<close> shows. After a load and any events the works are numbered in order and the period of each is 0,
  until its work first ran, or 5 or 6 milliseconds (a comment says 200 to 300). For every kernel whose \<open>read\<close>
  behaves as documented: reads leave the works and their lock as they were; one read with
  a buffer for all works shows the heading and every work once, in the order of the numbers. But the
  position is moved behind an entry when it is fetched: when the buffer of a read is full after
  \<open>k\<close> entries, the next read goes on behind entry \<open>k\<close>, which no read shows. A reader whose buffer takes \<open>k\<close> works sees in the end
  all but those whose number is \<open>k\<close> modulo \<open>k + 1\<close>.
\<close>

theorem worktest_listing:
  assumes "0 \<le> num_work e" and "\<forall>i<nat (num_work e). idr_err e i = None \<and> kzalloc_ok e i" and "seq_file_law seq_read"
  shows "\<exists>s es. proc_workqueue_unbound_test_init e fresh = Some (0, s) \<and>
    map wid es = [0..<nat (num_work e)] \<and> periods_ok es \<and>
    (let f = \<lparr>file_idr = fold do_event vs (test_work_idr s), test_work_lock = False\<rparr>;
         reads = (\<lambda>ks pos. seq_reads seq_read work_test_op ks (pos, f));
         shows = (\<lambda>ks pos. fst (the (reads ks pos))) in
     (\<forall>ks pos. \<exists>ls pos'. reads ks pos = Some (ls, pos', f)) \<and>
     (\<forall>k\<ge>length es. shows [k] 0 = (if es = [] then [] else Header # map c_show es)) \<and>
     (\<forall>k ks. 1 \<le> k \<and> k < length es \<longrightarrow>
        shows (k # ks) 0 = Header # map c_show (take k es) @ shows ks (k + 1) \<and>
        (\<forall>l\<in>set (shows (k # ks) 0). l = Header \<or> (\<exists>w\<in>set es. l = c_show w \<and> wid w \<noteq> k))) \<and>
     (\<forall>k n. 1 \<le> k \<and> length es \<le> n * (k + 1) \<longrightarrow>
        rows (shows (replicate n k) 0) = map c_show (nths es {i. i mod (k + 1) \<noteq> k})))"
proof -
  from load_eq [OF assms(1,2)] obtain s es0 where
    s: "proc_workqueue_unbound_test_init e fresh = Some (0, s)" "full (test_work_idr s) es0"
      "map kthread_ok es0 = map (thread_ok e) [0..<nat (num_work e)]" "periods_ok es0" by blast
  from events_full [OF s(2,4), of vs] obtain es where
    es: "full (fold do_event vs (test_work_idr s)) es" "periods_ok es" "map kthread_ok es = map kthread_ok es0" by blast
  have len: "length es = nat (num_work e)" using arg_cong [OF es(3), of length] arg_cong [OF s(3), of length] by simp
  let ?f = "\<lparr>file_idr = fold do_event vs (test_work_idr s), test_work_lock = False\<rparr>"
  have ids: "map wid es = [0..<length es]" and "file_idr ?f = map Some es" using es(1) by (simp_all add: full_def)
  from reads_full [OF assms(3) _ this(2)] have
    r: "\<exists>pos'. seq_reads seq_read work_test_op ks (pos, ?f) = Some (seen ks (drop pos es), pos', ?f)" for ks pos by simp
  then have sh: "fst (the (seq_reads seq_read work_test_op ks (pos, ?f))) = seen ks (drop pos es)" for ks pos
    by (metis fst_conv option.sel)
  have "\<forall>ks pos. \<exists>ls pos'. seq_reads seq_read work_test_op ks (pos, ?f) = Some (ls, pos', ?f)" using r by blast
  moreover have "\<forall>k\<ge>length es. seen [k] es = (if es = [] then [] else Header # map c_show es)" using seen_whole by blast
  moreover have "\<forall>k ks. 1 \<le> k \<and> k < length es \<longrightarrow> seen (k # ks) es = Header # map c_show (take k es) @ seen ks (drop (k + 1) es) \<and>
      (\<forall>l\<in>set (seen (k # ks) es). l = Header \<or> (\<exists>w\<in>set es. l = c_show w \<and> wid w \<noteq> k))"
    using seen_step [OF ids] by blast
  moreover have "\<forall>k n. 1 \<le> k \<and> length es \<le> n * (k + 1) \<longrightarrow>
      rows (seen (replicate n k) es) = map c_show (nths es {i. i mod (k + 1) \<noteq> k})" using seen_gaps [of _ es] by blast
  moreover note s(1) es(2) ids
  ultimately show ?thesis
    by (intro exI [of _ s] exI [of _ es], unfold Let_def sh drop_0 len [symmetric]) (intro conjI; assumption)
qed

theorem worktest_listing_witness:
  "\<exists>s es. proc_workqueue_unbound_test_init good_env fresh = Some (0, s) \<and> map wid es = [0..<8] \<and>
    (let f = \<lparr>file_idr = test_work_idr s, test_work_lock = False\<rparr>;
         shows = (\<lambda>ks. fst (the (seq_reads plain_read work_test_op ks (0, f)))) in
     shows [8] = Header # map c_show es \<and> (\<forall>l\<in>set (shows [5, 5]). \<forall>a b c d. l \<noteq> Row 5 a b c d) \<and>
     rows (shows [7, 7]) = map c_show (take 7 es))"
proof -
  have "0 \<le> num_work good_env" "\<forall>i<nat (num_work good_env). idr_err good_env i = None \<and> kzalloc_ok good_env i"
    by (simp_all add: good_env_def)
  from worktest_listing [OF this plain_read_law, of "[]"] obtain s es where
    s: "proc_workqueue_unbound_test_init good_env fresh = Some (0, s)" "map wid es = [0..<nat (num_work good_env)]" and
    r: "let f = \<lparr>file_idr = test_work_idr s, test_work_lock = False\<rparr>;
          shows = (\<lambda>ks pos. fst (the (seq_reads plain_read work_test_op ks (pos, f)))) in
      (\<forall>k\<ge>length es. shows [k] 0 = (if es = [] then [] else Header # map c_show es)) \<and>
      (\<forall>k ks. 1 \<le> k \<and> k < length es \<longrightarrow>
        (\<forall>l\<in>set (shows (k # ks) 0). l = Header \<or> (\<exists>w\<in>set es. l = c_show w \<and> wid w \<noteq> k))) \<and>
      (\<forall>k n. 1 \<le> k \<and> length es \<le> n * (k + 1) \<longrightarrow>
        rows (shows (replicate n k) 0) = map c_show (nths es {i. i mod (k + 1) \<noteq> k}))"
    unfolding Let_def fold.simps id_apply by blast
  have n: "nat (num_work good_env) = 8" by (simp add: good_env_def)
  have len: "length es = 8" using arg_cong [OF s(2), of length] n by simp
  then have "es \<noteq> []" by auto
  let ?shows = "\<lambda>ks. fst (the (seq_reads plain_read work_test_op ks (0, \<lparr>file_idr = test_work_idr s, test_work_lock = False\<rparr>)))"
  from r have
    whole: "length es \<le> k \<Longrightarrow> ?shows [k] = (if es = [] then [] else Header # map c_show es)" and
    lost: "1 \<le> k \<Longrightarrow> k < length es \<Longrightarrow> \<forall>l\<in>set (?shows (k # ks)). l = Header \<or> (\<exists>w\<in>set es. l = c_show w \<and> wid w \<noteq> k)" and
    gaps: "1 \<le> k \<Longrightarrow> length es \<le> n * (k + 1) \<Longrightarrow> rows (?shows (replicate n k)) = map c_show (nths es {i. i mod (k + 1) \<noteq> k})"
    for k n ks unfolding Let_def by blast+
  have "?shows [8] = Header # map c_show es" using whole [of 8] len \<open>es \<noteq> []\<close> by simp
  moreover have "\<forall>l\<in>set (?shows [5, 5]). \<forall>a b c d. l \<noteq> Row 5 a b c d"
    using lost [of 5 "[5]"] len by (fastforce simp: c_show_def)
  moreover have "rows (?shows (replicate 2 7)) = map c_show (nths es {i. i mod (7 + 1) \<noteq> 7})"
    using len by (intro gaps) simp_all
  moreover have "replicate 2 (7 :: nat) = [7, 7]" by (simp add: numeral_2_eq_2)
  ultimately show ?thesis using s n len nths_upto_gap [of es 7]
    by (intro exI [of _ s] exI [of _ es]) (simp add: Let_def)
qed

section \<open>What the probes measure\<close>

text \<open>
  C26. The probe of \<open>worker_thread\<close>, for every order of entries and returns that the kernel can deliver: each
  return is reported, in order, with the value returned and exactly the time since the entry of the same activation; every duration
  is at least 50 ms, because the entry handler delays after it has noted the time, so the
  probe reports its own delay as the time of the function; and at most 512 activations are under way at once.
\<close>

theorem worker_durations:
  assumes "legal my_kretprobe Map.empty 0 es"
  shows "run_probe my_kretprobe inst es = Some (fst (activations my_kretprobe Map.empty es)) \<and>
    (\<forall>(r, d)\<in>set (fst (activations my_kretprobe Map.empty es)). 50000000 \<le> d \<and> d < 2 ^ 63) \<and>
    card (snd (activations my_kretprobe Map.empty es)) \<le> 512"
  using worker.run_durations [OF assms, of inst] by (auto simp: my_kretprobe_def)

theorem worker_durations_witness:
  "run_probe my_kretprobe (\<lambda>_. None) [Enter 0 () 5, Enter 1 () 70, Leave 0 7 60000000, Enter 0 () 60000001, Leave 1 8 60000070]
    = Some [(7, 59999995), (8, 60000000)]"
proof -
  let ?es = "[Enter 0 () 5, Enter 1 () 70, Leave 0 7 60000000, Enter 0 () 60000001, Leave 1 8 60000070]"
  have "legal my_kretprobe Map.empty 0 ?es" by (simp add: probe_defs)
  from worker_durations [OF this, of "\<lambda>_. None"] show ?thesis by (simp add: probe_defs)
qed

end
