(* ===== verification/Fpga.thy ===== *)
theory Fpga
  imports Kernel
begin

text \<open>
  The library \<open>socket/fpga_socket\<close>, which sends memory contents to an FPGA in Ethernet frames. What
  the system calls answer is a parameter; a packet socket sends a whole frame or fails, so the
  outcomes of the sends are a list of truth values, consumed one by one. \<open>None\<close> is undefined
  behaviour, or that this list ended before the loop did.
\<close>

section \<open>The frame\<close>

definition MTU_MAX :: nat where "MTU_MAX = 2000"
definition MTU_MIN :: nat where "MTU_MIN = 64"
definition CMD_POS :: nat where "CMD_POS = 14"
definition ADDR_POS :: nat where "ADDR_POS = 15"
definition DATA_LEN_POS :: nat where "DATA_LEN_POS = 19"
definition DATA_POS :: nat where "DATA_POS = 23"
definition MAC_LEN :: nat where "MAC_LEN = 6"
definition LINK_HEADER_LEN :: nat where "LINK_HEADER_LEN = 14"
definition LINK_TRAILER_LEN :: nat where "LINK_TRAILER_LEN = 4"
definition DATA_HEADER_LEN :: nat where "DATA_HEADER_LEN = 23"
definition DATA_LEN_MAX :: nat where "DATA_LEN_MAX = MTU_MAX - DATA_HEADER_LEN - LINK_TRAILER_LEN"
definition DATA_LEN_MIN :: nat where "DATA_LEN_MIN = MTU_MIN - DATA_HEADER_LEN - LINK_TRAILER_LEN"

named_theorems frame \<open>the layout of a frame\<close>
declare MTU_MAX_def [frame] MTU_MIN_def [frame] CMD_POS_def [frame] ADDR_POS_def [frame] DATA_LEN_POS_def [frame]
  DATA_POS_def [frame] MAC_LEN_def [frame] LINK_HEADER_LEN_def [frame] LINK_TRAILER_LEN_def [frame]
  DATA_HEADER_LEN_def [frame] DATA_LEN_MAX_def [frame] DATA_LEN_MIN_def [frame]

definition fpga_mac :: "byte list" where
  "fpga_mac = [0xEB, 0x90, 0xEB, 0x90, 0xEB, 0x90]"

definition caculate_chksum :: "byte list \<Rightarrow> 32 word" where
  "caculate_chksum xs = fold (\<lambda>b c. c + ucast b) xs 0"

text \<open>\<open>memcpy\<close> and \<open>memset\<close> into the static buffer, at an index.\<close>

definition put :: "nat \<Rightarrow> byte list \<Rightarrow> byte list \<Rightarrow> byte list option" where
  "put i xs w = (if i + length xs \<le> length w then Some (take i w @ xs @ drop (i + length xs) w) else None)"

definition slice :: "nat \<Rightarrow> nat \<Rightarrow> byte list \<Rightarrow> byte list option" where
  "slice i n xs = (if i + n \<le> length xs then Some (take n (drop i xs)) else None)"

section \<open>Writing\<close>

text \<open>The part of the data of this turn and the padding behind it; \<open>left\<close> is \<open>datalen - totalwrite\<close>.\<close>

definition wlen_padlen :: "nat \<Rightarrow> nat \<times> nat" where
  "wlen_padlen left =
     (if left \<ge> DATA_LEN_MAX then (DATA_LEN_MAX, 0)
      else if left \<le> DATA_LEN_MIN then (left, DATA_LEN_MIN - left)
      else (left, 0))"

text \<open>One turn up to the send: the buffer, and the length of the frame in it.\<close>

definition fill_wbuf :: "32 word \<Rightarrow> 64 word \<Rightarrow> nat \<times> nat \<Rightarrow> byte list \<Rightarrow> byte list \<Rightarrow> (byte list \<times> nat) option" where
  "fill_wbuf addr totalwrite wp buf w = (case wp of (wlen, padlen) \<Rightarrow> do {
     w \<leftarrow> put ADDR_POS (le_bytes (addr + ucast totalwrite)) w;
     w \<leftarrow> put DATA_LEN_POS (le_bytes (of_nat wlen)) w;
     xs \<leftarrow> slice (unat totalwrite) wlen buf;
     w \<leftarrow> put 0 xs w;
     w \<leftarrow> put 0 (replicate padlen 0) w;
     w \<leftarrow> put (DATA_LEN_POS + wlen + padlen)
       (le_bytes (caculate_chksum (take (DATA_HEADER_LEN + wlen + padlen) w))) w;
     Some (w, DATA_HEADER_LEN + wlen + padlen + LINK_TRAILER_LEN) })"

text \<open>
  The loop. The result of \<open>send\<close> is kept in an unsigned \<open>ret\<close>, so the test for a negative one
  never holds and \<open>- 1\<close> is added to \<open>totalwrite\<close>. Returned are the frames that were sent.
\<close>

fun write_from :: "32 word \<Rightarrow> 32 word \<Rightarrow> byte list \<Rightarrow> bool list \<Rightarrow> 64 word \<Rightarrow> byte list \<Rightarrow> (byte list list \<times> 64 word) option" where
  "write_from addr datalen buf oks totalwrite w =
     (if ucast datalen > totalwrite then
        (case oks of
           [] \<Rightarrow> None
         | ok # oks \<Rightarrow> do {
             (w, n) \<leftarrow> fill_wbuf addr totalwrite (wlen_padlen (unat (ucast datalen - totalwrite))) buf w;
             let ret = (if ok then of_nat n else - 1);
             (fs, t) \<leftarrow> write_from addr datalen buf oks (totalwrite + ret) w;
             Some (if ok then take n w # fs else fs, t) })
      else Some ([], totalwrite))"

declare write_from.simps [simp del]

definition do_write_fpga_ram :: "byte list \<Rightarrow> 64 word \<Rightarrow> bool list \<Rightarrow> (byte list list \<times> int) option" where
  "do_write_fpga_ram buf len oks = do {
     addr \<leftarrow> get_s32 buf ADDR_POS;
     datalen \<leftarrow> get_s32 buf DATA_LEN_POS;
     if len \<noteq> ucast (datalen + of_nat DATA_HEADER_LEN + of_nat LINK_TRAILER_LEN) then Some ([], - 1)
     else do {
       hdr \<leftarrow> slice 0 LINK_HEADER_LEN buf;
       w \<leftarrow> put 0 hdr (replicate MTU_MAX 0);
       cmd \<leftarrow> slice CMD_POS 1 buf;
       w \<leftarrow> put CMD_POS cmd w;
       (fs, t) \<leftarrow> write_from addr datalen buf oks 0 w;
       Some (fs, sint t) } }"

definition fpga_write :: "byte list \<Rightarrow> 64 word \<Rightarrow> bool list \<Rightarrow> (byte list list \<times> int) option" where
  "fpga_write buf len oks = do {
     mac \<leftarrow> slice 0 MAC_LEN buf;
     if mac = fpga_mac then do_write_fpga_ram buf len oks
     else if unat len > MTU_MAX \<or> unat len < MTU_MIN then Some ([], - 1)
     else do {
       xs \<leftarrow> slice 0 (unat len) buf;
       (case oks of [] \<Rightarrow> None | ok # _ \<Rightarrow> Some (if ok then ([xs], int (unat len)) else ([], - 1))) } }"

section \<open>Opening and reading\<close>

text \<open>
  Opening: the outcomes of \<open>socket\<close>, of three \<open>ioctl\<close>s and of \<open>bind\<close>. Returned are the descriptor
  and those that are open, given those that were.
\<close>

definition fpga_open :: "bool \<Rightarrow> int \<Rightarrow> bool list \<Rightarrow> int multiset \<Rightarrow> int \<times> int multiset" where
  "fpga_open named fd oks opened =
     (if \<not> named then (- 1, opened)
      else if fd < 0 then (- 1, opened)
      else let opened = acquire fd opened in
        if \<not> oks ! 0 then (- 1, discard fd opened)
        else if \<not> oks ! 1 then (- 1, discard fd opened)
        else if \<not> oks ! 2 then (- 1, discard fd opened)
        else if \<not> oks ! 3 then (- 1, discard fd opened)
        else (fd, opened))"

definition fpga_close :: "int \<Rightarrow> int multiset \<Rightarrow> int multiset" where
  "fpga_close fd opened = discard fd opened"

definition fpga_read :: "byte list \<Rightarrow> nat \<Rightarrow> byte list option \<Rightarrow> (int \<times> byte list) option" where
  "fpga_read buf len received =
     (if len < MTU_MAX then Some (- 1, buf)
      else (case received of
              None \<Rightarrow> Some (- 1, buf)
            | Some xs \<Rightarrow> do {
                let xs = take len xs;
                buf \<leftarrow> put 0 xs buf;
                Some (int (length xs), buf) }))"

text \<open>One turn of the test program \<open>main.c\<close>: what is received is written back.\<close>

definition BUF_SIZE :: nat where "BUF_SIZE = 4096"

definition echo_turn :: "byte list option \<Rightarrow> bool list \<Rightarrow> byte list \<Rightarrow> (byte list list \<times> byte list) option" where
  "echo_turn received oks buf = do {
     (r, buf) \<leftarrow> fpga_read buf BUF_SIZE received;
     if r > 0 then do { (fs, _) \<leftarrow> fpga_write buf (word_of_int r) oks; Some (fs, buf) }
     else Some ([], buf) }"

text \<open>
  The whole test program, for the turns that are taken: the descriptor is not tested, and receiving from or sending to one
  that is negative fails.
\<close>

fun echo_loop :: "(byte list option \<times> bool list) list \<Rightarrow> byte list \<Rightarrow> byte list list option" where
  "echo_loop [] buf = Some []"
| "echo_loop ((received, oks) # evs) buf = do {
     (fs, buf) \<leftarrow> echo_turn received oks buf;
     gs \<leftarrow> echo_loop evs buf;
     Some (fs @ gs) }"

definition echo_main :: "bool \<Rightarrow> int \<Rightarrow> bool list \<Rightarrow> (byte list option \<times> bool list) list \<Rightarrow> byte list list option" where
  "echo_main named fd oks evs = (case fpga_open named fd oks {#} of (fd, opened) \<Rightarrow>
     echo_loop (if fd < 0 then map (\<lambda>(received, oks). (None, oks)) evs else evs) (replicate BUF_SIZE 0))"

section \<open>One frame\<close>

lemma put_Some: "i + length xs \<le> length w \<Longrightarrow> put i xs w = Some (take i w @ xs @ drop (i + length xs) w)"
  by (simp add: put_def)

text \<open>What the code sends for \<open>d\<close> bytes of data, and how many bytes of padding it adds.\<close>

definition padding :: "nat \<Rightarrow> nat" where
  "padding d = 37 - d"

definition body :: "byte list \<Rightarrow> nat \<Rightarrow> byte list" where
  "body buf d = replicate (padding d) 0 @ drop (padding d) (take d buf @ drop d (take 23 buf @ replicate 1977 0))"

definition sent :: "byte list \<Rightarrow> nat \<Rightarrow> byte list" where
  "sent buf d = (let w = body buf d; n = d + padding d in
     take (19 + n) w @ le_bytes (caculate_chksum (take (23 + n) w)) @ take 4 (drop (23 + n) w))"

text \<open>A message for the FPGA with \<open>d\<close> bytes of data.\<close>

definition message :: "byte list \<Rightarrow> nat \<Rightarrow> bool" where
  "message buf d \<longleftrightarrow> length buf = d + 27 \<and> take 6 buf = fpga_mac \<and> get_s32 buf 19 = Some (of_nat d) \<and> d < 2 ^ 32 - 27"

lemma put_mid: "i = length a \<Longrightarrow> length xs = length b \<Longrightarrow> put i xs (a @ b @ c) = Some (a @ xs @ c)"
  by (simp add: put_def)

lemma put_start: "length xs = length b \<Longrightarrow> put 0 xs (b @ c) = Some (xs @ c)"
  using put_mid [of 0 "[]"] by simp

text \<open>The message in parts, and the buffer with its header.\<close>

lemma message_parts:
  assumes "message buf d" and "get_s32 buf 15 = Some addr"
  shows "\<exists>h c rest. buf = h @ [c] @ le_bytes addr @ le_bytes (of_nat d) @ rest \<and> length h = 14 \<and> take 6 h = fpga_mac"
proof (intro exI conjI)
  have len: "length buf = d + 27" using assms(1) by (simp add: message_def)
  have "buf = take 14 buf @ take 1 (drop 14 buf) @ take 4 (drop 15 buf) @ take 4 (drop 19 buf) @ drop 23 buf"
    by (simp only: append_assoc [symmetric] take_add [symmetric]) (simp add: take_add [symmetric])
  moreover have "take 1 (drop 14 buf) = [buf ! 14]"
    using len by (simp add: take_Suc_conv_app_nth)
  moreover have "le_bytes addr = take 4 (drop 15 buf)" "le_bytes (of_nat d) = take 4 (drop 19 buf)"
    using assms le_bytes_get by (auto simp: message_def)
  ultimately show "buf = take 14 buf @ [buf ! 14] @ le_bytes addr @ le_bytes (of_nat d) @ drop 23 buf" by metis
  show "length (take 14 buf) = 14" using len by simp
  show "take 6 (take 14 buf) = fpga_mac" using assms(1) by (simp add: message_def)
qed

lemma header_copied:
  assumes "buf = h @ [c] @ a @ l @ rest" and "length h = 14" and "length a = 4" and "length l = 4"
  shows "slice 0 LINK_HEADER_LEN buf = Some h" and "slice CMD_POS 1 buf = Some [c]"
    and "put 0 h (replicate MTU_MAX 0) = Some (h @ replicate 1986 0)"
    and "put CMD_POS [c] (h @ replicate 1986 0) = Some (h @ [c] @ replicate 1985 0)"
    and "put ADDR_POS a (h @ [c] @ replicate 1985 0) = Some (h @ [c] @ a @ replicate 1981 0)"
    and "put DATA_LEN_POS l (h @ [c] @ a @ replicate 1981 0) = Some (take 23 buf @ replicate 1977 0)"
proof -
  have r: "replicate MTU_MAX 0 = replicate 14 0 @ replicate 1986 (0 :: byte)" "replicate 1986 0 = [0] @ replicate 1985 (0 :: byte)"
    "replicate 1985 0 = replicate 4 0 @ replicate 1981 (0 :: byte)" "replicate 1981 0 = replicate 4 0 @ replicate 1977 (0 :: byte)"
    by (simp_all add: frame flip: replicate_add replicate_Suc)
  show "slice 0 LINK_HEADER_LEN buf = Some h" "slice CMD_POS 1 buf = Some [c]"
    using assms by (simp_all add: slice_def frame)
  show "put 0 h (replicate MTU_MAX 0) = Some (h @ replicate 1986 0)"
    using assms(2) unfolding r(1) by (intro put_start) simp
  show "put CMD_POS [c] (h @ replicate 1986 0) = Some (h @ [c] @ replicate 1985 0)"
    using assms(2) unfolding r(2) by (intro put_mid) (simp_all add: frame)
  show "put ADDR_POS a (h @ [c] @ replicate 1985 0) = Some (h @ [c] @ a @ replicate 1981 0)"
    using put_mid [of ADDR_POS "h @ [c]" a "replicate 4 0" "replicate 1981 0"] assms(2,3) unfolding r(3) by (simp add: frame)
  show "put DATA_LEN_POS l (h @ [c] @ a @ replicate 1981 0) = Some (take 23 buf @ replicate 1977 0)"
    using put_mid [of DATA_LEN_POS "h @ [c] @ a" l "replicate 4 0" "replicate 1977 0"] assms unfolding r(4) by (simp add: frame)
qed

lemma length_body [simp]: "d \<le> 1973 \<Longrightarrow> d + 27 \<le> length buf \<Longrightarrow> length (body buf d) = 2000"
  by (simp add: body_def padding_def)

lemma wlen_padlen_small: "d \<le> 1973 \<Longrightarrow> wlen_padlen d = (d, padding d)"
  by (auto simp: wlen_padlen_def padding_def frame)

lemma fill_first:
  assumes "buf = h @ [c] @ le_bytes addr @ le_bytes (of_nat d) @ rest" and "length h = 14" and "length buf = d + 27"
    and "d \<le> 1973"
  shows "\<exists>w. fill_wbuf addr 0 (d, padding d) buf (h @ [c] @ replicate 1985 0) = Some (w, d + padding d + 27) \<and>
    take (d + padding d + 27) w = sent buf d"
proof -
  note hc = header_copied [OF assms(1,2) length_le_bytes length_le_bytes]
  let ?b = "take 23 buf @ replicate 1977 (0 :: byte)" and ?n = "d + padding d"
  let ?c = "le_bytes (caculate_chksum (take (23 + ?n) (body buf d)))"
  have n: "?n \<le> 1973" using assms(4) by (simp add: padding_def)
  have len: "length (take d buf @ drop d ?b) = 2000" "padding d \<le> 37" using assms(3,4) by (simp_all add: padding_def)
  have s: "slice 0 d buf = Some (take d buf)" using assms(3) by (simp add: slice_def)
  have p1: "put 0 (take d buf) ?b = Some (take d buf @ drop d ?b)"
    using assms(3,4) by (simp add: put_def)
  have p2: "put 0 (replicate (padding d) 0) (take d buf @ drop d ?b) = Some (body buf d)"
    using len by (simp add: put_def body_def del: take_append drop_append)
  have p3: "put (DATA_LEN_POS + d + padding d) ?c (body buf d)
      = Some (take (19 + ?n) (body buf d) @ ?c @ drop (23 + ?n) (body buf d))"
    using n assms(3,4) by (simp add: put_def frame add.assoc)
  have "fill_wbuf addr 0 (d, padding d) buf (h @ [c] @ replicate 1985 0) =
      Some (take (19 + ?n) (body buf d) @ ?c @ drop (23 + ?n) (body buf d), ?n + 27)"
    using hc(5,6) s p1 p2 p3 by (simp add: fill_wbuf_def frame add.assoc)
  moreover have "take (?n + 27) (take (19 + ?n) (body buf d) @ ?c @ drop (23 + ?n) (body buf d)) = sent buf d"
    using n assms(3,4) by (simp add: sent_def Let_def)
  ultimately show ?thesis by blast
qed

lemma unat_small: "n < 2 ^ LENGTH('a) \<Longrightarrow> unat (of_nat n :: 'a :: len word) = n"
  by (simp add: unsigned_of_nat take_bit_nat_eq_self)

lemma sint_small: "n < 2 ^ 63 \<Longrightarrow> sint (of_nat n :: 64 word) = int n"
  by (simp add: signed_of_nat signed_take_bit_int_eq_self)

lemma ucast_small: "n < 2 ^ 32 \<Longrightarrow> ucast (of_nat n :: 32 word) = (of_nat n :: 64 word)"
  by (simp add: unsigned_of_nat take_bit_nat_eq_self)

lemma fpga_write_small:
  assumes "message buf d" and "get_s32 buf 15 = Some addr" and "0 < d" and "d \<le> 1973"
  shows "fpga_write buf (of_nat (d + 27)) (ok # oks) =
    Some (if ok then ([sent buf d], int (d + padding d + 27)) else ([], - 1))"
proof -
  from message_parts [OF assms(1,2)] obtain h c rest where
    p: "buf = h @ [c] @ le_bytes addr @ le_bytes (of_nat d) @ rest" "length h = 14" "take 6 h = fpga_mac" by blast
  have len: "length buf = d + 27" and dl: "get_s32 buf 19 = Some (of_nat d)" using assms(1) by (simp_all add: message_def)
  note hc = header_copied [OF p(1,2) length_le_bytes length_le_bytes]
  from fill_first [OF p(1,2) len assms(4)] obtain w where
    w: "fill_wbuf addr 0 (d, padding d) buf (h @ [c] @ replicate 1985 0) = Some (w, d + padding d + 27)"
      "take (d + padding d + 27) w = sent buf d" by blast
  have d64: "ucast (of_nat d :: 32 word) = (of_nat d :: 64 word)" using assms(4) by (intro ucast_small) simp
  have le: "ucast (of_nat d + of_nat DATA_HEADER_LEN + of_nat LINK_TRAILER_LEN :: 32 word) = (of_nat (d + 27) :: 64 word)"
    using ucast_small [of "d + 27"] assms(4) by (simp add: frame add.assoc)
  have "0 < (of_nat d :: 64 word)" "unat (of_nat d :: 64 word) = d"
    using assms(3,4) by (simp_all add: word_less_nat_alt unat_small)
  then have go: "write_from addr (of_nat d) buf (ok # oks) 0 (h @ [c] @ replicate 1985 0) = (case
      write_from addr (of_nat d) buf oks (if ok then of_nat (d + padding d + 27) else - 1) w of
        None \<Rightarrow> None | Some (fs, t) \<Rightarrow> Some (if ok then sent buf d # fs else fs, t))"
    using w wlen_padlen_small [OF assms(4)] by (subst write_from.simps) (simp add: d64 split: option.splits)
  have stop: "write_from addr (of_nat d) buf oks t w = Some ([], t)" if "\<not> of_nat d > t" for t
    using that by (subst write_from.simps) (simp add: d64)
  have "\<not> (of_nat d :: 64 word) > of_nat (d + padding d + 27)"
    using assms(4) by (simp add: word_less_nat_alt unat_small padding_def del: of_nat_add)
  moreover have "\<not> (of_nat d :: 64 word) > - 1" by (simp add: not_less)
  moreover have "sint (of_nat (d + padding d + 27) :: 64 word) = int (d + padding d + 27)"
    using assms(4) by (intro sint_small) (simp add: padding_def)
  moreover have "slice 0 MAC_LEN buf = Some fpga_mac" using p by (simp add: slice_def MAC_LEN_def)
  ultimately show ?thesis
    using hc(1-4) dl assms(2) go stop le
    by (cases ok) (simp_all add: fpga_write_def do_write_fpga_ram_def ADDR_POS_def DATA_LEN_POS_def)
qed

lemma sent_cong: "take (max 23 d) buf' = take (max 23 d) buf \<Longrightarrow> sent buf' d = sent buf d"
proof -
  assume a: "take (max 23 d) buf' = take (max 23 d) buf"
  have "take 23 buf' = take 23 buf" "take d buf' = take d buf"
    using arg_cong [OF a, of "take 23"] arg_cong [OF a, of "take d"] by (simp_all add: min_def split: if_splits)
  then have "body buf' d = body buf d" by (simp add: body_def)
  then show ?thesis by (simp add: sent_def)
qed

text \<open>
  C27. What is sent for a message to the FPGA that fits one frame. The frame has the right length, but
  the data are copied over its header: it begins with the message itself, from the destination on,
  so the last bytes of the data, as many as the header has, are never sent, and the padding of a
  short message wipes the destination out. A send that fails is noticed by accident only.
\<close>

theorem fpga_frame_loses_data:
  assumes "message buf d" and "0 < d" and "d \<le> 1973"
  shows "fpga_write buf (of_nat (d + 27)) (True # oks) = Some ([sent buf d], int (d + padding d + 27)) \<and>
    fpga_write buf (of_nat (d + 27)) (False # oks) = Some ([], - 1) \<and>
    length (sent buf d) = d + padding d + 27 \<and>
    take (padding d) (sent buf d) = replicate (padding d) 0 \<and>
    (37 \<le> d \<longrightarrow> take d (sent buf d) = take d buf \<and> take 19 (drop d (sent buf d)) = replicate 19 0) \<and>
    (\<forall>buf'. take (max 23 d) buf' = take (max 23 d) buf \<longrightarrow> sent buf' d = sent buf d)"
proof -
  have len: "length buf = d + 27" using assms(1) by (simp add: message_def)
  then obtain addr where addr: "get_s32 buf 15 = Some addr" using assms(2) by (auto simp: get_s32_def)
  have n: "d + padding d \<le> 1973" "length (body buf d) = 2000" using assms(3) len by (simp_all add: padding_def)
  have "length (sent buf d) = d + padding d + 27" using n by (simp add: sent_def Let_def)
  moreover have "take (padding d) (sent buf d) = replicate (padding d) 0"
  proof -
    have "take (padding d) (sent buf d) = take (padding d) (body buf d)"
      using n by (simp add: sent_def Let_def)
    also have "\<dots> = replicate (padding d) 0" unfolding body_def by simp
    finally show ?thesis .
  qed
  moreover have "take d (sent buf d) = take d buf \<and> take 19 (drop d (sent buf d)) = replicate 19 0" if "37 \<le> d"
  proof -
    have b: "body buf d = take d buf @ replicate (2000 - d) 0"
      using that len assms(3) by (simp add: body_def padding_def)
    have "take (19 + d) (body buf d) = take d buf @ replicate 19 0"
      using that len assms(3) unfolding b by simp
    then show ?thesis using that len by (simp add: sent_def Let_def padding_def)
  qed
  moreover have "fpga_write buf (of_nat (d + 27)) (True # oks) = Some ([sent buf d], int (d + padding d + 27))"
    "fpga_write buf (of_nat (d + 27)) (False # oks) = Some ([], - 1)"
    unfolding fpga_write_small [OF assms(1) addr assms(2,3)] by simp_all
  ultimately show ?thesis using sent_cong by blast
qed

definition short_message :: "byte list" where
  "short_message = fpga_mac @ [1, 2, 3, 4, 5, 6, 8, 0, 1] @ le_bytes 0x1000 @ le_bytes 2 @ [65, 66] @ replicate 4 0"

lemma short_message_ok: "message short_message 2"
  using get_le_bytes [of 19 "fpga_mac @ [1, 2, 3, 4, 5, 6, 8, 0, 1] @ le_bytes 0x1000" 2 "[65, 66] @ replicate 4 0"]
  by (simp add: message_def short_message_def fpga_mac_def)

theorem fpga_frame_loses_data_witness:
  "fpga_write short_message 29 [True] = Some ([sent short_message 2], 64) \<and>
   take 35 (sent short_message 2) = replicate 35 0"
proof -
  have "0 < (2 :: nat)" "2 \<le> (1973 :: nat)" by simp_all
  from fpga_frame_loses_data [OF short_message_ok this, of "[]"] have
    "fpga_write short_message (of_nat (2 + 27)) [True] = Some ([sent short_message 2], int (2 + padding 2 + 27))"
    "take (padding 2) (sent short_message 2) = replicate (padding 2) 0" by blast+
  moreover have "padding 2 = 35" "of_nat (2 + 27) = (29 :: 64 word)" by (simp_all add: padding_def)
  ultimately show ?thesis by simp
qed

section \<open>Messages of any length\<close>

text \<open>How far a turn that succeeds moves on.\<close>

definition gain :: "nat \<Rightarrow> nat" where
  "gain left = fst (wlen_padlen left) + snd (wlen_padlen left) + 27"

lemma gain_bounds: "64 \<le> gain left" "0 < left \<Longrightarrow> gain left \<le> left + 63" "gain left \<le> 2000" "fst (wlen_padlen left) \<le> left"
  "fst (wlen_padlen left) + snd (wlen_padlen left) \<le> 1973"
  by (auto simp: gain_def wlen_padlen_def frame)

lemma put_length_same: "i + length xs \<le> length w \<Longrightarrow> \<exists>w'. put i xs w = Some w' \<and> length w' = length w"
  by (simp add: put_def)

lemma fill_ok:
  assumes "length w = 2000" and "unat t + wlen \<le> length buf" and "wlen + padlen \<le> 1973"
  shows "\<exists>w'. fill_wbuf addr t (wlen, padlen) buf w = Some (w', wlen + padlen + 27) \<and> length w' = 2000"
proof -
  from put_length_same [of ADDR_POS "le_bytes (addr + ucast t)" w] obtain w1 where
    w1: "put ADDR_POS (le_bytes (addr + ucast t)) w = Some w1" "length w1 = 2000" using assms(1) by (auto simp: frame)
  from put_length_same [of DATA_LEN_POS "le_bytes (of_nat wlen)" w1] obtain w2 where
    w2: "put DATA_LEN_POS (le_bytes (of_nat wlen)) w1 = Some w2" "length w2 = 2000" using w1(2) by (auto simp: frame)
  have s: "slice (unat t) wlen buf = Some (take wlen (drop (unat t) buf))" using assms(2) by (simp add: slice_def)
  from put_length_same [of 0 "take wlen (drop (unat t) buf)" w2] obtain w3 where
    w3: "put 0 (take wlen (drop (unat t) buf)) w2 = Some w3" "length w3 = 2000" using w2(2) assms by auto
  from put_length_same [of 0 "replicate padlen 0" w3] obtain w4 where
    w4: "put 0 (replicate padlen 0) w3 = Some w4" "length w4 = 2000" using w3(2) assms(3) by auto
  from put_length_same [of "DATA_LEN_POS + wlen + padlen" "le_bytes (caculate_chksum (take (DATA_HEADER_LEN + wlen + padlen) w4))" w4]
  obtain w5 where "put (DATA_LEN_POS + wlen + padlen) (le_bytes (caculate_chksum (take (DATA_HEADER_LEN + wlen + padlen) w4))) w4 = Some w5"
    "length w5 = 2000" using w4(2) assms(3) by (auto simp: frame)
  with w1(1) w2(1) s w3(1) w4(1) show ?thesis
    by (simp add: fill_wbuf_def DATA_HEADER_LEN_def LINK_TRAILER_LEN_def)
qed

lemma fpga_sends_end:
  assumes "d \<le> length buf" and "d < 2 ^ 32"
  shows "length w = 2000 \<Longrightarrow> \<forall>ok\<in>set oks. ok \<Longrightarrow> d \<le> t + 64 * length oks \<Longrightarrow> t \<le> d + 63 \<Longrightarrow>
    \<exists>fs t'. write_from addr (of_nat d) buf oks (of_nat t) w = Some (fs, of_nat t') \<and> d \<le> t' \<and> t' \<le> d + 63 \<and>
      length fs \<le> length oks"
proof (induction oks arbitrary: t w)
  case Nil
  then have "\<not> of_nat d > (of_nat t :: 64 word)" using assms(2) by (simp add: word_less_nat_alt unat_small)
  with Nil show ?case using assms(2) by (subst write_from.simps) (auto simp: ucast_small)
next
  case (Cons ok oks)
  have small: "d < 2 ^ 64" "t < 2 ^ 64" using Cons.prems(4) assms(2) by simp_all
  have less: "of_nat d > (of_nat t :: 64 word) \<longleftrightarrow> d > t" using small by (simp add: word_less_nat_alt unat_small)
  show ?case
  proof (cases "t < d")
    case False
    with Cons.prems(4) less show ?thesis using assms(2) by (subst write_from.simps) (auto simp: ucast_small)
  next
    case True
    let ?wp = "wlen_padlen (d - t)"
    have left: "unat (of_nat d - of_nat t :: 64 word) = d - t"
      using True small by (simp add: unat_sub word_le_nat_alt unat_small)
    note g = gain_bounds [of "d - t"]
    have "unat (of_nat t :: 64 word) + fst ?wp \<le> length buf" using g(4) True assms(1) small by (simp add: unat_small)
    from fill_ok [OF Cons.prems(1) this g(5), of addr] obtain w' where
      w': "fill_wbuf addr (of_nat t) ?wp buf w = Some (w', gain (d - t))" "length w' = 2000" by (auto simp: gain_def)
    have "d \<le> t + gain (d - t) + 64 * length oks" "t + gain (d - t) \<le> d + 63"
      using g True Cons.prems(3) by auto
    from Cons.IH [OF w'(2) _ this] Cons.prems(2) obtain fs t' where
      "write_from addr (of_nat d) buf oks (of_nat (t + gain (d - t))) w' = Some (fs, of_nat t')" "d \<le> t'" "t' \<le> d + 63"
      "length fs \<le> length oks" by auto
    with w'(1) less True left Cons.prems(2) show ?thesis
      using assms(2) by (subst write_from.simps) (auto simp: ucast_small)
  qed
qed

text \<open>A failing send takes one off \<open>totalwrite\<close>, so it is tried again until that is \<open>- 1\<close>.\<close>

lemma fpga_send_retries:
  assumes "d \<le> length buf" and "d < 2 ^ 32"
  shows "length w = 2000 \<Longrightarrow> t < d \<Longrightarrow>
    write_from addr (of_nat d) buf (replicate (t + 1) False) (of_nat t) w = Some ([], - 1)"
proof (induction t arbitrary: w)
  case 0
  from fill_ok [of w 0 "fst (wlen_padlen d)" buf "snd (wlen_padlen d)" addr] gain_bounds [of d] 0 assms(1) obtain w' n where
    "fill_wbuf addr 0 (wlen_padlen d) buf w = Some (w', n)" by auto
  moreover have "write_from addr (of_nat d) buf [] (- 1) w' = Some ([], - 1)"
    by (subst write_from.simps) (simp add: not_less)
  ultimately show ?case using 0 assms(2)
    by (subst write_from.simps) (simp add: ucast_small word_less_nat_alt unat_small)
next
  case (Suc t)
  have small: "d < 2 ^ 64" "Suc t < 2 ^ 64" using Suc.prems(2) assms(2) by simp_all
  have left: "unat (of_nat d - of_nat (Suc t) :: 64 word) = d - Suc t"
    using Suc.prems(2) small by (simp add: unat_sub word_le_nat_alt unat_small del: of_nat_Suc)
  have "unat (of_nat (Suc t) :: 64 word) + fst (wlen_padlen (d - Suc t)) \<le> length buf"
    using gain_bounds(4) [of "d - Suc t"] Suc.prems(2) assms(1) small by (simp add: unat_small del: of_nat_Suc)
  from fill_ok [OF Suc.prems(1) this gain_bounds(5), of addr] obtain w' n where
    w': "fill_wbuf addr (of_nat (Suc t)) (wlen_padlen (d - Suc t)) buf w = Some (w', n)" "length w' = 2000" by auto
  have "of_nat (Suc t) < (of_nat d :: 64 word)" using Suc.prems(2) small by (simp add: word_less_nat_alt unat_small del: of_nat_Suc)
  moreover have "of_nat (Suc t) + (- 1) = (of_nat t :: 64 word)" by simp
  ultimately show ?case using Suc.IH [OF w'(2)] Suc.prems(2) w'(1) left assms(2)
    by (subst write_from.simps) (simp add: ucast_small del: of_nat_Suc)
qed

text \<open>
  Writing a message of any length to the FPGA ends, with no access out of bounds: with sends that
  succeed, after at most one of them for every 64 bytes of data. The number returned is not that of
  the bytes of data or of the message, but lies up to 63 above that of the data, since every
  frame counts with its header.
\<close>

theorem fpga_write_ends:
  assumes "message buf d" and "\<forall>ok\<in>set oks. ok" and "d \<le> 64 * length oks"
  shows "\<exists>fs r. fpga_write buf (of_nat (d + 27)) oks = Some (fs, r) \<and> int d \<le> r \<and> r \<le> int d + 63 \<and>
    length fs \<le> length oks"
proof -
  have len: "length buf = d + 27" and dl: "get_s32 buf 19 = Some (of_nat d)" and d: "d < 2 ^ 32 - 27"
    using assms(1) by (simp_all add: message_def)
  then obtain addr where addr: "get_s32 buf 15 = Some addr" by (auto simp: get_s32_def)
  from message_parts [OF assms(1) addr] obtain h c rest where
    p: "buf = h @ [c] @ le_bytes addr @ le_bytes (of_nat d) @ rest" "length h = 14" "take 6 h = fpga_mac" by blast
  note hc = header_copied [OF p(1,2) length_le_bytes length_le_bytes]
  have le: "ucast (of_nat d + of_nat DATA_HEADER_LEN + of_nat LINK_TRAILER_LEN :: 32 word) = (of_nat (d + 27) :: 64 word)"
    using ucast_small [of "d + 27"] d by (simp add: frame add.assoc)
  have "length (h @ [c] @ replicate 1985 (0 :: byte)) = 2000" using p(2) by simp
  from fpga_sends_end [OF _ _ this assms(2), of d buf 0 addr] len d assms(3) obtain fs t where
    t: "write_from addr (of_nat d) buf oks 0 (h @ [c] @ replicate 1985 0) = Some (fs, of_nat t)" "d \<le> t" "t \<le> d + 63"
      "length fs \<le> length oks" by auto
  have "sint (of_nat t :: 64 word) = int t" using t(3) d by (intro sint_small) simp
  moreover have "slice 0 MAC_LEN buf = Some fpga_mac" using p by (simp add: slice_def MAC_LEN_def)
  ultimately have "fpga_write buf (of_nat (d + 27)) oks = Some (fs, int t)"
    using hc(1-4) dl addr t(1) le by (simp add: fpga_write_def do_write_fpga_ram_def ADDR_POS_def DATA_LEN_POS_def)
  with t(2-4) show ?thesis by auto
qed

theorem fpga_write_ends_witness:
  "\<exists>fs r. fpga_write short_message 29 [True] = Some (fs, r) \<and> 2 \<le> r \<and> r \<le> 65 \<and> length fs \<le> 1"
proof -
  from fpga_write_ends [OF short_message_ok, of "[True]"] show ?thesis by simp
qed

section \<open>Other destinations, descriptors, the test program\<close>

text \<open>A frame for any other destination is sent as it is, if its length is right.\<close>

lemma fpga_write_other:
  assumes "length buf = n" and "take 6 buf \<noteq> fpga_mac" and "64 \<le> n" and "n \<le> 2000"
  shows "fpga_write buf (of_nat n) (ok # oks) = Some (if ok then ([buf], int n) else ([], - 1))"
  using assms unat_small [of n, where 'a = 64] by (simp add: fpga_write_def slice_def frame)

lemma fpga_open_leaves_nothing:
  "0 \<le> fd \<Longrightarrow> (r, opened') = fpga_open named fd oks opened \<Longrightarrow>
    (if r = - 1 then opened' = opened else r = fd \<and> fpga_close r opened' = opened)"
  by (auto simp: fpga_open_def fpga_close_def acquire_def Let_def split: if_splits)

section \<open>The test program\<close>

text \<open>
  Without an interface nothing is ever sent; with one every packet that is not for the FPGA and has a length
  the interface takes comes back as it was.
\<close>

lemma echo_main_closed:
  assumes "fst (fpga_open named fd oks {#}) < 0"
  shows "echo_main named fd oks evs = Some []"
proof -
  have "echo_loop (map (\<lambda>(received, oks). (None, oks)) evs) buf = Some []" for buf
    by (induction evs) (auto simp: echo_turn_def fpga_read_def)
  with assms show ?thesis by (cases "fpga_open named fd oks {#}") (simp add: echo_main_def)
qed

definition plain :: "byte list \<Rightarrow> bool" where
  "plain xs \<longleftrightarrow> take 6 xs \<noteq> fpga_mac \<and> MTU_MIN \<le> length xs \<and> length xs \<le> MTU_MAX"

lemma echo_turn_plain:
  assumes "plain xs" and "length buf = BUF_SIZE"
  shows "echo_turn (Some xs) (True # oks) buf = Some ([xs], xs @ drop (length xs) buf)"
proof -
  have "xs \<noteq> []" using assms(1) by (auto simp: plain_def MTU_MIN_def)
  moreover have "unat (of_nat (length xs) :: 64 word) = length xs"
    using assms(1) by (simp add: plain_def MTU_MAX_def unat_of_nat)
  ultimately show ?thesis
    using assms by (simp add: echo_turn_def fpga_read_def plain_def put_Some fpga_write_def slice_def BUF_SIZE_def MTU_MAX_def
        MTU_MIN_def MAC_LEN_def Let_def)
qed

lemma echo_main_plain:
  assumes "0 \<le> fst (fpga_open named fd oks {#})" and "\<forall>(xs, os)\<in>set evs. plain xs"
  shows "echo_main named fd oks (map (\<lambda>(xs, os). (Some xs, True # os)) evs) = Some (map fst evs)"
proof -
  have "length buf = BUF_SIZE \<Longrightarrow> echo_loop (map (\<lambda>(xs, os). (Some xs, True # os)) evs) buf = Some (map fst evs)" for buf
    using assms(2)
  proof (induction evs arbitrary: buf)
    case (Cons e evs)
    obtain xs os where e: "e = (xs, os)" by force
    have "length (xs @ drop (length xs) buf) = BUF_SIZE"
      using Cons.prems e by (simp add: plain_def BUF_SIZE_def MTU_MAX_def)
    with Cons e echo_turn_plain [of xs buf os] show ?case by simp
  qed simp
  with assms(1) show ?thesis by (cases "fpga_open named fd oks {#}") (simp add: echo_main_def)
qed

end
