(* ===== verification/Config.thy ===== *)
theory Config
  imports CString
begin

text \<open>
  The two parsers of configuration files in \<open>config_file\<close>: \<open>config1.c\<close> for settings \<open>key=value\<close> and
  \<open>config2.c\<close> for rows of columns. A file is its text, or \<open>None\<close> when it cannot be opened. The handler of
  the first is the list of the calls it gets. \<open>None\<close> as a result is undefined behaviour: the loop that cuts the
  end off a line has no lower limit and runs out of the buffer when all of the line is blank for it.
\<close>

section \<open>What both share\<close>

definition COMMENT_CHAR :: char where
  "COMMENT_CHAR = CHR ''#''"

definition IS_START_BLANK_CHAR :: "char \<Rightarrow> bool" where
  "IS_START_BLANK_CHAR c \<longleftrightarrow> c = CHR '' '' \<or> c = CHR 0x09"

definition IS_BLANK_LINE :: "char \<Rightarrow> bool" where
  "IS_BLANK_LINE c \<longleftrightarrow> c = CHR 0x0D \<or> c = newline \<or> c = COMMENT_CHAR"

text \<open>
  One line: nothing, if it is empty or a comment, or what is left of it when both ends are stripped.
  The end is stripped first, over the whole buffer, since the code does not stop at \<open>linep\<close>.
\<close>

definition strip_line :: "(char \<Rightarrow> bool) \<Rightarrow> string \<Rightarrow> string option option" where
  "strip_line end_blank linebuf =
     (let s = cstr linebuf; linep = dropWhile IS_START_BLANK_CHAR s
      in if linep \<noteq> [] \<and> IS_BLANK_LINE (hd linep) then Some None
         else if list_all end_blank s then None
         else Some (Some (dropWhile IS_START_BLANK_CHAR (rev (dropWhile end_blank (rev s))))))"

section \<open>Settings\<close>

definition LINE_BUF_SIZE :: nat where
  "LINE_BUF_SIZE = 512"

definition SEPERATOR_CHAR :: char where
  "SEPERATOR_CHAR = CHR ''=''"

definition IS_END_BLANK_CHAR :: "char \<Rightarrow> bool" where
  "IS_END_BLANK_CHAR c \<longleftrightarrow> c = CHR '' '' \<or> c = CHR 0x09 \<or> c = CHR 0x0D \<or> c = newline"

function parse_lines :: "string \<Rightarrow> (string \<times> string) list option" where
  "parse_lines file = (case fgets LINE_BUF_SIZE file of
     None \<Rightarrow> Some []
   | Some (linebuf, file) \<Rightarrow> (case strip_line IS_END_BLANK_CHAR linebuf of
       None \<Rightarrow> None
     | Some None \<Rightarrow> parse_lines file
     | Some (Some linep) \<Rightarrow> (case split_at SEPERATOR_CHAR linep of
         None \<Rightarrow> parse_lines file
       | Some kv \<Rightarrow> map_option ((#) kv) (parse_lines file))))"
  by auto
termination
  by (relation "measure length") (auto simp: LINE_BUF_SIZE_def intro: fgets_shorter)

declare parse_lines.simps [simp del]

definition parse_config :: "string option \<Rightarrow> (int \<times> (string \<times> string) list) option" where
  "parse_config cfg = (case cfg of
     None \<Rightarrow> Some (- 1, [])
   | Some file \<Rightarrow> map_option (\<lambda>kvs. (0, kvs)) (parse_lines file))"

definition QTE_ENV_KEY_SKIP :: string where
  "QTE_ENV_KEY_SKIP = ''export''"

definition echo :: "string \<Rightarrow> string \<Rightarrow> string" where
  "echo key value =
     (let key = (if take (length QTE_ENV_KEY_SKIP) key = QTE_ENV_KEY_SKIP then drop (length QTE_ENV_KEY_SKIP) key else key);
          key = dropWhile IS_START_BLANK_CHAR key
      in ''key='' @ key @ '', value='' @ value @ [newline])"

definition config1_main :: "string list \<Rightarrow> (string \<Rightarrow> string option) \<Rightarrow> (int \<times> string) option" where
  "config1_main argv files =
     (if length argv < 2 then Some (- 1, ''Usage: '' @ argv ! 0 @ '' <config path>'' @ [newline])
      else map_option (\<lambda>(_, kvs). (0, concat (map (\<lambda>(k, v). echo k v) kvs))) (parse_config (files (argv ! 1))))"

section \<open>Rows\<close>

definition LINE_LENGTH_MAX :: nat where
  "LINE_LENGTH_MAX = 256"

definition COLUMN_SEP_CHAR :: char where
  "COLUMN_SEP_CHAR = CHR '';''"

definition IS_END_BLANK_CHAR2 :: "char \<Rightarrow> bool" where
  "IS_END_BLANK_CHAR2 c \<longleftrightarrow> c = CHR '' '' \<or> c = CHR 0x09 \<or> c = CHR 0x0D \<or> c = newline \<or> c = COLUMN_SEP_CHAR"

text \<open>The loop over the columns of a row.\<close>

function columns :: "string option \<Rightarrow> string list" where
  "columns None = []"
| "columns (Some linep) = fst (strsep linep) # columns (snd (strsep linep))"
  by pat_completeness auto
termination
  by (relation "measure (\<lambda>p. case p of None \<Rightarrow> 0 | Some cs \<Rightarrow> Suc (length cs))")
    (auto split: option.splits dest: strsep_shorter)

function read_rows :: "string \<Rightarrow> string list list option" where
  "read_rows file = (case fgets LINE_LENGTH_MAX file of
     None \<Rightarrow> Some []
   | Some (linebuf, file) \<Rightarrow> (case strip_line IS_END_BLANK_CHAR2 linebuf of
       None \<Rightarrow> None
     | Some None \<Rightarrow> read_rows file
     | Some (Some linep) \<Rightarrow> map_option ((#) (columns (Some linep))) (read_rows file)))"
  by auto
termination
  by (relation "measure length") (auto simp: LINE_LENGTH_MAX_def intro: fgets_shorter)

declare read_rows.simps [simp del]

text \<open>What is printed of the rows is their columns; the number of rows is returned.\<close>

definition read_config :: "string option \<Rightarrow> (int \<times> string list list) option" where
  "read_config cfg = (case cfg of
     None \<Rightarrow> Some (- 1, [])
   | Some file \<Rightarrow> map_option (\<lambda>rows. (int (length rows), rows)) (read_rows file))"

definition config2_main :: "string list \<Rightarrow> (string \<Rightarrow> string option) \<Rightarrow> (int \<times> string list list) option" where
  "config2_main argv files =
     (if length argv < 2 then Some (- 1, []) else map_option (\<lambda>(_, rows). (0, rows)) (read_config (files (argv ! 1))))"

section \<open>Stripping a line\<close>

definition plain :: "string \<Rightarrow> bool" where
  "plain cs \<longleftrightarrow> newline \<notin> set cs \<and> CHR 0x00 \<notin> set cs"

definition starts_well :: "string \<Rightarrow> bool" where
  "starts_well cs \<longleftrightarrow> cs \<noteq> [] \<and> \<not> IS_START_BLANK_CHAR (hd cs) \<and> \<not> IS_BLANK_LINE (hd cs)"

lemma blank_line_no_start: "IS_BLANK_LINE c \<Longrightarrow> \<not> IS_START_BLANK_CHAR c"
  by (auto simp: IS_BLANK_LINE_def IS_START_BLANK_CHAR_def COMMENT_CHAR_def)

lemma plain_append [simp]: "plain (a @ b) \<longleftrightarrow> plain a \<and> plain b" "plain (c # b) \<longleftrightarrow> c \<noteq> newline \<and> c \<noteq> CHR 0x00 \<and> plain b"
  "plain []"
  by (auto simp: plain_def)

lemma strip_line_text:
  assumes "list_all IS_START_BLANK_CHAR i" and "starts_well body" and "\<not> end_blank (last body)" and "list_all end_blank t"
    and "end_blank newline" and "plain (i @ body @ t)"
  shows "strip_line end_blank (i @ body @ t @ [newline]) = Some (Some body)"
proof -
  have c: "cstr (i @ body @ t @ [newline]) = i @ body @ t @ [newline]"
    using assms(6) by (intro cstr_id) (auto simp: plain_def)
  have d: "dropWhile IS_START_BLANK_CHAR (i @ r) = r" if "r \<noteq> []" "\<not> IS_START_BLANK_CHAR (hd r)" for r
    using assms(1) that by (cases r) (auto simp: list_all_iff)
  have b: "body \<noteq> []" "\<not> IS_START_BLANK_CHAR (hd body)" "\<not> IS_BLANK_LINE (hd body)"
    using assms(2) by (auto simp: starts_well_def)
  have "rev (dropWhile end_blank (rev (i @ body @ t @ [newline]))) = i @ body"
  proof -
    have "dropWhile end_blank ((newline # rev t) @ rev body @ rev i) = dropWhile end_blank (rev body @ rev i)"
      using assms(4,5) by (intro dropWhile_append2) (auto simp: list_all_iff)
    also have "\<dots> = rev body @ rev i"
      using assms(3) b(1) by (cases body rule: rev_cases) auto
    finally show ?thesis by simp
  qed
  moreover have "\<not> list_all end_blank (i @ body @ t @ [newline])"
    using assms(3) b(1) by (auto simp: list_all_iff)
  ultimately show ?thesis
    using d [of "body @ t @ [newline]"] d [of body] b c by (simp add: strip_line_def del: rev_append)
qed

lemma strip_line_none:
  assumes "list_all IS_START_BLANK_CHAR i" and "IS_BLANK_LINE c" and "plain i"
  shows "strip_line end_blank (i @ c # r) = Some None"
proof -
  have "c \<noteq> CHR 0x00" using assms(2) by (auto simp: IS_BLANK_LINE_def COMMENT_CHAR_def)
  then have "cstr (i @ c # r) = i @ c # cstr r"
    using assms(3) cstr_append [of i "c # r"] by (simp add: plain_def cstr_def)
  moreover have "dropWhile IS_START_BLANK_CHAR (i @ c # cstr r) = c # cstr r"
    using assms(1) blank_line_no_start [OF assms(2)] by (simp add: list_all_iff)
  ultimately show ?thesis using assms(2) blank_line_no_start [OF assms(2)] by (simp add: strip_line_def Let_def)
qed

section \<open>Files that are read back\<close>

text \<open>
  What a file is made of: comments and empty lines with any indentation, and lines of text with
  indentation and a blank end.
\<close>

datatype 'a item = Comment string string | Empty string bool | Item string 'a string

fun render :: "('a \<Rightarrow> string) \<Rightarrow> 'a item \<Rightarrow> string" where
  "render f (Comment i t) = i @ COMMENT_CHAR # t @ [newline]"
| "render f (Empty i cr) = i @ (if cr then [CHR 0x0D] else []) @ [newline]"
| "render f (Item i x t) = i @ f x @ t @ [newline]"

fun item_ok :: "nat \<Rightarrow> ('a \<Rightarrow> string) \<Rightarrow> (char \<Rightarrow> bool) \<Rightarrow> 'a item \<Rightarrow> bool" where
  "item_ok n f eb (Comment i t) \<longleftrightarrow> list_all IS_START_BLANK_CHAR i \<and> plain (i @ t) \<and> length (i @ t) + 3 \<le> n"
| "item_ok n f eb (Empty i cr) \<longleftrightarrow> list_all IS_START_BLANK_CHAR i \<and> plain i \<and> length i + 3 \<le> n"
| "item_ok n f eb (Item i x t) \<longleftrightarrow> list_all IS_START_BLANK_CHAR i \<and> list_all eb t \<and> plain (i @ f x @ t) \<and>
     starts_well (f x) \<and> \<not> eb (last (f x)) \<and> length (i @ f x @ t) + 2 \<le> n"

fun item_of :: "'a item \<Rightarrow> 'a option" where
  "item_of (Item _ x _) = Some x"
| "item_of _ = None"

lemma read_item:
  assumes "item_ok n f eb x" and "eb newline"
  shows "\<exists>l. fgets n (render f x @ rest) = Some (l, rest) \<and> strip_line eb l = Some (map_option f (item_of x))"
proof (cases x)
  case (Comment i t)
  with assms fgets_line [of "i @ COMMENT_CHAR # t" n rest] strip_line_none [of i COMMENT_CHAR eb "t @ [newline]"] show ?thesis
    by (auto simp: plain_def IS_BLANK_LINE_def COMMENT_CHAR_def)
next
  case (Empty i cr)
  with assms fgets_line [of "i @ (if cr then [CHR 0x0D] else [])" n rest] strip_line_none [of i newline eb "[]"]
    strip_line_none [of i "CHR 0x0D" eb "[newline]"] show ?thesis
    by (cases cr) (auto simp: plain_def IS_BLANK_LINE_def)
next
  case (Item i y t)
  with assms fgets_line [of "i @ f y @ t" n rest] strip_line_text [of i "f y" eb t] show ?thesis
    by (auto simp: plain_def)
qed

definition kv_text :: "string \<times> string \<Rightarrow> string" where
  "kv_text kv = fst kv @ SEPERATOR_CHAR # snd kv"

definition row_text :: "string list \<Rightarrow> string" where
  "row_text cols = concat (map (\<lambda>c. c @ '';'') (butlast cols)) @ last cols"

lemma end_blank_newline [simp]: "IS_END_BLANK_CHAR newline" "IS_END_BLANK_CHAR2 newline"
  by (simp_all add: IS_END_BLANK_CHAR_def IS_END_BLANK_CHAR2_def)

lemma parse_rendered:
  "\<forall>x\<in>set xs. item_ok LINE_BUF_SIZE kv_text IS_END_BLANK_CHAR x \<Longrightarrow>
    \<forall>x\<in>set xs. \<forall>k v. item_of x = Some (k, v) \<longrightarrow> SEPERATOR_CHAR \<notin> set k \<Longrightarrow>
    parse_lines (concat (map (render kv_text) xs)) = Some (List.map_filter item_of xs)"
proof (induction xs)
  case Nil
  show ?case by (subst parse_lines.simps) (simp add: fgets_def)
next
  case (Cons x xs)
  then have IH: "parse_lines (concat (map (render kv_text) xs)) = Some (List.map_filter item_of xs)" by simp
  from read_item [of LINE_BUF_SIZE kv_text IS_END_BLANK_CHAR x "concat (map (render kv_text) xs)"] Cons.prems(1) obtain l where
    l: "fgets LINE_BUF_SIZE (render kv_text x @ concat (map (render kv_text) xs)) = Some (l, concat (map (render kv_text) xs))"
      "strip_line IS_END_BLANK_CHAR l = Some (map_option kv_text (item_of x))" by auto
  have "split_at SEPERATOR_CHAR (kv_text kv) = Some kv" if "item_of x = Some kv" for kv
    using split_at_first [of SEPERATOR_CHAR "fst kv" "snd kv"] Cons.prems(2) that by (cases kv) (simp add: kv_text_def)
  with l IH show ?case
    by (subst parse_lines.simps) (cases "item_of x"; simp)
qed

lemma columns_fields: "columns p = (case p of None \<Rightarrow> [] | Some cs \<Rightarrow> sep_fields cs)"
  by (induction p rule: columns.induct) (auto simp: sep_fields_strsep split: option.splits)

lemma read_rendered:
  "\<forall>x\<in>set xs. item_ok LINE_LENGTH_MAX row_text IS_END_BLANK_CHAR2 x \<Longrightarrow>
    \<forall>x\<in>set xs. \<forall>cols. item_of x = Some cols \<longrightarrow> cols \<noteq> [] \<and> (\<forall>c\<in>set cols. COLUMN_SEP_CHAR \<notin> set c) \<Longrightarrow>
    read_rows (concat (map (render row_text) xs)) = Some (List.map_filter item_of xs)"
proof (induction xs)
  case Nil
  show ?case by (subst read_rows.simps) (simp add: fgets_def)
next
  case (Cons x xs)
  then have IH: "read_rows (concat (map (render row_text) xs)) = Some (List.map_filter item_of xs)" by simp
  from read_item [of LINE_LENGTH_MAX row_text IS_END_BLANK_CHAR2 x "concat (map (render row_text) xs)"] Cons.prems(1) obtain l where
    l: "fgets LINE_LENGTH_MAX (render row_text x @ concat (map (render row_text) xs)) = Some (l, concat (map (render row_text) xs))"
      "strip_line IS_END_BLANK_CHAR2 l = Some (map_option row_text (item_of x))" by auto
  have "columns (Some (row_text cols)) = cols" if "item_of x = Some cols" for cols
    using sep_fields_join [of cols] Cons.prems(2) that by (simp add: columns_fields row_text_def COLUMN_SEP_CHAR_def)
  with l IH show ?case
    by (subst read_rows.simps) (cases "item_of x"; simp del: columns.simps)
qed

text \<open>
  C28. Files that are written are read back: comments, empty lines, indentation and blanks at the end
  of lines are ignored, the handler of \<open>config1.c\<close> gets the settings in order, as long as no line
  is longer than 511 characters, and \<open>config2.c\<close> reads the columns of every row and returns the
  number of rows, as long as no line is longer than 255.
\<close>

theorem config_files_roundtrip:
  assumes "\<forall>x\<in>set xs. item_ok LINE_BUF_SIZE kv_text IS_END_BLANK_CHAR x"
    and "\<forall>x\<in>set xs. \<forall>k v. item_of x = Some (k, v) \<longrightarrow> SEPERATOR_CHAR \<notin> set k"
    and "\<forall>y\<in>set ys. item_ok LINE_LENGTH_MAX row_text IS_END_BLANK_CHAR2 y"
    and "\<forall>y\<in>set ys. \<forall>cols. item_of y = Some cols \<longrightarrow> cols \<noteq> [] \<and> (\<forall>c\<in>set cols. COLUMN_SEP_CHAR \<notin> set c)"
  shows "parse_config (Some (concat (map (render kv_text) xs))) = Some (0, List.map_filter item_of xs) \<and>
    read_config (Some (concat (map (render row_text) ys))) =
      Some (int (length (List.map_filter item_of ys)), List.map_filter item_of ys)"
  using parse_rendered [OF assms(1,2)] read_rendered [OF assms(3,4)]
  by (simp add: parse_config_def read_config_def)

text \<open>The two sample files.\<close>

definition sample1 :: "(string \<times> string) item list" where
  "sample1 = [Item [] (''export QTDIR'', ''/usr/local/QTE4.8.5'') [], Item [] (''PATH'', ''$QTDIR/bin:$PATH'') [],
     Empty [] False, Comment [] ''QWS_SIZE=1600x900'', Item [] (''QWS_DISPLAY'', ''LinuxFb:/dev/fb0'') []]"

definition sample2 :: "string list item list" where
  "sample2 = [Item [] [''aaaa'', ''bbbb'', ''dcccc''] [], Comment [] ''aaaa2;bbbb;dcccc'', Item [] [''aaaa3'', ''bbbb'', ''dcccc''] '';'']"

theorem config_files_roundtrip_witness:
  "parse_config (Some (concat (map (render kv_text) sample1))) =
     Some (0, [(''export QTDIR'', ''/usr/local/QTE4.8.5''), (''PATH'', ''$QTDIR/bin:$PATH''), (''QWS_DISPLAY'', ''LinuxFb:/dev/fb0'')]) \<and>
   read_config (Some (concat (map (render row_text) sample2))) =
     Some (2, [[''aaaa'', ''bbbb'', ''dcccc''], [''aaaa3'', ''bbbb'', ''dcccc'']])"
proof -
  note chars = IS_END_BLANK_CHAR_def IS_END_BLANK_CHAR2_def IS_START_BLANK_CHAR_def IS_BLANK_LINE_def COMMENT_CHAR_def
    SEPERATOR_CHAR_def COLUMN_SEP_CHAR_def LINE_BUF_SIZE_def LINE_LENGTH_MAX_def starts_well_def kv_text_def row_text_def
  have "\<forall>x\<in>set sample1. item_ok LINE_BUF_SIZE kv_text IS_END_BLANK_CHAR x"
    "\<forall>x\<in>set sample1. \<forall>k v. item_of x = Some (k, v) \<longrightarrow> SEPERATOR_CHAR \<notin> set k"
    "\<forall>y\<in>set sample2. item_ok LINE_LENGTH_MAX row_text IS_END_BLANK_CHAR2 y"
    "\<forall>y\<in>set sample2. \<forall>cols. item_of y = Some cols \<longrightarrow> cols \<noteq> [] \<and> (\<forall>c\<in>set cols. COLUMN_SEP_CHAR \<notin> set c)"
    by (simp_all add: sample1_def sample2_def chars)
  from config_files_roundtrip [OF this] show ?thesis by (simp add: sample1_def sample2_def)
qed

section \<open>Lines that break the parsers\<close>

text \<open>
  A line that is blank to its end: for \<open>config2.c\<close> any line of separators, for \<open>config1.c\<close> blanks at
  the end of the file without a newline.
\<close>

lemma config2_separators_undefined:
  assumes "cols \<noteq> []" and "set cols \<subseteq> {CHR '';''}" and "length cols \<le> 254"
  shows "read_config (Some (cols @ newline # rest)) = None"
proof -
  have n: "newline \<notin> set cols" "CHR 0x00 \<notin> set cols" using assms(2) by auto
  from fgets_line [OF n(1), of LINE_LENGTH_MAX rest] assms(3) have
    f: "fgets LINE_LENGTH_MAX (cols @ newline # rest) = Some (cols @ [newline], rest)" by (simp add: LINE_LENGTH_MAX_def)
  have "cstr (cols @ [newline]) = cols @ [newline]" using n by (intro cstr_id) auto
  moreover have "hd cols = CHR '';''" using assms(1,2) by (cases cols) auto
  moreover have "dropWhile IS_START_BLANK_CHAR (cols @ [newline]) = cols @ [newline]"
    using assms(1,2) by (cases cols) (auto simp: IS_START_BLANK_CHAR_def)
  moreover have "list_all IS_END_BLANK_CHAR2 (cols @ [newline])"
    using assms(2) by (auto simp: list_all_iff IS_END_BLANK_CHAR2_def COLUMN_SEP_CHAR_def)
  ultimately have "strip_line IS_END_BLANK_CHAR2 (cols @ [newline]) = None"
    using assms(1) by (simp add: strip_line_def IS_BLANK_LINE_def COMMENT_CHAR_def)
  with f show ?thesis unfolding read_config_def by (subst read_rows.simps) simp
qed

lemma config1_blanks_undefined: "parse_config (Some ''  '') = None"
  unfolding parse_config_def
  by (subst parse_lines.simps)
    (simp add: fgets_def LINE_BUF_SIZE_def eval_nat_numeral strip_line_def cstr_def IS_START_BLANK_CHAR_def IS_END_BLANK_CHAR_def)

end
