(* ===== verification/Pcie.thy ===== *)
theory Pcie
  imports Kernel CString
begin

text \<open>
  The programs \<open>hardware/pcie_sysfs_can.c\<close> and \<open>pcie_sysfs_gpio.c\<close>, which drive registers of an FPGA
  that are mapped from a file in \<open>sysfs\<close>. A register is known by its index in words. The FPGA is a
  parameter: what a read answers, given the number of reads so far and the writes so far.
\<close>

section \<open>The address of a region\<close>

text \<open>
  The loop reads one line more than \<open>barno\<close>; behind the end of the file the buffer stays empty.
  \<open>fp < 0\<close> never holds for a pointer, so a file that cannot be opened is used as a null pointer.
\<close>

primrec skip_lines :: "nat \<Rightarrow> nat \<Rightarrow> string \<Rightarrow> string" where
  "skip_lines bsize 0 file = (case fgets bsize file of Some (buf, _) \<Rightarrow> buf | None \<Rightarrow> [])"
| "skip_lines bsize (Suc n) file =
     (case fgets bsize file of Some (_, file) \<Rightarrow> skip_lines bsize n file | None \<Rightarrow> skip_lines bsize n [])"

definition get_pci_bar_addr :: "nat \<Rightarrow> nat \<Rightarrow> string option \<Rightarrow> int option" where
  "get_pci_bar_addr bsize barno fp = (case fp of
     None \<Rightarrow> None
   | Some file \<Rightarrow> (case split_at (CHR '' '') (cstr (skip_lines bsize barno file)) of
       None \<Rightarrow> Some 0
     | Some (buf, _) \<Rightarrow> Some (strtoll16 buf)))"

section \<open>CAN\<close>

type_synonym u32 = "32 word"
type_synonym writes = "(nat \<times> u32) list"
type_synonym device = "nat \<Rightarrow> writes \<Rightarrow> nat \<Rightarrow> u32"

definition CAN_CTL_STOP :: u32 where "CAN_CTL_STOP = 0"
definition CAN_CTL_SEND :: u32 where "CAN_CTL_SEND = 1"
definition CAN_CTL_RECV :: u32 where "CAN_CTL_RECV = 2"
definition BUF_SIZE :: nat where "BUF_SIZE = 256"

definition ctl_reg :: nat where "ctl_reg = 0x10"
definition send_reg1 :: nat where "send_reg1 = 0x11"
definition send_reg2 :: nat where "send_reg2 = 0x12"
definition recv_reg1 :: nat where "recv_reg1 = 0x13"
definition recv_reg2 :: nat where "recv_reg2 = 0x14"

definition can_send :: "device \<Rightarrow> u32 \<Rightarrow> byte list \<Rightarrow> nat \<times> writes \<Rightarrow> (nat \<times> writes) option" where
  "can_send dev canid data rw = (case rw of (k, ws) \<Rightarrow> do {
     lo \<leftarrow> get_s32 data 0;
     hi \<leftarrow> get_s32 data 4;
     let ws = ws @ [(send_reg1, lo), (send_reg2, hi)];
     let ws = ws @ [(ctl_reg, push_bit 12 CAN_CTL_SEND OR (canid AND 0xFFF))];
     let ws = ws @ [(ctl_reg, push_bit 12 CAN_CTL_STOP OR (dev k ws ctl_reg AND 0xFFF))];
     Some (k + 1, ws) })"

text \<open>Each of the eight bytes is read from the device by a read of its own.\<close>

primrec recv_bytes :: "device \<Rightarrow> writes \<Rightarrow> nat \<Rightarrow> (nat \<times> nat) list \<Rightarrow> byte list" where
  "recv_bytes dev ws k [] = []"
| "recv_bytes dev ws k (r # rs) =
     ucast (drop_bit (snd r) (dev k ws (fst r)) AND 0xFF) # recv_bytes dev ws (k + 1) rs"

definition recv_plan :: "(nat \<times> nat) list" where
  "recv_plan = [(recv_reg1, 0), (recv_reg1, 8), (recv_reg1, 16), (recv_reg1, 24),
     (recv_reg2, 0), (recv_reg2, 8), (recv_reg2, 16), (recv_reg2, 24)]"

text \<open>The loop, from \<open>i\<close>: the data of the last turn, and those that were printed.\<close>

function recv_loop :: "device \<Rightarrow> writes \<Rightarrow> nat \<Rightarrow> nat \<Rightarrow> byte list \<Rightarrow> nat \<times> byte list \<times> (nat \<times> byte list) list" where
  "recv_loop dev ws i k data =
     (if i < 10 then
        let data = recv_bytes dev ws k recv_plan;
            (k', d', out) = recv_loop dev ws (i + 1) (k + 8) data
        in (k', d', (i + 1, data) # out)
      else (k, data, []))"
  by auto
termination
  by (relation "measure (\<lambda>(_, _, i, _, _). 10 - i)") auto

declare recv_loop.simps [simp del]

definition can_recv :: "device \<Rightarrow> u32 \<Rightarrow> byte list \<Rightarrow> nat \<times> writes \<Rightarrow> (byte list \<times> (nat \<times> byte list) list \<times> nat \<times> writes)" where
  "can_recv dev canid data rw = (case rw of (k, ws) \<Rightarrow>
     let ws = ws @ [(ctl_reg, push_bit 12 CAN_CTL_RECV OR (canid AND 0xFFF))];
         (k, data, out) = recv_loop dev ws 1 k data;
         ws' = ws @ [(ctl_reg, push_bit 12 CAN_CTL_STOP OR (dev k ws ctl_reg AND 0xFFF))]
     in (data, out, k + 1, ws'))"

text \<open>
  The main function: \<open>mmap\<close> answers an address or, when it fails, \<open>- 1\<close>, which is not the null the
  code tests for. \<open>None\<close> is the use of such an address.
\<close>

definition can_main :: "string option \<Rightarrow> bool \<Rightarrow> bool \<Rightarrow> device \<Rightarrow> (int \<times> (nat \<times> byte list) list \<times> writes) option" where
  "can_main fp open_ok mmap_ok dev = do {
     addr \<leftarrow> get_pci_bar_addr BUF_SIZE 1 fp;
     if addr = 0 then Some (- 1, [], [])
     else if \<not> open_ok then Some (- 1, [], [])
     else if \<not> mmap_ok then None
     else let (_, out, _, ws) = can_recv dev 0x123 (replicate 8 0) (0, []) in Some (0, out, ws) }"

section \<open>Lamps\<close>

definition LED1 :: nat where "LED1 = 0"
definition LED2 :: nat where "LED2 = 1"
definition GPIO_BUF_SIZE :: nat where "GPIO_BUF_SIZE = 128"

definition led_on :: "u32 \<Rightarrow> nat \<Rightarrow> u32" where
  "led_on reg ledno = reg OR push_bit ledno 1"

definition led_off :: "u32 \<Rightarrow> nat \<Rightarrow> u32" where
  "led_off reg ledno = reg AND NOT (push_bit ledno 1)"

text \<open>Its own copy of the search for the address, with a smaller buffer.\<close>

definition gpio_bar_addr :: "nat \<Rightarrow> string option \<Rightarrow> int option" where
  "gpio_bar_addr barno fp = get_pci_bar_addr GPIO_BUF_SIZE barno fp"

text \<open>The loop, on a register that is read as it was written: its value and the values it went through.\<close>

primrec blink :: "nat \<Rightarrow> u32 \<Rightarrow> u32 \<times> u32 list" where
  "blink 0 reg = (reg, [])"
| "blink (Suc n) reg =
     (let a = led_on reg LED1; b = led_on a LED2; c = led_off b LED1; d = led_off c LED2; (r, vs) = blink n d
      in (r, a # b # c # d # vs))"

definition gpio_main :: "string option \<Rightarrow> bool \<Rightarrow> bool \<Rightarrow> u32 \<Rightarrow> (int \<times> u32 \<times> u32 list) option" where
  "gpio_main fp open_ok mmap_ok reg = do {
     addr \<leftarrow> gpio_bar_addr 2 fp;
     if addr = 0 then Some (- 1, reg, [])
     else if \<not> open_ok then Some (- 1, reg, [])
     else if \<not> mmap_ok then None
     else let (r, vs) = blink 3 reg in Some (0, r, vs) }"

section \<open>Finding the address\<close>

definition resource_file :: "string list \<Rightarrow> string" where
  "resource_file ls = concat (map (\<lambda>l. l @ [newline]) ls)"

lemma skip_lines_resource:
  "\<forall>l\<in>set ls. newline \<notin> set l \<and> length l + 1 < bsize \<Longrightarrow>
    skip_lines bsize n (resource_file ls) = (if n < length ls then ls ! n @ [newline] else [])"
proof (induction ls arbitrary: n)
  case Nil
  have "skip_lines bsize n [] = []" by (induction n) (simp_all add: fgets_def)
  then show ?case by (simp add: resource_file_def)
next
  case (Cons l ls)
  from Cons.prems have "fgets bsize (resource_file (l # ls)) = Some (l @ [newline], resource_file ls)"
    using fgets_line [of l bsize "resource_file ls"] by (simp add: resource_file_def)
  with Cons show ?case by (cases n) auto
qed

text \<open>A line of the file: the first and the last address and the flags.\<close>

definition resource_line :: "nat \<Rightarrow> string \<Rightarrow> string" where
  "resource_line a rest = ''0x'' @ digits_in 16 a @ '' '' @ rest"

lemma spelled_chars:
  assumes "spells cs vs" and "c \<in> set cs"
  shows "hexval c \<noteq> None"
proof -
  have "takeWhile (\<lambda>c. hexval c \<noteq> None) cs = cs" using spelled_digits [OF assms(1)] by (rule conjunct1)
  with assms(2) set_takeWhileD show ?thesis by metis
qed

lemma hexval_none: "hexval (CHR '' '') = None" "hexval newline = None" "hexval (CHR 0x00) = None"
  by code_simp+

lemma get_addr:
  assumes "\<forall>l\<in>set ls. newline \<notin> set l \<and> length l + 1 < bsize" and "n < length ls" and "ls ! n = resource_line a rest"
    and "a < 2 ^ 63"
  shows "get_pci_bar_addr bsize n (Some (resource_file ls)) = Some (int a)"
proof -
  from digits_in_spells [of a] obtain vs where vs: "spells (digits_in 16 a) vs" "hex_value vs = a" by blast
  have ne: "digits_in 16 a \<noteq> []" by (simp add: digits_in.simps)
  have c: "CHR '' '' \<notin> set (''0x'' @ digits_in 16 a)" "CHR 0x00 \<notin> set (''0x'' @ digits_in 16 a @ '' '')"
    using spelled_chars [OF vs(1), of "CHR '' ''"] spelled_chars [OF vs(1), of "CHR 0x00"] hexval_none by auto
  have "skip_lines bsize n (resource_file ls) = (''0x'' @ digits_in 16 a @ '' '') @ rest @ [newline]"
    using skip_lines_resource [OF assms(1)] assms(2,3) by (simp add: resource_line_def)
  then have "cstr (skip_lines bsize n (resource_file ls)) = (''0x'' @ digits_in 16 a) @ CHR '' '' # cstr (rest @ [newline])"
    using cstr_append [OF c(2), of "rest @ [newline]"] by simp
  moreover have "strtoll16 (''0x'' @ digits_in 16 a) = int a"
    using strtoll16_spelled [OF vs(1) ne] vs(2) assms(4) by simp
  ultimately show ?thesis
    using split_at_first [OF c(1), of "cstr (rest @ [newline])"] by (simp add: get_pci_bar_addr_def)
qed

section \<open>What is sent is received\<close>

definition last_write :: "writes \<Rightarrow> nat \<Rightarrow> u32" where
  "last_write ws r = fold (\<lambda>(i, v) w. if i = r then v else w) ws 0"

lemma last_write_snoc [simp]: "last_write (ws @ [(i, v)]) r = (if i = r then v else last_write ws r)"
  by (simp add: last_write_def)

lemma byte_mask: "(ucast (w AND 0xFF) :: byte) = ucast (w :: u32)"
proof -
  have m: "(0xFF :: u32) = mask 8" by (simp add: mask_eq_exp_minus_1)
  show ?thesis unfolding m by (rule bit_word_eqI) (auto simp: bit_simps)
qed

lemma recv_bytes_plan:
  "\<forall>k. dev k ws recv_reg1 = lo \<and> dev k ws recv_reg2 = hi \<Longrightarrow> recv_bytes dev ws k recv_plan = le_bytes lo @ le_bytes hi"
  by (simp add: recv_plan_def byte_mask le_bytes_def)

lemma recv_loop_const:
  assumes "\<forall>k. recv_bytes dev ws k recv_plan = xs"
  shows "i < 10 \<Longrightarrow> recv_loop dev ws i k data = (k + 8 * (10 - i), xs, map (\<lambda>j. (j + 1, xs)) [i..<10])"
proof (induction "10 - i" arbitrary: i k data)
  case (Suc n)
  show ?case
  proof (cases "i = 9")
    case True
    with assms show ?thesis by (simp add: recv_loop.simps [of _ _ 9] recv_loop.simps [of _ _ 10])
  next
    case False
    with Suc have "recv_loop dev ws (i + 1) (k + 8) xs = (k + 8 + 8 * (10 - (i + 1)), xs, map (\<lambda>j. (j + 1, xs)) [i + 1..<10])"
      by (intro Suc.hyps(1)) simp_all
    with assms Suc.prems False show ?thesis
      by (subst recv_loop.simps) (simp add: upt_conv_Cons)
  qed
qed simp

lemma word_data: "get_s32 data 0 = Some lo \<Longrightarrow> get_s32 data 4 = Some hi \<Longrightarrow> le_bytes lo @ le_bytes hi = take 8 data"
  using take_add [of 4 4 data] by (simp add: le_bytes_get)

text \<open>A device that receives what is sent and reads its control register as it was written.\<close>

definition loopback :: "device \<Rightarrow> bool" where
  "loopback dev \<longleftrightarrow> (\<forall>k ws. dev k ws recv_reg1 = last_write ws send_reg1 \<and> dev k ws recv_reg2 = last_write ws send_reg2 \<and>
     dev k ws ctl_reg = last_write ws ctl_reg)"

text \<open>
  C29. Sending and receiving: on a device that receives what is sent, the eight bytes given to
  \<open>can_send\<close> are those \<open>can_recv\<close> leaves in its buffer and has printed nine times, once in a
  turn. Both leave the control register at stop, with the lower twelve bits of their identifier.
\<close>

theorem can_roundtrip:
  assumes "loopback dev" and "8 \<le> length data"
  shows "\<exists>k1 ws1. can_send dev id1 data (k, ws) = Some (k1, ws1) \<and> last_write ws1 ctl_reg = id1 AND 0xFFF \<and>
    (\<exists>out k2 ws2. can_recv dev id2 old (k1, ws1) = (take 8 data, out, k2, ws2) \<and>
       map snd out = replicate 9 (take 8 data) \<and> last_write ws2 ctl_reg = id2 AND 0xFFF)"
proof -
  note regs = ctl_reg_def send_reg1_def send_reg2_def recv_reg1_def recv_reg2_def
  obtain lo hi where w: "get_s32 data 0 = Some lo" "get_s32 data 4 = Some hi"
    using assms(2) by (simp add: get_s32_def)
  have stop: "push_bit 12 CAN_CTL_STOP OR ((push_bit 12 c OR (i AND 0xFFF)) AND 0xFFF) = i AND 0xFFF" for c i :: u32
  proof -
    have m: "(0xFFF :: u32) = mask 12" by (simp add: mask_eq_exp_minus_1)
    show ?thesis unfolding m by (rule bit_word_eqI) (auto simp: bit_simps CAN_CTL_STOP_def)
  qed
  let ?ws = "ws @ [(send_reg1, lo), (send_reg2, hi), (ctl_reg, push_bit 12 CAN_CTL_SEND OR (id1 AND 0xFFF))]"
  let ?ws1 = "?ws @ [(ctl_reg, id1 AND 0xFFF)]"
  have lw: "last_write ?ws r = (if r = ctl_reg then push_bit 12 CAN_CTL_SEND OR (id1 AND 0xFFF)
      else if r = send_reg2 then hi else if r = send_reg1 then lo else last_write ws r)" for r
    by (simp add: last_write_def)
  have "dev k ?ws ctl_reg = push_bit 12 CAN_CTL_SEND OR (id1 AND 0xFFF)"
    using assms(1) lw [of ctl_reg] by (simp add: loopback_def)
  then have send: "can_send dev id1 data (k, ws) = Some (k + 1, ?ws1)"
    using w by (simp add: can_send_def stop)
  let ?ws2 = "?ws1 @ [(ctl_reg, push_bit 12 CAN_CTL_RECV OR (id2 AND 0xFFF))]"
  have "\<forall>k. dev k ?ws2 recv_reg1 = lo \<and> dev k ?ws2 recv_reg2 = hi"
    using assms(1) lw [of send_reg1] lw [of send_reg2] unfolding loopback_def
    by (simp add: last_write_def regs)
  then have "\<forall>k. recv_bytes dev ?ws2 k recv_plan = take 8 data"
    using recv_bytes_plan word_data [OF w] by metis
  from recv_loop_const [OF this, of 1 "k + 1" old] have
    loop: "recv_loop dev ?ws2 1 (k + 1) old = (k + 1 + 72, take 8 data, map (\<lambda>j. (j + 1, take 8 data)) [1..<10])" by simp
  have "dev (k + 1 + 72) ?ws2 ctl_reg = push_bit 12 CAN_CTL_RECV OR (id2 AND 0xFFF)"
    using assms(1) unfolding loopback_def by (metis last_write_snoc)
  then have "can_recv dev id2 old (k + 1, ?ws1) = (take 8 data, map (\<lambda>j. (j + 1, take 8 data)) [1..<10], k + 74,
      ?ws2 @ [(ctl_reg, id2 AND 0xFFF)])"
    using loop by (simp add: can_recv_def stop)
  moreover have "map snd (map (\<lambda>j. (j + 1, take 8 data)) [1..<10]) = replicate 9 (take 8 data)"
    by (simp add: o_def map_replicate_const)
  ultimately show ?thesis using send
    by (intro exI [of _ "k + 1"] exI [of _ ?ws1] conjI) (auto simp: last_write_def)
qed

theorem can_roundtrip_witness:
  "\<exists>k ws out k2 ws2. can_recv (\<lambda>k ws r. last_write ws (if r = recv_reg1 then send_reg1 else if r = recv_reg2 then send_reg2 else r))
      0x123 (replicate 8 0) (k, ws) = ([1, 2, 3, 4, 5, 6, 0x77, 0x88], out, k2, ws2)"
proof -
  have "loopback (\<lambda>k ws r. last_write ws (if r = recv_reg1 then send_reg1 else if r = recv_reg2 then send_reg2 else r))"
    by (simp add: loopback_def ctl_reg_def recv_reg1_def recv_reg2_def)
  from can_roundtrip [OF this, where data = "[1, 2, 3, 4, 5, 6, 0x77, 0x88]" and ?id2.0 = "0x123" and old = "replicate 8 0"]
  show ?thesis by fastforce
qed

section \<open>The lamps\<close>

definition lamps :: u32 where
  "lamps = led_on (led_on 0 LED1) LED2"

lemma bit_led: "bit (led_on w k) n \<longleftrightarrow> bit w n \<or> n = k \<and> n < 32" "bit (led_off w k) n \<longleftrightarrow> bit w n \<and> n \<noteq> k"
  by (auto simp: led_on_def led_off_def bit_simps dest: bit_imp_le_length)

lemma rest_led [simp]:
  "led_on w LED1 AND NOT lamps = w AND NOT lamps" "led_on w LED2 AND NOT lamps = w AND NOT lamps"
  "led_off w LED1 AND NOT lamps = w AND NOT lamps" "led_off w LED2 AND NOT lamps = w AND NOT lamps"
  by (rule bit_word_eqI, auto simp: lamps_def bit_led LED1_def LED2_def bit_simps)+

lemma led_cycle: "led_off (led_off (led_on (led_on w LED1) LED2) LED1) LED2 = w AND NOT lamps"
  by (rule bit_word_eqI) (auto simp: lamps_def bit_led LED1_def LED2_def bit_simps)

lemma blink_eq: "0 < n \<Longrightarrow> fst (blink n w) = w AND NOT lamps \<and> length (snd (blink n w)) = 4 * n \<and>
    (\<forall>v\<in>set (snd (blink n w)). v AND NOT lamps = w AND NOT lamps)"
proof (induction n arbitrary: w)
  case (Suc n)
  show ?case
  proof (cases "n = 0")
    case False
    with Suc.IH [of "led_off (led_off (led_on (led_on w LED1) LED2) LED1) LED2"] show ?thesis
      by (auto simp: Let_def split: prod.splits)
  qed (simp add: Let_def led_cycle and.assoc)
qed simp

text \<open>
  The lamp program: the address is that of the region the third line of the resource file
  describes, whatever it is, up to lines of 126 characters; then the register goes through twelve
  values, all of which differ from the first in the two bits of the lamps only, and both lamps are off
  at the end.
\<close>

theorem gpio_blinks:
  assumes "\<forall>l\<in>set ls. newline \<notin> set l \<and> length l < 127" and "2 < length ls" and "ls ! 2 = resource_line a rest"
    and "0 < a" and "a < 2 ^ 63"
  shows "\<exists>vs. gpio_main (Some (resource_file ls)) True True w = Some (0, w AND NOT lamps, vs) \<and> length vs = 12 \<and>
    (\<forall>v\<in>set vs. v AND NOT lamps = w AND NOT lamps)"
proof -
  have "get_pci_bar_addr GPIO_BUF_SIZE 2 (Some (resource_file ls)) = Some (int a)"
    using assms by (intro get_addr) (auto simp: GPIO_BUF_SIZE_def)
  moreover obtain r vs where "blink 3 w = (r, vs)" by (cases "blink 3 w")
  ultimately show ?thesis using blink_eq [of 3 w] assms(4) by (simp add: gpio_main_def gpio_bar_addr_def)
qed

theorem gpio_blinks_witness:
  "\<exists>vs. gpio_main (Some (resource_file [resource_line 0xf7d00000 [], [], resource_line 0xf7c00000 ''0xf7c0ffff 0x40200''])) True True 7
    = Some (0, 4, vs) \<and> length vs = 12"
proof -
  let ?ls = "[resource_line 0xf7d00000 [], [], resource_line 0xf7c00000 ''0xf7c0ffff 0x40200'']"
  have l: "(7 :: u32) AND NOT lamps = 4" by (simp add: lamps_def led_on_def LED1_def LED2_def)
  have ls: "\<forall>l\<in>set ?ls. newline \<notin> set l \<and> length l < 127" "2 < length ?ls"
    "?ls ! 2 = resource_line 0xf7c00000 ''0xf7c0ffff 0x40200''"
    by (simp_all add: resource_line_def digits_in.simps)
  have a: "0 < (0xf7c00000 :: nat)" "(0xf7c00000 :: nat) < 2 ^ 63" by simp_all
  from gpio_blinks [OF ls a, where w = 7] show ?thesis unfolding l by blast
qed

end
