(* ===== verification/Rtc.thy ===== *)
theory Rtc
  imports Kernel "HOL-Library.Signed_Division"
begin

text \<open>
  The program \<open>hardware/rtctest.c\<close>, which tries out a real time clock. The device is a parameter: for
  the calls so far, the current one last, whether that call fails, and what it hands out. The messages
  are the messages of the program, and \<open>live\<close> the interrupts it has switched on.
\<close>

section \<open>Time\<close>

record rtc_time =
  tm_sec :: int
  tm_min :: int
  tm_hour :: int
  tm_mday :: int
  tm_mon :: int
  tm_year :: int

definition date :: "int \<Rightarrow> int \<Rightarrow> int \<Rightarrow> rtc_time" where
  "date y m d = \<lparr>tm_sec = 0, tm_min = 0, tm_hour = 0, tm_mday = d, tm_mon = m, tm_year = y\<rparr>"

definition cutoff_dates :: "rtc_time list" where
  "cutoff_dates = [date 70 0 1, date 138 0 19, date 138 0 20, date 199 0 1, date 200 0 1, date 205 1 7, date 206 1 8,
     date 362 3 12, date 362 3 13]"

definition compare_dates :: "rtc_time \<Rightarrow> rtc_time \<Rightarrow> int" where
  "compare_dates a b =
     (if tm_year a \<noteq> tm_year b \<or> tm_mon a \<noteq> tm_mon b \<or> tm_mday a \<noteq> tm_mday b \<or> tm_hour a \<noteq> tm_hour b \<or>
         tm_min a \<noteq> tm_min b \<or> tm_sec b - tm_sec a > 1 then 1 else 0)"

text \<open>The alarm, five seconds ahead; only the time of the day rolls over.\<close>

definition five_ahead :: "rtc_time \<Rightarrow> rtc_time" where
  "five_ahead t =
     (let t = t\<lparr>tm_sec := tm_sec t + 5\<rparr>;
          t = (if tm_sec t \<ge> 60 then t\<lparr>tm_sec := tm_sec t smod 60, tm_min := tm_min t + 1\<rparr> else t);
          t = (if tm_min t = 60 then t\<lparr>tm_min := 0, tm_hour := tm_hour t + 1\<rparr> else t)
      in if tm_hour t = 24 then t\<lparr>tm_hour := 0\<rparr> else t)"

section \<open>Calls\<close>

datatype irq = Update | Alarm | Periodic

datatype call =
    On irq | Off irq | Read | Select | Rd_time | Alm_set rtc_time | Alm_read | Irqp_read | Irqp_set nat
  | Set_time rtc_time | Clock

record device =
  fails :: "call list \<Rightarrow> int option"
  hands_time :: "call list \<Rightarrow> rtc_time"
  hands_rate :: "call list \<Rightarrow> nat"
  usecs :: "call list \<Rightarrow> int"

datatype message =
    Updated nat | Selected nat | Current rtc_time | Alarm_at rtc_time | Rang | Unsupported call | Rate nat | Ticked nat nat
  | Delta int | Date_failed int | Alarm_failed int | Year_ok int | Complete

record st =
  calls :: "call list"
  irqcount :: nat
  messages :: "message list"
  live :: "irq set"

definition say :: "message \<Rightarrow> st \<Rightarrow> st" where
  "say n s = s\<lparr>messages := messages s @ [n]\<rparr>"

definition count_irq :: "message \<Rightarrow> st \<Rightarrow> st" where
  "count_irq n s = say n (s\<lparr>irqcount := irqcount s + 1\<rparr>)"

definition issue :: "device \<Rightarrow> call \<Rightarrow> st \<Rightarrow> int option \<times> st" where
  "issue dev c s =
     (let s = s\<lparr>calls := calls s @ [c]\<rparr> in
      case fails dev (calls s) of
        Some e \<Rightarrow> (Some e, s)
      | None \<Rightarrow> (None, case c of On i \<Rightarrow> s\<lparr>live := insert i (live s)\<rparr> | Off i \<Rightarrow> s\<lparr>live := live s - {i}\<rparr> | _ \<Rightarrow> s))"

text \<open>A part of the program either exits with a status or goes on. A call that must not fail exits with \<open>errno\<close>.\<close>

type_synonym run = "int \<times> st + st"

definition and_then :: "run \<Rightarrow> (st \<Rightarrow> run) \<Rightarrow> run" where
  "and_then r f = (case r of Inl x \<Rightarrow> Inl x | Inr s \<Rightarrow> f s)"

definition must :: "device \<Rightarrow> call \<Rightarrow> st \<Rightarrow> run" where
  "must dev c s = (case issue dev c s of (Some e, s) \<Rightarrow> Inl (e, s) | (None, s) \<Rightarrow> Inr s)"

text \<open>A call that may be unsupported: with one of the errors \<open>es\<close> the program goes on at \<open>no\<close>.\<close>

definition try_call :: "device \<Rightarrow> int set \<Rightarrow> call \<Rightarrow> (st \<Rightarrow> run) \<Rightarrow> (st \<Rightarrow> run) \<Rightarrow> st \<Rightarrow> run" where
  "try_call dev es c no yes s = (case issue dev c s of
     (Some e, s) \<Rightarrow> if e \<in> es then no (say (Unsupported c) s) else Inl (e, s)
   | (None, s) \<Rightarrow> yes s)"

section \<open>The tests\<close>

function update_reads :: "device \<Rightarrow> nat \<Rightarrow> st \<Rightarrow> run" where
  "update_reads dev i s =
     (if i < 6 then and_then (must dev Read s) (\<lambda>s. update_reads dev (i + 1) (count_irq (Updated i) s)) else Inr s)"
  by auto
termination by (relation "measure (\<lambda>(dev, i, s). 6 - i)") auto

function select_reads :: "device \<Rightarrow> nat \<Rightarrow> st \<Rightarrow> run" where
  "select_reads dev i s =
     (if i < 6 then and_then (must dev Select s) (\<lambda>s. and_then (must dev Read s)
        (\<lambda>s. select_reads dev (i + 1) (count_irq (Selected i) s))) else Inr s)"
  by auto
termination by (relation "measure (\<lambda>(dev, i, s). 6 - i)") auto

definition test_UIE :: "device \<Rightarrow> st \<Rightarrow> run" where
  "test_UIE dev s = try_call dev {EINVAL} (On Update) Inr
     (\<lambda>s. and_then (update_reads dev 1 s) (\<lambda>s. and_then (select_reads dev 1 s) (must dev (Off Update)))) s"

definition test_READ :: "device \<Rightarrow> st \<Rightarrow> run" where
  "test_READ dev s = and_then (must dev Rd_time s) (\<lambda>s.
     let t = hands_time dev (calls s); s = say (Current t) s in
     try_call dev {EINVAL} (Alm_set (five_ahead t)) Inr
       (try_call dev {EINVAL} Alm_read Inr (\<lambda>s.
          try_call dev {EINVAL, EIO} (On Alarm) Inr
            (\<lambda>s. and_then (must dev Read s) (\<lambda>s. must dev (Off Alarm) (count_irq Rang s)))
            (say (Alarm_at (hands_time dev (calls s))) s))) s)"

text \<open>
  One interrupt of a period: the time between two readings of the clock, in seconds and microseconds
  as \<open>timersub\<close> splits it, may be ten percent longer than the period.
\<close>

function periodic_reads :: "device \<Rightarrow> nat \<Rightarrow> nat \<Rightarrow> st \<Rightarrow> run" where
  "periodic_reads dev tmp i s =
     (if i < 21 then
        let s = snd (issue dev Clock s); start = usecs dev (calls s) in
        and_then (must dev Read s) (\<lambda>s.
          let s = snd (issue dev Clock s); diff = usecs dev (calls s) - start in
          if diff div 1000000 > 0 \<or> 10 * (diff mod 1000000) > 11 * (1000000 div int tmp) then Inl (- 1, say (Delta diff) s)
          else periodic_reads dev tmp (i + 1) (count_irq (Ticked tmp i) s))
      else Inr s)"
  by auto
termination by (relation "measure (\<lambda>(dev, tmp, i, s). 21 - i)") auto

function periodic_rates :: "device \<Rightarrow> nat \<Rightarrow> st \<Rightarrow> run" where
  "periodic_rates dev tmp s =
     (if 0 < tmp \<and> tmp \<le> 64 then
        try_call dev {EINVAL} (Irqp_set tmp) Inr
          (\<lambda>s. and_then (must dev (On Periodic) s) (\<lambda>s. and_then (periodic_reads dev tmp 1 s)
             (\<lambda>s. and_then (must dev (Off Periodic) s) (periodic_rates dev (tmp * 2))))) s
      else Inr s)"
  by auto
termination by (relation "measure (\<lambda>(dev, tmp, s). 65 - tmp)") auto

declare update_reads.simps [simp del] select_reads.simps [simp del] periodic_reads.simps [simp del] periodic_rates.simps [simp del]

definition test_PIE :: "device \<Rightarrow> st \<Rightarrow> run" where
  "test_PIE dev s = try_call dev {EINVAL} Irqp_read Inr
     (\<lambda>s. periodic_rates dev 2 (say (Rate (hands_rate dev (calls s))) s)) s"

text \<open>The dates: each is set and read back, then as an alarm five seconds later.\<close>

fun test_dates :: "device \<Rightarrow> rtc_time list \<Rightarrow> st \<Rightarrow> run" where
  "test_dates dev [] s = Inr s"
| "test_dates dev (d # ds) s =
     and_then (must dev (Set_time d) s) (\<lambda>s. and_then (must dev Rd_time s) (\<lambda>s.
       if compare_dates d (hands_time dev (calls s)) \<noteq> 0 then Inr (say (Date_failed (tm_year d + 1900)) s)
       else let d = d\<lparr>tm_sec := tm_sec d + 5\<rparr> in
         and_then (must dev (Alm_set d) s) (\<lambda>s. and_then (must dev Alm_read s) (\<lambda>s.
           if compare_dates d (hands_time dev (calls s)) \<noteq> 0 then Inr (say (Alarm_failed (tm_year d + 1900)) s)
           else test_dates dev ds (say (Year_ok (tm_year d + 1900)) s)))))"

definition test_DATE :: "device \<Rightarrow> bool \<Rightarrow> st \<Rightarrow> run" where
  "test_DATE dev dangerous s = (if \<not> dangerous then Inr s else test_dates dev cutoff_dates s)"

text \<open>The main function: the arguments, the outcome of opening the device, and the tests.\<close>

definition start_st :: st where
  "start_st = \<lparr>calls = [], irqcount = 0, messages = [], live = {}\<rparr>"

definition rtc_main :: "string list \<Rightarrow> int option \<Rightarrow> device \<Rightarrow> int \<times> st" where
  "rtc_main argv open_err dev =
     (if length argv \<notin> {1, 2, 3} then (1, start_st)
      else let dangerous = (length argv = 3 \<and> take 1 (argv ! 2) = ''d'') in
        case open_err of
          Some e \<Rightarrow> (e, start_st)
        | None \<Rightarrow>
            (case and_then (test_UIE dev start_st) (\<lambda>s. and_then (test_READ dev s)
                (\<lambda>s. and_then (test_PIE dev s) (test_DATE dev dangerous))) of
               Inl x \<Rightarrow> x
             | Inr s \<Rightarrow> (0, say Complete s)))"

section \<open>What is switched on is switched off\<close>

text \<open>
  A part of the program that goes on with the interrupts \<open>L\<close>, or exits with the error of its last
  call or with \<open>- 1\<close> and a message about the period; and the rules for its constructs.
\<close>

definition exits_well :: "device \<Rightarrow> int \<Rightarrow> st \<Rightarrow> bool" where
  "exits_well dev e s \<longleftrightarrow> fails dev (calls s) = Some e \<or> e = - 1 \<and> (\<exists>d. last (messages s) = Delta d)"

definition runs :: "device \<Rightarrow> irq set \<Rightarrow> run \<Rightarrow> bool" where
  "runs dev L r \<longleftrightarrow> (case r of Inl (e, s) \<Rightarrow> exits_well dev e s | Inr s \<Rightarrow> live s = L)"

definition effect :: "call \<Rightarrow> irq set \<Rightarrow> irq set" where
  "effect c L = (case c of On i \<Rightarrow> insert i L | Off i \<Rightarrow> L - {i} | _ \<Rightarrow> L)"

lemma effect_simps [simp]:
  "effect (On i) L = insert i L" "effect (Off i) L = L - {i}" "effect Read L = L" "effect Select L = L" "effect Rd_time L = L"
  "effect (Alm_set t) L = L" "effect Alm_read L = L" "effect Irqp_read L = L" "effect (Irqp_set n) L = L"
  "effect (Set_time t) L = L" "effect Clock L = L"
  by (simp_all add: effect_def)

lemma say_sel [simp]: "live (say n s) = live s" "calls (say n s) = calls s" "irqcount (say n s) = irqcount s"
  "messages (say n s) = messages s @ [n]"
  by (simp_all add: say_def)

lemma count_irq_sel [simp]: "live (count_irq n s) = live s" "calls (count_irq n s) = calls s"
  "irqcount (count_irq n s) = irqcount s + 1" "messages (count_irq n s) = messages s @ [n]"
  by (simp_all add: count_irq_def)

lemma issue_failed: "issue dev c s = (Some e, s') \<Longrightarrow> fails dev (calls s') = Some e \<and> live s' = live s"
  by (auto simp: issue_def Let_def split: option.splits)

lemma issue_done: "issue dev c s = (None, s') \<Longrightarrow> live s' = effect c (live s)"
  by (auto simp: issue_def Let_def effect_def split: option.splits call.splits)

lemma runs_Inr: "live s = L \<Longrightarrow> runs dev L (Inr s)"
  by (simp add: runs_def)

lemma runs_then: "runs dev L r \<Longrightarrow> (\<And>s. live s = L \<Longrightarrow> runs dev M (f s)) \<Longrightarrow> runs dev M (and_then r f)"
proof (cases r)
  case (Inr s)
  assume "runs dev L r" and f: "\<And>s. live s = L \<Longrightarrow> runs dev M (f s)"
  with Inr have "live s = L" by (simp add: runs_def)
  from f [OF this] Inr show ?thesis by (simp add: and_then_def)
qed (auto simp: runs_def and_then_def)

lemma runs_must: "effect c (live s) = L \<Longrightarrow> runs dev L (must dev c s)"
  by (auto simp: runs_def must_def exits_well_def dest: issue_failed issue_done split: prod.splits option.splits)

lemma runs_try:
  "(\<And>s'. live s' = live s \<Longrightarrow> runs dev M (no s')) \<Longrightarrow> (\<And>s'. live s' = effect c (live s) \<Longrightarrow> runs dev M (yes s')) \<Longrightarrow>
    runs dev M (try_call dev es c no yes s)"
  by (auto simp: try_call_def runs_def [of dev M "Inl _"] exits_well_def dest: issue_failed issue_done
      split: prod.splits option.splits)

lemma issue_clock_live: "live (snd (issue dev Clock s)) = live s"
  by (simp add: issue_def Let_def split: option.splits)

lemmas run_rules = runs_then runs_must runs_try runs_Inr

lemma runs_update_reads: "live s = L \<Longrightarrow> runs dev L (update_reads dev i s)"
proof (induction dev i s rule: update_reads.induct)
  case (1 dev i s)
  then show ?case by (subst update_reads.simps) (auto intro!: runs_then [of _ L] runs_must runs_Inr)
qed

lemma runs_select_reads: "live s = L \<Longrightarrow> runs dev L (select_reads dev i s)"
proof (induction dev i s rule: select_reads.induct)
  case (1 dev i s)
  have IH: "runs dev L (select_reads dev (i + 1) (count_irq (Selected i) s'))" if "i < 6" "live s' = L" for s'
    using 1(1) [OF that(1)] that(2) by simp
  show ?case
  proof (cases "i < 6")
    case True
    have "runs dev L (and_then (must dev Select s) (\<lambda>s. and_then (must dev Read s)
        (\<lambda>s. select_reads dev (i + 1) (count_irq (Selected i) s))))"
    proof (rule runs_then [of _ L])
      show "runs dev L (must dev Select s)" using 1(2) by (simp add: runs_must)
      show "runs dev L (and_then (must dev Read s') (\<lambda>s. select_reads dev (i + 1) (count_irq (Selected i) s)))" if "live s' = L" for s'
        by (rule runs_then [of _ L]) (use that IH True in \<open>auto intro: runs_must\<close>)
    qed
    with True show ?thesis by (subst select_reads.simps) simp
  next
    case False
    with 1(2) show ?thesis by (subst select_reads.simps) (simp add: runs_Inr)
  qed
qed

lemma runs_periodic_reads: "live s = L \<Longrightarrow> runs dev L (periodic_reads dev tmp i s)"
proof (induction dev tmp i s rule: periodic_reads.induct)
  case (1 dev tmp i s)
  have "runs dev L (Inl (- 1, say (Delta d) s'))" for d s' by (simp add: runs_def exits_well_def)
  with 1 show ?case
    by (subst periodic_reads.simps) (auto simp: Let_def issue_clock_live intro!: runs_then [of _ L] runs_must runs_Inr)
qed

lemma runs_periodic_rates: "live s = {} \<Longrightarrow> runs dev {} (periodic_rates dev tmp s)"
proof (induction dev tmp s rule: periodic_rates.induct)
  case (1 dev tmp s)
  show ?case
  proof (cases "0 < tmp \<and> tmp \<le> 64")
    case True
    have IH: "runs dev {} (periodic_rates dev (tmp * 2) s')" if "live s' = {}" for s' using 1(1) [OF True that] .
    show ?thesis using True 1(2)
      by (subst periodic_rates.simps)
        (auto intro!: runs_try runs_Inr runs_then [of _ "{Periodic}" "must _ _ _"] runs_then [of _ "{Periodic}" "periodic_reads _ _ _ _"]
          runs_then [of _ "{}" "must _ (Off Periodic) _"] runs_must runs_periodic_reads IH)
  next
    case False
    with 1(2) show ?thesis by (subst periodic_rates.simps) (auto intro: runs_Inr)
  qed
qed

lemma runs_UIE: "live s = {} \<Longrightarrow> runs dev {} (test_UIE dev s)"
  unfolding test_UIE_def
  by (auto intro!: runs_try runs_Inr runs_then [of _ "{Update}" "update_reads _ _ _"] runs_then [of _ "{Update}" "select_reads _ _ _"]
      runs_must runs_update_reads runs_select_reads)

lemma runs_READ: "live s = {} \<Longrightarrow> runs dev {} (test_READ dev s)"
  unfolding test_READ_def Let_def
  by (auto intro!: runs_then [of _ "{}" "must _ Rd_time _"] runs_try runs_Inr runs_then [of _ "{Alarm}" "must _ Read _"] runs_must)

lemma runs_PIE: "live s = {} \<Longrightarrow> runs dev {} (test_PIE dev s)"
  unfolding test_PIE_def by (auto intro!: runs_try runs_Inr runs_periodic_rates)

lemma runs_dates: "live s = {} \<Longrightarrow> runs dev {} (test_dates dev ds s)"
proof (induction dev ds s rule: test_dates.induct)
  case (2 dev d ds s)
  show ?case unfolding test_dates.simps(2) Let_def
    using 2 by (auto intro!: runs_then [of _ "{}" "must _ _ _"] runs_must runs_Inr)
qed (simp add: runs_Inr)

text \<open>
  C30. On any device, whichever calls fail: when the program ends with status 0, it has said so and every interrupt it has
  switched on is switched off again. Any other status is that of the usage message, of opening the
  device, the error of the last call that was made, or \<open>- 1\<close> with a message that a period was too long.
\<close>

theorem rtc_interrupts_off:
  assumes "\<forall>cs e. fails dev cs = Some e \<longrightarrow> 0 < e" and "\<forall>e. open_err = Some e \<longrightarrow> 0 < e"
  shows "(case rtc_main argv open_err dev of (r, s) \<Rightarrow>
    if r = 0 then live s = {} \<and> last (messages s) = Complete
    else r = 1 \<and> length argv \<notin> {1, 2, 3} \<or> open_err = Some r \<or> exits_well dev r s)"
proof -
  have "runs dev {} (test_DATE dev b s)" if "live s = {}" for b s
    using that by (simp add: test_DATE_def runs_dates runs_Inr)
  moreover have "live start_st = {}" by (simp add: start_st_def)
  ultimately have r: "runs dev {} (and_then (test_UIE dev start_st) (\<lambda>s. and_then (test_READ dev s)
      (\<lambda>s. and_then (test_PIE dev s) (test_DATE dev b))))" for b
    by (intro runs_then [of _ "{}" "test_UIE _ _"] runs_then [of _ "{}" "test_READ _ _"] runs_then [of _ "{}" "test_PIE _ _"]
        runs_UIE runs_READ runs_PIE) auto
  have ne: "e \<noteq> 0" if "exits_well dev e s" for e s using that assms(1) by (auto simp: exits_well_def)
  show ?thesis
  proof (cases "length argv \<in> {1, 2, 3} \<and> open_err = None")
    case True
    let ?b = "length argv = 3 \<and> take 1 (argv ! 2) = ''d''"
    from r [of ?b] True ne show ?thesis
      by (auto simp: rtc_main_def Let_def runs_def split: sum.splits)
  next
    case False
    with assms(2) show ?thesis by (auto simp: rtc_main_def split: option.splits)
  qed
qed

section \<open>A device without faults\<close>

definition day_secs :: "rtc_time \<Rightarrow> int" where
  "day_secs t = tm_hour t * 3600 + tm_min t * 60 + tm_sec t"

definition valid_time :: "rtc_time \<Rightarrow> bool" where
  "valid_time t \<longleftrightarrow> 0 \<le> tm_sec t \<and> tm_sec t < 60 \<and> 0 \<le> tm_min t \<and> tm_min t < 60 \<and> 0 \<le> tm_hour t \<and> tm_hour t < 24"

lemma valid_day: "valid_time t \<Longrightarrow> 0 \<le> day_secs t \<and> day_secs t < 86400"
  unfolding valid_time_def day_secs_def by linarith

lemma day_wrap:
  fixes x d :: int
  assumes "x = d \<or> x = d - 86400" and "0 \<le> x \<and> x < 86400"
  shows "x = d mod 86400"
proof -
  have x: "x mod 86400 = x" using assms(2) by (intro mod_pos_pos_trivial) auto
  show ?thesis
  proof (cases "x = d")
    case False
    with assms(1) have "d = x + 86400" by simp
    with x show ?thesis by (simp only: mod_add_self2)
  qed (use x in simp)
qed

text \<open>
  The alarm is a valid time, five seconds ahead on the clock, across minutes, hours and
  midnight; but the date stays, also across midnight.
\<close>

theorem rtc_alarm_time:
  assumes "valid_time t"
  shows "valid_time (five_ahead t) \<and> day_secs (five_ahead t) = (day_secs t + 5) mod 86400 \<and>
    tm_mday (five_ahead t) = tm_mday t \<and> tm_mon (five_ahead t) = tm_mon t \<and> tm_year (five_ahead t) = tm_year t"
proof -
  have sm: "(tm_sec t + 5) smod 60 = tm_sec t - 55" if "55 \<le> tm_sec t"
  proof -
    have "(tm_sec t + 5) mod 60 = (tm_sec t - 55 + 60) mod 60" by (simp add: add.commute)
    also have "\<dots> = tm_sec t - 55"
      unfolding mod_add_self2 using that assms by (simp add: valid_time_def)
    finally have "(tm_sec t + 5) mod 60 = tm_sec t - 55" .
    then show ?thesis using that by (simp add: signed_modulo_int_def signed_divide_int_def minus_div_mult_eq_mod [symmetric])
  qed
  have keep: "tm_mday (five_ahead t) = tm_mday t" "tm_mon (five_ahead t) = tm_mon t" "tm_year (five_ahead t) = tm_year t"
    by (simp_all add: five_ahead_def Let_def)
  consider (plain) "tm_sec t < 55" | (minute) "55 \<le> tm_sec t" "tm_min t < 59" | (hour) "55 \<le> tm_sec t" "tm_min t = 59" "tm_hour t < 23"
    | (midnight) "55 \<le> tm_sec t" "tm_min t = 59" "tm_hour t = 23"
    using assms unfolding valid_time_def by linarith
  then have "valid_time (five_ahead t) \<and>
      (day_secs (five_ahead t) = day_secs t + 5 \<or> day_secs (five_ahead t) = day_secs t + 5 - 86400)"
  proof cases
    case plain
    with assms show ?thesis by (simp add: five_ahead_def valid_time_def day_secs_def)
  next
    case minute
    with assms sm show ?thesis by (simp add: five_ahead_def valid_time_def day_secs_def)
  next
    case hour
    with assms sm show ?thesis by (simp add: five_ahead_def valid_time_def day_secs_def)
  next
    case midnight
    with assms sm show ?thesis by (simp add: five_ahead_def valid_time_def day_secs_def)
  qed
  then show ?thesis using keep day_wrap [of "day_secs (five_ahead t)" "day_secs t + 5"] valid_day [of "five_ahead t"] by blast
qed

theorem rtc_alarm_time_witness:
  "day_secs (five_ahead \<lparr>tm_sec = 58, tm_min = 59, tm_hour = 23, tm_mday = 31, tm_mon = 11, tm_year = 99\<rparr>) = 3"
proof -
  let ?t = "\<lparr>tm_sec = 58, tm_min = 59, tm_hour = 23, tm_mday = 31, tm_mon = 11, tm_year = 99\<rparr>"
  have "valid_time ?t" by (simp add: valid_time_def)
  from rtc_alarm_time [OF this] show ?thesis by (simp add: day_secs_def [of ?t])
qed

text \<open>
  No call fails, two readings of the clock with a read in between are at most the shortest period
  apart, and dates are read back as they were set, up to one second later.
\<close>

definition close_to :: "rtc_time \<Rightarrow> rtc_time \<Rightarrow> bool" where
  "close_to t u \<longleftrightarrow> (\<exists>k\<in>{0, 1}. u = t\<lparr>tm_sec := tm_sec t + k\<rparr>)"

definition faultless :: "device \<Rightarrow> bool" where
  "faultless dev \<longleftrightarrow> (\<forall>cs. fails dev cs = None) \<and>
     (\<forall>cs. usecs dev (cs @ [Clock, Read, Clock]) - usecs dev (cs @ [Clock]) \<in> {0..15625}) \<and>
     (\<forall>cs t. close_to t (hands_time dev (cs @ [Set_time t, Rd_time]))) \<and>
     (\<forall>cs t. close_to t (hands_time dev (cs @ [Alm_set t, Alm_read])))"

lemma close_compare: "close_to t u \<Longrightarrow> compare_dates t u = 0"
  by (auto simp: close_to_def compare_dates_def)

lemma faultless_issue:
  "faultless dev \<Longrightarrow> \<exists>s'. issue dev c s = (None, s') \<and> calls s' = calls s @ [c] \<and> irqcount s' = irqcount s \<and> messages s' = messages s"
  by (auto simp: faultless_def issue_def Let_def split: call.splits)

lemma faultless_must:
  "faultless dev \<Longrightarrow> \<exists>s'. must dev c s = Inr s' \<and> calls s' = calls s @ [c] \<and> irqcount s' = irqcount s \<and> messages s' = messages s"
  using faultless_issue [of dev c s] by (auto simp: must_def)

lemma faultless_try:
  "faultless dev \<Longrightarrow> \<exists>s'. try_call dev es c no yes s = yes s' \<and> calls s' = calls s @ [c] \<and> irqcount s' = irqcount s \<and> messages s' = messages s"
  using faultless_issue [of dev c s] by (auto simp: try_call_def)

lemma and_then_Inr [simp]: "and_then (Inr s) f = f s"
  by (simp add: and_then_def)

lemma update_reads_ok:
  "faultless dev \<Longrightarrow> i \<le> 6 \<Longrightarrow> \<exists>s'. update_reads dev i s = Inr s' \<and> irqcount s' = irqcount s + (6 - i)"
proof (induction dev i s rule: update_reads.induct)
  case (1 dev i s)
  show ?case
  proof (cases "i < 6")
    case True
    from faultless_must [OF 1(2), of Read s] obtain s1 where "must dev Read s = Inr s1" "irqcount s1 = irqcount s" by blast
    with 1(1) [OF True 1(2), of s1] True show ?thesis by (subst update_reads.simps) auto
  qed (use 1 in \<open>subst update_reads.simps, simp\<close>)
qed

lemma select_reads_ok:
  "faultless dev \<Longrightarrow> i \<le> 6 \<Longrightarrow> \<exists>s'. select_reads dev i s = Inr s' \<and> irqcount s' = irqcount s + (6 - i)"
proof (induction dev i s rule: select_reads.induct)
  case (1 dev i s)
  show ?case
  proof (cases "i < 6")
    case True
    from faultless_must [OF 1(2), of Select s] obtain s1 where s1: "must dev Select s = Inr s1" "irqcount s1 = irqcount s" by blast
    from faultless_must [OF 1(2), of Read s1] obtain s2 where "must dev Read s1 = Inr s2" "irqcount s2 = irqcount s1" by blast
    with s1 1(1) [OF True 1(2), of s2] True show ?thesis by (subst select_reads.simps) auto
  qed (use 1 in \<open>subst select_reads.simps, simp\<close>)
qed

lemma periodic_reads_ok:
  assumes "faultless dev" and "0 < tmp" and "tmp \<le> 64"
  shows "i \<le> 21 \<Longrightarrow> \<exists>s'. periodic_reads dev tmp i s = Inr s' \<and> irqcount s' = irqcount s + (21 - i)"
proof (induction "21 - i" arbitrary: i s)
  case 0
  then show ?case by (subst periodic_reads.simps) simp
next
  case (Suc n)
  then have lt: "i < 21" by simp
  from faultless_issue [OF assms(1), of Clock s] obtain s1 where
    s1: "issue dev Clock s = (None, s1)" "calls s1 = calls s @ [Clock]" "irqcount s1 = irqcount s" by blast
  from faultless_must [OF assms(1), of Read s1] obtain s2 where
    s2: "must dev Read s1 = Inr s2" "calls s2 = calls s1 @ [Read]" "irqcount s2 = irqcount s1" by blast
  from faultless_issue [OF assms(1), of Clock s2] obtain s3 where
    s3: "issue dev Clock s2 = (None, s3)" "calls s3 = calls s2 @ [Clock]" "irqcount s3 = irqcount s2" by blast
  let ?d = "usecs dev (calls s3) - usecs dev (calls s1)"
  have d: "0 \<le> ?d" "?d \<le> 15625" using assms(1) s1(2) s2(2) s3(2) by (simp_all add: faultless_def)
  have "15625 \<le> 1000000 div int tmp"
    using zdiv_mono2 [of 1000000 "int tmp" 64] assms(2,3) by simp
  with d have ok: "\<not> (?d div 1000000 > 0 \<or> 10 * (?d mod 1000000) > 11 * (1000000 div int tmp))" by simp
  have "n = 21 - (i + 1)" "i + 1 \<le> 21" using Suc.hyps(2) by simp_all
  from Suc.hyps(1) [OF this, of "count_irq (Ticked tmp i) s3"] obtain s' where
    "periodic_reads dev tmp (i + 1) (count_irq (Ticked tmp i) s3) = Inr s'" "irqcount s' = irqcount s + (21 - i)"
    using s1(3) s2(3) s3(3) lt by auto
  with s1(1) s2(1) s3(1) ok lt show ?case by (subst periodic_reads.simps) (simp add: Let_def)
qed

lemma periodic_rate_ok:
  assumes "faultless dev" and "0 < tmp" and "tmp \<le> 64"
  shows "\<exists>s'. periodic_rates dev tmp s = periodic_rates dev (tmp * 2) s' \<and> irqcount s' = irqcount s + 20"
proof -
  let ?yes = "\<lambda>s. and_then (must dev (On Periodic) s) (\<lambda>s. and_then (periodic_reads dev tmp 1 s)
     (\<lambda>s. and_then (must dev (Off Periodic) s) (periodic_rates dev (tmp * 2))))"
  from faultless_try [OF assms(1), of "{EINVAL}" "Irqp_set tmp" Inr ?yes s] obtain s1 where
    s1: "try_call dev {EINVAL} (Irqp_set tmp) Inr ?yes s = ?yes s1" "irqcount s1 = irqcount s" by blast
  from faultless_must [OF assms(1), of "On Periodic" s1] obtain s2 where
    s2: "must dev (On Periodic) s1 = Inr s2" "irqcount s2 = irqcount s1" by blast
  from periodic_reads_ok [OF assms, of 1 s2] obtain s3 where
    s3: "periodic_reads dev tmp 1 s2 = Inr s3" "irqcount s3 = irqcount s2 + 20" by auto
  from faultless_must [OF assms(1), of "Off Periodic" s3] obtain s4 where
    "must dev (Off Periodic) s3 = Inr s4" "irqcount s4 = irqcount s3" by blast
  with s1 s2 s3 have "?yes s1 = periodic_rates dev (tmp * 2) s4" "irqcount s4 = irqcount s + 20" by simp_all
  moreover have "periodic_rates dev tmp s = ?yes s1"
    using s1(1) assms(2,3) by (subst periodic_rates.simps) simp
  ultimately show ?thesis by metis
qed

lemma UIE_ok: "faultless dev \<Longrightarrow> \<exists>s'. test_UIE dev s = Inr s' \<and> irqcount s' = irqcount s + 10"
proof -
  assume f: "faultless dev"
  let ?yes = "\<lambda>s. and_then (update_reads dev 1 s) (\<lambda>s. and_then (select_reads dev 1 s) (must dev (Off Update)))"
  from faultless_try [OF f, of "{EINVAL}" "On Update" Inr ?yes s] obtain s1 where
    s1: "test_UIE dev s = ?yes s1" "irqcount s1 = irqcount s" unfolding test_UIE_def by blast
  from update_reads_ok [OF f, of 1 s1] obtain s2 where s2: "update_reads dev 1 s1 = Inr s2" "irqcount s2 = irqcount s1 + 5" by auto
  from select_reads_ok [OF f, of 1 s2] obtain s3 where s3: "select_reads dev 1 s2 = Inr s3" "irqcount s3 = irqcount s2 + 5" by auto
  from faultless_must [OF f, of "Off Update" s3] s1 s2 s3 show ?thesis by auto
qed

lemma READ_ok:
  assumes "faultless dev"
  shows "\<exists>s'. test_READ dev s = Inr s' \<and> irqcount s' = irqcount s + 1 \<and>
    Alm_set (five_ahead (hands_time dev (calls s @ [Rd_time]))) \<in> set (calls s')"
proof -
  from faultless_must [OF assms, of Rd_time s] obtain s1 where
    s1: "must dev Rd_time s = Inr s1" "calls s1 = calls s @ [Rd_time]" "irqcount s1 = irqcount s" by blast
  let ?t = "hands_time dev (calls s1)" and ?s1 = "say (Current (hands_time dev (calls s1))) s1"
  let ?ring = "\<lambda>s. and_then (must dev Read s) (\<lambda>s. must dev (Off Alarm) (count_irq Rang s))"
  let ?on = "\<lambda>s. try_call dev {EINVAL, EIO} (On Alarm) Inr ?ring (say (Alarm_at (hands_time dev (calls s))) s)"
  from faultless_try [OF assms, of "{EINVAL}" "Alm_set (five_ahead ?t)" Inr "try_call dev {EINVAL} Alm_read Inr ?on" ?s1] obtain s2 where
    s2: "test_READ dev s = try_call dev {EINVAL} Alm_read Inr ?on s2" "calls s2 = calls s1 @ [Alm_set (five_ahead ?t)]" "irqcount s2 = irqcount s"
    using s1 unfolding test_READ_def Let_def by auto
  from faultless_try [OF assms, of "{EINVAL}" Alm_read Inr ?on s2] obtain s3 where
    s3: "test_READ dev s = ?on s3" "calls s3 = calls s2 @ [Alm_read]" "irqcount s3 = irqcount s" using s2 by auto
  from faultless_try [OF assms, of "{EINVAL, EIO}" "On Alarm" Inr ?ring "say (Alarm_at (hands_time dev (calls s3))) s3"] obtain s4 where
    s4: "test_READ dev s = ?ring s4" "calls s4 = calls s3 @ [On Alarm]" "irqcount s4 = irqcount s" using s3 by auto
  from faultless_must [OF assms, of Read s4] obtain s5 where
    s5: "must dev Read s4 = Inr s5" "calls s5 = calls s4 @ [Read]" "irqcount s5 = irqcount s4" by blast
  from faultless_must [OF assms, of "Off Alarm" "count_irq Rang s5"] s1(2) s2(2) s3(2) s4 s5 show ?thesis by auto
qed

lemma PIE_ok:
  assumes "faultless dev"
  shows "\<exists>s'. test_PIE dev s = Inr s' \<and> irqcount s' = irqcount s + 120"
proof -
  let ?yes = "\<lambda>s. periodic_rates dev 2 (say (Rate (hands_rate dev (calls s))) s)"
  from faultless_try [OF assms, of "{EINVAL}" Irqp_read Inr ?yes s] obtain s0 where
    s0: "test_PIE dev s = ?yes s0" "irqcount s0 = irqcount s" unfolding test_PIE_def by blast
  have rate: "\<exists>s'. periodic_rates dev n s = periodic_rates dev (n * 2) s' \<and> irqcount s' = irqcount s + 20"
    if "n \<in> {2, 4, 8, 16, 32, 64}" for n s
    using periodic_rate_ok [OF assms, of n s] that by auto
  let ?s0 = "say (Rate (hands_rate dev (calls s0))) s0"
  obtain s1 where 1: "periodic_rates dev 2 ?s0 = periodic_rates dev 4 s1" "irqcount s1 = irqcount s + 20" using rate [of 2 ?s0] s0(2) by auto
  obtain s2 where 2: "periodic_rates dev 4 s1 = periodic_rates dev 8 s2" "irqcount s2 = irqcount s + 40" using rate [of 4 s1] 1(2) by auto
  obtain s3 where 3: "periodic_rates dev 8 s2 = periodic_rates dev 16 s3" "irqcount s3 = irqcount s + 60" using rate [of 8 s2] 2(2) by auto
  obtain s4 where 4: "periodic_rates dev 16 s3 = periodic_rates dev 32 s4" "irqcount s4 = irqcount s + 80" using rate [of 16 s3] 3(2) by auto
  obtain s5 where 5: "periodic_rates dev 32 s4 = periodic_rates dev 64 s5" "irqcount s5 = irqcount s + 100" using rate [of 32 s4] 4(2) by auto
  obtain s6 where 6: "periodic_rates dev 64 s5 = periodic_rates dev 128 s6" "irqcount s6 = irqcount s + 120" using rate [of 64 s5] 5(2) by auto
  have "periodic_rates dev 128 s6 = Inr s6" by (subst periodic_rates.simps) simp
  with s0(1) 1(1) 2(1) 3(1) 4(1) 5(1) 6 show ?thesis by simp
qed

text \<open>The dates pass one by one, each leaving its message.\<close>

lemma date_ok:
  assumes "faultless dev"
  shows "\<exists>s'. test_dates dev (d # ds) s = test_dates dev ds s' \<and> irqcount s' = irqcount s \<and>
    messages s' = messages s @ [Year_ok (tm_year d + 1900)]"
proof -
  let ?d = "d\<lparr>tm_sec := tm_sec d + 5\<rparr>"
  from faultless_must [OF assms, of "Set_time d" s] obtain s1 where
    s1: "must dev (Set_time d) s = Inr s1" "calls s1 = calls s @ [Set_time d]" "irqcount s1 = irqcount s" "messages s1 = messages s" by blast
  from faultless_must [OF assms, of Rd_time s1] obtain s2 where
    s2: "must dev Rd_time s1 = Inr s2" "calls s2 = calls s @ [Set_time d, Rd_time]" "irqcount s2 = irqcount s" "messages s2 = messages s" using s1 by auto
  from faultless_must [OF assms, of "Alm_set ?d" s2] obtain s3 where
    s3: "must dev (Alm_set ?d) s2 = Inr s3" "calls s3 = calls s2 @ [Alm_set ?d]" "irqcount s3 = irqcount s" "messages s3 = messages s" using s2(3,4) by auto
  from faultless_must [OF assms, of Alm_read s3] obtain s4 where
    s4: "must dev Alm_read s3 = Inr s4" "calls s4 = calls s2 @ [Alm_set ?d, Alm_read]" "irqcount s4 = irqcount s" "messages s4 = messages s" using s3(2,3,4) by auto
  have "close_to d (hands_time dev (calls s2))" "close_to ?d (hands_time dev (calls s4))"
    using assms unfolding faultless_def s4(2) unfolding s2(2) by blast+
  then have "compare_dates d (hands_time dev (calls s2)) = 0" "compare_dates ?d (hands_time dev (calls s4)) = 0"
    by (simp_all add: close_compare)
  then have "test_dates dev (d # ds) s = test_dates dev ds (say (Year_ok (tm_year d + 1900)) s4)"
    using s1(1) s2(1) s3(1) s4(1) by (simp add: Let_def)
  with s4(3,4) show ?thesis by (metis say_sel(3,4))
qed

lemma dates_ok:
  "faultless dev \<Longrightarrow> \<exists>s'. test_dates dev ds s = Inr s' \<and> irqcount s' = irqcount s \<and>
    messages s' = messages s @ map (\<lambda>d. Year_ok (tm_year d + 1900)) ds"
proof (induction ds arbitrary: s)
  case (Cons d ds)
  from date_ok [OF Cons.prems, of d ds s] obtain s1 where
    s1: "test_dates dev (d # ds) s = test_dates dev ds s1" "irqcount s1 = irqcount s"
      "messages s1 = messages s @ [Year_ok (tm_year d + 1900)]" by blast
  with Cons.IH [OF Cons.prems, of s1] show ?case by auto
qed simp

text \<open>
  On a device without faults a run counts all the interrupts the tests ask for, 5 and 5
  updates, 1 alarm, and 20 for each of the 6 rates; when the second argument starts with d the
  dates pass as well, and each year is reported before the final message; the status is 0.
\<close>

theorem rtc_ideal_run:
  assumes "faultless dev"
  shows "\<exists>s ms. rtc_main [prog, rtc, CHR ''d'' # w] None dev = (0, s) \<and> irqcount s = 131 \<and>
    messages s = ms @ map Year_ok [1970, 2038, 2038, 2099, 2100, 2105, 2106, 2262, 2262] @ [Complete]"
proof -
  from UIE_ok [OF assms, of start_st] obtain s1 where
    s1: "test_UIE dev start_st = Inr s1" "irqcount s1 = 10" by (auto simp: start_st_def)
  from READ_ok [OF assms, of s1] obtain s2 where s2: "test_READ dev s1 = Inr s2" "irqcount s2 = 11" using s1(2) by auto
  from PIE_ok [OF assms, of s2] obtain s3 where s3: "test_PIE dev s2 = Inr s3" "irqcount s3 = 131" using s2(2) by auto
  from dates_ok [OF assms, of cutoff_dates s3] obtain s4 where
    s4: "test_dates dev cutoff_dates s3 = Inr s4" "irqcount s4 = 131"
      "messages s4 = messages s3 @ map (\<lambda>d. Year_ok (tm_year d + 1900)) cutoff_dates" using s3(2) by auto
  have years: "map (\<lambda>d. Year_ok (tm_year d + 1900)) cutoff_dates = map Year_ok [1970, 2038, 2038, 2099, 2100, 2105, 2106, 2262, 2262]"
    by (simp add: cutoff_dates_def date_def)
  have "rtc_main [prog, rtc, CHR ''d'' # w] None dev = (0, say Complete s4)"
    using s1(1) s2(1) s3(1) s4(1) by (simp add: rtc_main_def test_DATE_def)
  with s4(2,3) years show ?thesis by (auto simp del: list.map)
qed

text \<open>A clock that hands back what was last set, and lets five milliseconds pass with each call.\<close>

fun last_set :: "rtc_time \<Rightarrow> call list \<Rightarrow> rtc_time" where
  "last_set t [] = t"
| "last_set t (c # cs) = last_set (case c of Set_time u \<Rightarrow> u | Alm_set u \<Rightarrow> u | _ \<Rightarrow> t) cs"

definition echo_device :: device where
  "echo_device = \<lparr>fails = (\<lambda>_. None), hands_time = last_set (date 120 0 1), hands_rate = (\<lambda>_. 1),
     usecs = (\<lambda>cs. 5000 * int (length cs))\<rparr>"

lemma last_set_append: "last_set t (cs @ cs') = last_set (last_set t cs) cs'"
  by (induction cs arbitrary: t) auto

lemma echo_faultless: "faultless echo_device"
  unfolding faultless_def by (simp add: echo_device_def last_set_append close_to_def)

theorem rtc_ideal_run_witness:
  "\<exists>s ms. rtc_main [''rtctest'', ''/dev/rtc1'', ''d''] None echo_device = (0, s) \<and> irqcount s = 131 \<and>
    messages s = ms @ map Year_ok [1970, 2038, 2038, 2099, 2100, 2105, 2106, 2262, 2262] @ [Complete]"
  using rtc_ideal_run [OF echo_faultless, of "''rtctest''" "''/dev/rtc1''" "''''"] by simp

text \<open>A device whose first call fails with \<open>EIO\<close>, which is no error the tests go on with.\<close>

theorem rtc_interrupts_off_witness:
  "case rtc_main [''rtctest''] None (echo_device\<lparr>fails := \<lambda>cs. if length cs = 1 then Some EIO else None\<rparr>) of (r, s) \<Rightarrow>
    r = EIO \<and> (if r = 0 then live s = {} \<and> last (messages s) = Complete
    else r = 1 \<and> length [''rtctest''] \<notin> {1, 2, 3} \<or> None = Some r \<or>
      exits_well (echo_device\<lparr>fails := \<lambda>cs. if length cs = 1 then Some EIO else None\<rparr>) r s)"
proof -
  let ?dev = "echo_device\<lparr>fails := \<lambda>cs. if length cs = 1 then Some EIO else None\<rparr>"
  have "fst (rtc_main [''rtctest''] None ?dev) = EIO"
    by (simp add: rtc_main_def test_UIE_def try_call_def issue_def start_st_def and_then_def EIO_def EINVAL_def)
  moreover have "\<forall>cs e. fails ?dev cs = Some e \<longrightarrow> 0 < e" by (simp add: EIO_def)
  ultimately show ?thesis
    using rtc_interrupts_off [of ?dev None "[''rtctest'']"] by (simp add: case_prod_unfold)
qed

end
