(* ===== verification/UnboundTest.thy ===== *)
theory UnboundTest
  imports RetProbe
begin

text \<open>
  The module \<open>kernel_module/workqueue_test/unbond_test.c\<close>: for every processor a timer and a thread
  that queue works, and two probes, one of which queues works as well. The module is a state machine
  over the processors. A work, a timer and a thread are known by their state; queueing a work or
  starting a timer that was never initialised is undefined, as is stopping a thread that was not
  created. Random numbers, the clock and the processor a function runs on are parameters.
\<close>

section \<open>State\<close>

definition MAX_WORK_NUM :: nat where "MAX_WORK_NUM = 1"
definition MAX_KTHREAD_WORKER :: nat where "MAX_KTHREAD_WORKER = 2"

datatype work_st = Raw | Idle | Queued
datatype timer_st = Unset | Stopped | Armed
datatype thread_st = Absent | Failed | Running | Ended

record test_entry =
  works :: "work_st list"
  kworks :: "work_st list option"
  koworks :: "work_st list option"
  timer :: timer_st
  cpu :: int
  thread :: thread_st

datatype res = Kworks nat | Koworks nat | Cpuhp_state | Probe | Offline_probe

record unbound_mod =
  entries :: "nat \<Rightarrow> test_entry"
  delay_seed :: "32 word"
  g_cpuhp_state :: int
  held :: "res multiset"

definition take_res :: "res \<Rightarrow> unbound_mod \<Rightarrow> unbound_mod" where
  "take_res r s = s\<lparr>held := acquire r (held s)\<rparr>"

definition lose_res :: "res \<Rightarrow> unbound_mod \<Rightarrow> unbound_mod" where
  "lose_res r s = s\<lparr>held := discard r (held s)\<rparr>"

text \<open>The per-processor variable of one processor, and the loops over processors.\<close>

definition on_entry :: "nat \<Rightarrow> (test_entry \<Rightarrow> test_entry option) \<Rightarrow> unbound_mod \<Rightarrow> unbound_mod option" where
  "on_entry c f s = (case f (entries s c) of None \<Rightarrow> None | Some e \<Rightarrow> Some (s\<lparr>entries := (entries s)(c := e)\<rparr>))"

primrec for_cpus :: "nat list \<Rightarrow> (nat \<Rightarrow> unbound_mod \<Rightarrow> unbound_mod option) \<Rightarrow> unbound_mod \<Rightarrow> unbound_mod option" where
  "for_cpus [] f s = Some s"
| "for_cpus (c # cs) f s = do { s \<leftarrow> f c s; for_cpus cs f s }"

section \<open>Works, timers, threads\<close>

definition mdelay_with_yield :: "(nat \<Rightarrow> nat) \<Rightarrow> (nat \<Rightarrow> nat) \<Rightarrow> nat \<Rightarrow> nat option" where
  "mdelay_with_yield msecs clock timeout = yield_from msecs clock timeout 0"

definition schedule_work :: "work_st \<Rightarrow> work_st option" where
  "schedule_work w = (if w = Raw then None else Some Queued)"

definition schedule_at :: "work_st list \<Rightarrow> nat \<Rightarrow> work_st list option" where
  "schedule_at ws i = (if i < length ws then map_option (\<lambda>w. ws[i := w]) (schedule_work (ws ! i)) else None)"

primrec schedule_all :: "nat \<Rightarrow> work_st list \<Rightarrow> work_st list option" where
  "schedule_all 0 ws = Some ws"
| "schedule_all (Suc n) ws = do { ws \<leftarrow> schedule_all n ws; schedule_at ws n }"

text \<open>The loops that queue the works whose bit is set in a random number, one number for each work.\<close>

primrec schedule_bits :: "nat \<Rightarrow> (nat \<Rightarrow> 32 word) \<Rightarrow> work_st list option \<Rightarrow> work_st list option option" where
  "schedule_bits 0 seed ws = Some ws"
| "schedule_bits (Suc n) seed ws = do {
     ws \<leftarrow> schedule_bits n seed ws;
     if bit (seed n) n then (case ws of None \<Rightarrow> None | Some ws \<Rightarrow> map_option Some (schedule_at ws n)) else Some ws }"

definition hrtimer_func :: "test_entry \<Rightarrow> test_entry option" where
  "hrtimer_func e = do { ws \<leftarrow> schedule_all MAX_WORK_NUM (works e); Some (e\<lparr>timer := Armed, works := ws\<rparr>) }"

definition test_work_func :: "nat \<Rightarrow> bool \<Rightarrow> nat" where
  "test_work_func r cpu_active = r mod 100 + (if cpu_active then 0 else 20000)"

text \<open>
  One turn of the thread: it ends when it is told to, before or after it sleeps, or when its sleep
  was interrupted; otherwise it queues works. The number \<open>r\<close> is drawn before it sleeps.
\<close>

definition kthread_sleep :: "32 word \<Rightarrow> nat" where
  "kthread_sleep r = unat r mod (10 * 1000) + 300 * 1000"

definition kthread_turn :: "bool \<Rightarrow> bool \<Rightarrow> nat \<Rightarrow> 32 word \<Rightarrow> (nat \<Rightarrow> 32 word) \<Rightarrow> nat \<Rightarrow> unbound_mod \<Rightarrow> unbound_mod option" where
  "kthread_turn stop_before stop_after timeleft r seed c s =
     (if stop_before then on_entry c (\<lambda>e. Some (e\<lparr>thread := Ended\<rparr>)) s
      else let s = s\<lparr>delay_seed := r\<rparr> in
        on_entry c (\<lambda>e. if stop_after \<or> timeleft \<noteq> 0 then Some (e\<lparr>thread := Ended\<rparr>)
          else do { ws \<leftarrow> schedule_bits MAX_KTHREAD_WORKER seed (kworks e); Some (e\<lparr>kworks := ws\<rparr>) }) s)"

text \<open>What runs on each processor that is online when the module is loaded.\<close>

primrec init_works :: "nat \<Rightarrow> work_st list \<Rightarrow> work_st list" where
  "init_works 0 ws = ws"
| "init_works (Suc n) ws = (init_works n ws)[n := Idle]"

definition sched_test_work :: "nat \<Rightarrow> test_entry \<Rightarrow> test_entry option" where
  "sched_test_work c e = do {
     k \<leftarrow> kworks e;
     ko \<leftarrow> koworks e;
     Some (e\<lparr>works := init_works MAX_WORK_NUM (works e), kworks := Some (init_works MAX_KTHREAD_WORKER k),
       koworks := Some (init_works MAX_KTHREAD_WORKER ko), timer := Armed, cpu := int c\<rparr>) }"

definition wq_test_cpu_online :: "test_entry \<Rightarrow> test_entry option" where
  "wq_test_cpu_online e = (if timer e = Unset then None else Some (e\<lparr>timer := Armed\<rparr>))"

definition wq_test_cpu_offline :: "test_entry \<Rightarrow> test_entry option" where
  "wq_test_cpu_offline e =
     (if cpu e \<noteq> - 1 then if timer e = Unset then None else Some (e\<lparr>timer := Stopped\<rparr>) else Some e)"

section \<open>Probes\<close>

text \<open>The first probe notes the time and delays; on return it reports the value and the duration.\<close>

definition entry_handler :: "int \<Rightarrow> bool \<Rightarrow> int \<times> nat" where
  "entry_handler now cpu_active = (now, (if cpu_active then 0 else 20000) + 50)"

definition ret_handler :: "int \<Rightarrow> 64 word \<Rightarrow> int \<Rightarrow> 64 word \<times> int" where
  "ret_handler entry_stamp retval now = (retval, now - entry_stamp)"

definition wq_entry_handler :: "int \<Rightarrow> int" where
  "wq_entry_handler now = now"

definition wq_report :: "int \<Rightarrow> 64 word \<Rightarrow> int \<Rightarrow> 64 word \<times> int" where
  "wq_report entry_stamp retval now = (retval, now - entry_stamp)"

definition wq_ret_handler :: "int \<Rightarrow> 64 word \<Rightarrow> int \<Rightarrow> nat \<Rightarrow> unbound_mod \<Rightarrow> ((64 word \<times> int) \<times> unbound_mod) option" where
  "wq_ret_handler entry_stamp retval now c s = do {
     s \<leftarrow> on_entry c (\<lambda>e. do {
       ws \<leftarrow> schedule_bits MAX_KTHREAD_WORKER (\<lambda>_. delay_seed s) (koworks e);
       Some (e\<lparr>koworks := ws\<rparr>) }) s;
     Some (wq_report entry_stamp retval now, s) }"

text \<open>
  The two probes: the entry handler of the first looks whether its processor is active. The handler of the second, besides its
  report, schedules works.
\<close>

definition func_name :: string where
  "func_name = ''worker_thread''"

definition my_kretprobe :: "(bool, int) kretprobe" where
  "my_kretprobe = \<lparr>symbol_name = func_name, handler = ret_handler,
     entry_fn = \<lambda>active now. (Some (fst (entry_handler now active)), snd (entry_handler now active)),
     data_size = 8, maxactive = 512\<rparr>"

definition my_wq_offline_kretprobe :: "(unit, int) kretprobe" where
  "my_wq_offline_kretprobe = \<lparr>symbol_name = ''workqueue_offline_cpu'', handler = wq_report,
     entry_fn = \<lambda>_ now. (Some (wq_entry_handler now), 0), data_size = 8, maxactive = 128\<rparr>"

lemmas probe_defs = my_kretprobe_def my_wq_offline_kretprobe_def entry_handler_def ret_handler_def
  wq_entry_handler_def wq_report_def

interpretation unbound: return_probe my_kretprobe 50
  by unfold_locales (auto simp: probe_defs)

interpretation unbound_offline: return_probe my_wq_offline_kretprobe 0
  by unfold_locales (auto simp: probe_defs)

section \<open>Loading and unloading\<close>

record env =
  possible :: nat
  online :: "nat list"
  kworks_ok :: "nat \<Rightarrow> bool"
  koworks_ok :: "nat \<Rightarrow> bool"
  probe_ok :: bool
  offline_probe_ok :: bool
  setup_state :: int
  thread_ok :: "nat \<Rightarrow> bool"

definition kretprobe_init :: "env \<Rightarrow> unbound_mod \<Rightarrow> int \<times> unbound_mod" where
  "kretprobe_init v s =
     (if \<not> probe_ok v then (- 1, s)
      else let s = take_res Probe s in
        if \<not> offline_probe_ok v then (- 1, s) else (0, take_res Offline_probe s))"

text \<open>Only the first probe is unregistered, whatever became of it; \<open>ignored\<close> is whether the kernel ignores one that was never registered.\<close>

definition kretprobe_exit :: "bool \<Rightarrow> unbound_mod \<Rightarrow> unbound_mod option" where
  "kretprobe_exit ignored s = do { m \<leftarrow> unregister ignored Probe (held s); Some (s\<lparr>held := m\<rparr>) }"

definition alloc_entry :: "env \<Rightarrow> nat \<Rightarrow> unbound_mod \<Rightarrow> unbound_mod option" where
  "alloc_entry v c s =
     (let s = (if kworks_ok v c then take_res (Kworks c) s else s);
          s = (if koworks_ok v c then take_res (Koworks c) s else s);
          raw = (\<lambda>ok. if ok then Some (replicate MAX_KTHREAD_WORKER Raw) else None)
      in on_entry c (\<lambda>e. Some (e\<lparr>cpu := - 1, kworks := raw (kworks_ok v c), koworks := raw (koworks_ok v c)\<rparr>)) s)"

definition start_thread :: "env \<Rightarrow> nat \<Rightarrow> unbound_mod \<Rightarrow> unbound_mod option" where
  "start_thread v c = on_entry c (\<lambda>e. Some (e\<lparr>thread := if thread_ok v c then Running else Failed\<rparr>))"

definition proc_workqueue_unbound_test_init :: "env \<Rightarrow> unbound_mod \<Rightarrow> (int \<times> unbound_mod) option" where
  "proc_workqueue_unbound_test_init v s = do {
     s \<leftarrow> for_cpus [0..<possible v] (alloc_entry v) s;
     let s = snd (kretprobe_init v s);
     s \<leftarrow> for_cpus (online v) (\<lambda>c. on_entry c (sched_test_work c)) s;
     let s = (if setup_state v \<ge> 0 then take_res Cpuhp_state s else s)\<lparr>g_cpuhp_state := setup_state v\<rparr>;
     s \<leftarrow> for_cpus [0..<possible v] (start_thread v) s;
     Some (0, s) }"

definition kthread_stop :: "test_entry \<Rightarrow> test_entry option" where
  "kthread_stop e = (if thread e = Running then Some (e\<lparr>thread := Absent\<rparr>) else None)"

primrec cancel_works :: "nat \<Rightarrow> work_st list \<Rightarrow> work_st list" where
  "cancel_works 0 ws = ws"
| "cancel_works (Suc n) ws = (cancel_works n ws)[n := Idle]"

definition cancel_entry :: "test_entry \<Rightarrow> test_entry option" where
  "cancel_entry e =
     (if cpu e = - 1 then Some e
      else do {
        k \<leftarrow> kworks e;
        ko \<leftarrow> koworks e;
        Some (e\<lparr>works := cancel_works MAX_WORK_NUM (works e), kworks := Some (cancel_works MAX_KTHREAD_WORKER k),
          koworks := Some (cancel_works MAX_KTHREAD_WORKER ko)\<rparr>) })"

definition free_entry :: "nat \<Rightarrow> unbound_mod \<Rightarrow> unbound_mod option" where
  "free_entry c s = do {
     m \<leftarrow> (if kworks (entries s c) = None then Some (held s) else release (Kworks c) (held s));
     m \<leftarrow> (if koworks (entries s c) = None then Some m else release (Koworks c) m);
     on_entry c (\<lambda>e. Some (e\<lparr>kworks := None, koworks := None\<rparr>)) (s\<lparr>held := m\<rparr>) }"

text \<open>
  Removing the hotplug state calls the offline callback for every processor that is online; a
  negative state stops the kernel.
\<close>

definition remove_state :: "nat list \<Rightarrow> unbound_mod \<Rightarrow> unbound_mod option" where
  "remove_state now_online s =
     (if g_cpuhp_state s < 0 then None
      else for_cpus now_online (\<lambda>c. on_entry c wq_test_cpu_offline) (lose_res Cpuhp_state s))"

definition proc_workqueue_unbound_test_remove :: "bool \<Rightarrow> nat \<Rightarrow> nat list \<Rightarrow> unbound_mod \<Rightarrow> unbound_mod option" where
  "proc_workqueue_unbound_test_remove ignored n now_online s = do {
     s \<leftarrow> for_cpus [0..<n] (\<lambda>c. on_entry c kthread_stop) s;
     s \<leftarrow> (if g_cpuhp_state s \<noteq> - 1 then remove_state now_online s else Some s);
     s \<leftarrow> for_cpus [0..<n] (\<lambda>c. on_entry c cancel_entry) s;
     s \<leftarrow> kretprobe_exit ignored s;
     for_cpus [0..<n] free_entry s }"

section \<open>Loops over the processors\<close>

lemma for_cpus_entry:
  "distinct cs \<Longrightarrow> (\<And>c. c \<in> set cs \<Longrightarrow> f c (entries s c) = Some (g c)) \<Longrightarrow>
    for_cpus cs (\<lambda>c. on_entry c (f c)) s = Some (s\<lparr>entries := \<lambda>c. if c \<in> set cs then g c else entries s c\<rparr>)"
proof (induction cs arbitrary: s)
  case (Cons c cs)
  let ?s = "s\<lparr>entries := (entries s)(c := g c)\<rparr>"
  have "for_cpus cs (\<lambda>c. on_entry c (f c)) ?s = Some (?s\<lparr>entries := \<lambda>d. if d \<in> set cs then g d else entries ?s d\<rparr>)"
    by (rule Cons.IH) (use Cons.prems in auto)
  moreover have "(\<lambda>d. if d \<in> set cs then g d else entries ?s d) = (\<lambda>d. if d \<in> set (c # cs) then g d else entries s d)"
    using Cons.prems(1) by auto
  moreover have "on_entry c (f c) s = Some ?s" using Cons.prems(2) [of c] by (simp add: on_entry_def)
  ultimately show ?case by simp
qed simp

lemma for_cpus_fails:
  "distinct cs \<Longrightarrow> c \<in> set cs \<Longrightarrow> f c (entries s c) = None \<Longrightarrow> for_cpus cs (\<lambda>c. on_entry c (f c)) s = None"
proof (induction cs arbitrary: s)
  case (Cons d cs)
  show ?case
  proof (cases "d = c")
    case True
    with Cons.prems(3) show ?thesis by (simp add: on_entry_def)
  next
    case False
    have IH: "for_cpus cs (\<lambda>c. on_entry c (f c)) (s\<lparr>entries := (entries s)(d := e)\<rparr>) = None" for e
      by (rule Cons.IH) (use Cons.prems False in auto)
    show ?thesis
    proof (cases "f d (entries s d)")
      case (Some e)
      then have "on_entry d (f d) s = Some (s\<lparr>entries := (entries s)(d := e)\<rparr>)" by (simp add: on_entry_def)
      with IH show ?thesis by simp
    qed (simp add: on_entry_def)
  qed
qed simp

definition kmem :: "env \<Rightarrow> nat \<Rightarrow> res multiset" where
  "kmem v c = (if kworks_ok v c then {#Kworks c#} else {#}) + (if koworks_ok v c then {#Koworks c#} else {#})"

definition raw :: "bool \<Rightarrow> work_st list option" where
  "raw ok = (if ok then Some [Raw, Raw] else None)"

lemma alloc_entry_eq: "alloc_entry v c s = Some (s\<lparr>held := held s + kmem v c,
    entries := (entries s)(c := (entries s c)\<lparr>cpu := - 1, kworks := raw (kworks_ok v c), koworks := raw (koworks_ok v c)\<rparr>)\<rparr>)"
  by (simp add: alloc_entry_def on_entry_def take_res_def acquire_def kmem_def raw_def Let_def MAX_KTHREAD_WORKER_def numeral_2_eq_2
      add_mset_commute)

lemma for_cpus_alloc:
  "distinct cs \<Longrightarrow> for_cpus cs (alloc_entry v) s = Some (s\<lparr>held := held s + (\<Sum>c\<leftarrow>cs. kmem v c),
    entries := \<lambda>c. if c \<in> set cs then (entries s c)\<lparr>cpu := - 1, kworks := raw (kworks_ok v c), koworks := raw (koworks_ok v c)\<rparr>
      else entries s c\<rparr>)"
proof (induction cs arbitrary: s)
  case (Cons c cs)
  let ?u = "\<lambda>s c. (entries s c)\<lparr>cpu := - 1, kworks := raw (kworks_ok v c), koworks := raw (koworks_ok v c)\<rparr>"
  let ?s = "s\<lparr>held := held s + kmem v c, entries := (entries s)(c := ?u s c)\<rparr>"
  have "for_cpus (c # cs) (alloc_entry v) s = for_cpus cs (alloc_entry v) ?s" by (simp add: alloc_entry_eq [of v c s])
  also have "\<dots> = Some (?s\<lparr>held := held ?s + (\<Sum>c\<leftarrow>cs. kmem v c),
      entries := \<lambda>c. if c \<in> set cs then ?u ?s c else entries ?s c\<rparr>)"
    by (rule Cons.IH) (use Cons.prems in simp)
  also have "(\<lambda>c. if c \<in> set cs then ?u ?s c else entries ?s c) =
      (\<lambda>d. if d \<in> set (c # cs) then ?u s d else entries s d)"
    using Cons.prems by auto
  finally show ?case by (simp add: add.assoc)
qed simp

section \<open>The module at work\<close>

text \<open>
  What can happen next: a timer goes off, a queued work ends, a thread takes a turn (nothing but its
  timer wakes a kernel thread that is not stopped), a processor comes up or goes down, or the probed
  function returns somewhere. \<open>None\<close> is a step into undefined behaviour. The callbacks run when the
  hotplug state is there, the probe when it is planted.
\<close>

datatype kind = W | K | KO

fun works_of :: "kind \<Rightarrow> test_entry \<Rightarrow> work_st list" where
  "works_of W e = works e"
| "works_of K e = (case kworks e of Some ws \<Rightarrow> ws | None \<Rightarrow> [])"
| "works_of KO e = (case koworks e of Some ws \<Rightarrow> ws | None \<Rightarrow> [])"

fun end_work :: "kind \<Rightarrow> nat \<Rightarrow> test_entry \<Rightarrow> test_entry" where
  "end_work W i e = e\<lparr>works := (works e)[i := Idle]\<rparr>"
| "end_work K i e = e\<lparr>kworks := map_option (\<lambda>ws. ws[i := Idle]) (kworks e)\<rparr>"
| "end_work KO i e = e\<lparr>koworks := map_option (\<lambda>ws. ws[i := Idle]) (koworks e)\<rparr>"

abbreviation with_set :: "nat set \<Rightarrow> unbound_mod option \<Rightarrow> (unbound_mod \<times> nat set) option" where
  "with_set on r \<equiv> map_option (\<lambda>s. (s, on)) r"

inductive step :: "nat \<Rightarrow> unbound_mod \<times> nat set \<Rightarrow> (unbound_mod \<times> nat set) option \<Rightarrow> bool" for n where
  expire: "c < n \<Longrightarrow> timer (entries s c) = Armed \<Longrightarrow> step n (s, on) (with_set on (on_entry c hrtimer_func s))"
| work: "c < n \<Longrightarrow> i < length (works_of k (entries s c)) \<Longrightarrow> works_of k (entries s c) ! i = Queued \<Longrightarrow>
    step n (s, on) (with_set on (on_entry c (\<lambda>e. Some (end_work k i e)) s))"
| turn: "c < n \<Longrightarrow> thread (entries s c) = Running \<Longrightarrow>
    step n (s, on) (with_set on (kthread_turn False False 0 r seed c s))"
| up: "c < n \<Longrightarrow> c \<notin> on \<Longrightarrow> step n (s, on) (with_set (insert c on)
    (if Cpuhp_state \<in># held s then on_entry c wq_test_cpu_online s else Some s))"
| down: "c < n \<Longrightarrow> c \<in> on \<Longrightarrow> step n (s, on) (with_set (on - {c})
    (if Cpuhp_state \<in># held s then on_entry c wq_test_cpu_offline s else Some s))"
| returned: "c < n \<Longrightarrow> Offline_probe \<in># held s \<Longrightarrow>
    step n (s, on) (with_set on (map_option snd (wq_ret_handler stamp retval now c s)))"

text \<open>All is initialised; a timer is armed on processors that are online only.\<close>

definition ready :: "work_st list \<Rightarrow> bool" where
  "ready ws \<longleftrightarrow> Raw \<notin> set ws"

definition entry_inv :: "nat \<Rightarrow> bool \<Rightarrow> test_entry \<Rightarrow> bool" where
  "entry_inv c on e \<longleftrightarrow> length (works e) = 1 \<and> ready (works e) \<and>
     (\<exists>ws. kworks e = Some ws \<and> length ws = 2 \<and> ready ws) \<and> (\<exists>ws. koworks e = Some ws \<and> length ws = 2 \<and> ready ws) \<and>
     timer e \<noteq> Unset \<and> (timer e = Armed \<longrightarrow> on) \<and> cpu e = int c \<and> thread e = Running"

definition machine_inv :: "nat \<Rightarrow> res multiset \<Rightarrow> int \<Rightarrow> unbound_mod \<times> nat set \<Rightarrow> bool" where
  "machine_inv n H g x \<longleftrightarrow> (case x of (s, on) \<Rightarrow>
     on \<subseteq> {..<n} \<and> held s = H \<and> g_cpuhp_state s = g \<and> (\<forall>c<n. entry_inv c (c \<in> on) (entries s c)))"

lemma ready_update: "ready ws \<Longrightarrow> w \<noteq> Raw \<Longrightarrow> ready (ws[i := w])"
  using set_update_subset_insert [of ws i w] by (auto simp: ready_def)

lemma ready_nth: "ready ws \<Longrightarrow> i < length ws \<Longrightarrow> ws ! i \<noteq> Raw"
  unfolding ready_def using nth_mem [of i ws] by metis

lemma schedule_at_ready:
  assumes "ready ws" and "i < length ws"
  shows "\<exists>ws'. schedule_at ws i = Some ws' \<and> length ws' = length ws \<and> ready ws'"
  using assms by (simp add: schedule_at_def schedule_work_def ready_nth ready_update)

lemma schedule_all_ready:
  "ready ws \<Longrightarrow> n \<le> length ws \<Longrightarrow> \<exists>ws'. schedule_all n ws = Some ws' \<and> length ws' = length ws \<and> ready ws'"
proof (induction n)
  case (Suc n)
  then obtain ws1 where w: "schedule_all n ws = Some ws1" "length ws1 = length ws" "ready ws1" by auto
  from schedule_at_ready [OF w(3), of n] w Suc.prems(2) show ?case by simp
qed simp

lemma schedule_bits_ready:
  "ready ws \<Longrightarrow> n \<le> length ws \<Longrightarrow> \<exists>ws'. schedule_bits n seed (Some ws) = Some (Some ws') \<and> length ws' = length ws \<and> ready ws'"
proof (induction n)
  case (Suc n)
  then obtain ws1 where w: "schedule_bits n seed (Some ws) = Some (Some ws1)" "length ws1 = length ws" "ready ws1" by auto
  from schedule_at_ready [OF w(3), of n] w Suc.prems(2) show ?case by (cases "bit (seed n) n") auto
qed simp

lemma on_entry_inv:
  assumes "machine_inv n H g (s, on)" and "c < n" and "on' = on \<or> on' = insert c on \<or> on' = on - {c}"
    and "\<And>e. entry_inv c (c \<in> on) e \<Longrightarrow> \<exists>e'. f e = Some e' \<and> entry_inv c (c \<in> on') e'"
  shows "\<exists>s'. on_entry c f s = Some s' \<and> machine_inv n H g (s', on')"
proof -
  from assms(1,2) have "entry_inv c (c \<in> on) (entries s c)" by (simp add: machine_inv_def)
  from assms(4) [OF this] obtain e' where e': "f (entries s c) = Some e'" "entry_inv c (c \<in> on') e'" by blast
  then have "on_entry c f s = Some (s\<lparr>entries := (entries s)(c := e')\<rparr>)" by (simp add: on_entry_def)
  moreover have "machine_inv n H g (s\<lparr>entries := (entries s)(c := e')\<rparr>, on')"
    using assms(1-3) e'(2) by (auto simp: machine_inv_def)
  ultimately show ?thesis by blast
qed

lemma seed_inv: "machine_inv n H g (s, on) \<Longrightarrow> machine_inv n H g (s\<lparr>delay_seed := r\<rparr>, on)"
  by (simp add: machine_inv_def)

lemma expire_inv:
  assumes "machine_inv n H g (s, on)" and "c < n"
    and "timer (entries s c) = Armed"
  shows "\<exists>s'. on_entry c hrtimer_func s = Some s' \<and> machine_inv n H g (s', on)"
proof -
  have on: "c \<in> on" using assms by (auto simp: machine_inv_def entry_inv_def)
  have "\<exists>e'. hrtimer_func e = Some e' \<and> entry_inv c (c \<in> on) e'" if "entry_inv c (c \<in> on) e" for e
    using that on schedule_all_ready [of "works e" 1] by (auto simp: hrtimer_func_def MAX_WORK_NUM_def entry_inv_def)
  from on_entry_inv [OF assms(1,2) _ this] show ?thesis by simp
qed

lemma work_inv:
  assumes "machine_inv n H g (s, on)" and "c < n"
  shows "\<exists>s'. on_entry c (\<lambda>e. Some (end_work k i e)) s = Some s' \<and> machine_inv n H g (s', on)"
proof -
  have "entry_inv c (c \<in> on) (end_work k i e)" if "entry_inv c (c \<in> on) e" for e
    using that by (cases k) (auto simp: entry_inv_def ready_update)
  with on_entry_inv [OF assms, of on "\<lambda>e. Some (end_work k i e)"] show ?thesis by simp
qed

lemma turn_inv:
  assumes "machine_inv n H g (s, on)" and "c < n"
  shows "\<exists>s'. kthread_turn False False 0 r seed c s = Some s' \<and> machine_inv n H g (s', on)"
proof -
  let ?f = "\<lambda>e. do { ws \<leftarrow> schedule_bits MAX_KTHREAD_WORKER seed (kworks e); Some (e\<lparr>kworks := ws\<rparr>) }"
  have "\<exists>e'. ?f e = Some e' \<and> entry_inv c (c \<in> on) e'" if e: "entry_inv c (c \<in> on) e" for e
  proof -
    from e obtain ws where ws: "kworks e = Some ws" "length ws = 2" "ready ws" by (auto simp: entry_inv_def)
    from schedule_bits_ready [OF ws(3), of 2 seed] ws(1,2) e show ?thesis
      by (auto simp: MAX_KTHREAD_WORKER_def entry_inv_def)
  qed
  then show ?thesis using on_entry_inv [OF seed_inv [OF assms(1)] assms(2), of on ?f r]
    by (simp add: kthread_turn_def)
qed

lemma up_inv:
  assumes "machine_inv n H g (s, on)" and "c < n"
  shows "\<exists>s'. on_entry c wq_test_cpu_online s = Some s' \<and> machine_inv n H g (s', insert c on)"
proof -
  have "\<exists>e'. wq_test_cpu_online e = Some e' \<and> entry_inv c (c \<in> insert c on) e'" if "entry_inv c (c \<in> on) e" for e
    using that by (auto simp: wq_test_cpu_online_def entry_inv_def)
  from on_entry_inv [OF assms _ this] show ?thesis by simp
qed

lemma down_inv:
  assumes "machine_inv n H g (s, on)" and "c < n"
  shows "\<exists>s'. on_entry c wq_test_cpu_offline s = Some s' \<and> machine_inv n H g (s', on - {c})"
proof -
  have "\<exists>e'. wq_test_cpu_offline e = Some e' \<and> entry_inv c (c \<in> on - {c}) e'" if "entry_inv c (c \<in> on) e" for e
    using that by (auto simp: wq_test_cpu_offline_def entry_inv_def)
  from on_entry_inv [OF assms _ this] show ?thesis by simp
qed

lemma returned_inv:
  assumes "machine_inv n H g (s, on)" and "c < n"
  shows "\<exists>s'. map_option snd (wq_ret_handler stamp retval now c s) = Some s' \<and> machine_inv n H g (s', on)"
proof -
  let ?f = "\<lambda>e. do { ws \<leftarrow> schedule_bits MAX_KTHREAD_WORKER (\<lambda>_. delay_seed s) (koworks e); Some (e\<lparr>koworks := ws\<rparr>) }"
  have "\<exists>e'. ?f e = Some e' \<and> entry_inv c (c \<in> on) e'" if e: "entry_inv c (c \<in> on) e" for e
  proof -
    from e obtain ws where ws: "koworks e = Some ws" "length ws = 2" "ready ws" by (auto simp: entry_inv_def)
    from schedule_bits_ready [OF ws(3), of 2 "\<lambda>_. delay_seed s"] ws(1,2) e show ?thesis
      by (auto simp: MAX_KTHREAD_WORKER_def entry_inv_def)
  qed
  then obtain s' where "on_entry c ?f s = Some s'" "machine_inv n H g (s', on)"
    using on_entry_inv [OF assms, of on ?f] by auto
  then show ?thesis by (auto simp: wq_ret_handler_def)
qed

lemma machine_step:
  assumes "step n x r" and "machine_inv n H g x" and "Cpuhp_state \<in># H"
  shows "\<exists>y. r = Some y \<and> machine_inv n H g y"
  using assms
proof cases
  case (expire c s on)
  with assms(2) expire_inv [of n H g s on c] show ?thesis by auto
next
  case (work c i k s on)
  with assms(2) work_inv [of n H g s on c k i] show ?thesis by auto
next
  case (turn c s on r' seed)
  with assms(2) turn_inv [of n H g s on c r' seed] show ?thesis by auto
next
  case (up c on s)
  moreover from this have "Cpuhp_state \<in># held s" using assms(2,3) by (simp add: machine_inv_def)
  ultimately show ?thesis using assms(2) up_inv [of n H g s on c] by auto
next
  case (down c on s)
  moreover from this have "Cpuhp_state \<in># held s" using assms(2,3) by (simp add: machine_inv_def)
  ultimately show ?thesis using assms(2) down_inv [of n H g s on c] by auto
next
  case (returned c s on stamp retval now)
  with assms(2) returned_inv [of n H g s on c stamp retval now] show ?thesis by auto
qed

lemma machine_reached: "reaches (step n) x y \<Longrightarrow> machine_inv n H g x \<Longrightarrow> Cpuhp_state \<in># H \<Longrightarrow> machine_inv n H g y"
  by (rule reaches_inv) (use machine_step in blast)+

section \<open>Loading and unloading, proved\<close>

definition fresh :: unbound_mod where
  "fresh = \<lparr>entries = \<lambda>_. \<lparr>works = [Raw], kworks = None, koworks = None, timer = Unset, cpu = 0, thread = Absent\<rparr>,
     delay_seed = - 1, g_cpuhp_state = - 1, held = {#}\<rparr>"

definition probes :: "env \<Rightarrow> res multiset" where
  "probes v = (if probe_ok v then {#Probe#} + (if offline_probe_ok v then {#Offline_probe#} else {#}) else {#})"

definition loaded :: "env \<Rightarrow> res multiset" where
  "loaded v = (\<Sum>c\<leftarrow>[0..<possible v]. kmem v c) + probes v + (if setup_state v \<ge> 0 then {#Cpuhp_state#} else {#})"

text \<open>The entry of a processor after the load, by whether it was online.\<close>

definition entry_of :: "env \<Rightarrow> nat \<Rightarrow> test_entry" where
  "entry_of v c =
     (if c \<in> set (online v) then \<lparr>works = [Idle], kworks = Some [Idle, Idle], koworks = Some [Idle, Idle], timer = Armed,
        cpu = int c, thread = if thread_ok v c then Running else Failed\<rparr>
      else \<lparr>works = [Raw], kworks = raw (kworks_ok v c), koworks = raw (koworks_ok v c), timer = Unset, cpu = - 1,
        thread = if thread_ok v c then Running else Failed\<rparr>)"

definition sane :: "env \<Rightarrow> bool" where
  "sane v \<longleftrightarrow> distinct (online v) \<and> set (online v) \<subseteq> {..<possible v}"

lemma unbound_load:
  assumes "sane v" and "\<forall>c\<in>set (online v). kworks_ok v c \<and> koworks_ok v c"
  shows "\<exists>s. proc_workqueue_unbound_test_init v fresh = Some (0, s) \<and> held s = loaded v \<and> g_cpuhp_state s = setup_state v \<and>
    (\<forall>c<possible v. entries s c = entry_of v c)"
proof -
  let ?n = "possible v"
  define s1 where "s1 = fresh\<lparr>held := held fresh + (\<Sum>c\<leftarrow>[0..<?n]. kmem v c),
    entries := \<lambda>c. if c \<in> set [0..<?n] then (entries fresh c)\<lparr>cpu := - 1, kworks := raw (kworks_ok v c), koworks := raw (koworks_ok v c)\<rparr>
      else entries fresh c\<rparr>"
  have 1: "for_cpus [0..<?n] (alloc_entry v) fresh = Some s1" unfolding s1_def by (rule for_cpus_alloc) simp
  define s2 where "s2 = snd (kretprobe_init v s1)"
  have 2: "held s2 = held s1 + probes v" "entries s2 = entries s1"
    by (simp_all add: s2_def kretprobe_init_def take_res_def acquire_def probes_def Let_def)
  define s3 where "s3 = s2\<lparr>entries := \<lambda>c. if c \<in> set (online v) then (entry_of v c)\<lparr>thread := Absent\<rparr> else entries s2 c\<rparr>"
  have 3: "for_cpus (online v) (\<lambda>c. on_entry c (sched_test_work c)) s2 = Some s3"
    unfolding s3_def using assms
    by (intro for_cpus_entry) (auto simp: 2 s1_def sane_def sched_test_work_def raw_def fresh_def entry_of_def
        MAX_WORK_NUM_def MAX_KTHREAD_WORKER_def numeral_2_eq_2)
  define s4 where "s4 = (if setup_state v \<ge> 0 then take_res Cpuhp_state s3 else s3)\<lparr>g_cpuhp_state := setup_state v\<rparr>"
  define s5 where "s5 = s4\<lparr>entries := \<lambda>c. if c \<in> set [0..<?n] then (entries s4 c)\<lparr>thread := if thread_ok v c then Running else Failed\<rparr>
    else entries s4 c\<rparr>"
  have 5: "for_cpus [0..<?n] (start_thread v) s4 = Some s5"
    unfolding s5_def start_thread_def [abs_def] by (intro for_cpus_entry) auto
  have "proc_workqueue_unbound_test_init v fresh = Some (0, s5)"
    using 1 3 5 by (simp add: proc_workqueue_unbound_test_init_def s2_def [symmetric] s4_def [symmetric])
  moreover have "held s5 = loaded v" "g_cpuhp_state s5 = setup_state v"
    using 2 by (simp_all add: s5_def s4_def s3_def s1_def fresh_def take_res_def acquire_def loaded_def)
  moreover have "\<forall>c<?n. entries s5 c = entry_of v c"
    using 2 by (auto simp: s5_def s4_def s3_def s1_def take_res_def fresh_def entry_of_def)
  ultimately show ?thesis by blast
qed

text \<open>Nothing of the module runs or is going to run, and it has no memory left.\<close>

definition quiet :: "nat \<Rightarrow> unbound_mod \<Rightarrow> bool" where
  "quiet n s \<longleftrightarrow> (\<forall>c<n. timer (entries s c) \<noteq> Armed \<and> Queued \<notin> set (works (entries s c)) \<and>
     kworks (entries s c) = None \<and> koworks (entries s c) = None \<and> thread (entries s c) = Absent)"

lemma for_cpus_free:
  "distinct cs \<Longrightarrow> \<forall>c\<in>set cs. kworks (entries s c) \<noteq> None \<and> koworks (entries s c) \<noteq> None \<and> kmem v c = {#Kworks c, Koworks c#} \<Longrightarrow>
    held s = H + (\<Sum>c\<leftarrow>cs. kmem v c) \<Longrightarrow>
    for_cpus cs free_entry s = Some (s\<lparr>held := H,
      entries := \<lambda>c. if c \<in> set cs then (entries s c)\<lparr>kworks := None, koworks := None\<rparr> else entries s c\<rparr>)"
proof (induction cs arbitrary: s)
  case (Cons c cs)
  let ?u = "\<lambda>s c. (entries s c)\<lparr>kworks := None, koworks := None\<rparr>"
  let ?s = "s\<lparr>held := H + (\<Sum>c\<leftarrow>cs. kmem v c), entries := (entries s)(c := ?u s c)\<rparr>"
  have "free_entry c s = Some ?s"
    using Cons.prems(2,3) by (auto simp: free_entry_def on_entry_def release_def)
  then have "for_cpus (c # cs) free_entry s = for_cpus cs free_entry ?s" by simp
  also have "\<dots> = Some (?s\<lparr>held := H, entries := \<lambda>d. if d \<in> set cs then ?u ?s d else entries ?s d\<rparr>)"
    by (rule Cons.IH) (use Cons.prems in auto)
  also have "(\<lambda>d. if d \<in> set cs then ?u ?s d else entries ?s d) = (\<lambda>d. if d \<in> set (c # cs) then ?u s d else entries s d)"
    using Cons.prems(1) by auto
  finally show ?case by simp
qed simp

lemma kmem_absent: "Cpuhp_state \<notin># (\<Sum>c\<leftarrow>cs. kmem v c)" "Probe \<notin># (\<Sum>c\<leftarrow>cs. kmem v c)"
  by (induction cs) (auto simp: kmem_def)

definition all_ok :: "env \<Rightarrow> bool" where
  "all_ok v \<longleftrightarrow> sane v \<and> (\<forall>c<possible v. kworks_ok v c \<and> koworks_ok v c \<and> thread_ok v c) \<and> setup_state v \<ge> 0"

lemma cancel_entry_eq:
  assumes "entry_inv c b e" and "cpu e' = cpu e" and "works e' = works e" and "kworks e' = kworks e" and "koworks e' = koworks e"
  shows "cancel_entry e' = Some (e'\<lparr>works := [Idle], kworks := Some [Idle, Idle], koworks := Some [Idle, Idle]\<rparr>)"
proof -
  have two: "ws[0 := Idle, 1 := Idle] = [Idle, Idle]" if "length ws = 2" for ws
    using that by (auto simp: numeral_2_eq_2 length_Suc_conv)
  have one: "ws[0 := Idle] = [Idle]" if "length ws = 1" for ws using that by (auto simp: length_Suc_conv)
  show ?thesis using assms one [of "works e"] two
    by (auto simp: entry_inv_def cancel_entry_def MAX_WORK_NUM_def MAX_KTHREAD_WORKER_def numeral_2_eq_2)
qed

lemma unbound_unload:
  assumes "all_ok v" and "machine_inv (possible v) (loaded v) (setup_state v) (s, on)" and "distinct cs" and "set cs = on"
  shows "if probe_ok v \<or> ignored
    then \<exists>s'. proc_workqueue_unbound_test_remove ignored (possible v) cs s = Some s' \<and> quiet (possible v) s' \<and>
      held s' = (if probe_ok v \<and> offline_probe_ok v then {#Offline_probe#} else {#})
    else proc_workqueue_unbound_test_remove ignored (possible v) cs s = None"
proof -
  let ?n = "possible v"
  have inv: "entry_inv c (c \<in> on) (entries s c)" if "c < ?n" for c using assms(2) that by (simp add: machine_inv_def)
  define s1 where "s1 = s\<lparr>entries := \<lambda>c. if c \<in> set [0..<?n] then (entries s c)\<lparr>thread := Absent\<rparr> else entries s c\<rparr>"
  have 1: "for_cpus [0..<?n] (\<lambda>c. on_entry c kthread_stop) s = Some s1"
    unfolding s1_def by (rule for_cpus_entry) (use inv in \<open>auto simp: kthread_stop_def entry_inv_def\<close>)
  have g: "g_cpuhp_state s1 = setup_state v" "setup_state v \<ge> 0" "held s1 = loaded v"
    using assms(1,2) by (simp_all add: s1_def machine_inv_def all_ok_def)
  define l1 where "l1 = lose_res Cpuhp_state s1"
  define s2 where "s2 = l1\<lparr>entries := \<lambda>c. if c \<in> set cs then (entries s1 c)\<lparr>timer := Stopped\<rparr> else entries l1 c\<rparr>"
  have "c < ?n" if "c \<in> set cs" for c using assms(2,4) that by (auto simp: machine_inv_def)
  with inv have "for_cpus cs (\<lambda>c. on_entry c wq_test_cpu_offline) l1 = Some s2"
    unfolding s2_def using assms(3)
    by (intro for_cpus_entry) (auto simp: l1_def lose_res_def s1_def wq_test_cpu_offline_def entry_inv_def)
  with g have 2: "remove_state cs s1 = Some s2" by (simp add: remove_state_def l1_def)
  define g3 where "g3 c = (entries s2 c)\<lparr>works := [Idle], kworks := Some [Idle, Idle], koworks := Some [Idle, Idle]\<rparr>" for c
  define s3 where "s3 = s2\<lparr>entries := \<lambda>c. if c \<in> set [0..<?n] then g3 c else entries s2 c\<rparr>"
  have 3: "for_cpus [0..<?n] (\<lambda>c. on_entry c cancel_entry) s2 = Some s3"
    unfolding s3_def
  proof (rule for_cpus_entry)
    fix c assume "c \<in> set [0..<?n]"
    then show "cancel_entry (entries s2 c) = Some (g3 c)"
      unfolding g3_def by (intro cancel_entry_eq [OF inv [of c]]) (simp_all add: s2_def l1_def s1_def lose_res_def)
  qed simp
  let ?H = "if probe_ok v \<and> offline_probe_ok v then {#Offline_probe#} else {#}"
  have kmem: "kmem v c = {#Kworks c, Koworks c#}" if "c < ?n" for c
    using assms(1) that by (simp add: all_ok_def kmem_def)
  have held3: "held s3 = probes v + (\<Sum>c\<leftarrow>[0..<?n]. kmem v c)"
    using g by (simp add: s3_def s2_def l1_def lose_res_def loaded_def discard_def)
  have t: "timer (entries s3 c) \<noteq> Armed" if "c < ?n" for c
    using inv [OF that] that assms(4) by (auto simp: s3_def g3_def s2_def l1_def s1_def lose_res_def entry_inv_def)
  show ?thesis
  proof (cases "probe_ok v \<or> ignored")
    case True
    define s4 where "s4 = s3\<lparr>held := ?H + (\<Sum>c\<leftarrow>[0..<?n]. kmem v c)\<rparr>"
    have exit: "kretprobe_exit ignored s3 = Some s4"
      using True held3 kmem_absent [of v "[0..<?n]"] by (auto simp: kretprobe_exit_def unregister_def probes_def s4_def)
    have "for_cpus [0..<?n] free_entry s4 = Some (s4\<lparr>held := ?H,
      entries := \<lambda>c. if c \<in> set [0..<?n] then (entries s4 c)\<lparr>kworks := None, koworks := None\<rparr> else entries s4 c\<rparr>)"
      by (rule for_cpus_free) (use kmem in \<open>auto simp: s4_def s3_def g3_def\<close>)
    with 1 2 3 exit True g t show ?thesis
      by (auto simp: proc_workqueue_unbound_test_remove_def quiet_def s4_def s3_def g3_def s2_def l1_def s1_def lose_res_def)
  next
    case False
    then have "kretprobe_exit ignored s3 = None"
      using held3 kmem_absent [of v "[0..<?n]"] by (auto simp: kretprobe_exit_def unregister_absent probes_def)
    with 1 2 3 g False show ?thesis by (simp add: proc_workqueue_unbound_test_remove_def)
  qed
qed

text \<open>
  C31. When every processor is online and every call but the two that register the probes succeeds while the module is loaded, it runs
  safely: whatever timers, works, threads, processors going down and coming up, and returns of the
  probed function follow, in any order, no step is undefined, and unloading is possible in
  every state that is reached, if the first probe was registered or the kernel ignores that it was not, and else in none. It leaves no armed
  timer, queued work, thread or memory; but the second probe stays planted.
\<close>

theorem unbound_runs_safely:
  assumes "all_ok v" and "set (online v) = {..<possible v}"
  shows "\<exists>s0. proc_workqueue_unbound_test_init v fresh = Some (0, s0) \<and>
    (\<forall>s on. reaches (step (possible v)) (s0, {..<possible v}) (s, on) \<longrightarrow> \<not> step (possible v) (s, on) None \<and>
      (\<forall>cs. distinct cs \<and> set cs = on \<longrightarrow>
        (if probe_ok v \<or> ignored
         then \<exists>s'. proc_workqueue_unbound_test_remove ignored (possible v) cs s = Some s' \<and> quiet (possible v) s' \<and>
           held s' = (if probe_ok v \<and> offline_probe_ok v then {#Offline_probe#} else {#})
         else proc_workqueue_unbound_test_remove ignored (possible v) cs s = None)))"
proof -
  let ?n = "possible v"
  from unbound_load [of v] assms obtain s0 where
    s0: "proc_workqueue_unbound_test_init v fresh = Some (0, s0)" "held s0 = loaded v" "g_cpuhp_state s0 = setup_state v"
      "\<forall>c<?n. entries s0 c = entry_of v c" by (auto simp: all_ok_def)
  have start: "machine_inv ?n (loaded v) (setup_state v) (s0, {..<?n})"
    using s0 assms by (auto simp: machine_inv_def entry_of_def entry_inv_def ready_def all_ok_def)
  have c: "Cpuhp_state \<in># loaded v" using assms(1) by (simp add: loaded_def all_ok_def)
  have "\<not> step ?n (s, on) None \<and> (\<forall>cs. distinct cs \<and> set cs = on \<longrightarrow>
      (if probe_ok v \<or> ignored
       then \<exists>s'. proc_workqueue_unbound_test_remove ignored ?n cs s = Some s' \<and> quiet ?n s' \<and>
         held s' = (if probe_ok v \<and> offline_probe_ok v then {#Offline_probe#} else {#})
       else proc_workqueue_unbound_test_remove ignored ?n cs s = None))"
    if "reaches (step ?n) (s0, {..<?n}) (s, on)" for s on
  proof -
    note inv = machine_reached [OF that start c]
    with machine_step [OF _ inv c] unbound_unload [OF assms(1) inv, of _ ignored] show ?thesis by blast
  qed
  with s0(1) show ?thesis by blast
qed

definition two_cpus :: env where
  "two_cpus = \<lparr>possible = 2, online = [0, 1], kworks_ok = \<lambda>_. True, koworks_ok = \<lambda>_. True, probe_ok = True,
     offline_probe_ok = True, setup_state = 180, thread_ok = \<lambda>_. True\<rparr>"

theorem unbound_runs_safely_witness:
  "\<exists>s0. proc_workqueue_unbound_test_init two_cpus fresh = Some (0, s0) \<and>
    (\<exists>s'. proc_workqueue_unbound_test_remove False 2 [1, 0] s0 = Some s' \<and> quiet 2 s' \<and> held s' = {#Offline_probe#})"
proof -
  have "all_ok two_cpus" "set (online two_cpus) = {..<possible two_cpus}"
    by (auto simp: all_ok_def sane_def two_cpus_def)
  from unbound_runs_safely [OF this, of False] obtain s0 where
    s0: "proc_workqueue_unbound_test_init two_cpus fresh = Some (0, s0)"
      "\<And>s on cs. reaches (step 2) (s0, {..<2}) (s, on) \<Longrightarrow> distinct cs \<Longrightarrow> set cs = on \<Longrightarrow>
        \<exists>s'. proc_workqueue_unbound_test_remove False 2 cs s = Some s' \<and> quiet 2 s' \<and> held s' = {#Offline_probe#}"
    by (auto simp: two_cpus_def)
  have "set [1, 0] = {..<2 :: nat}" by auto
  with s0(2) [OF reaches.start, of "[1, 0]"] s0(1) show ?thesis by simp
qed

lemma load_fails:
  assumes "sane v" and "c \<in> set (online v)" and "\<not> kworks_ok v c \<or> \<not> koworks_ok v c"
  shows "proc_workqueue_unbound_test_init v fresh = None"
proof -
  obtain s1 where 1: "for_cpus [0..<possible v] (alloc_entry v) fresh = Some s1"
    "kworks (entries s1 c) = raw (kworks_ok v c)" "koworks (entries s1 c) = raw (koworks_ok v c)"
    using assms(1,2) for_cpus_alloc [of "[0..<possible v]" v fresh] by (auto simp: sane_def)
  let ?s = "snd (kretprobe_init v s1)"
  have "entries ?s = entries s1" by (simp add: kretprobe_init_def take_res_def Let_def)
  with 1 assms(3) have "sched_test_work c (entries ?s c) = None"
    by (auto simp: sched_test_work_def raw_def split: Option.bind_splits)
  with assms(1,2) have "for_cpus (online v) (\<lambda>c. on_entry c (sched_test_work c)) ?s = None"
    by (intro for_cpus_fails) (auto simp: sane_def)
  with 1(1) show ?thesis by (simp add: proc_workqueue_unbound_test_init_def)
qed

text \<open>
  C32. What the load does not check: without the memory for the works of a processor that is online
  it follows a null pointer. If some processor is not online, its coming up later starts a timer
  that was never initialised. If a thread could not be created, or the hotplug state was refused,
  unloading is undefined.
\<close>

theorem unbound_unchecked_errors:
  assumes "sane v"
  shows "if \<exists>c\<in>set (online v). \<not> kworks_ok v c \<or> \<not> koworks_ok v c
    then proc_workqueue_unbound_test_init v fresh = None
    else \<exists>s0. proc_workqueue_unbound_test_init v fresh = Some (0, s0) \<and>
      (setup_state v \<ge> 0 \<and> set (online v) \<noteq> {..<possible v} \<longrightarrow> step (possible v) (s0, set (online v)) None) \<and>
      ((\<exists>c<possible v. \<not> thread_ok v c) \<or> setup_state v < - 1 \<longrightarrow>
        proc_workqueue_unbound_test_remove ignored (possible v) cs s0 = None)"
proof (cases "\<exists>c\<in>set (online v). \<not> kworks_ok v c \<or> \<not> koworks_ok v c")
  case False
  let ?n = "possible v"
  from unbound_load [OF assms] False obtain s0 where
    s0: "proc_workqueue_unbound_test_init v fresh = Some (0, s0)" "held s0 = loaded v" "g_cpuhp_state s0 = setup_state v"
      "\<forall>c<?n. entries s0 c = entry_of v c" by auto
  have "step ?n (s0, set (online v)) None" if "setup_state v \<ge> 0" "set (online v) \<noteq> {..<?n}"
  proof -
    from that(2) assms obtain c where c: "c < ?n" "c \<notin> set (online v)" by (auto simp: sane_def)
    with s0(4) have "on_entry c wq_test_cpu_online s0 = None" by (simp add: on_entry_def wq_test_cpu_online_def entry_of_def)
    moreover have "Cpuhp_state \<in># held s0" using that(1) s0(2) by (simp add: loaded_def)
    ultimately show ?thesis using step.up [OF c, of s0] by simp
  qed
  moreover have "proc_workqueue_unbound_test_remove ignored ?n cs s0 = None" if "c < ?n" "\<not> thread_ok v c" for c
  proof -
    have "kthread_stop (entries s0 c) = None" using that s0(4) by (simp add: entry_of_def kthread_stop_def)
    with that(1) have "for_cpus [0..<?n] (\<lambda>c. on_entry c kthread_stop) s0 = None" by (intro for_cpus_fails) auto
    then show ?thesis by (simp add: proc_workqueue_unbound_test_remove_def)
  qed
  moreover have "proc_workqueue_unbound_test_remove ignored ?n cs s0 = None" if "setup_state v < - 1" "\<forall>c<?n. thread_ok v c"
  proof -
    have "for_cpus [0..<?n] (\<lambda>c. on_entry c kthread_stop) s0 =
        Some (s0\<lparr>entries := \<lambda>c. if c \<in> set [0..<?n] then (entries s0 c)\<lparr>thread := Absent\<rparr> else entries s0 c\<rparr>)"
      by (rule for_cpus_entry) (use that(2) s0(4) in \<open>auto simp: entry_of_def kthread_stop_def\<close>)
    with that(1) s0(3) show ?thesis by (simp add: proc_workqueue_unbound_test_remove_def remove_state_def)
  qed
  ultimately show ?thesis using s0(1) False by auto
qed (use load_fails [OF assms] in auto)

theorem unbound_unchecked_errors_witness:
  "\<exists>s0. proc_workqueue_unbound_test_init (two_cpus\<lparr>online := [0], thread_ok := \<lambda>c. c = 0\<rparr>) fresh = Some (0, s0) \<and>
    step 2 (s0, {0}) None \<and> proc_workqueue_unbound_test_remove False 2 [0] s0 = None"
proof -
  let ?v = "two_cpus\<lparr>online := [0], thread_ok := \<lambda>c. c = 0\<rparr>"
  have "sane ?v" by (simp add: sane_def two_cpus_def)
  moreover have "{0} \<noteq> {..<2 :: nat}"
  proof
    assume eq: "{0} = {..<2 :: nat}"
    have "1 \<in> {..<2 :: nat}" by simp
    then show False unfolding eq [symmetric] by simp
  qed
  moreover have "\<exists>c<2 :: nat. c \<noteq> 0" by (intro exI [of _ 1]) simp
  moreover have sel: "set (online ?v) = {0}" "possible ?v = 2" "setup_state ?v = 180" "\<And>c. kworks_ok ?v c" "\<And>c. koworks_ok ?v c"
    "\<And>c. thread_ok ?v c = (c = 0)"
    by (simp_all add: two_cpus_def)
  ultimately show ?thesis using unbound_unchecked_errors [of ?v False "[0]"]
    unfolding sel by simp
qed

end
