(* ===== verification/CharDrv.thy ===== *)
theory CharDrv
  imports Kernel
begin

text \<open>
  The skeleton of a character device driver, \<open>kernel_module/char_drv/char_drv.c\<close>: loading with a
  static or a dynamic device number and with every failing kernel call, and unloading. Its open and
  release only note the device. The smallest module, \<open>hello\<close>, is here too.
\<close>

datatype res = Region nat nat | Dev_memory | Cdev

record chdrv =
  chdrv_major :: nat
  chdrv_minor :: nat
  chdrv_dev :: bool
  held :: "res multiset"

definition take_res :: "res \<Rightarrow> chdrv \<Rightarrow> chdrv" where
  "take_res r s = s\<lparr>held := acquire r (held s)\<rparr>"

definition lose_res :: "res \<Rightarrow> chdrv \<Rightarrow> chdrv" where
  "lose_res r s = s\<lparr>held := discard r (held s)\<rparr>"

record env =
  region_err :: "int option"
  major :: nat
  alloc_ok :: bool
  cdev_err :: "int option"

text \<open>
  The device number: a static one is registered; a dynamic one is allocated, and its major number
  noted, which is 0 when the allocation failed. The result is the number, a pair.
\<close>

definition get_devno :: "env \<Rightarrow> chdrv \<Rightarrow> int \<times> (nat \<times> nat) \<times> chdrv" where
  "get_devno e s =
     (if chdrv_major s \<noteq> 0 then
        let devno = (chdrv_major s, chdrv_minor s) in
        (case region_err e of Some r \<Rightarrow> (- r, devno, s) | None \<Rightarrow> (0, devno, take_res (Region (chdrv_major s) (chdrv_minor s)) s))
      else (case region_err e of
          Some r \<Rightarrow> (- r, (0, 0), s\<lparr>chdrv_major := 0\<rparr>)
        | None \<Rightarrow> (0, (major e, chdrv_minor s), (take_res (Region (major e) (chdrv_minor s)) s)\<lparr>chdrv_major := major e\<rparr>)))"

definition FAIL :: "int \<Rightarrow> nat \<times> nat \<Rightarrow> chdrv \<Rightarrow> int \<times> chdrv" where
  "FAIL ret devno s = (ret, lose_res (Region (fst devno) (snd devno)) s)"

definition char_drv_init :: "env \<Rightarrow> chdrv \<Rightarrow> int \<times> chdrv" where
  "char_drv_init e s = (case get_devno e s of (ret, devno, s) \<Rightarrow>
     if ret < 0 then (ret, s)
     else if \<not> alloc_ok e then FAIL (- ENOMEM) devno (s\<lparr>chdrv_dev := False\<rparr>)
     else let s = take_res Dev_memory (s\<lparr>chdrv_dev := True\<rparr>) in
       (0, if cdev_err e = None then take_res Cdev s else s))"

definition char_drv_exit :: "chdrv \<Rightarrow> chdrv option" where
  "char_drv_exit s = do {
     s \<leftarrow> (if chdrv_dev s then do {
         m \<leftarrow> release Dev_memory (held (lose_res Cdev s));
         Some (s\<lparr>held := m\<rparr>) }
       else Some s);
     Some (lose_res (Region (chdrv_major s) (chdrv_minor s)) s) }"

text \<open>Opening a file notes the device in it: the file's private data and the result.\<close>

definition chdrv_open :: "'dev \<Rightarrow> 'dev option \<Rightarrow> int \<times> 'dev option" where
  "chdrv_open i_cdev private_data = (0, Some i_cdev)"

definition chdrv_close :: "'dev option \<Rightarrow> int \<times> 'dev option" where
  "chdrv_close private_data = (0, private_data)"

text \<open>The smallest module, \<open>kernel_module/hello/hello.c\<close>, prints a line when it is loaded and one when it is unloaded.\<close>

definition hello_init :: "string list \<Rightarrow> int \<times> string list" where
  "hello_init log = (0, log @ [''Hello, world''])"

definition hello_exit :: "string list \<Rightarrow> string list" where
  "hello_exit log = log @ [''Goodbye, cruel world'']"

definition fresh :: "nat \<Rightarrow> nat \<Rightarrow> chdrv" where
  "fresh maj mnr = \<lparr>chdrv_major = maj, chdrv_minor = mnr, chdrv_dev = False, held = {#}\<rparr>"

text \<open>
  Loading the driver with a static or dynamic device number either fails with an error and keeps
  nothing, or returns 0, and then unloading gives everything back. That the device could not be added
  to the system is only printed: the load returns 0 all the same.
\<close>

theorem char_drv_lifecycle:
  assumes "\<forall>r. region_err e = Some r \<longrightarrow> 0 < r"
  shows "case char_drv_init e (fresh maj mnr) of (r, s) \<Rightarrow>
    if region_err e \<noteq> None \<or> \<not> alloc_ok e then r < 0 \<and> held s = {#}
    else r = 0 \<and> (Cdev \<in># held s \<longleftrightarrow> cdev_err e = None) \<and> (\<exists>s'. char_drv_exit s = Some s' \<and> held s' = {#})"
proof (cases "region_err e")
  case None
  then show ?thesis
    by (cases "maj = 0"; cases "cdev_err e")
      (simp_all add: char_drv_init_def get_devno_def FAIL_def char_drv_exit_def fresh_def take_res_def lose_res_def
        acquire_def release_def discard_def ENOMEM_def Let_def)
next
  case (Some r)
  with assms show ?thesis by (simp add: char_drv_init_def get_devno_def fresh_def)
qed

end
