(* ===== verification/Log.thy ===== *)
theory Log
  imports Prelude
begin

text \<open>
  The log service \<open>log/ipmitool_log.c\<close>: messages up to a level go to the standard error or, for a
  daemon, to the system log. What \<open>printf\<close> makes of a format and its arguments is the argument
  \<open>text\<close> of the printing functions; the outcomes of the allocations are parameters. \<open>None\<close> as a
  result is undefined behaviour: a null pointer is followed, or the level overflows.
\<close>

section \<open>State\<close>

definition LOG_NOTICE :: int where "LOG_NOTICE = 5"
definition LOG_NAME_DEFAULT :: string where "LOG_NAME_DEFAULT = ''log''"
definition LOG_MSG_LENGTH :: nat where "LOG_MSG_LENGTH = 1024"

record logpriv_s =
  lname :: "string option"
  daemon :: int
  level :: int

datatype out_line = Stderr string | Syslog int string | Openlog "string option" | Closelog

text \<open>The pointer \<open>logpriv\<close>, what was written so far, and the number of blocks that are allocated.\<close>

record log_st =
  logpriv :: "logpriv_s option"
  written :: "out_line list"
  blocks :: nat

definition emit :: "out_line \<Rightarrow> log_st \<Rightarrow> log_st" where
  "emit x s = s\<lparr>written := written s @ [x]\<rparr>"

section \<open>Operations\<close>

text \<open>\<open>ok\<close> and \<open>dup_ok\<close>: whether \<open>malloc\<close> and \<open>strdup\<close> succeed.\<close>

definition log_init :: "bool \<Rightarrow> bool \<Rightarrow> string option \<Rightarrow> int \<Rightarrow> int \<Rightarrow> log_st \<Rightarrow> log_st option" where
  "log_init ok dup_ok name isdaemon verbose s =
     (if logpriv s \<noteq> None \<or> \<not> ok then Some s
      else let s = s\<lparr>blocks := blocks s + (if dup_ok then 2 else 1)\<rparr>;
             nm = (if dup_ok then Some (case name of Some x \<Rightarrow> x | None \<Rightarrow> LOG_NAME_DEFAULT) else None);
             s = (if nm = None then emit (Stderr (''ipmitool: malloc failure'' @ [CHR 0x0A])) s else s)
        in do {
          l \<leftarrow> c_int (verbose + LOG_NOTICE);
          let s = s\<lparr>logpriv := Some \<lparr>lname = nm, daemon = isdaemon, level = l\<rparr>\<rparr>;
          Some (if isdaemon \<noteq> 0 then emit (Openlog nm) s else s) })"

definition log_reinit :: "bool \<Rightarrow> bool \<Rightarrow> log_st \<Rightarrow> log_st option" where
  "log_reinit ok dup_ok = log_init ok dup_ok None 0 0"

definition vsnprintf :: "string \<Rightarrow> string" where
  "vsnprintf text = take (LOG_MSG_LENGTH - 1) text"

definition lprintf :: "bool \<Rightarrow> bool \<Rightarrow> int \<Rightarrow> string \<Rightarrow> log_st \<Rightarrow> log_st option" where
  "lprintf ok dup_ok lev text s = do {
     s \<leftarrow> (if logpriv s = None then log_reinit ok dup_ok s else Some s);
     p \<leftarrow> logpriv s;
     Some (if level p < lev then s
       else if daemon p \<noteq> 0 then emit (Syslog lev (vsnprintf text)) s
       else emit (Stderr (vsnprintf text @ [CHR 0x0A])) s) }"

definition lperror :: "bool \<Rightarrow> bool \<Rightarrow> string \<Rightarrow> int \<Rightarrow> string \<Rightarrow> log_st \<Rightarrow> log_st option" where
  "lperror ok dup_ok strerror lev text s = do {
     s \<leftarrow> (if logpriv s = None then log_reinit ok dup_ok s else Some s);
     p \<leftarrow> logpriv s;
     Some (if level p < lev then s
       else if daemon p \<noteq> 0 then emit (Syslog lev (vsnprintf text @ '': '' @ strerror)) s
       else emit (Stderr (vsnprintf text @ '': '' @ strerror @ [CHR 0x0A])) s) }"

definition log_halt :: "log_st \<Rightarrow> log_st" where
  "log_halt s = (case logpriv s of
     None \<Rightarrow> s
   | Some p \<Rightarrow>
       let s = (if lname p \<noteq> None then s\<lparr>blocks := blocks s - 1\<rparr> else s);
           s = (if daemon p \<noteq> 0 then emit Closelog s else s)
       in s\<lparr>blocks := blocks s - 1, logpriv := None\<rparr>)"

definition log_level_get :: "log_st \<Rightarrow> int option" where
  "log_level_get s = map_option level (logpriv s)"

definition log_level_set :: "int \<Rightarrow> log_st \<Rightarrow> log_st option" where
  "log_level_set l s = map_option (\<lambda>p. s\<lparr>logpriv := Some (p\<lparr>level := l\<rparr>)\<rparr>) (logpriv s)"

section \<open>What a client sees\<close>

text \<open>
  The specification: whether the messages go to the system log, and the level up to which they are
  written, once the service is started. The first message starts it when nothing else did. Every call that may allocate
  comes with the outcomes of its \<open>malloc\<close> and of its \<open>strdup\<close>: without the first the service stays stopped, which a message that
  needs it does not survive; without the second it is started all the same, and says so on the standard error.
\<close>

datatype log_op = Init "string option" int int | Print int string | Perror string int string | Halt | Set_level int

type_synonym service = "(bool \<times> int) option"

definition message :: "bool \<times> int \<Rightarrow> int \<Rightarrow> string \<Rightarrow> out_line list" where
  "message a lev text = (if lev \<le> snd a then [if fst a then Syslog lev text else Stderr (text @ [CHR 0x0A])] else [])"

definition notice :: "bool \<Rightarrow> out_line list" where
  "notice dup_ok = (if dup_ok then [] else [Stderr (''ipmitool: malloc failure'' @ [CHR 0x0A])])"

definition running :: "bool \<times> bool \<Rightarrow> service \<Rightarrow> (out_line list \<times> bool \<times> int) option" where
  "running mem a = (case a of
     Some x \<Rightarrow> Some ([], x)
   | None \<Rightarrow> if fst mem then Some (notice (snd mem), False, LOG_NOTICE) else None)"

fun service_op :: "(bool \<times> bool) \<times> log_op \<Rightarrow> service \<Rightarrow> (out_line list \<times> service) option" where
  "service_op (mem, Init name d v) a =
     (if a \<noteq> None \<or> \<not> fst mem then Some ([], a)
      else if in_int (v + LOG_NOTICE) then Some (notice (snd mem), Some (d \<noteq> 0, v + LOG_NOTICE)) else None)"
| "service_op (mem, Print lev text) a = do { (xs, x) \<leftarrow> running mem a; Some (xs @ message x lev (take 1023 text), Some x) }"
| "service_op (mem, Perror err lev text) a = do {
     (xs, x) \<leftarrow> running mem a;
     Some (xs @ message x lev (take 1023 text @ '': '' @ err), Some x) }"
| "service_op (mem, Halt) a = Some ([], None)"
| "service_op (mem, Set_level l) a = map_option (\<lambda>x. ([], Some (fst x, l))) a"

fun service_run :: "((bool \<times> bool) \<times> log_op) list \<Rightarrow> service \<Rightarrow> (out_line list \<times> service) option" where
  "service_run [] a = Some ([], a)"
| "service_run (p # ps) a = do { (xs, a) \<leftarrow> service_op p a; (ys, a) \<leftarrow> service_run ps a; Some (xs @ ys, a) }"

text \<open>The code, with the same outcomes of the allocations.\<close>

fun log_op_run :: "(bool \<times> bool) \<times> log_op \<Rightarrow> log_st \<Rightarrow> log_st option" where
  "log_op_run (mem, Init name d v) s = log_init (fst mem) (snd mem) name d v s"
| "log_op_run (mem, Print lev text) s = lprintf (fst mem) (snd mem) lev text s"
| "log_op_run (mem, Perror err lev text) s = lperror (fst mem) (snd mem) err lev text s"
| "log_op_run (mem, Halt) s = Some (log_halt s)"
| "log_op_run (mem, Set_level l) s = log_level_set l s"

fun log_run :: "((bool \<times> bool) \<times> log_op) list \<Rightarrow> log_st \<Rightarrow> log_st option" where
  "log_run [] s = Some s"
| "log_run (p # ps) s = do { s \<leftarrow> log_op_run p s; log_run ps s }"

definition abs_log :: "log_st \<Rightarrow> service" where
  "abs_log s = map_option (\<lambda>p. (daemon p \<noteq> 0, level p)) (logpriv s)"

definition is_message :: "out_line \<Rightarrow> bool" where
  "is_message x = (case x of Stderr _ \<Rightarrow> True | Syslog _ _ \<Rightarrow> True | _ \<Rightarrow> False)"

definition messages :: "log_st \<Rightarrow> out_line list" where
  "messages s = filter is_message (written s)"

text \<open>The blocks that are allocated are those the service can still reach.\<close>

definition log_ok :: "log_st \<Rightarrow> bool" where
  "log_ok s \<longleftrightarrow> blocks s = (case logpriv s of None \<Rightarrow> 0 | Some p \<Rightarrow> if lname p = None then 1 else 2)"

definition shown :: "log_st \<Rightarrow> log_st option \<Rightarrow> (out_line list \<times> service) option \<Rightarrow> bool" where
  "shown s res spec \<longleftrightarrow> (case spec of
     None \<Rightarrow> res = None
   | Some (xs, a) \<Rightarrow> \<exists>s'. res = Some s' \<and> log_ok s' \<and> abs_log s' = a \<and> messages s' = messages s @ xs)"

lemmas log_simps = log_ok_def abs_log_def messages_def is_message_def shown_def

lemma emit_sel [simp]: "logpriv (emit x s) = logpriv s" "blocks (emit x s) = blocks s" "written (emit x s) = written s @ [x]"
  by (simp_all add: emit_def)

lemma init_shown:
  "log_ok s \<Longrightarrow> shown s (log_init m d name isd v s) (service_op ((m, d), Init name isd v) (abs_log s))"
  by (cases "logpriv s"; cases d) (simp_all add: log_simps log_init_def notice_def c_int_def Let_def split: option.split)

lemma halt_ok: "log_ok s \<Longrightarrow> log_ok (log_halt s)"
  by (cases "logpriv s") (auto simp: log_ok_def log_halt_def emit_def Let_def)

text \<open>A null pointer is followed when the service could not be started.\<close>

lemma lprintf_no_memory: "logpriv s = None \<Longrightarrow> lprintf False dup_ok lev text s = None"
  by (simp add: lprintf_def log_reinit_def log_init_def)

text \<open>The first step of both printing functions: the service is running, or was started, or could not be started.\<close>

lemma print_step:
  assumes "log_ok s"
  shows "case running (m, d) (abs_log s) of
      None \<Rightarrow> logpriv s = None \<and> (\<exists>s1. log_reinit m d s = Some s1 \<and> logpriv s1 = None)
    | Some (xs, x) \<Rightarrow> \<exists>s1 p. (if logpriv s = None then log_reinit m d s else Some s) = Some s1 \<and> logpriv s1 = Some p \<and>
        x = (daemon p \<noteq> 0, level p) \<and> log_ok s1 \<and> messages s1 = messages s @ xs"
proof (cases "logpriv s")
  case None
  have "in_int (0 + LOG_NOTICE)" by (simp add: LOG_NOTICE_def int_range)
  with None init_shown [OF assms, of m d None 0 0] show ?thesis
    by (cases m) (auto simp: running_def log_reinit_def shown_def abs_log_def log_init_def)
qed (use assms in \<open>simp add: running_def abs_log_def\<close>)

lemma emit_message:
  assumes "log_ok s" and "is_message x"
  shows "log_ok (emit x s) \<and> abs_log (emit x s) = abs_log s \<and> messages (emit x s) = messages s @ [x]"
  using assms by (simp add: log_ok_def abs_log_def messages_def)

lemma print_shown:
  assumes "log_ok s" and "running (m, d) (abs_log s) = None"
  shows "lprintf m d lev text s = None" and "lperror m d err lev text s = None"
  using print_step [OF assms(1), of m d] assms(2) by (auto simp: lprintf_def lperror_def)

lemma op_refines:
  assumes "log_ok s"
  shows "shown s (log_op_run (mem, p) s) (service_op (mem, p) (abs_log s))"
proof (cases p)
  case (Init name isd v)
  with init_shown [OF assms, of "fst mem" "snd mem"] show ?thesis by simp
next
  case (Print lev t)
  show ?thesis
  proof (cases "running mem (abs_log s)")
    case None
    with print_shown [OF assms, of "fst mem" "snd mem"] Print show ?thesis by (simp add: shown_def)
  next
    case (Some r)
    with print_step [OF assms, of "fst mem" "snd mem"] Print emit_message show ?thesis
      by (cases r) (auto simp: shown_def lprintf_def vsnprintf_def LOG_MSG_LENGTH_def message_def is_message_def abs_log_def)
  qed
next
  case (Perror err lev t)
  show ?thesis
  proof (cases "running mem (abs_log s)")
    case None
    with print_shown [OF assms, of "fst mem" "snd mem"] Perror show ?thesis by (simp add: shown_def)
  next
    case (Some r)
    with print_step [OF assms, of "fst mem" "snd mem"] Perror emit_message show ?thesis
      by (cases r) (auto simp: shown_def lperror_def vsnprintf_def LOG_MSG_LENGTH_def message_def is_message_def abs_log_def)
  qed
next
  case Halt
  with halt_ok [OF assms] show ?thesis
    by (cases "logpriv s") (auto simp: shown_def log_halt_def abs_log_def messages_def is_message_def Let_def)
next
  case (Set_level l)
  with assms show ?thesis by (cases "logpriv s") (auto simp: log_simps log_level_set_def)
qed

lemma run_refines: "log_ok s \<Longrightarrow> shown s (log_run ps s) (service_run ps (abs_log s))"
proof (induction ps arbitrary: s)
  case Nil
  then show ?case by (simp add: shown_def)
next
  case (Cons p ps)
  obtain mem c where p: "p = (mem, c)" by (cases p)
  note step = op_refines [OF Cons.prems, of mem c]
  show ?case
  proof (cases "service_op p (abs_log s)")
    case None
    with step show ?thesis by (simp add: p shown_def)
  next
    case (Some r)
    then obtain xs a where r: "service_op p (abs_log s) = Some (xs, a)" by (cases r) simp
    with step obtain s1 where
      s1: "log_op_run p s = Some s1" "log_ok s1" "abs_log s1 = a" "messages s1 = messages s @ xs" by (auto simp: p shown_def)
    from Cons.IH [OF s1(2)] r s1 show ?thesis by (cases "service_run ps a") (auto simp: shown_def)
  qed
qed

definition start_log :: log_st where
  "start_log = \<lparr>logpriv = None, written = [], blocks = 0\<rparr>"

text \<open>
  C33. The log service keeps its specification, for every sequence of calls and every outcome of every allocation in them. The code
  writes exactly the messages up to the level in force, cut to 1023 characters, to the place chosen when the service was
  started, and a line on the standard error when the name could not be copied; a message to a stopped service starts it anew with its defaults; and
  a stopped service has no memory left. A sequence is undefined in the code exactly when it is in the specification: it sends a message to a stopped
  service for which there is no memory, sets the level of a stopped service, or starts it with a verbosity that overflows.
\<close>

theorem log_refines:
  "map_option (\<lambda>s. (messages s, abs_log s)) (log_run ps start_log) = service_run ps None \<and>
    (\<forall>s. log_run ps start_log = Some s \<longrightarrow> abs_log s = None \<longrightarrow> blocks s = 0)"
proof -
  have "log_ok start_log" "abs_log start_log = None" "messages start_log = []"
    by (simp_all add: start_log_def log_ok_def abs_log_def messages_def)
  with run_refines [of start_log ps] show ?thesis
    by (cases "service_run ps None") (auto simp: shown_def log_ok_def abs_log_def)
qed

theorem log_refines_witness:
  "(\<exists>s. log_run (map (Pair (True, True)) [Print 6 ''one'', Print 5 ''two'', Set_level 7, Print 6 ''three'', Halt, Init None 1 0,
        Perror ''EIO'' 3 ''disk'', Halt]) start_log = Some s \<and>
      messages s = [Stderr (''two'' @ [CHR 0x0A]), Stderr (''three'' @ [CHR 0x0A]), Syslog 3 ''disk: EIO''] \<and> blocks s = 0) \<and>
    log_run [((False, True), Init None 1 0), ((True, False), Print 5 ''up''), ((True, True), Halt), ((False, False), Print 0 ''down'')]
      start_log = None"
proof -
  let ?ps = "map (Pair (True, True)) [Print 6 ''one'', Print 5 ''two'', Set_level 7, Print 6 ''three'', Halt, Init None 1 0,
      Perror ''EIO'' 3 ''disk'', Halt]"
  have "service_run ?ps None
    = Some ([Stderr (''two'' @ [CHR 0x0A]), Stderr (''three'' @ [CHR 0x0A]), Syslog 3 ''disk: EIO''], None)"
    by (simp add: message_def running_def notice_def LOG_NOTICE_def int_range)
  moreover have "service_run [((False, True), Init None 1 0), ((True, False), Print 5 ''up''), ((True, True), Halt),
      ((False, False), Print 0 ''down'')] None = None"
    by (simp add: message_def running_def)
  ultimately show ?thesis
    using log_refines [of ?ps] log_refines [of "[((False, True), Init None 1 0), ((True, False), Print 5 ''up''), ((True, True), Halt),
      ((False, False), Print 0 ''down'')]"] by (auto simp del: list.map)
qed

end
