(* ===== verification/TimerTest.thy ===== *)
theory TimerTest
  imports RetProbe
begin

text \<open>
  The module \<open>kernel_module/timer/timer-debugobject-test.c\<close>: reading its file in \<open>/proc\<close> queues a work
  on every processor, the works start a timer, and the timer sets itself again. Time is counted in
  ticks, \<open>now\<close>. Initialising a work while it is queued is undefined.
\<close>

section \<open>State\<close>

datatype res = Probe string | Proc_file
datatype work_st = Raw | Idle | Queued

record timer_mod =
  ktest_timer :: "nat option"
  timer_stop :: int
  works :: "nat \<Rightarrow> work_st"
  test_entry :: bool
  held :: "res multiset"

definition take_res :: "res \<Rightarrow> timer_mod \<Rightarrow> timer_mod" where
  "take_res r s = s\<lparr>held := acquire r (held s)\<rparr>"

section \<open>Handlers\<close>

definition timer_debugobject_workfn :: "nat \<Rightarrow> nat \<Rightarrow> timer_mod \<Rightarrow> timer_mod" where
  "timer_debugobject_workfn HZ now s = s\<lparr>ktest_timer := Some (now + 5 * HZ)\<rparr>"

text \<open>Reading the file, after its line of output: each online processor gets its work.\<close>

primrec timer_test_proc_show :: "nat list \<Rightarrow> timer_mod \<Rightarrow> timer_mod option" where
  "timer_test_proc_show [] s = Some s"
| "timer_test_proc_show (c # cs) s =
     (if works s c = Queued then None else timer_test_proc_show cs (s\<lparr>works := (works s)(c := Queued)\<rparr>))"

definition ktest_timer_func :: "nat \<Rightarrow> nat \<Rightarrow> timer_mod \<Rightarrow> timer_mod" where
  "ktest_timer_func HZ now s = (if timer_stop s = 0 then s\<lparr>ktest_timer := Some (now + 1 * HZ)\<rparr> else s)"

text \<open>The probe notes the time and delays; on return it reports the value and the duration.\<close>

definition entry_handler :: "int \<Rightarrow> nat \<Rightarrow> int \<times> nat" where
  "entry_handler now this_cpu = (now, this_cpu * 100)"

definition ret_handler :: "int \<Rightarrow> 64 word \<Rightarrow> int \<Rightarrow> 64 word \<times> int" where
  "ret_handler entry_stamp retval now = (retval, now - entry_stamp)"

section \<open>Loading and unloading\<close>

definition my_kretprobes :: "(nat, int) kretprobe list" where
  "my_kretprobes = [\<lparr>symbol_name = ''timer_is_static_object'', handler = ret_handler,
     entry_fn = \<lambda>cpu now. (Some (fst (entry_handler now cpu)), snd (entry_handler now cpu)), data_size = 8, maxactive = 512\<rparr>]"

interpretation static_object: return_probe "my_kretprobes ! 0" 0
  by unfold_locales (auto simp: my_kretprobes_def entry_handler_def ret_handler_def)

primrec register_probes :: "(string \<Rightarrow> bool) \<Rightarrow> string list \<Rightarrow> timer_mod \<Rightarrow> int \<times> timer_mod" where
  "register_probes ok [] s = (0, s)"
| "register_probes ok (p # ps) s = (if ok p then register_probes ok ps (take_res (Probe p) s) else (- 1, s))"

definition kretprobe_init :: "(string \<Rightarrow> bool) \<Rightarrow> timer_mod \<Rightarrow> int \<times> timer_mod" where
  "kretprobe_init ok s = register_probes ok (map symbol_name my_kretprobes) s"

text \<open>Every probe is unregistered, whatever became of it; \<open>ignored\<close> is whether the kernel ignores one that was never registered.\<close>

primrec unregister_probes :: "bool \<Rightarrow> string list \<Rightarrow> timer_mod \<Rightarrow> timer_mod option" where
  "unregister_probes ignored [] s = Some s"
| "unregister_probes ignored (p # ps) s = do {
     m \<leftarrow> unregister ignored (Probe p) (held s);
     unregister_probes ignored ps (s\<lparr>held := m\<rparr>) }"

definition kretprobe_exit :: "bool \<Rightarrow> timer_mod \<Rightarrow> timer_mod option" where
  "kretprobe_exit ignored s = unregister_probes ignored (rev (map symbol_name my_kretprobes)) s"

definition timer_debugobject_init :: "(string \<Rightarrow> bool) \<Rightarrow> bool \<Rightarrow> timer_mod \<Rightarrow> int \<times> timer_mod" where
  "timer_debugobject_init probe_ok proc_ok s =
     (let s = snd (kretprobe_init probe_ok s) in
      (0, if proc_ok then take_res Proc_file (s\<lparr>test_entry := True\<rparr>) else s\<lparr>test_entry := False\<rparr>))"

text \<open>\<open>timer_stop\<close> is set to 0, its value from the start; the timer is deleted, the works are left alone.\<close>

definition timer_debugobject_fini :: "bool \<Rightarrow> timer_mod \<Rightarrow> timer_mod option" where
  "timer_debugobject_fini ignored s = do {
     m \<leftarrow> (if test_entry s then release Proc_file (held s) else Some (held s));
     kretprobe_exit ignored (s\<lparr>held := m, test_entry := False, timer_stop := 0, ktest_timer := None\<rparr>) }"

section \<open>The module at work\<close>

text \<open>A reader of the file, a work that runs, and the timer going off, which is no longer pending when its function runs.\<close>

inductive step :: "nat \<Rightarrow> timer_mod \<Rightarrow> timer_mod option \<Rightarrow> bool" for HZ where
  read: "test_entry s \<Longrightarrow> step HZ s (timer_test_proc_show cpus s)"
| work: "works s c = Queued \<Longrightarrow> step HZ s (Some (timer_debugobject_workfn HZ now (s\<lparr>works := (works s)(c := Idle)\<rparr>)))"
| fire: "ktest_timer s = Some t \<Longrightarrow> t \<le> now \<Longrightarrow> step HZ s (Some (ktest_timer_func HZ now (s\<lparr>ktest_timer := None\<rparr>)))"

definition fresh :: timer_mod where
  "fresh = \<lparr>ktest_timer = None, timer_stop = 0, works = \<lambda>_. Raw, test_entry = False, held = {#}\<rparr>"

lemma show_eq:
  "timer_test_proc_show cs s = Some s' \<Longrightarrow> s' = s\<lparr>works := \<lambda>c. if c \<in> set cs then Queued else works s c\<rparr> \<and>
    distinct cs \<and> (\<forall>c\<in>set cs. works s c \<noteq> Queued)"
proof (induction cs arbitrary: s)
  case (Cons c cs)
  then have ne: "works s c \<noteq> Queued" and "timer_test_proc_show cs (s\<lparr>works := (works s)(c := Queued)\<rparr>) = Some s'"
    by (auto split: if_splits)
  from Cons.IH [OF this(2)] ne show ?case by (auto intro!: arg_cong [of _ _ "\<lambda>w. s\<lparr>works := w\<rparr>"] split: if_splits)
qed simp

lemma show_queued: "c \<in> set cs \<Longrightarrow> works s c = Queued \<Longrightarrow> timer_test_proc_show cs s = None"
  by (induction cs arbitrary: s) auto

definition timer_inv :: "res multiset \<Rightarrow> bool \<Rightarrow> timer_mod \<Rightarrow> bool" where
  "timer_inv H p s \<longleftrightarrow> held s = H \<and> test_entry s = p \<and> timer_stop s = 0"

lemma timer_step:
  assumes "step HZ s (Some s')" and "timer_inv H p s"
  shows "timer_inv H p s' \<and> (ktest_timer s \<noteq> None \<longrightarrow> ktest_timer s' \<noteq> None)"
  using assms(1)
proof cases
  case (read cpus)
  with assms(2) show_eq [of cpus s s'] show ?thesis by (simp add: timer_inv_def)
qed (use assms(2) in \<open>auto simp: timer_inv_def timer_debugobject_workfn_def ktest_timer_func_def\<close>)

lemma timer_reached: "reaches (step HZ) x y \<Longrightarrow> timer_inv H p x \<Longrightarrow> timer_inv H p y"
  by (rule reaches_inv) (use timer_step in blast)+

text \<open>
  The timer module, in every state it reaches after a load with any outcome: a timer that was started stays
  pending, since nothing ever sets \<open>timer_stop\<close>; a second read of the file before the work of
  the first has run is undefined; unloading, if the probe was registered or the kernel ignores that it was not, deletes the timer and gives
  back the probe and the file; but it does not wait for the works: those that were queued are queued still.
\<close>

theorem timer_module_lifecycle:
  assumes "timer_debugobject_init probe_ok proc_ok fresh = (r, s0)" and "reaches (step HZ) s0 s"
  shows "r = 0 \<and> timer_stop s = 0 \<and>
    (\<forall>s'. step HZ s (Some s') \<longrightarrow> ktest_timer s \<noteq> None \<longrightarrow> ktest_timer s' \<noteq> None) \<and>
    (proc_ok \<and> works s c = Queued \<longrightarrow> step HZ s None) \<and>
    (if probe_ok ''timer_is_static_object'' \<or> ignored
     then \<exists>s'. timer_debugobject_fini ignored s = Some s' \<and> ktest_timer s' = None \<and> held s' = {#} \<and> works s' = works s
     else timer_debugobject_fini ignored s = None)"
proof -
  let ?H = "(if probe_ok ''timer_is_static_object'' then {#Probe ''timer_is_static_object''#} else {#}) +
    (if proc_ok then {#Proc_file#} else {#})"
  have s0: "r = 0" "timer_inv ?H proc_ok s0"
    using assms(1) by (auto simp: timer_debugobject_init_def kretprobe_init_def my_kretprobes_def take_res_def acquire_def
        fresh_def timer_inv_def Let_def split: if_splits)
  note inv = timer_reached [OF assms(2) s0(2)]
  have "step HZ s None" if "proc_ok" "works s c = Queued"
    using step.read [of s HZ "[c]"] show_queued [of c "[c]" s] that inv by (simp add: timer_inv_def)
  moreover have "if probe_ok ''timer_is_static_object'' \<or> ignored
     then \<exists>s'. timer_debugobject_fini ignored s = Some s' \<and> ktest_timer s' = None \<and> held s' = {#} \<and> works s' = works s
     else timer_debugobject_fini ignored s = None"
    using inv by (auto simp: timer_inv_def timer_debugobject_fini_def kretprobe_exit_def my_kretprobes_def unregister_def release_def)
  ultimately show ?thesis using s0(1) inv timer_step [OF _ inv] by (auto simp: timer_inv_def)
qed

text \<open>One processor: the file is read, its work runs, the timer goes off, and the file is read again.\<close>

theorem timer_module_lifecycle_witness:
  "\<exists>s s'. reaches (step 100) (snd (timer_debugobject_init (\<lambda>_. True) True fresh)) s \<and> step 100 s None \<and>
    timer_debugobject_fini False s = Some s' \<and> works s' 0 = Queued"
proof -
  define s0 where "s0 = snd (timer_debugobject_init (\<lambda>_. True) True fresh)"
  have i: "timer_debugobject_init (\<lambda>_. True) True fresh = (0, s0)"
    by (simp add: s0_def timer_debugobject_init_def Let_def)
  have w: "test_entry s0" "works s0 = (\<lambda>_. Raw)"
    by (simp_all add: s0_def timer_debugobject_init_def kretprobe_init_def my_kretprobes_def take_res_def fresh_def Let_def)
  let ?s1 = "s0\<lparr>works := (works s0)(0 := Queued)\<rparr>"
  have "timer_test_proc_show [0] s0 = Some ?s1" using w(2) by simp
  with step.read [OF w(1), of 100 "[0]"] have r: "reaches (step 100) s0 ?s1" by (auto intro: reaches.intros)
  from timer_module_lifecycle [OF i r, of 0 False] r show ?thesis unfolding s0_def [symmetric] by auto
qed

end
