(* ===== verification/Rsa.thy ===== *)
theory Rsa
  imports CString Kernel
begin

text \<open>
  The programs \<open>openssl_demo/encrypt.c\<close>, \<open>decrypt.c\<close> and \<open>encrypt_decrypt.c\<close>: a text is encrypted with the
  private key and decrypted with the public one; the disabled half of the last makes a key pair. The functions of the library are parameters; keys are
  of any type. The length of the encrypted bytes is taken with \<open>strlen\<close>, so that the programs
  work if and only if there is no zero among them. \<open>None\<close> is undefined behaviour: a buffer is too
  small, or a string in it has no end.
\<close>

section \<open>The world of the programs\<close>

definition BUF_SIZE :: nat where "BUF_SIZE = 1024"
definition SSL_RSA_FILE :: string where "SSL_RSA_FILE = ''rk_rsa''"
definition SSL_RSA_PUB_FILE :: string where "SSL_RSA_PUB_FILE = ''rk_rsa.pub''"
definition RK_ERM_KEY_FILE :: string where "RK_ERM_KEY_FILE = ''rk_erm.key''"

text \<open>Reading a key from a text, and the two operations, which fail or hand out bytes.\<close>

record 'k lib =
  PEM_read_RSAPrivateKey :: "string \<Rightarrow> 'k option"
  PEM_read_RSA_PUBKEY :: "string \<Rightarrow> 'k option"
  RSA_private_encrypt :: "'k \<Rightarrow> string \<Rightarrow> string option"
  RSA_public_decrypt :: "'k \<Rightarrow> string \<Rightarrow> string option"

datatype res = File string | Key string

datatype out_line =
  Original nat string | Encrypted nat nat | Written nat | Read_in nat nat | Decrypted nat nat string | Usage | Failed string

record world =
  files :: "string \<Rightarrow> string option"
  held :: "res multiset"
  printed :: "out_line list"

definition say :: "out_line \<Rightarrow> world \<Rightarrow> world" where
  "say x w = w\<lparr>printed := printed w @ [x]\<rparr>"

definition take_res :: "res \<Rightarrow> world \<Rightarrow> world" where
  "take_res r w = w\<lparr>held := acquire r (held w)\<rparr>"

definition lose_res :: "res \<Rightarrow> world \<Rightarrow> world" where
  "lose_res r w = w\<lparr>held := discard r (held w)\<rparr>"

section \<open>The programs\<close>

text \<open>A zeroed buffer that is filled from its start, and the length of the string in it.\<close>

definition filled :: "string \<Rightarrow> string option" where
  "filled c = (if length c \<le> BUF_SIZE then Some (c @ replicate (BUF_SIZE - length c) (CHR 0x00)) else None)"

definition cstrlen :: "string \<Rightarrow> nat option" where
  "cstrlen xs = (if CHR 0x00 \<in> set xs then Some (length (cstr xs)) else None)"

definition create_rsa_from_file :: "'k lib \<Rightarrow> string \<Rightarrow> bool \<Rightarrow> world \<Rightarrow> 'k option \<times> world" where
  "create_rsa_from_file lib key_file is_public w = (case files w key_file of
     None \<Rightarrow> (None, say (Failed ''fopen'') w)
   | Some content \<Rightarrow>
       let w = take_res (File key_file) w;
           rsa = (if is_public then PEM_read_RSA_PUBKEY lib content else PEM_read_RSAPrivateKey lib content);
           w = (if rsa = None then say (Failed (if is_public then ''PEM_read_RSA_PUBKEY'' else ''PEM_read_RSAPrivateKey'')) w
             else take_res (Key key_file) w)
       in (rsa, lose_res (File key_file) w))"

text \<open>\<open>encrypt.c\<close>; \<open>wr_ok\<close>: whether the file of the result can be opened, which is not tested.\<close>

definition encrypt_main :: "'k lib \<Rightarrow> bool \<Rightarrow> string list \<Rightarrow> world \<Rightarrow> (int \<times> world) option" where
  "encrypt_main lib wr_ok argv w =
     (if length argv < 2 then Some (- 1, say Usage w)
      else let str = argv ! 1; w = say (Original (length str) str) w in
        (case create_rsa_from_file lib SSL_RSA_FILE False w of
           (None, w) \<Rightarrow> Some (- 1, say (Failed ''Get ssl rsa pub'') w)
         | (Some k, w) \<Rightarrow>
             (case RSA_private_encrypt lib k str of
                None \<Rightarrow> Some (0, lose_res (Key SSL_RSA_FILE) (say (Failed ''ERR'') w))
              | Some c \<Rightarrow> do {
                  str_en \<leftarrow> filled c;
                  n \<leftarrow> cstrlen str_en;
                  let w = say (Encrypted (length c) n) w;
                  if \<not> wr_ok then None
                  else let w = w\<lparr>files := (files w)(RK_ERM_KEY_FILE \<mapsto> take n str_en)\<rparr>
                    in Some (0, lose_res (Key SSL_RSA_FILE) (say (Written n) w)) })))"

text \<open>\<open>decrypt.c\<close>; a text of the size of the buffer or longer fills it.\<close>

definition decrypt_main :: "'k lib \<Rightarrow> string list \<Rightarrow> world \<Rightarrow> (int \<times> world) option" where
  "decrypt_main lib argv w =
     (if length argv < 2 then Some (- 1, say Usage w)
      else let enc_file = argv ! 1 in
        (case files w enc_file of
           None \<Rightarrow> Some (0, say (Failed ''fopen'') w)
         | Some content \<Rightarrow> do {
             let w = take_res (File enc_file) w;
             str_en \<leftarrow> filled (take BUF_SIZE content);
             n \<leftarrow> cstrlen str_en;
             let w = say (Read_in (if length content < BUF_SIZE then 0 else 1) n) w;
             (case create_rsa_from_file lib SSL_RSA_PUB_FILE True w of
                (None, w) \<Rightarrow> Some (0, lose_res (File enc_file) (say (Failed ''Get key'') w))
              | (Some k, w) \<Rightarrow> do {
                  w \<leftarrow> (case RSA_public_decrypt lib k (take n str_en) of
                     None \<Rightarrow> Some (say (Failed ''ERR'') w)
                   | Some d \<Rightarrow> do {
                       str_de \<leftarrow> filled d;
                       m \<leftarrow> cstrlen str_de;
                       Some (say (Decrypted (length d) m (take m str_de)) w) });
                  Some (0, lose_res (File enc_file) (lose_res (Key SSL_RSA_PUB_FILE) w)) }) }))"

text \<open>\<open>encrypt_decrypt.c\<close>, on the text \<open>hello world\<close>. When only one key can be read, the other is not freed.\<close>

definition both_main :: "'k lib \<Rightarrow> world \<Rightarrow> (int \<times> world) option" where
  "both_main lib w =
     (let (rsa_priv, w) = create_rsa_from_file lib ''test.key'' False w;
          (rsa_pub, w) = create_rsa_from_file lib ''test_pub.key'' True w;
          free = (\<lambda>w. lose_res (Key ''test_pub.key'') (lose_res (Key ''test.key'') w)); str = ''hello world''
      in case (rsa_priv, rsa_pub) of
           (Some k, Some p) \<Rightarrow>
             let w = say (Original (length str) str) w in
             (case RSA_private_encrypt lib k str of
                None \<Rightarrow> Some (0, free (say (Failed ''ERR'') w))
              | Some c \<Rightarrow> do {
                  str_en \<leftarrow> filled c;
                  n \<leftarrow> cstrlen str_en;
                  let w = say (Encrypted (length c) n) w;
                  (case RSA_public_decrypt lib p (take n str_en) of
                     None \<Rightarrow> Some (0, free (say (Failed ''ERR'') w))
                   | Some d \<Rightarrow> do {
                       str_de \<leftarrow> filled d;
                       m \<leftarrow> cstrlen str_de;
                       Some (0, free (say (Decrypted (length d) m (take m str_de)) w)) }) })
         | _ \<Rightarrow> Some (- 1, say (Failed ''Get key'') w))"

section \<open>The buffer\<close>

lemma filled_string:
  assumes "length c < BUF_SIZE"
  shows "\<exists>b. filled c = Some b \<and> cstrlen b = Some (length (cstr c)) \<and> take (length (cstr c)) b = cstr c"
proof -
  let ?b = "c @ replicate (BUF_SIZE - length c) (CHR 0x00)"
  have z: "CHR 0x00 \<in> set ?b" using assms by simp
  have c: "cstr ?b = cstr c"
    using assms by (cases "CHR 0x00 \<in> set c") (auto simp: cstr_def takeWhile_append takeWhile_replicate intro: takeWhile_eq_all_conv [THEN iffD2, symmetric])
  have "length (cstr c) \<le> length c" by (simp add: cstr_def length_takeWhile_le)
  then have "take (length (cstr c)) ?b = take (length (cstr c)) c" by simp
  also have "\<dots> = cstr c" by (simp add: cstr_def flip: takeWhile_eq_take)
  finally have p: "take (length (cstr c)) ?b = cstr c" .
  from assms z c p show ?thesis by (simp add: filled_def cstrlen_def)
qed

section \<open>Encrypting and decrypting\<close>

lemma create_ok:
  assumes "files w f = Some t" and "(if pub then PEM_read_RSA_PUBKEY lib t else PEM_read_RSAPrivateKey lib t) = Some k"
  shows "create_rsa_from_file lib f pub w = (Some k, take_res (Key f) w)"
  using assms by (simp add: create_rsa_from_file_def take_res_def lose_res_def acquire_def discard_def add_mset_commute)

lemma world_sel [simp]:
  "files (say x w) = files w" "files (take_res r w) = files w" "files (lose_res r w) = files w"
  "held (say x w) = held w" "held (take_res r w) = add_mset r (held w)" "held (lose_res r w) = held w - {#r#}"
  "printed (say x w) = printed w @ [x]" "printed (take_res r w) = printed w" "printed (lose_res r w) = printed w"
  by (simp_all add: say_def take_res_def lose_res_def acquire_def discard_def)

lemma encrypt_eq:
  assumes "files w SSL_RSA_FILE = Some t" and "PEM_read_RSAPrivateKey lib t = Some k"
    and "RSA_private_encrypt lib k m = Some c" and "length c < BUF_SIZE"
  shows "\<exists>w'. encrypt_main lib True [a, m] w = Some (0, w') \<and> files w' = (files w)(RK_ERM_KEY_FILE \<mapsto> cstr c) \<and> held w' = held w"
proof -
  from filled_string [OF assms(4)] obtain b where
    b: "filled c = Some b" "cstrlen b = Some (length (cstr c))" "take (length (cstr c)) b = cstr c" by blast
  have "create_rsa_from_file lib SSL_RSA_FILE False (say x w) = (Some k, take_res (Key SSL_RSA_FILE) (say x w))" for x
    by (rule create_ok) (use assms in auto)
  with b assms(3) show ?thesis by (simp add: encrypt_main_def)
qed

definition shown :: "'k lib \<Rightarrow> 'k \<Rightarrow> string \<Rightarrow> out_line" where
  "shown lib p c = (case RSA_public_decrypt lib p c of
     None \<Rightarrow> Failed ''ERR'' | Some d \<Rightarrow> Decrypted (length d) (length (cstr d)) (cstr d))"

lemma decrypt_eq:
  assumes "files w f = Some c" and "length c < BUF_SIZE"
    and "files w SSL_RSA_PUB_FILE = Some t" and "PEM_read_RSA_PUBKEY lib t = Some p"
    and "\<forall>c d. RSA_public_decrypt lib p c = Some d \<longrightarrow> length d < BUF_SIZE"
  shows "\<exists>w'. decrypt_main lib [a, f] w = Some (0, w') \<and> held w' = held w \<and> last (printed w') = shown lib p (cstr c)"
proof -
  from filled_string [OF assms(2)] obtain b where
    b: "filled c = Some b" "cstrlen b = Some (length (cstr c))" "take (length (cstr c)) b = cstr c" by blast
  let ?w = "say (Read_in 0 (length (cstr c))) (take_res (File f) w)"
  have k: "create_rsa_from_file lib SSL_RSA_PUB_FILE True ?w = (Some p, take_res (Key SSL_RSA_PUB_FILE) ?w)"
    by (rule create_ok) (use assms in auto)
  show ?thesis
  proof (cases "RSA_public_decrypt lib p (cstr c)")
    case None
    with b k assms(1,2) show ?thesis by (simp add: decrypt_main_def shown_def)
  next
    case (Some d)
    with assms(5) have "length d < BUF_SIZE" by blast
    from filled_string [OF this] obtain e where
      "filled d = Some e" "cstrlen e = Some (length (cstr d))" "take (length (cstr d)) e = cstr d" by blast
    with b k Some assms(1,2) show ?thesis by (simp add: decrypt_main_def shown_def)
  qed
qed

text \<open>
  C34. A text is encrypted by one program and decrypted by the other, with a pair of keys the library can
  read and whose operations are inverse to each other. If there is no zero byte in the encrypted text,
  the original is printed. If there is one, the file holds the encrypted text only up to it, and what is
  printed is whatever the library makes of that part. Both return 0 and free all keys and files.
\<close>

theorem rsa_roundtrip:
  assumes "files w SSL_RSA_FILE = Some sk" and "PEM_read_RSAPrivateKey lib sk = Some k"
    and "files w SSL_RSA_PUB_FILE = Some pk" and "PEM_read_RSA_PUBKEY lib pk = Some p"
    and inverse: "\<forall>m c. RSA_private_encrypt lib k m = Some c \<longrightarrow> RSA_public_decrypt lib p c = Some m"
    and short: "\<forall>c d. RSA_public_decrypt lib p c = Some d \<longrightarrow> length d < BUF_SIZE"
    and "RSA_private_encrypt lib k m = Some c" and "length c < BUF_SIZE" and "CHR 0x00 \<notin> set m"
  shows "\<exists>w1 w2. encrypt_main lib True [a, m] w = Some (0, w1) \<and> files w1 RK_ERM_KEY_FILE = Some (cstr c) \<and>
    decrypt_main lib [b, RK_ERM_KEY_FILE] w1 = Some (0, w2) \<and> held w2 = held w \<and>
    last (printed w2) = (if CHR 0x00 \<notin> set c then Decrypted (length m) (length m) m else shown lib p (cstr c))"
proof -
  from encrypt_eq [OF assms(1,2,7,8)] obtain w1 where
    w1: "encrypt_main lib True [a, m] w = Some (0, w1)" "files w1 = (files w)(RK_ERM_KEY_FILE \<mapsto> cstr c)" "held w1 = held w" by blast
  have l: "length (cstr c) < BUF_SIZE" using assms(8) length_takeWhile_le [of _ c] by (auto simp: cstr_def intro: le_less_trans)
  have f: "files w1 RK_ERM_KEY_FILE = Some (cstr c)" "files w1 SSL_RSA_PUB_FILE = Some pk"
    using w1(2) assms(3) by (simp_all add: RK_ERM_KEY_FILE_def SSL_RSA_PUB_FILE_def)
  have "cstr (cstr c) = cstr c" by (simp add: cstr_def takeWhile_idem)
  with decrypt_eq [OF f(1) l f(2) assms(4) short, of b] obtain w2 where
    w2: "decrypt_main lib [b, RK_ERM_KEY_FILE] w1 = Some (0, w2)" "held w2 = held w1" "last (printed w2) = shown lib p (cstr c)" by auto
  have "shown lib p (cstr c) = Decrypted (length m) (length m) m" if "CHR 0x00 \<notin> set c"
    using inverse assms(7) that assms(9) by (simp add: shown_def cstr_id)
  with w1 w2 f(1) show ?thesis by auto
qed

text \<open>A library whose encryption turns the text round.\<close>

definition toy_lib :: "unit lib" where
  "toy_lib = \<lparr>PEM_read_RSAPrivateKey = \<lambda>t. if t = ''secret'' then Some () else None,
     PEM_read_RSA_PUBKEY = \<lambda>t. if t = ''public'' then Some () else None,
     RSA_private_encrypt = \<lambda>k m. if length m < 100 then Some (rev m) else None,
     RSA_public_decrypt = \<lambda>k c. if length c < 100 then Some (rev c) else None\<rparr>"

definition toy_world :: world where
  "toy_world = \<lparr>files = [''rk_rsa'' \<mapsto> ''secret'', ''rk_rsa.pub'' \<mapsto> ''public''], held = {#}, printed = []\<rparr>"

theorem rsa_roundtrip_witness:
  "\<exists>w1 w2. encrypt_main toy_lib True [''encrypt'', ''hi''] toy_world = Some (0, w1) \<and>
    decrypt_main toy_lib [''decrypt'', ''rk_erm.key''] w1 = Some (0, w2) \<and> held w2 = {#} \<and>
    last (printed w2) = Decrypted 2 2 ''hi''"
proof -
  have "\<exists>w1 w2. encrypt_main toy_lib True [''encrypt'', ''hi''] toy_world = Some (0, w1) \<and> files w1 RK_ERM_KEY_FILE = Some (cstr ''ih'') \<and>
    decrypt_main toy_lib [''decrypt'', RK_ERM_KEY_FILE] w1 = Some (0, w2) \<and> held w2 = held toy_world \<and>
    last (printed w2) = (if CHR 0x00 \<notin> set ''ih'' then Decrypted (length ''hi'') (length ''hi'') ''hi'' else shown toy_lib () (cstr ''ih''))"
    by (rule rsa_roundtrip [where sk = "''secret''" and pk = "''public''" and k = "()" and p = "()"])
      (auto simp: toy_lib_def toy_world_def SSL_RSA_FILE_def SSL_RSA_PUB_FILE_def BUF_SIZE_def split: if_splits)
  then show ?thesis by (auto simp: RK_ERM_KEY_FILE_def toy_world_def)
qed

section \<open>The program that is switched off\<close>

text \<open>
  The first half of \<open>encrypt_decrypt.c\<close>, which \<open>#if 0\<close> keeps out, makes a key pair and prints one half of it. The library
  gives a key and its two texts. A string that cannot be allocated is written to all the same, which is undefined. Nothing is ever
  freed: the number counts the keys, the memory buffers of the library and the strings that are left.
\<close>

definition KEY_LENGTH :: nat where "KEY_LENGTH = 2048"
definition PUB_EXP :: nat where "PUB_EXP = 3"

record 'k gen =
  RSA_generate_key :: "nat \<Rightarrow> nat \<Rightarrow> 'k"
  PEM_write_bio_RSAPublicKey :: "'k \<Rightarrow> string"
  PEM_write_bio_RSAPrivateKey :: "'k \<Rightarrow> string"

definition create_rsa :: "'k gen \<Rightarrow> bool \<Rightarrow> bool \<Rightarrow> (string \<times> nat \<times> string) list \<times> nat \<Rightarrow>
    (int \<times> (string \<times> nat \<times> string) list \<times> nat) option" where
  "create_rsa g malloc_ok is_public = (\<lambda>(lines, left).
     let keypair = RSA_generate_key g KEY_LENGTH PUB_EXP in
     if is_public then
       let keybio = PEM_write_bio_RSAPublicKey g keypair in
       if \<not> malloc_ok then None
       else let keystr = cstr (keybio @ [CHR 0x00]) in Some (0, lines @ [(''Public Key'', length keystr, keystr)], left + 3)
     else
       let keybio = PEM_write_bio_RSAPrivateKey g keypair in
       if \<not> malloc_ok then None
       else let keystr = cstr (keybio @ [CHR 0x00]) in Some (0, lines @ [(''Private Key'', length keystr, keystr)], left + 3))"

definition create_main :: "'k gen \<Rightarrow> bool \<Rightarrow> bool \<Rightarrow> (int \<times> (string \<times> nat \<times> string) list \<times> nat) option" where
  "create_main g malloc1 malloc2 = do {
     (_, s) \<leftarrow> create_rsa g malloc1 False ([], 0);
     (_, s) \<leftarrow> create_rsa g malloc2 True s;
     Some (0, s) }"

lemma create_main_prints:
  assumes "\<forall>k. CHR 0x00 \<notin> set (PEM_write_bio_RSAPublicKey g k) \<and> CHR 0x00 \<notin> set (PEM_write_bio_RSAPrivateKey g k)"
  shows "create_main g m1 m2 =
    (let k = RSA_generate_key g 2048 3; pr = PEM_write_bio_RSAPrivateKey g k; pu = PEM_write_bio_RSAPublicKey g k in
     if m1 \<and> m2 then Some (0, [(''Private Key'', length pr, pr), (''Public Key'', length pu, pu)], 6) else None)"
  using assms by (simp add: create_main_def create_rsa_def KEY_LENGTH_def PUB_EXP_def Let_def cstr_append) (simp add: cstr_def)

end
