(* ===== verification/UdpEcho.thy ===== *)
theory UdpEcho
  imports CString
begin

text \<open>
  The programs of \<open>socket/udp\<close>: a client that sends the lines of its input to a server, which
  sends each back, until one of the lines says to stop. The outcomes of the system calls are
  parameters; a datagram is a string of characters. \<open>None\<close> as a result is undefined behaviour (a string without an
  end is printed) or a loop that does not end. Also here are the two programs of \<open>socket/tcp\<close> named \<open>server_select.c\<close> and
  \<open>server_epoll.c\<close>, which are servers for datagrams that only print.
\<close>

section \<open>What both share\<close>

datatype out_line = Sent nat | Received int string | Failed string | Listening | Cycle nat string

text \<open>A zeroed buffer of \<open>n\<close> bytes that received a datagram, and the string in it, if it ends.\<close>

definition recv_buf :: "nat \<Rightarrow> string \<Rightarrow> string" where
  "recv_buf n d = take n d @ replicate (n - length d) (CHR 0x00)"

definition str_of :: "string \<Rightarrow> string option" where
  "str_of b = (if CHR 0x00 \<in> set b then Some (cstr b) else None)"

text \<open>The comparison of the first four characters; also the server compares only four, of \<open>quitall\<close> and \<open>exitall\<close>.\<close>

definition says_quit :: "string \<Rightarrow> bool" where
  "says_quit s \<longleftrightarrow> take 4 s = ''quit'' \<or> take 4 s = ''exit''"

section \<open>The client\<close>

definition CLIENT_BUF_SIZE :: nat where "CLIENT_BUF_SIZE = 64"

text \<open>What the network does with a datagram: nothing comes back, the call fails, or an answer.\<close>

datatype answer = Silence | Error | Datagram string

type_synonym 's network = "'s \<Rightarrow> string \<Rightarrow> answer \<times> 's"

text \<open>
  The loop of the client over its input; \<open>send_ok i\<close> says whether the \<open>i\<close>-th call of \<open>sendto\<close>
  succeeds. At the end of the input the buffer stays empty and the loop goes on.
\<close>

partial_function (option) client_loop ::
    "'s network \<Rightarrow> (nat \<Rightarrow> bool) \<Rightarrow> nat \<Rightarrow> string \<Rightarrow> 's \<Rightarrow> (out_line list \<times> 's) option" where
  "client_loop net send_ok i inp s =
     (let (send_buf, inp) = (case fgets CLIENT_BUF_SIZE inp of None \<Rightarrow> ([], inp) | Some x \<Rightarrow> x); d = cstr send_buf in
      if \<not> send_ok i then Some ([Failed ''send''], s)
      else if says_quit d then Some ([Sent (length d)], snd (net s d))
      else (case net s d of
          (Silence, s) \<Rightarrow> None
        | (Error, s) \<Rightarrow> Some ([Sent (length d), Failed ''recv''], s)
        | (Datagram r, s) \<Rightarrow> do {
            t \<leftarrow> str_of (recv_buf CLIENT_BUF_SIZE r);
            (outs, s) \<leftarrow> client_loop net send_ok (i + 1) inp s;
            Some (Sent (length d) # Received (int (min CLIENT_BUF_SIZE (length r))) t # outs, s) }))"

text \<open>\<open>main\<close>: the socket is closed at every exit behind its creation.\<close>

definition client_main :: "'s network \<Rightarrow> bool \<Rightarrow> (nat \<Rightarrow> bool) \<Rightarrow> string \<Rightarrow> 's \<Rightarrow> (int \<times> out_line list \<times> 's) option" where
  "client_main net socket_ok send_ok inp s =
     (if \<not> socket_ok then Some (- 1, [Failed ''socket''], s)
      else map_option (\<lambda>(outs, s). (0, outs, s)) (client_loop net send_ok 0 inp s))"

section \<open>The server\<close>

definition SERVER_BUF_SIZE :: nat where "SERVER_BUF_SIZE = 1024"

text \<open>One turn for what \<open>recvfrom\<close> delivers: the output, and whether the loop goes on, with the answer that is sent.\<close>

datatype turn = Next "string option" | Stop

definition server_turn :: "bool \<Rightarrow> string option \<Rightarrow> (out_line list \<times> turn) option" where
  "server_turn send_ok d = (case d of
     None \<Rightarrow> Some ([Failed ''recv''], Next None)
   | Some d \<Rightarrow> do {
       s \<leftarrow> str_of (recv_buf SERVER_BUF_SIZE d);
       let o1 = Received (int (min SERVER_BUF_SIZE (length d))) s;
       Some (if says_quit s then ([o1], Stop)
         else if \<not> send_ok then ([o1, Failed ''send''], Stop)
         else ([o1, Sent (length s)], Next (Some s))) })"

fun server_loop :: "(bool \<times> string option) list \<Rightarrow> (out_line list \<times> bool) option" where
  "server_loop [] = Some ([], True)"
| "server_loop ((send_ok, d) # ds) = do {
     (o1, t) \<leftarrow> server_turn send_ok d;
     (case t of Stop \<Rightarrow> Some (o1, False)
      | Next _ \<Rightarrow> do { (outs, runs) \<leftarrow> server_loop ds; Some (o1 @ outs, runs) }) }"

text \<open>
  Opening the socket: with a failing call the program ends with \<open>- 1\<close>; the result is the status and
  whether the socket is still open. \<open>main\<close> runs while datagrams come in.
\<close>

record sock_env =
  socket_ok :: bool
  setsockopt_ok :: bool
  bind_ok :: bool

definition open_server :: "sock_env \<Rightarrow> (out_line list \<times> int \<times> bool)" where
  "open_server e =
     (if \<not> socket_ok e then ([Failed ''socket''], - 1, False)
      else if \<not> setsockopt_ok e then ([Failed ''setsockopt''], - 1, False)
      else if \<not> bind_ok e then ([Failed ''bind''], - 1, False)
      else ([Listening], 0, True))"

definition server_main :: "sock_env \<Rightarrow> (bool \<times> string option) list \<Rightarrow> (out_line list \<times> int \<times> bool) option" where
  "server_main e ds = (case open_server e of (o1, r, is_open) \<Rightarrow>
     if r < 0 then Some (o1, r, is_open)
     else do { (outs, runs) \<leftarrow> server_loop ds; Some (o1 @ outs, 0, runs) })"

section \<open>Servers that print\<close>

text \<open>\<open>server_select.c\<close> and \<open>server_epoll.c\<close>: the loop for what \<open>recv\<close> delivers, and the number of the cycle.\<close>

fun print_loop :: "nat \<Rightarrow> string option list \<Rightarrow> out_line list" where
  "print_loop cycle [] = []"
| "print_loop cycle (None # ds) = Failed ''recv'' # print_loop cycle ds"
| "print_loop cycle (Some d # ds) = Cycle cycle (take SERVER_BUF_SIZE d) # print_loop (cycle + 1) ds"

definition server_select_main :: "sock_env \<Rightarrow> string option list \<Rightarrow> out_line list \<times> int \<times> bool" where
  "server_select_main e ds = (case open_server e of (o1, r, is_open) \<Rightarrow>
     if r < 0 then (o1, r, is_open) else (o1 @ print_loop 0 ds, 0, True))"

definition server_epoll_main :: "sock_env \<Rightarrow> string option list \<Rightarrow> out_line list \<times> int \<times> bool" where
  "server_epoll_main e ds = (case open_server e of (o1, r, is_open) \<Rightarrow>
     if r < 0 then (o1, r, is_open) else (o1 @ print_loop 0 ds, 0, True))"

section \<open>Broadcasting\<close>

text \<open>
  \<open>broadcast.c\<close>: one byte is sent for every character of the input up to a \<open>q\<close>, counting up; the end of
  the input is no \<open>q\<close>, so the loop then goes on for ever. \<open>send_ok i\<close> is the outcome of the \<open>i\<close>-th call.
\<close>

fun broadcast_loop :: "(nat \<Rightarrow> bool) \<Rightarrow> nat \<Rightarrow> string \<Rightarrow> (int \<times> nat) list option" where
  "broadcast_loop send_ok i [] = None"
| "broadcast_loop send_ok i (c # cs) =
     (if c = CHR ''q'' then Some []
      else map_option ((#) (if send_ok i then 1 else - 1, i mod 256)) (broadcast_loop send_ok (i + 1) cs))"

text \<open>\<open>main\<close> of \<open>broadcast.c\<close>: the socket stays open when it cannot be made a broadcast socket.\<close>

definition broadcast_main :: "bool \<Rightarrow> bool \<Rightarrow> bool \<Rightarrow> (nat \<Rightarrow> bool) \<Rightarrow> string \<Rightarrow> (int \<times> (int \<times> nat) list \<times> bool) option" where
  "broadcast_main sock_ok opt_ok connect_ok send_ok inp =
     (if \<not> sock_ok then Some (- 1, [], False)
      else if \<not> opt_ok then Some (- 1, [], True)
      else if \<not> connect_ok then Some (- 1, [], False)
      else map_option (\<lambda>outs. (0, outs, False)) (broadcast_loop send_ok 0 inp))"

section \<open>A session\<close>

text \<open>The network that leads to the server: its state is whether the server runs, and what it printed.\<close>

definition server_net :: "(bool \<times> out_line list) network" where
  "server_net st d = (if \<not> fst st then (Silence, st)
     else (case server_turn True (Some d) of
         None \<Rightarrow> (Silence, st)
       | Some (outs, Stop) \<Rightarrow> (Silence, (False, snd st @ outs))
       | Some (outs, Next None) \<Rightarrow> (Silence, (True, snd st @ outs))
       | Some (outs, Next (Some r)) \<Rightarrow> (Datagram r, (True, snd st @ outs))))"

lemma str_of_recv:
  assumes "CHR 0x00 \<notin> set d" and "length d < n"
  shows "str_of (recv_buf n d) = Some d"
proof -
  have "CHR 0x00 \<in> set (recv_buf n d)" using assms(2) by (simp add: recv_buf_def)
  moreover have "recv_buf n d = d @ CHR 0x00 # replicate (n - length d - 1) (CHR 0x00)"
    using assms(2) by (simp add: recv_buf_def replicate_Suc [symmetric] Suc_diff_Suc del: replicate_Suc)
  then have "cstr (recv_buf n d) = d" using cstr_append [OF assms(1)] by (simp add: cstr_def)
  ultimately show ?thesis by (simp add: str_of_def)
qed

lemma server_echo:
  assumes "CHR 0x00 \<notin> set d" and "length d < SERVER_BUF_SIZE" and "\<not> says_quit d"
  shows "server_net (True, o0) d = (Datagram d, (True, o0 @ [Received (int (length d)) d, Sent (length d)]))"
  using str_of_recv [OF assms(1,2)] assms(2,3) by (simp add: server_net_def server_turn_def Let_def)

lemma server_quits:
  assumes "CHR 0x00 \<notin> set d" and "length d < SERVER_BUF_SIZE" and "says_quit d"
  shows "server_net (True, o0) d = (Silence, (False, o0 @ [Received (int (length d)) d]))"
  using str_of_recv [OF assms(1,2)] assms(2,3) by (simp add: server_net_def server_turn_def Let_def)

definition good_line :: "string \<Rightarrow> bool" where
  "good_line l \<longleftrightarrow> newline \<notin> set l \<and> CHR 0x00 \<notin> set l \<and> length l + 1 < CLIENT_BUF_SIZE"

lemma quit_line: "newline \<notin> set l \<Longrightarrow> says_quit (l @ [newline]) = says_quit l"
proof -
  assume n: "newline \<notin> set l"
  show ?thesis
  proof (cases "4 \<le> length l")
    case False
    then have "newline \<in> set (take 4 (l @ [newline]))" "length (take 4 l) < 4" by (simp_all add: take_Cons')
    then have "take 4 (l @ [newline]) \<noteq> ''quit''" "take 4 (l @ [newline]) \<noteq> ''exit''" "take 4 l \<noteq> ''quit''" "take 4 l \<noteq> ''exit''"
      by (auto simp del: take_append)
    then show ?thesis by (simp add: says_quit_def)
  qed (simp add: says_quit_def)
qed

abbreviation to_client :: "string \<Rightarrow> out_line list" where
  "to_client l \<equiv> [Sent (length l + 1), Received (int (length l + 1)) (l @ [newline])]"

abbreviation to_server :: "string \<Rightarrow> out_line list" where
  "to_server l \<equiv> [Received (int (length l + 1)) (l @ [newline]), Sent (length l + 1)]"

lemma client_turn:
  assumes "good_line l" and "\<not> says_quit l"
  shows "client_loop server_net (\<lambda>_. True) i (l @ newline # inp) (True, o0) =
    map_option (\<lambda>(outs, s). (to_client l @ outs, s))
      (client_loop server_net (\<lambda>_. True) (i + 1) inp (True, o0 @ to_server l))"
proof -
  have l: "fgets CLIENT_BUF_SIZE (l @ newline # inp) = Some (l @ [newline], inp)" "cstr (l @ [newline]) = l @ [newline]"
    "length (l @ [newline]) < CLIENT_BUF_SIZE"
    using assms(1) by (auto simp: good_line_def fgets_line intro: cstr_id)
  have s: "server_net (True, o0) (l @ [newline]) = (Datagram (l @ [newline]), (True, o0 @ to_server l))"
    using assms by (subst server_echo) (auto simp: good_line_def CLIENT_BUF_SIZE_def SERVER_BUF_SIZE_def quit_line)
  have r: "str_of (recv_buf CLIENT_BUF_SIZE (l @ [newline])) = Some (l @ [newline])"
    using assms(1) l(3) by (intro str_of_recv) (auto simp: good_line_def)
  have bind: "x \<bind> (\<lambda>(outs, s). Some (g outs, s)) = map_option (\<lambda>(outs, s). (g outs, s)) x"
    for x :: "(out_line list \<times> bool \<times> out_line list) option" and g :: "out_line list \<Rightarrow> out_line list"
    by (cases x) auto
  show ?thesis
    using assms l s r
    by (subst client_loop.simps) (auto simp: good_line_def quit_line Let_def min_def bind)
qed

lemma client_session:
  assumes "good_line q" and "says_quit q"
  shows "\<forall>l\<in>set ls. good_line l \<and> \<not> says_quit l \<Longrightarrow>
    client_loop server_net (\<lambda>_. True) i (concat (map (\<lambda>l. l @ [newline]) ls) @ q @ newline # rest) (True, o0) =
      Some (concat (map to_client ls) @ [Sent (length q + 1)],
        (False, o0 @ concat (map to_server ls) @ [Received (int (length q + 1)) (q @ [newline])]))"
proof (induction ls arbitrary: i o0)
  case Nil
  have l: "fgets CLIENT_BUF_SIZE (q @ newline # rest) = Some (q @ [newline], rest)" "cstr (q @ [newline]) = q @ [newline]"
    using assms(1) by (auto simp: good_line_def fgets_line intro: cstr_id)
  have s: "server_net (True, o0) (q @ [newline]) = (Silence, (False, o0 @ [Received (int (length q + 1)) (q @ [newline])]))"
    using assms by (subst server_quits) (auto simp: good_line_def CLIENT_BUF_SIZE_def SERVER_BUF_SIZE_def quit_line)
  from assms l s show ?case
    by (subst client_loop.simps) (simp add: good_line_def quit_line)
next
  case (Cons l ls)
  with client_turn [of l i "concat (map (\<lambda>l. l @ [newline]) ls) @ q @ newline # rest" o0] show ?case by simp
qed

text \<open>
  C35. A session of the client with the server: every line of at most 62 characters comes back as it was
  sent, in order, and both print it; the first line that begins with quit or exit ends the client with
  status 0, and it stops the server as well, although the server's own words for that are quitall and
  exitall.
\<close>

theorem udp_session:
  assumes "\<forall>l\<in>set ls. good_line l \<and> \<not> says_quit l" and "good_line q" and "says_quit q"
  shows "client_main server_net True (\<lambda>_. True) (concat (map (\<lambda>l. l @ [newline]) ls) @ q @ newline # rest) (True, [Listening]) =
    Some (0, concat (map (\<lambda>l. [Sent (length l + 1), Received (int (length l + 1)) (l @ [newline])]) ls) @ [Sent (length q + 1)],
      (False, Listening # concat (map (\<lambda>l. [Received (int (length l + 1)) (l @ [newline]), Sent (length l + 1)]) ls) @
        [Received (int (length q + 1)) (q @ [newline])]))"
  using client_session [OF assms(2,3,1)] by (simp add: client_main_def)

theorem udp_session_witness:
  "\<exists>st. client_main server_net True (\<lambda>_. True) (''hello'' @ [newline] @ ''quit'' @ [newline]) (True, [Listening]) =
    Some (0, [Sent 6, Received 6 (''hello'' @ [newline]), Sent 5], st) \<and> \<not> fst st"
proof -
  have "\<forall>l\<in>set [''hello'']. good_line l \<and> \<not> says_quit l" "good_line ''quit''" "says_quit ''quit''"
    by (simp_all add: good_line_def says_quit_def CLIENT_BUF_SIZE_def)
  from udp_session [OF this, of "[]"] show ?thesis by simp
qed

text \<open>At the end of its input the client sends empty datagrams for ever.\<close>

lemma client_eof_aux:
  assumes "client_loop net send_ok i inp s = Some y"
  shows "net = server_net \<longrightarrow> inp = [] \<longrightarrow> send_ok = (\<lambda>_. True) \<longrightarrow> \<not> fst s"
proof (rule client_loop.raw_induct [OF _ assms], intro impI, goal_cases)
  case (1 loop net send_ok i inp s y)
  have e: "server_net (True, o1) [] = (Datagram [], (True, o1 @ [Received 0 [], Sent 0]))" for o1
    using server_echo [of "[]" o1] by (simp add: SERVER_BUF_SIZE_def says_quit_def)
  show ?case
  proof
    assume "fst s"
    then obtain o1 where s: "s = (True, o1)" by (cases s) simp
    have "str_of (recv_buf CLIENT_BUF_SIZE []) = Some []" by (rule str_of_recv) (simp_all add: CLIENT_BUF_SIZE_def)
    with 1(2-) e [of o1] s obtain z where "loop server_net (\<lambda>_. True) (i + 1) [] (True, o1 @ [Received 0 [], Sent 0]) = Some z"
      by (auto simp: fgets_def cstr_def says_quit_def split: Option.bind_splits)
    from 1(1) [OF this] show False by simp
  qed
qed

lemma udp_client_eof_diverges: "client_loop server_net (\<lambda>_. True) i [] (True, o0) = None"
  using client_eof_aux [of server_net "\<lambda>_. True" i "[]" "(True, o0)"] by (cases "client_loop server_net (\<lambda>_. True) i [] (True, o0)") auto

end
