(* ===== verification/TcpEcho.thy ===== *)
theory TcpEcho
  imports UdpEcho
begin

text \<open>
  The client and the server of \<open>socket/tcp\<close> (\<open>client.c\<close>, \<open>server_blocked.c\<close>): the server serves one
  connection after the other and sends back what it receives. Its buffer is never cleared, so bytes of
  earlier messages, also those of other connections, stand behind a short message; the theorems say when
  that matters. What \<open>recv\<close> delivers and whether the calls succeed are parameters.
\<close>

section \<open>The server\<close>

datatype tcp_out = Waiting | Accepted | Io out_line | Terminated

text \<open>A message is written over the start of the buffer.\<close>

definition overlay :: "string \<Rightarrow> string \<Rightarrow> string" where
  "overlay r buf = r @ drop (length r) buf"

text \<open>
  The loop of one connection, over what \<open>recv\<close> delivers (nothing or an error ends it) and whether the answer can be sent: the
  output, the answers, and the buffer.
\<close>

fun conn_loop :: "string \<Rightarrow> (string option \<times> bool) list \<Rightarrow> (out_line list \<times> string list \<times> string) option" where
  "conn_loop buf [] = Some ([], [], buf)"
| "conn_loop buf ((d, send_ok) # ds) =
     (if d = None \<or> d = Some [] then Some ([Failed ''recv''], [], buf)
      else do {
        r \<leftarrow> d;
        let buf = overlay r buf;
        s \<leftarrow> str_of buf;
        let o1 = Received (int (length r)) s;
        if says_quit s then Some ([o1], [], buf)
        else if \<not> send_ok then Some ([o1, Failed ''send''], [], buf)
        else do {
          (outs, answers, buf) \<leftarrow> conn_loop buf ds;
          Some (o1 # Sent (length r) # outs, take (length r) (overlay r buf) # answers, buf) } })"

text \<open>The loop over the connections, \<open>None\<close> where \<open>accept\<close> fails.\<close>

fun accept_loop :: "string \<Rightarrow> (string option \<times> bool) list option list \<Rightarrow> (tcp_out list \<times> string list list \<times> string) option" where
  "accept_loop buf [] = Some ([Waiting], [], buf)"
| "accept_loop buf (None # cs) = do {
     (outs, answers, buf) \<leftarrow> accept_loop buf cs;
     Some (Waiting # Io (Failed ''accept'') # outs, answers, buf) }"
| "accept_loop buf (Some ds # cs) = do {
     (o1, a1, buf) \<leftarrow> conn_loop buf ds;
     (outs, answers, buf) \<leftarrow> accept_loop buf cs;
     Some ([Waiting, Accepted] @ map Io o1 @ [Terminated] @ outs, a1 # answers, buf) }"

definition zero_buf :: string where
  "zero_buf = replicate SERVER_BUF_SIZE (CHR 0x00)"

definition server_blocked_main :: "sock_env \<Rightarrow> bool \<Rightarrow> (string option \<times> bool) list option list \<Rightarrow>
    (tcp_out list \<times> string list list \<times> int \<times> bool) option" where
  "server_blocked_main e listen_ok cs = (case open_server e of (o1, r, is_open) \<Rightarrow>
     if r < 0 then Some (map Io o1, [], r, is_open)
     else if \<not> listen_ok then Some (map Io (o1 @ [Failed ''listen'']), [], - 1, False)
     else do { (outs, answers, _) \<leftarrow> accept_loop zero_buf cs; Some (map Io o1 @ outs, answers, 0, True) })"

section \<open>The client\<close>

text \<open>The buffer keeps the last line when the input has ended, which is then sent again and again.\<close>

partial_function (option) tcp_client_loop ::
    "'s network \<Rightarrow> (nat \<Rightarrow> bool) \<Rightarrow> nat \<Rightarrow> string \<Rightarrow> string \<Rightarrow> 's \<Rightarrow> (out_line list \<times> 's) option" where
  "tcp_client_loop net send_ok i send_buf inp s =
     (let (send_buf, inp) = (case fgets CLIENT_BUF_SIZE inp of None \<Rightarrow> (send_buf, inp) | Some x \<Rightarrow> x); d = cstr send_buf in
      if \<not> send_ok i then Some ([Failed ''send''], s)
      else if says_quit d then Some ([Sent (length d)], snd (net s d))
      else (case net s d of
          (Silence, s) \<Rightarrow> None
        | (Error, s) \<Rightarrow> Some ([Sent (length d), Failed ''recv''], s)
        | (Datagram r, s) \<Rightarrow> do {
            t \<leftarrow> str_of (recv_buf CLIENT_BUF_SIZE r);
            (outs, s) \<leftarrow> tcp_client_loop net send_ok (i + 1) send_buf inp s;
            Some (Sent (length d) # Received (int (min CLIENT_BUF_SIZE (length r))) t # outs, s) }))"

definition tcp_client_main :: "'s network \<Rightarrow> bool \<Rightarrow> bool \<Rightarrow> (nat \<Rightarrow> bool) \<Rightarrow> string \<Rightarrow> 's \<Rightarrow> (int \<times> out_line list \<times> 's) option" where
  "tcp_client_main net sock_ok connect_ok send_ok inp s =
     (if \<not> sock_ok then Some (- 1, [Failed ''socket''], s)
      else if \<not> connect_ok then Some (- 1, [Failed ''connect''], s)
      else map_option (\<lambda>(outs, s). (0, outs, s)) (tcp_client_loop net send_ok 0 [] inp s))"

section \<open>What the server answers\<close>

text \<open>The buffer always ends with a zero, when no message fills it.\<close>

definition buf_ok :: "string \<Rightarrow> bool" where
  "buf_ok b \<longleftrightarrow> length b = SERVER_BUF_SIZE \<and> last b = CHR 0x00"

lemma buf_ok_zero: "buf_ok zero_buf"
  by (simp add: buf_ok_def zero_buf_def SERVER_BUF_SIZE_def)

lemma buf_ok_overlay: "buf_ok b \<Longrightarrow> length r < SERVER_BUF_SIZE \<Longrightarrow> buf_ok (overlay r b)"
  by (auto simp: buf_ok_def overlay_def)

lemma buf_ok_str: "buf_ok b \<Longrightarrow> str_of b = Some (cstr b)"
proof -
  assume b: "buf_ok b"
  then have "b \<noteq> []" by (auto simp: buf_ok_def SERVER_BUF_SIZE_def)
  from last_in_set [OF this] b have "CHR 0x00 \<in> set b" by (simp add: buf_ok_def del: last_in_set)
  then show ?thesis by (simp add: str_of_def)
qed

lemma take_cstr: "CHR 0x00 \<notin> set w \<Longrightarrow> take (length w) (cstr x) = w \<longleftrightarrow> take (length w) x = w"
proof (induction w arbitrary: x)
  case (Cons a w)
  then show ?case by (cases x) (auto simp: cstr_def)
qed simp

lemma says_quit_cstr: "says_quit (cstr x) = says_quit x"
  using take_cstr [of "''quit''" x] take_cstr [of "''exit''" x] by (simp add: says_quit_def eval_nat_numeral)

lemma says_quit_prefix: "take 4 x = take 4 y \<Longrightarrow> says_quit x = says_quit y"
  by (simp add: says_quit_def)

text \<open>A message that is seen for what it is: at least four bytes, and not the whole buffer.\<close>

definition full_message :: "string \<Rightarrow> bool" where
  "full_message r \<longleftrightarrow> 4 \<le> length r \<and> length r < SERVER_BUF_SIZE"

lemma overlay_quit:
  assumes "full_message r"
  shows "says_quit (cstr (overlay r b)) = says_quit r"
  unfolding says_quit_cstr
  by (rule says_quit_prefix) (use assms in \<open>simp add: overlay_def full_message_def\<close>)

lemma conn_echoes:
  assumes "full_message q" and "says_quit q"
  shows "buf_ok b \<Longrightarrow> \<forall>r\<in>set rs. full_message r \<and> \<not> says_quit r \<Longrightarrow>
    \<exists>outs b'. conn_loop b (map (\<lambda>r. (Some r, True)) rs @ [(Some q, ok)]) = Some (outs, rs, b') \<and> buf_ok b' \<and> take (length q) b' = q"
proof (induction rs arbitrary: b)
  case Nil
  have "buf_ok (overlay q b)" using Nil(1) assms(1) by (intro buf_ok_overlay) (simp_all add: full_message_def)
  then show ?case
    using assms overlay_quit [OF assms(1), of b] buf_ok_str by (auto simp: full_message_def overlay_def Let_def)
next
  case (Cons r rs)
  then have r: "full_message r" "\<not> says_quit r" "r \<noteq> []" by (auto simp: full_message_def)
  have b: "buf_ok (overlay r b)" using Cons.prems(1) r(1) by (intro buf_ok_overlay) (simp_all add: full_message_def)
  from Cons.IH [OF b] Cons.prems(2) obtain outs b' where
    "conn_loop (overlay r b) (map (\<lambda>r. (Some r, True)) rs @ [(Some q, ok)]) = Some (outs, rs, b')" "buf_ok b'" "take (length q) b' = q" by auto
  with r b overlay_quit [OF r(1), of b] buf_ok_str show ?case by (simp add: overlay_def)
qed

text \<open>A short message is completed by what is left in the buffer.\<close>

lemma conn_stale:
  assumes "buf_ok b" and "take 4 b = q" and "says_quit q" and "0 < k" and "k < 4"
  shows "\<exists>outs b'. conn_loop b ((Some (take k q), ok) # ds) = Some (outs, [], b') \<and> buf_ok b' \<and> take 4 b' = q"
proof -
  have q: "length q = 4" using assms(2,3) by (auto simp: says_quit_def min_def split: if_splits)
  have "overlay (take k q) b = b"
    using assms(2,5) q append_take_drop_id [of k b] by (auto simp: overlay_def min_def)
  moreover have "says_quit (cstr b)" unfolding says_quit_cstr using assms(2,3) by (auto simp: says_quit_def)
  moreover have "take k q \<noteq> []" using q assms(4) by auto
  ultimately show ?thesis using assms(1,2) buf_ok_str [OF assms(1)] by simp
qed

text \<open>A connection: what is to be answered, and the message that ends it.\<close>

abbreviation conn_of :: "string list \<times> string \<Rightarrow> (string option \<times> bool) list option" where
  "conn_of c \<equiv> Some (map (\<lambda>r. (Some r, True)) (fst c) @ [(Some (snd c), True)])"

definition good_conn :: "string list \<times> string \<Rightarrow> bool" where
  "good_conn c \<longleftrightarrow> (\<forall>r\<in>set (fst c). full_message r \<and> \<not> says_quit r) \<and> full_message (snd c) \<and> says_quit (snd c)"

lemma accept_conn:
  assumes "good_conn c" and "buf_ok b"
  shows "\<exists>o1 b'. buf_ok b' \<and> take 4 b' = take 4 (snd c) \<and>
    accept_loop b (conn_of c # cs) = map_option (\<lambda>(outs, as, x). (o1 @ outs, fst c # as, x)) (accept_loop b' cs)"
proof -
  from assms conn_echoes [of "snd c" b "fst c" True] obtain o1 b' where
    c: "conn_loop b (map (\<lambda>r. (Some r, True)) (fst c) @ [(Some (snd c), True)]) = Some (o1, fst c, b')" "buf_ok b'"
      "take (length (snd c)) b' = snd c"
    by (auto simp: good_conn_def)
  have "take 4 b' = take 4 (take (length (snd c)) b')" using assms(1) by (simp add: good_conn_def full_message_def min_def)
  moreover have "accept_loop b (conn_of c # cs) =
      map_option (\<lambda>(outs, as, x). (([Waiting, Accepted] @ map Io o1 @ [Terminated]) @ outs, fst c # as, x)) (accept_loop b' cs)"
    using c(1) by (cases "accept_loop b' cs") auto
  ultimately show ?thesis using c(2,3) by metis
qed

lemma accept_conns:
  assumes "buf_ok b" and "\<forall>c\<in>set cs. good_conn c" and "good_conn c"
  shows "\<exists>o1 b'. buf_ok b' \<and> take 4 b' = take 4 (snd c) \<and> accept_loop b (map conn_of (cs @ [c]) @ ds) =
    map_option (\<lambda>(outs, as, x). (o1 @ outs, map fst (cs @ [c]) @ as, x)) (accept_loop b' ds)"
  using assms(1,2)
proof (induction cs arbitrary: b)
  case Nil
  from accept_conn [OF assms(3) Nil(1), of ds] show ?case by simp
next
  case (Cons d cs)
  then have d: "good_conn d" by simp
  from accept_conn [OF this Cons.prems(1)] obtain o1 b1 where
    1: "buf_ok b1" "accept_loop b (conn_of d # map conn_of (cs @ [c]) @ ds) =
      map_option (\<lambda>(outs, as, x). (o1 @ outs, fst d # as, x)) (accept_loop b1 (map conn_of (cs @ [c]) @ ds))" by blast
  from Cons.IH [OF 1(1)] Cons.prems(2) obtain o2 b2 where
    2: "buf_ok b2" "take 4 b2 = take 4 (snd c)" "accept_loop b1 (map conn_of (cs @ [c]) @ ds) =
      map_option (\<lambda>(outs, as, x). (o2 @ outs, map fst (cs @ [c]) @ as, x)) (accept_loop b2 ds)" by auto
  have "accept_loop b (map conn_of ((d # cs) @ [c]) @ ds) =
      map_option (\<lambda>(outs, as, x). ((o1 @ o2) @ outs, map fst ((d # cs) @ [c]) @ as, x)) (accept_loop b2 ds)"
    using 1(2) 2(3) by (cases "accept_loop b2 ds") auto
  with 2(1,2) show ?case by blast
qed

text \<open>
  C36. The blocking server sends back, connection by connection, every message of four bytes or more that
  fits its buffer, up to the one that says quit or exit, and goes on waiting. But it never clears the
  buffer: when a client then connects whose first message is only the one to three letters with which the
  last quit or exit began, the rest of that word is still in the buffer, and the server hangs up without an
  answer.
\<close>

theorem tcp_server_answers:
  assumes "\<forall>c\<in>set cs. good_conn c" and "good_conn c" and "0 < k" and "k < 4"
  defines "e \<equiv> \<lparr>socket_ok = True, setsockopt_ok = True, bind_ok = True\<rparr>"
  shows "(\<exists>outs. server_blocked_main e True (map conn_of (cs @ [c])) = Some (outs, map fst (cs @ [c]), 0, True)) \<and>
    (\<exists>outs. server_blocked_main e True (map conn_of (cs @ [c]) @ [Some ((Some (take k (snd c)), ok) # ds)]) =
      Some (outs, map fst (cs @ [c]) @ [[]], 0, True))"
proof -
  have main: "server_blocked_main e True xs = map_option (\<lambda>(outs, as, _). ([Io Listening] @ outs, as, 0, True)) (accept_loop zero_buf xs)" for xs
    by (cases "accept_loop zero_buf xs") (auto simp: server_blocked_main_def open_server_def e_def)
  from accept_conns [OF buf_ok_zero assms(1,2)] have
    "\<exists>o1 b'. buf_ok b' \<and> take 4 b' = take 4 (snd c) \<and> accept_loop zero_buf (map conn_of (cs @ [c]) @ xs) =
      map_option (\<lambda>(outs, as, x). (o1 @ outs, map fst (cs @ [c]) @ as, x)) (accept_loop b' xs)" for xs by blast
  then obtain b1 o1 b2 o2 where
    1: "accept_loop zero_buf (map conn_of (cs @ [c]) @ []) = map_option (\<lambda>(outs, as, x). (o1 @ outs, map fst (cs @ [c]) @ as, x)) (accept_loop b1 [])" and
    2: "buf_ok b2" "take 4 b2 = take 4 (snd c)" "accept_loop zero_buf (map conn_of (cs @ [c]) @ [Some ((Some (take k (snd c)), ok) # ds)]) =
      map_option (\<lambda>(outs, as, x). (o2 @ outs, map fst (cs @ [c]) @ as, x)) (accept_loop b2 [Some ((Some (take k (snd c)), ok) # ds)])" by meson
  have "says_quit (take 4 (snd c))" using assms(2) by (auto simp: good_conn_def says_quit_def)
  from conn_stale [OF 2(1,2) this assms(3,4), of ok ds] assms(4) obtain o3 b3 where
    "conn_loop b2 ((Some (take k (snd c)), ok) # ds) = Some (o3, [], b3)" by (auto simp: min_def simp del: conn_loop.simps)
  with 1 2(3) main show ?thesis by (simp del: conn_loop.simps)
qed

theorem tcp_server_answers_witness:
  "\<exists>outs. server_blocked_main \<lparr>socket_ok = True, setsockopt_ok = True, bind_ok = True\<rparr> True
      [conn_of ([''hello''], ''quit''), Some [(Some ''q'', True)]] = Some (outs, [[''hello''], []], 0, True)"
proof -
  have "\<forall>c\<in>set []. good_conn c" "good_conn ([''hello''], ''quit'')" "0 < (1::nat)" "(1::nat) < 4"
    by (simp_all add: good_conn_def full_message_def says_quit_def SERVER_BUF_SIZE_def)
  from tcp_server_answers [OF this, of True "[]"] show ?thesis by simp
qed

section \<open>The forking server\<close>

text \<open>
  \<open>server_fork.c\<close> does not compile: \<open>ret\<close>, \<open>pid\<close>, \<open>pids\<close>, \<open>pnum\<close> and \<open>i\<close> are used without a declaration. The model takes them for the integers that are meant, \<open>pnum\<close> starting at 0. One connection of the handler,
  over what \<open>recv\<close> delivers: the number of the cycle goes up twice for a message, once for an error.
\<close>

function handle_request :: "nat \<Rightarrow> string option list \<Rightarrow> out_line list" where
  "handle_request cycle ds =
     (if \<not> cycle < 3 then []
      else (case ds of
          [] \<Rightarrow> []
        | None # ds \<Rightarrow> Failed ''recv'' # handle_request (cycle + 1) ds
        | Some d # ds \<Rightarrow> Cycle (cycle + 1) (take SERVER_BUF_SIZE d) # handle_request (cycle + 2) ds))"
  by auto
termination
  by (relation "measure (\<lambda>(cycle, _). 3 - cycle)") auto

declare handle_request.simps [simp del]

text \<open>
  The loop of one process over the outcomes of \<open>accept\<close> and \<open>fork\<close>. What is compared after the \<open>fork\<close> is the result of an
  assignment: \<open>pid\<close> is 0 then, in both processes, which is neither true nor positive.
\<close>

datatype fork_out = Accept_error | Rejected | Fork_error | Handled "out_line list"

definition PROCESS_NUM_MAX :: nat where "PROCESS_NUM_MAX = 16"

record fork_state =
  pnum :: nat
  processes :: nat
  open_fds :: nat

definition fork_turn :: "bool \<times> bool \<Rightarrow> fork_state \<Rightarrow> fork_out \<times> fork_state" where
  "fork_turn ev s = (case ev of (accept_ok, fork_ok) \<Rightarrow>
     if \<not> accept_ok then (Accept_error, s)
     else if PROCESS_NUM_MAX \<le> pnum s then (Rejected, s)
     else
       let s = s\<lparr>open_fds := open_fds s + 1, processes := processes s + (if fork_ok then 1 else 0)\<rparr>;
           pid = (0::int) in
       if pid \<noteq> 0 then (Handled [], s) else if pid > 0 then (Rejected, s) else (Fork_error, s))"

fun fork_loop :: "(bool \<times> bool) list \<Rightarrow> fork_state \<Rightarrow> fork_out list \<times> fork_state" where
  "fork_loop [] s = ([], s)"
| "fork_loop (ev # evs) s =
     (case fork_turn ev s of (o1, s) \<Rightarrow> case fork_loop evs s of (outs, s) \<Rightarrow> (o1 # outs, s))"

definition fork_main :: "sock_env \<Rightarrow> bool \<Rightarrow> (bool \<times> bool) list \<Rightarrow> out_line list \<times> fork_out list \<times> int \<times> fork_state" where
  "fork_main e listen_ok evs =
     (let s = \<lparr>pnum = 0, processes = 1, open_fds = 0\<rparr> in
      case open_server e of (o1, r, is_open) \<Rightarrow>
        if r < 0 then (o1, [], r, s)
        else if \<not> listen_ok then (o1 @ [Failed ''listen''], [], - 1, s)
        else (case fork_loop evs s of (outs, s) \<Rightarrow> (o1, outs, 0, s)))"

text \<open>
  As it is written no request is ever handled: each accepted connection is reported as an error of
  \<open>fork\<close>, stays open, and leaves one more process that accepts connections. A handler would show at most two messages.
\<close>

lemma fork_loop_eq:
  "pnum s = 0 \<Longrightarrow> fork_loop evs s =
    (map (\<lambda>(a, _). if a then Fork_error else Accept_error) evs,
     s\<lparr>processes := processes s + length (filter (\<lambda>(a, f). a \<and> f) evs), open_fds := open_fds s + length (filter fst evs)\<rparr>)"
  by (induction evs arbitrary: s) (auto simp: fork_turn_def PROCESS_NUM_MAX_def Let_def)

lemma fork_never_handles:
  assumes "socket_ok e" and "setsockopt_ok e" and "bind_ok e"
  shows "fork_main e True evs = ([Listening], map (\<lambda>(a, _). if a then Fork_error else Accept_error) evs, 0,
    \<lparr>pnum = 0, processes = 1 + length (filter (\<lambda>(a, f). a \<and> f) evs), open_fds = length (filter fst evs)\<rparr>)"
  using assms by (simp add: fork_main_def open_server_def fork_loop_eq)

lemma handle_request_two:
  "handle_request 0 (Some a # Some b # ds) = [Cycle 1 (take SERVER_BUF_SIZE a), Cycle 3 (take SERVER_BUF_SIZE b)]"
  by (simp add: handle_request.simps)

end
