(* ===== verification/Sdei.thy ===== *)
theory Sdei
  imports Kernel
begin

text \<open>
  The test of software delegated exceptions, \<open>kernel_module/sdei/sdei-test.c\<close>: reading its file
  asks the firmware, for one processor after the other, to signal an event there, and waits for the handler.
  The firmware and the outcomes of the kernel's calls are parameters.
\<close>

section \<open>The contexts of the processors\<close>

type_synonym u32 = "32 word"
type_synonym u64 = "64 word"

text \<open>The completion counts how often it was completed and not waited for.\<close>

record cpu_info_ctx =
  complete :: nat
  mpidr :: u64
  cpu :: nat

type_synonym ctxs = "nat \<Rightarrow> cpu_info_ctx"

definition cpu_info_correct :: "(nat \<Rightarrow> u64) \<Rightarrow> nat \<Rightarrow> ctxs \<Rightarrow> ctxs" where
  "cpu_info_correct mpidr_el1 c ctx = ctx(c := (ctx c)\<lparr>cpu := c, mpidr := mpidr_el1 c\<rparr>)"

definition sdei_event_test_handler :: "nat \<Rightarrow> ctxs \<Rightarrow> ctxs" where
  "sdei_event_test_handler c ctx = ctx(c := (ctx c)\<lparr>complete := complete (ctx c) + 1\<rparr>)"

section \<open>The file\<close>

text \<open>
  What the firmware does with an event for the processor with a given affinity: its result, and
  the processors on which the handler then runs, before five seconds have passed.
\<close>

type_synonym firmware = "u32 \<Rightarrow> u64 \<Rightarrow> u64 \<times> nat list"

datatype line = Mpidr nat u64 | Injected u64 | Callback_ok nat

text \<open>The loop over the processors that are online; \<open>smp_call\<close> is the result of the call on a processor.\<close>

fun show_from :: "firmware \<Rightarrow> (nat \<Rightarrow> int) \<Rightarrow> (nat \<Rightarrow> u64) \<Rightarrow> u32 \<Rightarrow> nat list \<Rightarrow> ctxs \<Rightarrow> line list \<times> int \<times> ctxs" where
  "show_from smc smp_call mpidr_el1 ev [] ctx = ([], 0, ctx)"
| "show_from smc smp_call mpidr_el1 ev (c # cs) ctx =
     (let ctx = ctx(c := (ctx c)\<lparr>complete := 0\<rparr>) in
      if smp_call c \<noteq> 0 then ([], smp_call c, ctx)
      else
        let ctx = cpu_info_correct mpidr_el1 c ctx;
            (a0, runs) = smc ev (mpidr (ctx c));
            o1 = [Mpidr (cpu (ctx c)) (mpidr (ctx c)), Injected a0];
            ctx = fold sdei_event_test_handler runs ctx in
        if complete (ctx c) = 0 then (o1, - ETIMEDOUT, ctx)
        else
          let ctx = ctx(c := (ctx c)\<lparr>complete := complete (ctx c) - 1\<rparr>);
              (outs, r, ctx') = show_from smc smp_call mpidr_el1 ev cs ctx in
          (o1 @ Callback_ok (cpu (ctx c)) # outs, r, ctx'))"

section \<open>Loading and unloading\<close>

text \<open>What is left behind in the kernel and the firmware.\<close>

record sdei_mod =
  registered :: bool
  enabled :: bool
  sdei_test_proc :: bool

definition sdei_test_proc_show ::
    "firmware \<Rightarrow> (nat \<Rightarrow> int) \<Rightarrow> (nat \<Rightarrow> u64) \<Rightarrow> u32 \<Rightarrow> nat list \<Rightarrow> ctxs \<Rightarrow> line list \<times> int \<times> ctxs" where
  "sdei_test_proc_show smc smp_call mpidr_el1 sdei_event online ctx = show_from smc smp_call mpidr_el1 sdei_event online ctx"

text \<open>The calls for the event return 0 or a negative error; one that fails changes nothing.\<close>

definition unregister_event :: "int \<Rightarrow> sdei_mod \<Rightarrow> int \<times> sdei_mod" where
  "unregister_event err s =
     (if \<not> registered s then (- ENOENT, s)
      else if err \<noteq> 0 then (err, s)
      else (0, s\<lparr>registered := False, enabled := False\<rparr>))"

record env =
  register_err :: int
  enable_err :: int
  unregister_err :: int
  proc_ok :: bool

definition sdei_test_drv_init :: "env \<Rightarrow> sdei_mod \<Rightarrow> int \<times> sdei_mod" where
  "sdei_test_drv_init e s =
     (if register_err e \<noteq> 0 then (0, s)
      else
        let s = s\<lparr>registered := True\<rparr> in
        if enable_err e \<noteq> 0 then unregister_event (unregister_err e) s
        else (0, s\<lparr>enabled := True, sdei_test_proc := proc_ok e\<rparr>))"

definition sdei_test_drv_exit :: "int \<Rightarrow> sdei_mod \<Rightarrow> sdei_mod" where
  "sdei_test_drv_exit err s =
     (let s = (if sdei_test_proc s then s\<lparr>sdei_test_proc := False\<rparr> else s) in snd (unregister_event err s))"

section \<open>What a read reports\<close>

lemma handlers_complete:
  "complete (fold sdei_event_test_handler runs ctx c) = complete (ctx c) + count_list runs c \<and>
   cpu (fold sdei_event_test_handler runs ctx c) = cpu (ctx c)"
  by (induction runs arbitrary: ctx) (simp_all add: sdei_event_test_handler_def)

text \<open>The test of one processor succeeds, and what is then printed.\<close>

definition answers :: "firmware \<Rightarrow> (nat \<Rightarrow> int) \<Rightarrow> (nat \<Rightarrow> u64) \<Rightarrow> u32 \<Rightarrow> nat \<Rightarrow> bool" where
  "answers smc smp_call mpidr_el1 ev c \<longleftrightarrow> smp_call c = 0 \<and> c \<in> set (snd (smc ev (mpidr_el1 c)))"

abbreviation asked :: "firmware \<Rightarrow> (nat \<Rightarrow> u64) \<Rightarrow> u32 \<Rightarrow> nat \<Rightarrow> line list" where
  "asked smc mpidr_el1 ev c \<equiv> [Mpidr c (mpidr_el1 c), Injected (fst (smc ev (mpidr_el1 c)))]"

lemma show_one:
  "\<exists>ctx'. fst (show_from smc smp_call mpidr_el1 ev (c # cs) ctx) =
     (if smp_call c \<noteq> 0 then [] else asked smc mpidr_el1 ev c @ (if answers smc smp_call mpidr_el1 ev c
        then Callback_ok c # fst (show_from smc smp_call mpidr_el1 ev cs ctx') else [])) \<and>
   fst (snd (show_from smc smp_call mpidr_el1 ev (c # cs) ctx)) =
     (if smp_call c \<noteq> 0 then smp_call c else if answers smc smp_call mpidr_el1 ev c
        then fst (snd (show_from smc smp_call mpidr_el1 ev cs ctx')) else - ETIMEDOUT)"
proof -
  let ?ctx = "fold sdei_event_test_handler (snd (smc ev (mpidr_el1 c))) (cpu_info_correct mpidr_el1 c (ctx(c := (ctx c)\<lparr>complete := 0\<rparr>)))"
  show ?thesis
    by (intro exI [of _ "?ctx(c := (?ctx c)\<lparr>complete := complete (?ctx c) - 1\<rparr>)"])
      (auto simp: answers_def cpu_info_correct_def handlers_complete count_list_0_iff Let_def split: prod.splits)
qed

text \<open>
  C37. A read tests the processors in their order and stops at the first that fails. For each before it
  the affinity, the firmware's result and the success are reported; a processor that cannot be reached ends
  the read with the error of the call, one whose handler does not run in time with a timeout. Handlers that run on
  other processors, and what earlier reads left in the contexts, change nothing. (The lines are what the function prints into the
  buffer of the read; when it ends with an error, the kernel hands the reader the error and none of the lines.)
\<close>

theorem sdei_show:
  shows "
    let outs = fst (sdei_test_proc_show smc smp_call mpidr_el1 ev online ctx);
        r = fst (snd (sdei_test_proc_show smc smp_call mpidr_el1 ev online ctx));
        ok = takeWhile (answers smc smp_call mpidr_el1 ev) online;
        full = concat (map (\<lambda>c. asked smc mpidr_el1 ev c @ [Callback_ok c]) ok) in
    (case drop (length ok) online of
       [] \<Rightarrow> r = 0 \<and> outs = full
     | c # _ \<Rightarrow> if smp_call c \<noteq> 0 then r = smp_call c \<and> outs = full
         else r = - ETIMEDOUT \<and> outs = full @ asked smc mpidr_el1 ev c)"
proof (induction online arbitrary: ctx)
  case Nil
  then show ?case by (simp add: sdei_test_proc_show_def)
next
  case (Cons c cs)
  from show_one [of smc smp_call mpidr_el1 ev c cs ctx] obtain ctx' where
    "fst (show_from smc smp_call mpidr_el1 ev (c # cs) ctx) =
      (if smp_call c \<noteq> 0 then [] else asked smc mpidr_el1 ev c @ (if answers smc smp_call mpidr_el1 ev c
        then Callback_ok c # fst (show_from smc smp_call mpidr_el1 ev cs ctx') else []))"
    "fst (snd (show_from smc smp_call mpidr_el1 ev (c # cs) ctx)) =
      (if smp_call c \<noteq> 0 then smp_call c else if answers smc smp_call mpidr_el1 ev c
        then fst (snd (show_from smc smp_call mpidr_el1 ev cs ctx')) else - ETIMEDOUT)" by blast
  with Cons.IH [of ctx'] show ?case
    by (auto simp: sdei_test_proc_show_def Let_def answers_def simp del: show_from.simps split: list.splits if_splits)
qed

text \<open>The whole life of the module: it is unloaded if loading returned 0.\<close>

definition module_life :: "env \<Rightarrow> int \<Rightarrow> sdei_mod \<Rightarrow> int \<times> sdei_mod" where
  "module_life e exit_err s =
     (case sdei_test_drv_init e s of (r, s) \<Rightarrow> (r, if r = 0 then sdei_test_drv_exit exit_err s else s))"

text \<open>
  Loading the module returns an error only if enabling the event and then unregistering it both fail, and the
  handler of a module that is gone stays registered exactly then, and when unregistering fails at the unload. The
  errors of registering and of enabling are lost: the load returns 0 without an event.
\<close>

lemma sdei_life:
  assumes "s = \<lparr>registered = False, enabled = False, sdei_test_proc = False\<rparr>"
  shows "case module_life e exit_err s of (r, s') \<Rightarrow>
    (r \<noteq> 0 \<longleftrightarrow> register_err e = 0 \<and> enable_err e \<noteq> 0 \<and> unregister_err e \<noteq> 0) \<and> \<not> sdei_test_proc s' \<and>
    (registered s' \<longleftrightarrow> register_err e = 0 \<and> (if enable_err e \<noteq> 0 then unregister_err e \<noteq> 0 else exit_err \<noteq> 0))"
  using assms by (auto simp: module_life_def sdei_test_drv_init_def sdei_test_drv_exit_def unregister_event_def Let_def)

end
