(* ===== verification/Lockdep.thy ===== *)
theory Lockdep
  imports Kernel
begin

text \<open>
  The test of the lock validator, \<open>kernel_module/lockdep/lockdep-rwlock.c\<close>: loading it takes a
  reader lock, then a spin lock and the writer lock inside it, while a timer's handler
  takes the spin lock and the reader lock inside it. The validator warns about the order of the
  locks; the model interleaves the two in every way and shows that they do not deadlock. The
  handler runs in an interrupt, on the processor of the initialisation, which then waits for it, or on another one.
\<close>

section \<open>States and steps\<close>

datatype init_pc = I_start | I_read_lock | I_reading | I_spin_lock | I_write_lock | I_writing | I_spin_unlock | I_done

datatype handler_pc = H_idle | H_spin_lock | H_read_lock | H_reading | H_spin_unlock | H_done

datatype owner = Init | Handler

record lk =
  ipc :: init_pc
  hpc :: handler_pc
  timer :: bool
  irqs_on :: bool
  saved :: bool
  eventlock :: "owner option"
  readers :: nat
  writer :: "owner option"

text \<open>The steps of the initialisation; \<open>None\<close> where it waits for a lock.\<close>

definition test_lockdep_init :: "lk \<Rightarrow> lk option" where
  "test_lockdep_init s = (case ipc s of
     I_start \<Rightarrow> Some (s\<lparr>timer := True, eventlock := None, readers := 0, writer := None, ipc := I_read_lock\<rparr>)
   | I_read_lock \<Rightarrow> if writer s \<noteq> None then None else Some (s\<lparr>readers := readers s + 1, ipc := I_reading\<rparr>)
   | I_reading \<Rightarrow> Some (s\<lparr>readers := readers s - 1, ipc := I_spin_lock\<rparr>)
   | I_spin_lock \<Rightarrow> if eventlock s \<noteq> None then None
       else Some (s\<lparr>irqs_on := False, eventlock := Some Init, ipc := I_write_lock\<rparr>)
   | I_write_lock \<Rightarrow> if writer s \<noteq> None \<or> readers s \<noteq> 0 then None
       else Some (s\<lparr>saved := irqs_on s, irqs_on := False, writer := Some Init, ipc := I_writing\<rparr>)
   | I_writing \<Rightarrow> Some (s\<lparr>writer := None, irqs_on := saved s, ipc := I_spin_unlock\<rparr>)
   | I_spin_unlock \<Rightarrow> Some (s\<lparr>eventlock := None, irqs_on := True, ipc := I_done\<rparr>)
   | I_done \<Rightarrow> None)"

text \<open>The steps of the handler, from the interrupt of the timer on.\<close>

definition lockdep_test_hrtimer_handler :: "lk \<Rightarrow> lk option" where
  "lockdep_test_hrtimer_handler s = (case hpc s of
     H_idle \<Rightarrow> if timer s then Some (s\<lparr>timer := False, hpc := H_spin_lock\<rparr>) else None
   | H_spin_lock \<Rightarrow> if eventlock s \<noteq> None then None else Some (s\<lparr>eventlock := Some Handler, hpc := H_read_lock\<rparr>)
   | H_read_lock \<Rightarrow> if writer s \<noteq> None then None else Some (s\<lparr>readers := readers s + 1, hpc := H_reading\<rparr>)
   | H_reading \<Rightarrow> Some (s\<lparr>readers := readers s - 1, hpc := H_spin_unlock\<rparr>)
   | H_spin_unlock \<Rightarrow> Some (s\<lparr>eventlock := None, hpc := H_done\<rparr>)
   | H_done \<Rightarrow> None)"

text \<open>
  On one processor the handler starts only where interrupts are on, and the initialisation stands
  still until it is done. While it waits for the spin lock, \<open>spin_lock_irq\<close> has interrupts off already, so on
  one processor that step is not interrupted.
\<close>

definition in_handler :: "lk \<Rightarrow> bool" where
  "in_handler s \<longleftrightarrow> hpc s \<noteq> H_idle \<and> hpc s \<noteq> H_done"

inductive step :: "bool \<Rightarrow> lk \<Rightarrow> lk option \<Rightarrow> bool" for one_cpu where
  init: "\<not> (one_cpu \<and> in_handler s) \<Longrightarrow> test_lockdep_init s = Some s' \<Longrightarrow> step one_cpu s (Some s')"
| handler: "\<not> (one_cpu \<and> hpc s = H_idle \<and> \<not> irqs_on s) \<Longrightarrow> lockdep_test_hrtimer_handler s = Some s' \<Longrightarrow>
    step one_cpu s (Some s')"

inductive_cases stepE: "step one_cpu s (Some s')"

definition loaded :: lk where
  "loaded = \<lparr>ipc = I_start, hpc = H_idle, timer = False, irqs_on = True, saved = False, eventlock = None, readers = 0, writer = None\<rparr>"

section \<open>The invariant\<close>

definition i_spin :: "init_pc \<Rightarrow> bool" where
  "i_spin p \<longleftrightarrow> p = I_write_lock \<or> p = I_writing \<or> p = I_spin_unlock"

definition h_spin :: "handler_pc \<Rightarrow> bool" where
  "h_spin p \<longleftrightarrow> p = H_read_lock \<or> p = H_reading \<or> p = H_spin_unlock"

text \<open>The locks are held exactly as the two places in the code say.\<close>

definition lk_inv :: "bool \<Rightarrow> lk \<Rightarrow> bool" where
  "lk_inv one_cpu s \<longleftrightarrow>
     timer s = (ipc s \<noteq> I_start \<and> hpc s = H_idle) \<and> (ipc s = I_start \<longrightarrow> hpc s = H_idle) \<and>
     eventlock s = (if i_spin (ipc s) then Some Init else if h_spin (hpc s) then Some Handler else None) \<and>
     \<not> (i_spin (ipc s) \<and> h_spin (hpc s)) \<and>
     readers s = (if ipc s = I_reading then 1 else 0) + (if hpc s = H_reading then 1 else 0) \<and>
     writer s = (if ipc s = I_writing then Some Init else None) \<and>
     irqs_on s = (\<not> i_spin (ipc s)) \<and> (ipc s = I_writing \<longrightarrow> \<not> saved s) \<and>
     (one_cpu \<and> in_handler s \<longrightarrow> \<not> i_spin (ipc s))"

lemma lk_inv_loaded: "lk_inv one_cpu loaded"
  by (simp add: lk_inv_def loaded_def i_spin_def h_spin_def in_handler_def)

lemmas lk_inv_unfold = lk_inv_def i_spin_def h_spin_def in_handler_def

lemma lk_inv_init:
  assumes "lk_inv one_cpu s" and "\<not> (one_cpu \<and> in_handler s)"
  shows "pred_option (lk_inv one_cpu) (test_lockdep_init s)"
  using assms by (cases "ipc s"; cases "hpc s"; simp add: test_lockdep_init_def lk_inv_unfold)

lemma lk_inv_handler:
  assumes "lk_inv one_cpu s" and "\<not> (one_cpu \<and> hpc s = H_idle \<and> \<not> irqs_on s)"
  shows "pred_option (lk_inv one_cpu) (lockdep_test_hrtimer_handler s)"
  using assms by (cases "hpc s"; cases "ipc s"; simp add: lockdep_test_hrtimer_handler_def lk_inv_unfold)

lemma lk_inv_step: "step one_cpu s (Some s') \<Longrightarrow> lk_inv one_cpu s \<Longrightarrow> lk_inv one_cpu s'"
  using lk_inv_init [of one_cpu s] lk_inv_handler [of one_cpu s] by (auto elim!: stepE)

section \<open>Progress\<close>

definition i_rank :: "init_pc \<Rightarrow> nat" where
  "i_rank p = (case p of I_start \<Rightarrow> 7 | I_read_lock \<Rightarrow> 6 | I_reading \<Rightarrow> 5 | I_spin_lock \<Rightarrow> 4 | I_write_lock \<Rightarrow> 3
     | I_writing \<Rightarrow> 2 | I_spin_unlock \<Rightarrow> 1 | I_done \<Rightarrow> 0)"

definition h_rank :: "handler_pc \<Rightarrow> nat" where
  "h_rank p = (case p of H_idle \<Rightarrow> 5 | H_spin_lock \<Rightarrow> 4 | H_read_lock \<Rightarrow> 3 | H_reading \<Rightarrow> 2 | H_spin_unlock \<Rightarrow> 1 | H_done \<Rightarrow> 0)"

abbreviation rank :: "lk \<Rightarrow> nat" where
  "rank s \<equiv> i_rank (ipc s) + h_rank (hpc s)"

lemma step_rank: "step one_cpu s (Some s') \<Longrightarrow> rank s' + 1 = rank s"
proof (erule stepE)
  assume "test_lockdep_init s = Some s'"
  then show ?thesis by (cases "ipc s") (auto simp: test_lockdep_init_def i_rank_def split: if_splits)
next
  assume "lockdep_test_hrtimer_handler s = Some s'"
  then show ?thesis by (cases "hpc s") (auto simp: lockdep_test_hrtimer_handler_def h_rank_def split: if_splits)
qed

lemma progress:
  assumes "lk_inv one_cpu s" and "\<not> (ipc s = I_done \<and> hpc s = H_done)"
  shows "\<exists>s'. step one_cpu s (Some s')"
proof (cases "in_handler s")
  case True
  have "test_lockdep_init s \<noteq> None \<and> \<not> one_cpu \<or> lockdep_test_hrtimer_handler s \<noteq> None"
    using assms True
    by (cases "hpc s"; cases "ipc s"; simp add: lk_inv_unfold test_lockdep_init_def lockdep_test_hrtimer_handler_def)
  then show ?thesis using True by (auto simp: in_handler_def intro: step.init step.handler)
next
  case False
  have "test_lockdep_init s \<noteq> None \<or> irqs_on s \<and> lockdep_test_hrtimer_handler s \<noteq> None"
    using assms False
    by (cases "hpc s"; cases "ipc s"; simp add: lk_inv_unfold test_lockdep_init_def lockdep_test_hrtimer_handler_def)
  then show ?thesis using False by (auto intro: step.init step.handler)
qed

text \<open>
  The places of the code are ordered as they follow each other, so \<open>p \<le> q\<close> says that \<open>q\<close> is
  not before \<open>p\<close>; the ranks count what is still to come.
\<close>

lemma i_rank_inj: "i_rank p = i_rank q \<longleftrightarrow> p = q"
  by (cases p; cases q; simp add: i_rank_def)

lemma h_rank_inj: "h_rank p = h_rank q \<longleftrightarrow> p = q"
  by (cases p; cases q; simp add: h_rank_def)

instantiation init_pc :: linorder
begin

definition less_eq_init_pc :: "init_pc \<Rightarrow> init_pc \<Rightarrow> bool" where
  "less_eq_init_pc p q \<longleftrightarrow> i_rank q \<le> i_rank p"

definition less_init_pc :: "init_pc \<Rightarrow> init_pc \<Rightarrow> bool" where
  "less_init_pc p q \<longleftrightarrow> i_rank q < i_rank p"

instance
  by standard (auto simp: less_eq_init_pc_def less_init_pc_def simp flip: i_rank_inj)

end

instantiation handler_pc :: linorder
begin

definition less_eq_handler_pc :: "handler_pc \<Rightarrow> handler_pc \<Rightarrow> bool" where
  "less_eq_handler_pc p q \<longleftrightarrow> h_rank q \<le> h_rank p"

definition less_handler_pc :: "handler_pc \<Rightarrow> handler_pc \<Rightarrow> bool" where
  "less_handler_pc p q \<longleftrightarrow> h_rank q < h_rank p"

instance
  by standard (auto simp: less_eq_handler_pc_def less_handler_pc_def simp flip: h_rank_inj)

end

lemmas pc_order = less_eq_init_pc_def less_init_pc_def less_eq_handler_pc_def less_handler_pc_def

text \<open>A step moves one of the two forward and leaves the other where it is.\<close>

lemma init_forward: "test_lockdep_init s = Some s' \<Longrightarrow> ipc s < ipc s' \<and> hpc s' = hpc s"
  by (cases "ipc s") (auto simp: test_lockdep_init_def i_rank_def pc_order split: if_splits)

lemma handler_forward: "lockdep_test_hrtimer_handler s = Some s' \<Longrightarrow> hpc s < hpc s' \<and> ipc s' = ipc s"
  by (cases "hpc s") (auto simp: lockdep_test_hrtimer_handler_def h_rank_def pc_order split: if_splits)

lemma run_forward: "reaches (step one_cpu) s s' \<Longrightarrow> ipc s \<le> ipc s' \<and> hpc s \<le> hpc s'"
proof (induction rule: reaches.induct)
  case start
  show ?case by simp
next
  case (go s1 s2)
  from go.hyps(2) have "ipc s1 \<le> ipc s2 \<and> hpc s1 \<le> hpc s2"
    by (auto elim!: stepE dest!: init_forward handler_forward)
  with go.IH show ?case by auto
qed

text \<open>
  So a lock that was given back is not taken again: behind \<open>write_unlock_irqrestore\<close> the writer lock
  stays free, and behind the handler's unlocking the handler has neither lock.
\<close>

lemma locks_not_retaken:
  assumes "reaches (step one_cpu) loaded s" and "reaches (step one_cpu) s s'"
  shows "I_writing < ipc s \<Longrightarrow> writer s' = None"
    and "H_spin_unlock < hpc s \<Longrightarrow> eventlock s' \<noteq> Some Handler \<and> \<not> in_handler s'"
proof -
  have "lk_inv one_cpu s" by (rule reaches_inv [OF assms(1), of "lk_inv one_cpu", OF lk_inv_loaded]) (rule lk_inv_step)
  then have inv: "lk_inv one_cpu s'" by (rule reaches_inv [OF assms(2), of "lk_inv one_cpu"]) (rule lk_inv_step)
  from run_forward [OF assms(2)] have fwd: "ipc s \<le> ipc s'" "hpc s \<le> hpc s'" by simp_all
  show "writer s' = None" if "I_writing < ipc s"
  proof -
    from that fwd(1) have "ipc s' \<noteq> I_writing" by auto
    with inv show ?thesis by (simp add: lk_inv_def)
  qed
  show "eventlock s' \<noteq> Some Handler \<and> \<not> in_handler s'" if "H_spin_unlock < hpc s"
  proof -
    from that fwd(2) have "H_spin_unlock < hpc s'" by simp
    then have "hpc s' = H_done" by (cases "hpc s'") (simp_all add: pc_order h_rank_def)
    with inv show ?thesis by (simp add: lk_inv_def h_spin_def in_handler_def)
  qed
qed

text \<open>
  C38. However the initialisation and the handler are interleaved, on one processor or two, every run ends, after
  exactly twelve steps, with both done, all locks free and interrupts on: there is no deadlock,
  although the validator warns. No state has the writer together with a reader, or both in the spin lock.
\<close>

theorem lockdep_completes:
  assumes "reaches (step one_cpu) loaded s"
  shows "(\<forall>s'. step one_cpu s (Some s') \<longrightarrow> rank s' + 1 = rank s) \<and>
    (if (\<exists>s'. step one_cpu s (Some s')) then 0 < rank s
     else ipc s = I_done \<and> hpc s = H_done \<and> eventlock s = None \<and> readers s = 0 \<and> writer s = None \<and> irqs_on s) \<and>
    \<not> (ipc s = I_writing \<and> 0 < readers s) \<and> \<not> (i_spin (ipc s) \<and> h_spin (hpc s)) \<and> rank loaded = 12"
proof -
  have inv: "lk_inv one_cpu s" by (rule reaches_inv [OF assms, of "lk_inv one_cpu", OF lk_inv_loaded]) (rule lk_inv_step)
  have "0 < rank s" if "step one_cpu s (Some s')" for s' using step_rank [OF that] by linarith
  moreover from inv have "\<not> (ipc s = I_writing \<and> 0 < readers s)" "\<not> (i_spin (ipc s) \<and> h_spin (hpc s))"
    by (auto simp: lk_inv_def i_spin_def h_spin_def)
  moreover have "rank loaded = 12" by (simp add: loaded_def i_rank_def h_rank_def)
  moreover have "eventlock s = None \<and> readers s = 0 \<and> writer s = None \<and> irqs_on s" if "ipc s = I_done" "hpc s = H_done"
    using inv that by (simp add: lk_inv_unfold)
  moreover note step_rank [of one_cpu s] progress [OF inv]
  ultimately show ?thesis by meson
qed

theorem lockdep_completes_witness:
  "\<exists>s. reaches (step True) loaded s \<and> ipc s = I_read_lock \<and> 0 < rank s \<and> readers s = 0"
proof -
  let ?s = "loaded\<lparr>timer := True, eventlock := None, readers := 0, writer := None, ipc := I_read_lock\<rparr>"
  have "step True loaded (Some ?s)"
    by (rule step.init) (simp_all add: loaded_def in_handler_def test_lockdep_init_def)
  then have r: "reaches (step True) loaded ?s" by (rule reaches.go [OF reaches.start])
  have "\<exists>s'. step True ?s (Some s')"
    by (rule exI, rule step.init) (simp_all add: loaded_def in_handler_def test_lockdep_init_def)
  with r lockdep_completes [OF r] show ?thesis by (intro exI [of _ ?s]) simp
qed

end
