(* ===== verification/Regulator.thy ===== *)
theory Regulator
  imports Smc
begin

text \<open>
  The module \<open>kernel_module/regulator_test/regulator_test.c\<close>: the module for secure monitor calls
  under other names, with one addition: loading it gets a regulator for its device and sets the
  regulator's voltage. So the model is that of theory \<open>Smc\<close> with the regulator beside it. The regulator belongs to the
  device: the kernel gives it back when the device is destroyed, and needs a device to note it.
\<close>

section \<open>State and operations\<close>

record reg_mod =
  core :: smc_mod
  regu :: bool
  voltage :: "(int \<times> int) option"

text \<open>Whether the regulator exists, and whether its voltage can be set.\<close>

record regu_env =
  regu_ok :: bool
  set_ok :: bool

definition devm_regulator_get :: "bool \<Rightarrow> bool \<Rightarrow> reg_mod \<Rightarrow> (bool \<times> reg_mod) option" where
  "devm_regulator_get dev ok s =
     (if \<not> ok then Some (False, s) else if \<not> dev then None else Some (True, s\<lparr>regu := True\<rparr>))"

definition regulator_test_drv_init :: "env \<Rightarrow> regu_env \<Rightarrow> reg_mod \<Rightarrow> (int \<times> reg_mod) option" where
  "regulator_test_drv_init e g s = do {
     (r, c) \<leftarrow> smc_helper_drv_init e (core s);
     let s = s\<lparr>core := c\<rparr>;
     if r < 0 then Some (r, s)
     else do {
       (got, s) \<leftarrow> devm_regulator_get (has_device c) (regu_ok g) s;
       Some (0, if got \<and> set_ok g then s\<lparr>voltage := Some (850000, 910000)\<rparr> else s) } }"

definition regulator_test_destory :: "reg_mod \<Rightarrow> reg_mod option" where
  "regulator_test_destory s = do { c \<leftarrow> smc_helper_destory (core s); Some (s\<lparr>core := c, regu := False\<rparr>) }"

definition regulator_test_drv_exit :: "reg_mod \<Rightarrow> reg_mod option" where
  "regulator_test_drv_exit s = do {
     s \<leftarrow> (if has_device (core s) then regulator_test_destory s else Some s);
     c \<leftarrow> smc_helper_drv_exit (core s);
     Some (s\<lparr>core := c\<rparr>) }"

text \<open>Opening the file notes the device in it: the result and the file's private data.\<close>

definition regulator_test_open :: "'dev \<Rightarrow> 'dev option \<Rightarrow> int \<times> 'dev option" where
  "regulator_test_open i_cdev private_data = (0, Some i_cdev)"

definition regulator_test_close :: "'dev option \<Rightarrow> int \<times> 'dev option" where
  "regulator_test_close private_data = (0, private_data)"

text \<open>The device file.\<close>

definition smc_read :: "reg_mod \<Rightarrow> nat \<Rightarrow> byte list \<Rightarrow> int \<times> reg_mod \<times> byte list" where
  "smc_read s n buf = (let (r, c, buf) = Smc.smc_read (core s) n buf in (r, s\<lparr>core := c\<rparr>, buf))"

definition smc_write :: "bool \<Rightarrow> (u64 list \<Rightarrow> u64 list) \<Rightarrow> reg_mod \<Rightarrow> nat \<Rightarrow> byte list \<Rightarrow> int \<times> reg_mod" where
  "smc_write ok smc s n buf = (let (r, c) = Smc.smc_write ok smc (core s) n buf in (r, s\<lparr>core := c\<rparr>))"

section \<open>The life of the module\<close>

fun reg_op :: "(u64 list \<Rightarrow> u64 list) \<Rightarrow> file_op \<Rightarrow> reg_mod \<Rightarrow> reg_mod" where
  "reg_op smc (Write ok n buf) s = snd (smc_write ok smc s n buf)"
| "reg_op smc (Read n buf) s = fst (snd (smc_read s n buf))"

lemma reg_op_core: "reg_op smc f s = s\<lparr>core := file_op_run smc f (core s)\<rparr>"
  by (cases f) (simp_all add: smc_write_def smc_read_def split: prod.splits)

lemma reg_ops_core: "fold (reg_op smc) fs s = s\<lparr>core := fold (file_op_run smc) fs (core s)\<rparr>"
  by (induction fs arbitrary: s) (simp_all add: reg_op_core)

definition fresh_reg :: "int \<Rightarrow> (int \<times> int) option \<Rightarrow> reg_mod" where
  "fresh_reg base v = \<lparr>core = fresh base, regu = False, voltage = v\<rparr>"

lemma destory_no_device: "smc_helper_destory c = Some c' \<Longrightarrow> \<not> has_device c'"
  by (auto simp: smc_helper_destory_def lose_res_def split: Option.bind_splits)

lemma regulator_exit_eq:
  "regulator_test_drv_exit s =
     map_option (\<lambda>c. s\<lparr>core := c, regu := regu s \<and> \<not> has_device (core s)\<rparr>) (smc_helper_drv_exit (core s))"
proof (cases "has_device (core s)")
  case True
  show ?thesis
  proof (cases "smc_helper_destory (core s)")
    case (Some c)
    then show ?thesis using True destory_no_device [OF Some]
      by (cases "smc_helper_drv_exit c") (simp_all add: regulator_test_drv_exit_def regulator_test_destory_def smc_helper_drv_exit_def)
  qed (use True in \<open>simp add: regulator_test_drv_exit_def regulator_test_destory_def smc_helper_drv_exit_def\<close>)
next
  case False
  then show ?thesis by (cases "smc_helper_drv_exit (core s)") (simp_all add: regulator_test_drv_exit_def)
qed

text \<open>
  The life of the module. A load that fails touches no regulator. When the device could not be created, which
  the module calls not fatal, but there is a regulator, the kernel follows the null
  device: the load crashes. Otherwise the load returns 0, also when the voltage was refused; it has set
  the voltage or left it alone, and after any use of the file the unload gives the regulator back.
\<close>

theorem regulator_lifecycle:
  assumes "env_ok e"
  shows "if load_fails e
    then \<exists>r s. regulator_test_drv_init e g (fresh_reg base v) = Some (r, s) \<and> r < 0 \<and> \<not> regu s \<and> voltage s = v
    else if device_err e \<and> regu_ok g then regulator_test_drv_init e g (fresh_reg base v) = None
    else \<exists>s s'. regulator_test_drv_init e g (fresh_reg base v) = Some (0, s) \<and> regu s = regu_ok g \<and>
      voltage s = (if regu_ok g \<and> set_ok g then Some (850000, 910000) else v) \<and>
      regulator_test_drv_exit (fold (reg_op smc) fs s) = Some s' \<and> \<not> regu s' \<and> voltage s' = voltage s \<and>
      held (core s') = (if device_err e then {#Dev_memory, Cdev#} else {#}) +
        (if base = 0 then {#} else {#Chrdev base#}) + replicate_mset (length (filter leaks fs)) Cmdb"
proof (cases "load_fails e")
  case True
  from smc_load_fails [OF assms True, of base] obtain r s where "smc_helper_drv_init e (fresh base) = Some (r, s)" "r < 0" by blast
  with True show ?thesis by (simp add: regulator_test_drv_init_def fresh_reg_def)
next
  case False
  from smc_loads [OF this, of base] obtain c where c: "smc_helper_drv_init e (fresh base) = Some (0, c)" "class_set c"
    "has_device c = (\<not> device_err e)" "held c = {#Class, Chrdev base, Dev_memory, Cdev#} + (if has_device c then {#Device#} else {#})"
    by auto
  have dev: "has_device (fold (file_op_run smc) fs c) = has_device c" using file_ops_frame [of smc fs c] by simp
  from smc_unloads [OF c(2,4), of smc fs] obtain c' where
    c': "smc_helper_drv_exit (fold (file_op_run smc) fs c) = Some c'"
      "held c' = (if has_device c then {#} else {#Dev_memory, Cdev#}) + (if base = 0 then {#} else {#Chrdev base#}) +
        replicate_mset (length (filter leaks fs)) Cmdb" by blast
  show ?thesis
    using False c(1,3) c' dev
    by (cases "regu_ok g") (auto simp: regulator_test_drv_init_def fresh_reg_def devm_regulator_get_def reg_ops_core regulator_exit_eq Let_def)
qed

theorem regulator_lifecycle_witness:
  "regulator_test_drv_init (good_env\<lparr>device_err := True\<rparr>) \<lparr>regu_ok = True, set_ok = True\<rparr> (fresh_reg 0 None) = None"
proof -
  have "env_ok (good_env\<lparr>device_err := True\<rparr>)" by (simp add: env_ok_def good_env_def)
  from regulator_lifecycle [OF this, of "\<lparr>regu_ok = True, set_ok = True\<rparr>" 0 None] show ?thesis
    by (simp add: good_env_def load_fails_def)
qed

end
