(* ===== verification/Hook.thy ===== *)
theory Hook
  imports Kernel CString
begin

text \<open>
  The library of \<open>hook\<close> that is loaded before the C library and stands in for \<open>ioctl\<close>, to give programs a
  fake hardware address (\<open>hook.c\<close> and its copy \<open>lib/hook.c\<close>), the four hooks of both that are disabled, and the reading and
  taking over of the configuration file, \<open>lib/config_data.c\<close>. The real \<open>ioctl\<close> is a parameter. The argument of an \<open>ioctl\<close> is the list of bytes it points to,
  \<open>None\<close> a null pointer.
\<close>

section \<open>The call\<close>

type_synonym mem = "byte list option"

type_synonym ioctl = "int \<Rightarrow> 64 word \<Rightarrow> mem \<Rightarrow> int \<times> mem"

definition SIOCGIFHWADDR :: "64 word" where "SIOCGIFHWADDR = 0x8927"

definition fake_mac :: "byte list" where
  "fake_mac = [0xb3, 0x26, 0x83, 0x2c, 0x73, 0xec]"

text \<open>In a \<open>struct ifreq\<close> the address stands behind a name of 16 bytes and a family of 2.\<close>

definition hwaddr_at :: nat where "hwaddr_at = 18"

definition set_mac :: "mem \<Rightarrow> mem option" where
  "set_mac argp = (case argp of None \<Rightarrow> None
     | Some m \<Rightarrow> if length m < hwaddr_at + 6 then None
         else Some (Some (take hwaddr_at m @ fake_mac @ drop (hwaddr_at + 6) m)))"

text \<open>
  The call, with whether the real function is known already and whether it can be found. The result has
  the value, the memory, and whether it is known now.
\<close>

definition ioctl :: "ioctl \<Rightarrow> bool \<Rightarrow> bool \<Rightarrow> int \<Rightarrow> 64 word \<Rightarrow> mem \<Rightarrow> (int \<times> mem \<times> bool) option" where
  "ioctl real sym_ok func_ioctl fd request argp =
     (let func_ioctl = (if \<not> func_ioctl then sym_ok else func_ioctl) in
      if \<not> func_ioctl then None
      else (case real fd request argp of (retval, argp) \<Rightarrow>
        if SIOCGIFHWADDR = request \<and> retval = 0
        then map_option (\<lambda>m. (retval, m, func_ioctl)) (set_mac argp)
        else Some (retval, argp, func_ioctl)))"

definition lib_ioctl :: "ioctl \<Rightarrow> bool \<Rightarrow> bool \<Rightarrow> int \<Rightarrow> 64 word \<Rightarrow> mem \<Rightarrow> (int \<times> mem \<times> bool) option" where
  "lib_ioctl real sym_ok func_ioctl fd request argp =
     (let func_ioctl = (if \<not> func_ioctl then sym_ok else func_ioctl) in
      if \<not> func_ioctl then None
      else (case real fd request argp of (retval, argp) \<Rightarrow>
        if SIOCGIFHWADDR = request \<and> retval = 0
        then map_option (\<lambda>m. (retval, m, func_ioctl)) (set_mac argp)
        else Some (retval, argp, func_ioctl)))"

section \<open>A program that runs with the library\<close>

text \<open>The calls of a program one after the other, each with its own memory.\<close>

type_synonym request = "int \<times> 64 word \<times> mem"

fun hooked :: "ioctl \<Rightarrow> bool \<Rightarrow> request list \<Rightarrow> (int \<times> mem) list option" where
  "hooked real known [] = Some []"
| "hooked real known ((fd, rq, argp) # cs) = do {
     (r, m, known) \<leftarrow> ioctl real True known fd rq argp;
     rs \<leftarrow> hooked real known cs;
     Some ((r, m) # rs) }"

text \<open>The real call fills a whole \<open>struct ifreq\<close> when it succeeds for a hardware address.\<close>

definition fills_ifreq :: "ioctl \<Rightarrow> bool" where
  "fills_ifreq real \<longleftrightarrow> (\<forall>fd argp. fst (real fd SIOCGIFHWADDR argp) = 0 \<longrightarrow>
     (\<exists>m. snd (real fd SIOCGIFHWADDR argp) = Some m \<and> length m = 40))"

definition faked :: "64 word \<Rightarrow> int \<times> mem \<Rightarrow> int \<times> mem" where
  "faked rq x = (if rq = SIOCGIFHWADDR \<and> fst x = 0
     then (0, map_option (\<lambda>m. take 18 m @ fake_mac @ drop 24 m) (snd x)) else x)"

lemma ioctl_faked:
  assumes "fills_ifreq real"
  shows "ioctl real True known fd rq argp = Some (fst (faked rq (real fd rq argp)), snd (faked rq (real fd rq argp)), True)"
proof -
  obtain r m where r: "real fd rq argp = (r, m)" by (cases "real fd rq argp")
  show ?thesis
  proof (cases "rq = SIOCGIFHWADDR \<and> r = 0")
    case True
    with assms r have "\<exists>x. m = Some x \<and> length x = 40" unfolding fills_ifreq_def by (metis fst_conv snd_conv)
    with r True show ?thesis by (auto simp: ioctl_def faked_def set_mac_def hwaddr_at_def)
  qed (use r in \<open>auto simp: ioctl_def faked_def\<close>)
qed

text \<open>
  A program that runs with the library gets from every successful query of a hardware address the
  fake one, in the six bytes of the address, and everything else, every other call, every failing call
  and all other bytes, exactly as from the real function; nothing crashes as long as that fills the structure.
\<close>

theorem hook_transparent:
  assumes "fills_ifreq real"
  shows "hooked real known cs = Some (map (\<lambda>(fd, rq, argp). faked rq (real fd rq argp)) cs) \<and> lib_ioctl = ioctl"
proof
  show "hooked real known cs = Some (map (\<lambda>(fd, rq, argp). faked rq (real fd rq argp)) cs)"
    by (induction cs arbitrary: known) (auto simp: ioctl_faked [OF assms])
  show "lib_ioctl = ioctl" by (intro ext) (simp add: lib_ioctl_def ioctl_def)
qed

theorem hook_transparent_witness:
  "hooked (\<lambda>fd rq argp. if fd = 3 then (0, Some (replicate 40 0)) else (- 1, argp)) False
     [(3, SIOCGIFHWADDR, Some []), (3, 7, Some []), (4, SIOCGIFHWADDR, None)] =
   Some [(0, Some (replicate 18 0 @ [0xb3, 0x26, 0x83, 0x2c, 0x73, 0xec] @ replicate 16 0)),
     (0, Some (replicate 40 0)), (- 1, None)]"
proof -
  let ?real = "\<lambda>fd rq argp. if fd = 3 then (0, Some (replicate 40 0)) else (- 1, argp)"
  have "fills_ifreq ?real" by (simp add: fills_ifreq_def)
  from hook_transparent [OF this, of False "[(3, SIOCGIFHWADDR, Some []), (3, 7, Some []), (4, SIOCGIFHWADDR, None)]"]
  show ?thesis by (simp add: faked_def fake_mac_def SIOCGIFHWADDR_def)
qed

section \<open>The program that asks for an address\<close>

text \<open>
  \<open>socket/get_mac_address.c\<close>: it asks for the address of the interface it is given and prints it. The name is copied
  into the 16 bytes at the start of the structure, without a test of its length. \<open>io\<close> is the \<open>ioctl\<close> it is linked
  with; the socket is closed in every case behind its creation.
\<close>

datatype mac_line = Mac_usage | Mac_perror string | Interface string | Mac_address string

definition hex_mac :: "byte list \<Rightarrow> string" where
  "hex_mac bs = concat (map (\<lambda>i. (if i = 0 then [] else '':'') @ digits_in 16 (unat (bs ! i))) [0..<6])"

definition get_mac_main :: "bool \<Rightarrow> (64 word \<Rightarrow> mem \<Rightarrow> (int \<times> mem) option) \<Rightarrow> string list \<Rightarrow> (int \<times> mac_line list) option" where
  "get_mac_main sock_ok io argv =
     (case argv of
        _ # name # _ \<Rightarrow>
          if \<not> sock_ok then Some (- 1, [Mac_perror ''socket''])
          else if 16 \<le> length name then None
          else do {
            let ifreq = map (\<lambda>c. of_char c) name @ replicate (40 - length name) 0;
            (ret, m) \<leftarrow> io SIOCGIFHWADDR (Some ifreq);
            if ret < 0 then Some (ret, [Mac_perror ''ioctl''])
            else do {
              m \<leftarrow> m;
              if length m < hwaddr_at + 6 then None
              else Some (ret, [Interface name, Mac_address (hex_mac (take 6 (drop hwaddr_at m)))]) } }
      | _ \<Rightarrow> Some (- 1, [Mac_usage]))"

text \<open>The program linked with the C library, and run with the library that stands in for it.\<close>

definition direct :: "ioctl \<Rightarrow> 64 word \<Rightarrow> mem \<Rightarrow> (int \<times> mem) option" where
  "direct real rq m = Some (real 3 rq m)"

definition preloaded :: "ioctl \<Rightarrow> 64 word \<Rightarrow> mem \<Rightarrow> (int \<times> mem) option" where
  "preloaded real rq m = map_option (\<lambda>(r, m, _). (r, m)) (ioctl real True False 3 rq m)"

text \<open>
  C39. The program that prints hardware addresses, run with the library: for every interface it can ask about it
  prints b3:26:83:2c:73:ec, and where it would fail without the library it fails in the same way.
\<close>

theorem get_mac_hooked:
  assumes "fills_ifreq real" and "\<forall>rq m. fst (real 3 rq m) \<le> 0"
  shows "\<exists>r ls. get_mac_main ok (direct real) argv = (if 1 < length argv \<and> ok \<and> 16 \<le> length (argv ! 1) then None else Some (r, ls)) \<and>
    get_mac_main ok (preloaded real) argv = (if 1 < length argv \<and> ok \<and> 16 \<le> length (argv ! 1) then None
      else Some (r, if r = 0 then [Interface (argv ! 1), Mac_address ''b3:26:83:2c:73:ec''] else ls))"
proof (cases "1 < length argv \<and> ok \<and> length (argv ! 1) < 16")
  case False
  then show ?thesis by (intro exI [of _ "- 1"]) (auto simp: get_mac_main_def not_less split: list.splits)
next
  case True
  then obtain a name rest where argv: "argv = a # name # rest" by (cases argv; cases "tl argv") auto
  let ?m = "Some (map (\<lambda>c. of_char c) name @ replicate (40 - length name) 0)"
  obtain r m where r: "real 3 SIOCGIFHWADDR ?m = (r, m)" by (cases "real 3 SIOCGIFHWADDR ?m")
  have p: "preloaded real SIOCGIFHWADDR ?m = Some (faked SIOCGIFHWADDR (r, m))"
    using ioctl_faked [OF assms(1), of False 3 SIOCGIFHWADDR ?m] r by (simp add: preloaded_def)
  have mac: "hex_mac fake_mac = ''b3:26:83:2c:73:ec''"
    by code_simp
  from assms(2) r have "r \<le> 0" by (metis fst_conv)
  then consider "r < 0" | "r = 0" by linarith
  then show ?thesis
  proof cases
    case 1
    then show ?thesis using True argv r p by (auto simp: get_mac_main_def direct_def faked_def Let_def)
  next
    case 2
    with assms(1) r obtain x where x: "m = Some x" "length x = 40" unfolding fills_ifreq_def by (metis fst_conv snd_conv)
    have "take 6 (drop 18 (take 18 x @ fake_mac @ drop 24 x)) = fake_mac" using x(2) by (simp add: fake_mac_def)
    with 2 x True argv r p mac show ?thesis
      by (auto simp: get_mac_main_def direct_def faked_def Let_def hwaddr_at_def fake_mac_def)
  qed
qed

theorem get_mac_hooked_witness:
  "get_mac_main True (preloaded (\<lambda>fd rq argp. (0, Some (replicate 40 1)))) [''get_mac'', ''eno0''] =
    Some (0, [Interface ''eno0'', Mac_address ''b3:26:83:2c:73:ec''])"
proof -
  have "fills_ifreq (\<lambda>fd rq argp. (0, Some (replicate 40 1)))" "\<forall>rq m. fst ((\<lambda>fd rq argp. (0, Some (replicate 40 1))) (3::int) (rq::64 word) (m::mem)) \<le> (0::int)"
    by (simp_all add: fills_ifreq_def)
  from get_mac_hooked [OF this, of True "[''get_mac'', ''eno0'']"] show ?thesis
    by (auto simp: get_mac_main_def direct_def Let_def hwaddr_at_def)
qed

section \<open>Reading the configuration file\<close>

text \<open>
  The outcomes of the calls: what the file holds, \<open>None\<close> when it cannot be opened; the two seeks; the position at
  the end, negative on an error; the allocation; and how many bytes are read.
\<close>

record file_env =
  contents :: "string option"
  seek_end_ok :: bool
  tell :: int
  seek_set_ok :: bool
  malloc_ok :: bool
  nread :: nat

text \<open>The result: the buffer, if any, how often it was freed, and whether the file is still open.\<close>

record file_res =
  content :: "string option"
  frees :: nat
  is_open :: bool

definition read_file :: "file_env \<Rightarrow> file_res option" where
  "read_file e =
     (let cleanup = (\<lambda>c n. Some \<lparr>content = c, frees = n, is_open = False\<rparr>) in
      case contents e of None \<Rightarrow> cleanup None 0
      | Some cs \<Rightarrow>
        if \<not> seek_end_ok e then cleanup None 0
        else let len = tell e in
          if len < 0 then cleanup None 0
          else if \<not> seek_set_ok e then cleanup None 0
          else if \<not> malloc_ok e then cleanup None 0
          else let read_chars = nread e in
            if int read_chars \<noteq> len then cleanup None 1
            else if read_chars < nat len + 1 then cleanup (Some (take read_chars cs @ [CHR 0x00])) 0
            else None)"

definition parse_file :: "(string option \<Rightarrow> 'json option) \<Rightarrow> file_env \<Rightarrow> ('json option \<times> nat) option" where
  "parse_file cJSON_Parse e = do {
     res \<leftarrow> read_file e;
     Some (cJSON_Parse (content res), frees res + (if content res \<noteq> None then 1 else 0)) }"

text \<open>
  Reading never runs over the buffer and always closes the file; it delivers a terminated copy of the file if every
  call succeeds. Afterwards the buffer has been freed exactly as often as it was allocated.
\<close>

lemma read_file_ok:
  assumes "contents e \<noteq> None \<longrightarrow> nread e \<le> length (the (contents e))"
  shows "\<exists>res. read_file e = Some res \<and> \<not> is_open res \<and>
    content res = (if contents e \<noteq> None \<and> seek_end_ok e \<and> seek_set_ok e \<and> malloc_ok e \<and> tell e = int (nread e)
      then Some (take (nread e) (the (contents e)) @ [CHR 0x00]) else None)"
  using assms by (auto simp: read_file_def Let_def split: option.splits)

lemma parse_file_frees:
  "\<exists>j. parse_file p e = Some (j, if contents e \<noteq> None \<and> seek_end_ok e \<and> 0 \<le> tell e \<and> seek_set_ok e \<and> malloc_ok e then 1 else 0)"
  by (auto simp: parse_file_def read_file_def Let_def split: option.splits)

section \<open>Taking the configuration over\<close>

text \<open>
  \<open>parse_config_file\<close> does not compile: the table it fills has no field \<open>name\<close>, and \<open>tz_type\<close> and \<open>thermal_type\<close> are declared
  nowhere. It is modelled with what they must mean for the loop to have a sense: the names of the table are strings, \<open>tz_type\<close>
  is the item \<open>ifr_name\<close> and \<open>thermal_type\<close> the item \<open>mac\<close>. The JSON library is a parameter: the item of a name in an object, the elements of an
  array, and whether an item is a string and which; and so is \<open>strdup\<close>.
\<close>

record 'j cjson =
  get_item :: "'j option \<Rightarrow> string \<Rightarrow> 'j option"
  elements :: "'j option \<Rightarrow> 'j list"
  is_string :: "'j option \<Rightarrow> bool"
  valuestring :: "'j option \<Rightarrow> string"

definition tolower :: "char \<Rightarrow> char" where
  "tolower c = (if (65 :: nat) \<le> of_char c \<and> of_char c \<le> (90 :: nat) then char_of (of_char c + 32 :: nat) else c)"

definition strcasecmp_eq :: "string \<Rightarrow> string \<Rightarrow> bool" where
  "strcasecmp_eq a b \<longleftrightarrow> map tolower a = map tolower b"

text \<open>The inner loop over the table, from entry \<open>i\<close>; comparing with a null name is undefined.\<close>

function rename_from :: "(string \<Rightarrow> string option) \<Rightarrow> string \<Rightarrow> string \<Rightarrow> int \<Rightarrow> int \<Rightarrow> string option list \<Rightarrow> string option list option" where
  "rename_from strdup ifr mac len i table =
     (if i < len then do {
        entry \<leftarrow> rd table i;
        name \<leftarrow> entry;
        if \<not> strcasecmp_eq name ifr then rename_from strdup ifr mac len (i + 1) table
        else do { table \<leftarrow> wr table i (strdup mac); rename_from strdup ifr mac len (i + 1) table } }
      else Some table)"
  by auto
termination
  by (relation "measure (\<lambda>(strdup, ifr, mac, len, i, table). nat (len - i))") auto

declare rename_from.simps [simp del]

text \<open>The loop over the elements: the return value, the table, and the mappings printed.\<close>

fun sensor_loop :: "'j cjson \<Rightarrow> (string \<Rightarrow> string option) \<Rightarrow> int \<Rightarrow> 'j list \<Rightarrow> string option list \<Rightarrow>
    (int \<times> string option list \<times> (string \<times> string) list) option" where
  "sensor_loop cj strdup len [] table = Some (0, table, [])"
| "sensor_loop cj strdup len (sensor # sensors) table =
     (let ifr_name = get_item cj (Some sensor) ''ifr_name''; mac = get_item cj (Some sensor) ''mac'' in
      if \<not> is_string cj ifr_name then Some (- EINVAL, table, [])
      else if \<not> is_string cj mac then Some (- EINVAL, table, [])
      else do {
        table \<leftarrow> rename_from strdup (valuestring cj ifr_name) (valuestring cj mac) len 0 table;
        (r, table, ps) \<leftarrow> sensor_loop cj strdup len sensors table;
        Some (r, table, (valuestring cj ifr_name, valuestring cj mac) # ps) })"

text \<open>The whole function; the last number counts the strings \<open>cJSON_Print\<close> made, which nobody frees.\<close>

definition parse_config_file ::
    "'j cjson \<Rightarrow> (string option \<Rightarrow> 'j option) \<Rightarrow> (string \<Rightarrow> string option) \<Rightarrow> file_env \<Rightarrow> string option list \<Rightarrow> int \<Rightarrow>
     (int \<times> string option list \<times> (string \<times> string) list \<times> nat) option" where
  "parse_config_file cj cJSON_Parse strdup e table len = do {
     (tree, _) \<leftarrow> parse_file cJSON_Parse e;
     if tree = None then Some (- EINVAL, table, [], 0)
     else do {
       let sensors = get_item cj tree ''mac'';
       (r, table, ps) \<leftarrow> sensor_loop cj strdup len (elements cj sensors) table;
       Some (r, table, ps, 1) } }"

text \<open>What a mapping makes of a name, and the mapping an element holds, if it is well formed.\<close>

definition renamed :: "string \<times> string \<Rightarrow> string \<Rightarrow> string" where
  "renamed p name = (if strcasecmp_eq name (fst p) then snd p else name)"

definition mapping :: "'j cjson \<Rightarrow> 'j \<Rightarrow> (string \<times> string) option" where
  "mapping cj j = (let n = get_item cj (Some j) ''ifr_name''; m = get_item cj (Some j) ''mac'' in
     if is_string cj n \<and> is_string cj m then Some (valuestring cj n, valuestring cj m) else None)"

lemma rename_from_eq:
  "rename_from Some ifr mac (int (length front + length names)) (int (length front)) (front @ map Some names) =
    Some (front @ map (Some \<circ> renamed (ifr, mac)) names)"
proof (induction names arbitrary: "front")
  case Nil
  then show ?case by (simp add: rename_from.simps)
next
  case (Cons n ns)
  have r: "rd (front @ Some n # map Some ns) (int (length front)) = Some (Some n)" by (simp add: rd_mid)
  have w: "wr (front @ Some n # map Some ns) (int (length front)) (Some mac) = Some (front @ Some mac # map Some ns)"
    by (simp add: wr_mid)
  from Cons.IH [of "front @ [Some (renamed (ifr, mac) n)]"] r w show ?case
    by (subst rename_from.simps) (auto simp: renamed_def add.assoc add.commute)
qed

text \<open>
  With a table of \<open>len\<close> names and enough memory the function is defined for every file: it takes the
  elements in their order until one is not well formed, which makes the result \<open>-EINVAL\<close>, and a mapping replaces
  the name in the table by the address, which later mappings then compare with.
\<close>

lemma sensor_loop_eq:
  "sensor_loop cj Some (int (length names)) js (map Some names) =
    (let ps = map (the \<circ> mapping cj) (takeWhile (\<lambda>j. mapping cj j \<noteq> None) js) in
     Some (if (\<forall>j\<in>set js. mapping cj j \<noteq> None) then 0 else - EINVAL, map (Some \<circ> fold renamed ps) names, ps))"
proof (induction js arbitrary: names)
  case Nil
  then show ?case by (simp add: comp_def)
next
  case (Cons j js)
  show ?case
  proof (cases "mapping cj j")
    case None
    then show ?thesis by (auto simp: mapping_def Let_def comp_def split: if_splits)
  next
    case (Some p)
    then have p: "is_string cj (get_item cj (Some j) ''ifr_name'')" "is_string cj (get_item cj (Some j) ''mac'')"
      "p = (valuestring cj (get_item cj (Some j) ''ifr_name''), valuestring cj (get_item cj (Some j) ''mac''))"
      by (auto simp: mapping_def Let_def split: if_splits)
    have "rename_from Some (fst p) (snd p) (int (length names)) 0 (map Some names) = Some (map Some (map (renamed p) names))"
      using rename_from_eq [of "fst p" "snd p" "[]" names] by (simp add: comp_def)
    with Cons.IH [of "map (renamed p) names"] Some p show ?thesis
      by (simp add: Let_def comp_def)
  qed
qed

section \<open>The hooks that are switched off\<close>

text \<open>
  Both files hold four more hooks, which \<open>#if 0\<close> keeps out of the library: three report the calls
  they pass on, the last one sets the clock back by 90 days. They have the shape of the hook of \<open>ioctl\<close>: the real function is looked up once, and following
  it when it was not found is undefined. The result has what is printed, the value, the memory, and whether the function is known.
\<close>

definition xstat :: "(string \<Rightarrow> 'b \<Rightarrow> int \<times> 'b) \<Rightarrow> bool \<Rightarrow> bool \<Rightarrow> string \<Rightarrow> 'b \<Rightarrow> ((string \<times> int) \<times> int \<times> 'b \<times> bool) option" where
  "xstat real sym_ok func_xstat pathname statbuf =
     (let func_xstat = (if \<not> func_xstat then sym_ok else func_xstat) in
      if \<not> func_xstat then None
      else (case real pathname statbuf of (retval, statbuf) \<Rightarrow> Some ((pathname, retval), retval, statbuf, func_xstat)))"

definition lxstat :: "(int \<Rightarrow> string \<Rightarrow> 'b \<Rightarrow> int \<times> 'b) \<Rightarrow> bool \<Rightarrow> bool \<Rightarrow> int \<Rightarrow> string \<Rightarrow> 'b \<Rightarrow> ((string \<times> int) \<times> int \<times> 'b \<times> bool) option" where
  "lxstat real sym_ok func_lxstat vers name buf =
     (let func_lxstat = (if \<not> func_lxstat then sym_ok else func_lxstat) in
      if \<not> func_lxstat then None
      else (case real vers name buf of (retval, buf) \<Rightarrow> Some ((name, retval), retval, buf, func_lxstat)))"

definition fstat :: "(int \<Rightarrow> 'b \<Rightarrow> int \<times> 'b) \<Rightarrow> bool \<Rightarrow> bool \<Rightarrow> int \<Rightarrow> 'b \<Rightarrow> ((int \<times> int) \<times> int \<times> 'b \<times> bool) option" where
  "fstat real sym_ok func_fstat fd buf =
     (let func_fstat = (if \<not> func_fstat then sym_ok else func_fstat) in
      if \<not> func_fstat then None
      else (case real fd buf of (retval, buf) \<Rightarrow> Some ((fd, retval), retval, buf, func_fstat)))"

definition gettimeofday :: "((int \<times> int) option \<Rightarrow> int \<times> (int \<times> int) option) \<Rightarrow> bool \<Rightarrow> bool \<Rightarrow> (int \<times> int) option \<Rightarrow>
    (int list \<times> int \<times> (int \<times> int) option \<times> bool) option" where
  "gettimeofday real sym_ok func_gettimeofday tv =
     (let func_gettimeofday = (if \<not> func_gettimeofday then sym_ok else func_gettimeofday) in
      if \<not> func_gettimeofday then None
      else (case real tv of (retval, tv) \<Rightarrow>
        if retval = 0 then do {
          (sec, usec) \<leftarrow> tv;
          sec' \<leftarrow> c_long (sec - 60 * 60 * 24 * 90);
          Some ([sec, sec'], retval, Some (sec', usec), func_gettimeofday) }
        else Some ([], retval, tv, func_gettimeofday)))"

text \<open>The copies in \<open>lib/hook.c\<close>.\<close>

definition lib_xstat :: "(string \<Rightarrow> 'b \<Rightarrow> int \<times> 'b) \<Rightarrow> bool \<Rightarrow> bool \<Rightarrow> string \<Rightarrow> 'b \<Rightarrow> ((string \<times> int) \<times> int \<times> 'b \<times> bool) option" where
  "lib_xstat real sym_ok func_xstat pathname statbuf =
     (let func_xstat = (if \<not> func_xstat then sym_ok else func_xstat) in
      if \<not> func_xstat then None
      else (case real pathname statbuf of (retval, statbuf) \<Rightarrow> Some ((pathname, retval), retval, statbuf, func_xstat)))"

definition lib_lxstat :: "(int \<Rightarrow> string \<Rightarrow> 'b \<Rightarrow> int \<times> 'b) \<Rightarrow> bool \<Rightarrow> bool \<Rightarrow> int \<Rightarrow> string \<Rightarrow> 'b \<Rightarrow> ((string \<times> int) \<times> int \<times> 'b \<times> bool) option" where
  "lib_lxstat real sym_ok func_lxstat vers name buf =
     (let func_lxstat = (if \<not> func_lxstat then sym_ok else func_lxstat) in
      if \<not> func_lxstat then None
      else (case real vers name buf of (retval, buf) \<Rightarrow> Some ((name, retval), retval, buf, func_lxstat)))"

definition lib_fstat :: "(int \<Rightarrow> 'b \<Rightarrow> int \<times> 'b) \<Rightarrow> bool \<Rightarrow> bool \<Rightarrow> int \<Rightarrow> 'b \<Rightarrow> ((int \<times> int) \<times> int \<times> 'b \<times> bool) option" where
  "lib_fstat real sym_ok func_fstat fd buf =
     (let func_fstat = (if \<not> func_fstat then sym_ok else func_fstat) in
      if \<not> func_fstat then None
      else (case real fd buf of (retval, buf) \<Rightarrow> Some ((fd, retval), retval, buf, func_fstat)))"

definition lib_gettimeofday :: "((int \<times> int) option \<Rightarrow> int \<times> (int \<times> int) option) \<Rightarrow> bool \<Rightarrow> bool \<Rightarrow> (int \<times> int) option \<Rightarrow>
    (int list \<times> int \<times> (int \<times> int) option \<times> bool) option" where
  "lib_gettimeofday real sym_ok func_gettimeofday tv =
     (let func_gettimeofday = (if \<not> func_gettimeofday then sym_ok else func_gettimeofday) in
      if \<not> func_gettimeofday then None
      else (case real tv of (retval, tv) \<Rightarrow>
        if retval = 0 then do {
          (sec, usec) \<leftarrow> tv;
          sec' \<leftarrow> c_long (sec - 60 * 60 * 24 * 90);
          Some ([sec, sec'], retval, Some (sec', usec), func_gettimeofday) }
        else Some ([], retval, tv, func_gettimeofday)))"

lemma lib_hooks: "lib_xstat = xstat" "lib_lxstat = lxstat" "lib_fstat = fstat" "lib_gettimeofday = gettimeofday"
  by (simp_all add: fun_eq_iff lib_xstat_def xstat_def lib_lxstat_def lxstat_def lib_fstat_def fstat_def
      lib_gettimeofday_def gettimeofday_def)

text \<open>The difference of two times is not changed by the hook, as long as both are later than 90 days after the smallest number.\<close>

lemma hooked_time:
  assumes "real tv = (0, Some (s, u))" and "LONG_MIN + 7776000 \<le> s" and "s \<le> LONG_MAX"
  shows "gettimeofday real True known tv = Some ([s, s - 7776000], 0, Some (s - 7776000, u), True)"
  using assms by (simp add: gettimeofday_def c_long_def in_long_def Let_def)

end
