(* ===== verification/Can.thy ===== *)
theory Can
  imports Kernel CString
begin

text \<open>
  The two programs of \<open>socket/can\<close>: \<open>cansend.c\<close> sends three frames, \<open>canrecv.c\<close> prints the frames it receives, through
  a filter if it is given an identifier. The outcomes of the system calls and the filter of the socket are
  parameters, and so is what stands in memory that is not initialised.
\<close>

section \<open>Frames\<close>

type_synonym u32 = "32 word"

definition CAN_EFF_FLAG :: u32 where "CAN_EFF_FLAG = 0x80000000"
definition CAN_RTR_FLAG :: u32 where "CAN_RTR_FLAG = 0x40000000"
definition CAN_ERR_FLAG :: u32 where "CAN_ERR_FLAG = 0x20000000"
definition CAN_ERR_MASK :: u32 where "CAN_ERR_MASK = 0x1FFFFFFF"

lemmas can_flags = CAN_EFF_FLAG_def CAN_RTR_FLAG_def CAN_ERR_FLAG_def CAN_ERR_MASK_def

record can_frame =
  can_id :: u32
  can_dlc :: byte
  data :: "byte list"

datatype frame_type = Standard | Extend | Remote | Error

definition frame_type_of :: "u32 \<Rightarrow> frame_type" where
  "frame_type_of cid =
     (if cid AND CAN_EFF_FLAG \<noteq> 0 then Extend
      else if cid AND CAN_RTR_FLAG \<noteq> 0 then Remote
      else if cid AND CAN_ERR_FLAG \<noteq> 0 then Error
      else Standard)"

section \<open>Sending\<close>

text \<open>The name of the port is copied into 16 bytes.\<close>

definition IFNAMSIZ :: nat where "IFNAMSIZ = 16"

definition frame_type_name :: "frame_type \<Rightarrow> string" where
  "frame_type_name t = (case t of Standard \<Rightarrow> ''Standard Frame'' | Extend \<Rightarrow> ''Extend Frame''
     | Remote \<Rightarrow> ''Remote Frame'' | Error \<Rightarrow> ''Error Frame'')"

datatype out_line = Usage | Perror string | SentFrame nat nat string
  | Filter u32 | Frame nat u32 byte byte byte | Kind frame_type

text \<open>The three frames; only the first bytes of the data are set, the others are what the memory held.\<close>

definition frames :: "byte list \<times> byte list \<times> byte list \<Rightarrow> can_frame list" where
  "frames junk = (case junk of (j0, j1, j2) \<Rightarrow>
     [\<lparr>can_id = 0x12, can_dlc = 2, data = [0x01, 0xAB] @ drop 2 j0\<rparr>,
      \<lparr>can_id = CAN_EFF_FLAG OR 0x12, can_dlc = 2, data = [0x02, 0xCD] @ drop 2 j1\<rparr>,
      \<lparr>can_id = CAN_RTR_FLAG OR 0x12, can_dlc = 0, data = j2\<rparr>])"

fun send_frames :: "(nat \<Rightarrow> bool) \<Rightarrow> nat \<Rightarrow> can_frame list \<Rightarrow> out_line list \<times> can_frame list" where
  "send_frames send_ok i [] = ([], [])"
| "send_frames send_ok i (f # fs) =
     (if \<not> send_ok i then ([Perror ''send frame''], [])
      else case send_frames send_ok (i + 1) fs of (outs, sent) \<Rightarrow>
        (SentFrame 1 i (frame_type_name (frame_type_of (can_id f))) # outs, f # sent))"

text \<open>The outcomes of opening the socket; a failing \<open>bind\<close> is ignored.\<close>

record can_env =
  sock_ok :: bool
  index_ok :: bool

definition cansend_main :: "can_env \<Rightarrow> (nat \<Rightarrow> bool) \<Rightarrow> byte list \<times> byte list \<times> byte list \<Rightarrow> string list \<Rightarrow>
    (int \<times> out_line list \<times> can_frame list) option" where
  "cansend_main e send_ok junk argv =
     (case argv of
        _ # port # _ \<Rightarrow>
          if \<not> sock_ok e then Some (- 1, [Perror ''socket''], [])
          else if IFNAMSIZ \<le> length port then None
          else if \<not> index_ok e then Some (- 1, [Perror ''ioctl''], [])
          else (case send_frames send_ok 0 (frames junk) of (outs, sent) \<Rightarrow> Some (0, outs, sent))
      | _ \<Rightarrow> Some (- 1, [Usage], []))"

section \<open>Receiving\<close>

text \<open>The loop over what the calls of \<open>recv\<close> return, \<open>None\<close> for an error.\<close>

fun recv_frames :: "nat \<Rightarrow> can_frame option list \<Rightarrow> out_line list option" where
  "recv_frames cycle [] = Some []"
| "recv_frames cycle (None # fs) = map_option ((#) (Perror ''recv'')) (recv_frames cycle fs)"
| "recv_frames cycle (Some f # fs) = do {
     d0 \<leftarrow> rd (data f) 0;
     d1 \<leftarrow> rd (data f) 1;
     outs \<leftarrow> recv_frames (cycle + 1) fs;
     Some ([Frame cycle (can_id f) (can_dlc f) d0 d1, Kind (frame_type_of (can_id f))] @ outs) }"

text \<open>
  The filter the program sets is a value and a mask; \<open>received\<close> is what the calls of \<open>recv\<close> return for a socket
  with that filter, or with none. The program runs on when the frames are used up: the last part of the result.
\<close>

definition canrecv_main :: "can_env \<Rightarrow> ((u32 \<times> u32) option \<Rightarrow> can_frame option list) \<Rightarrow> string list \<Rightarrow>
    (int \<times> out_line list \<times> bool) option" where
  "canrecv_main e received argv =
     (case argv of
        _ # port # args \<Rightarrow>
          if \<not> sock_ok e then Some (- 1, [Perror ''socket''], False)
          else if IFNAMSIZ \<le> length port then None
          else if \<not> index_ok e then Some (- 1, [Perror ''ioctl''], False)
          else (case args of
              [] \<Rightarrow> map_option (\<lambda>outs. (0, outs, True)) (recv_frames 0 (received None))
            | a # _ \<Rightarrow>
                let cid = word_of_int (strtoll16 a) in
                map_option (\<lambda>outs. (0, Filter cid # outs, True)) (recv_frames 0 (received (Some (cid, CAN_ERR_MASK)))))
      | _ \<Rightarrow> Some (- 1, [Usage], False))"

section \<open>One sends, the other receives\<close>

text \<open>
  What the socket layer documents: without a filter every frame that is no error message is received. A filter with a mask for the identifier, without
  the flags, compares a frame's identifier with the one of the filter under the mask; when the bit \<open>CAN_INV_FILTER\<close> is set in the
  identifier of the filter, the frames that do not match pass instead.
\<close>

definition CAN_INV_FILTER :: u32 where "CAN_INV_FILTER = 0x20000000"

definition selects :: "u32 \<Rightarrow> u32 \<Rightarrow> u32 \<Rightarrow> bool" where
  "selects cid msk frame_id \<longleftrightarrow> (if cid AND CAN_INV_FILTER = 0 then frame_id AND msk = cid AND msk else frame_id AND msk \<noteq> cid AND msk)"

definition filter_law :: "((u32 \<times> u32) option \<Rightarrow> can_frame \<Rightarrow> bool) \<Rightarrow> bool" where
  "filter_law passes \<longleftrightarrow> (\<forall>f. can_id f AND CAN_ERR_FLAG = 0 \<longrightarrow>
     passes None f \<and> (\<forall>cid msk. msk AND NOT CAN_ERR_MASK = 0 \<longrightarrow> (passes (Some (cid, msk)) f \<longleftrightarrow> selects cid msk (can_id f))))"

definition bus :: "((u32 \<times> u32) option \<Rightarrow> can_frame \<Rightarrow> bool) \<Rightarrow> can_frame list \<Rightarrow> (u32 \<times> u32) option \<Rightarrow> can_frame option list" where
  "bus passes fs flt = map Some (filter (passes flt) fs)"

text \<open>The identifiers that let all three frames through: 12 under the mask, or any other with the bit that inverts the filter.\<close>

definition admits :: "u32 \<Rightarrow> bool" where
  "admits cid \<longleftrightarrow> (cid AND CAN_ERR_MASK = 0x12) = (cid AND CAN_INV_FILTER = 0)"

lemma frames_pass:
  assumes "filter_law passes" and "f \<in> set (frames junk)"
  shows "passes None f" and "passes (Some (cid, CAN_ERR_MASK)) f \<longleftrightarrow> admits cid"
proof -
  have f: "can_id f AND CAN_ERR_FLAG = 0" "can_id f AND CAN_ERR_MASK = 0x12"
    using assms(2) by (auto simp: frames_def can_flags split: prod.splits)
  have m: "CAN_ERR_MASK AND NOT CAN_ERR_MASK = 0" by simp
  from assms(1) f(1) show "passes None f" by (simp add: filter_law_def)
  from assms(1) f(1) m have "passes (Some (cid, CAN_ERR_MASK)) f \<longleftrightarrow> selects cid CAN_ERR_MASK (can_id f)"
    unfolding filter_law_def by blast
  also have "\<dots> \<longleftrightarrow> admits cid" unfolding selects_def admits_def f(2) by auto
  finally show "passes (Some (cid, CAN_ERR_MASK)) f \<longleftrightarrow> admits cid" .
qed

definition report :: "byte list \<Rightarrow> out_line list" where
  "report j2 = [Frame 0 0x12 2 0x01 0xAB, Kind Standard, Frame 1 0x80000012 2 0x02 0xCD, Kind Extend,
     Frame 2 0x40000012 0 (j2 ! 0) (j2 ! 1), Kind Remote]"

lemma recv_sent:
  assumes "length j2 = 8"
  shows "recv_frames 0 (map Some (frames (j0, j1, j2))) = Some (report j2)"
  using assms rd_in [of 0 j2] rd_in [of 1 j2]
  by (simp add: frames_def report_def rd_in frame_type_of_def can_flags)

text \<open>
  C40. When one program sends and the other receives, the receiver prints the three frames with their
  types, in order, if it has no filter. An identifier typed by the user goes into the filter as it is. The mask has no
  flags, so 12 lets the extended and the remote frame pass as well, and another identifier none of the three; but an identifier with the bit
  20000000 inverts the filter: 20000012 lets none of them pass, and 20000013, like every other with this bit, all three. The
  remote frame has no data, but the receiver prints its first two bytes, which are memory of the sender that was
  never written.
\<close>

theorem can_session:
  assumes "filter_law passes" and "length p < IFNAMSIZ" and "length q < IFNAMSIZ" and "length j2 = 8"
  defines "e \<equiv> \<lparr>sock_ok = True, index_ok = True\<rparr>"
  shows "\<exists>sent. cansend_main e (\<lambda>_. True) (j0, j1, j2) [a, p] =
      Some (0, [SentFrame 1 0 ''Standard Frame'', SentFrame 1 1 ''Extend Frame'', SentFrame 1 2 ''Remote Frame''], sent) \<and>
    canrecv_main e (bus passes sent) [b, q] = Some (0, report j2, True) \<and>
    canrecv_main e (bus passes sent) [b, q, s] = Some (0, Filter (word_of_int (strtoll16 s)) #
      (if admits (word_of_int (strtoll16 s)) then report j2 else []), True)"
proof (intro exI [of _ "frames (j0, j1, j2)"] conjI)
  let ?cid = "word_of_int (strtoll16 s) :: u32" and ?fs = "frames (j0, j1, j2)"
  show "cansend_main e (\<lambda>_. True) (j0, j1, j2) [a, p] =
      Some (0, [SentFrame 1 0 ''Standard Frame'', SentFrame 1 1 ''Extend Frame'', SentFrame 1 2 ''Remote Frame''], ?fs)"
    using assms(2) by (simp add: cansend_main_def e_def frames_def frame_type_of_def frame_type_name_def can_flags)
  have "filter (passes None) ?fs = ?fs" using frames_pass(1) [OF assms(1)] by (simp add: filter_id_conv)
  then show "canrecv_main e (bus passes ?fs) [b, q] = Some (0, report j2, True)"
    using assms(3) recv_sent [OF assms(4)] by (simp add: canrecv_main_def e_def bus_def)
  have "filter (passes (Some (?cid, CAN_ERR_MASK))) ?fs = (if admits ?cid then ?fs else [])"
    using frames_pass(2) [OF assms(1)] by (auto simp: filter_id_conv filter_empty_conv)
  then show "canrecv_main e (bus passes ?fs) [b, q, s] = Some (0, Filter ?cid # (if admits ?cid then report j2 else []), True)"
    using assms(3) recv_sent [OF assms(4), of j0 j1] by (simp add: canrecv_main_def e_def bus_def)
qed

theorem can_session_witness:
  "\<exists>sent. let passes = (\<lambda>flt f. case flt of None \<Rightarrow> True | Some (cid, msk) \<Rightarrow> selects cid msk (can_id f));
      all = [Frame 0 0x12 2 0x01 0xAB, Kind Standard, Frame 1 0x80000012 2 0x02 0xCD, Kind Extend,
        Frame 2 0x40000012 0 0x77 0x77, Kind Remote]; e = \<lparr>sock_ok = True, index_ok = True\<rparr> in
    canrecv_main e (bus passes sent) [''canrecv'', ''can0''] = Some (0, all, True) \<and>
    canrecv_main e (bus passes sent) [''canrecv'', ''can0'', ''20000013''] = Some (0, Filter 0x20000013 # all, True)"
proof -
  have law: "filter_law (\<lambda>flt f. case flt of None \<Rightarrow> True | Some (cid, msk) \<Rightarrow> selects cid msk (can_id f))"
    "length ''can0'' < IFNAMSIZ" "length (replicate 8 0x77 :: byte list) = 8"
    by (simp_all add: filter_law_def IFNAMSIZ_def)
  have "hexval (CHR ''0'') = Some 0" "hexval (CHR ''1'') = Some 1" "hexval (CHR ''2'') = Some 2" "hexval (CHR ''3'') = Some 3"
    by code_simp+
  then have "strtoll16 ''20000013'' = 0x20000013"
    by (simp add: strtoll16_def Let_def isspace_def strip_prefix_def hex_value_def)
  then have "admits (word_of_int (strtoll16 ''20000013''))" "word_of_int (strtoll16 ''20000013'') = (0x20000013 :: u32)"
    by (simp_all add: admits_def CAN_INV_FILTER_def CAN_ERR_MASK_def)
  with can_session [OF law(1,2,2,3), where ?j0.0 = "[]" and ?j1.0 = "[]" and a = "''cansend''" and b = "''canrecv''" and s = "''20000013''"]
  show ?thesis by (auto simp: report_def Let_def)
qed

end
