(* ===== verification/Raw.thy ===== *)
theory Raw
  imports Kernel
begin

text \<open>
  The programs of \<open>socket/raw\<close> on raw packets: \<open>client.c\<close> sends a packet that counts up for every key, \<open>server.c\<close>
  prints what it receives, \<open>send_recv.c\<close> sends a packet and takes what it receives for the next one. The outcomes of the
  system calls are parameters. A loop that does not end is \<open>None\<close>.
\<close>

section \<open>What they share\<close>

text \<open>Bytes are printed in hexadecimal, eight to a line.\<close>

datatype token = Hex byte | Line_end | Perror string | Block | Nonblock | Sending nat | Receiving nat

fun dump_from :: "nat \<Rightarrow> byte list \<Rightarrow> token list" where
  "dump_from i [] = []"
| "dump_from i (b # bs) = Hex b # (if (i + 1) mod 8 = 0 then [Line_end] else []) @ dump_from (i + 1) bs"

definition dump :: "byte list \<Rightarrow> token list" where
  "dump bs = dump_from 0 bs"

text \<open>
  Opening the socket: which calls fail, and whether it blocks. Only \<open>send_recv.c\<close> sets the interface to receive
  everything. The result is the output and whether the program goes on.
\<close>

record raw_env =
  sock_ok :: bool
  getflags_ok :: bool
  setflags_ok :: bool
  index_ok :: bool
  bind_ok :: bool
  nonblock :: bool

definition open_raw :: "bool \<Rightarrow> raw_env \<Rightarrow> token list \<times> bool" where
  "open_raw promisc e =
     (if \<not> sock_ok e then ([Perror ''socket''], False)
      else if promisc \<and> \<not> getflags_ok e then ([Perror ''ioctl1''], False)
      else if promisc \<and> \<not> setflags_ok e then ([Perror ''ioctl1''], False)
      else if \<not> index_ok e then ([Perror ''ioctl3''], False)
      else if \<not> bind_ok e then ([Perror ''bind''], False)
      else ([if nonblock e then Nonblock else Block], True))"

section \<open>The client\<close>

definition BUF_SIZE :: nat where "BUF_SIZE = 16"

definition client_buf :: "byte list" where
  "client_buf = [0, 1, 2, 3, 4, 5, 6, 7, 8, 9, 10, 0, 0, 0, 0, 0]"

text \<open>
  The loop, over the characters that are typed, of which only a zero byte ends it (the end of the input does not); \<open>sends i\<close> is what
  the \<open>i\<close>-th call of \<open>send\<close> returns. The second part of the result are the packets that were sent.
\<close>

fun client_loop :: "(nat \<Rightarrow> int) \<Rightarrow> nat \<Rightarrow> byte list \<Rightarrow> string \<Rightarrow> (token list \<times> byte list list) option" where
  "client_loop sends i buf [] = None"
| "client_loop sends i buf (c # cs) =
     (if c = CHR 0x00 then Some ([], [])
      else if sends i \<le> 0
      then map_option (\<lambda>(outs, pk). (Perror ''send'' # outs, pk)) (client_loop sends (i + 1) buf cs)
      else if sends i > int (length buf) then None
      else map_option (\<lambda>(outs, pk). (Sending (nat (sends i)) # dump (take (nat (sends i)) buf) @ outs, buf # pk))
        (client_loop sends (i + 1) (map (\<lambda>b. b + 1) buf) cs))"

definition client_main :: "raw_env \<Rightarrow> (nat \<Rightarrow> int) \<Rightarrow> string \<Rightarrow> (int \<times> token list \<times> byte list list) option" where
  "client_main e sends inp = (case open_raw False e of (o1, go) \<Rightarrow>
     if \<not> go then Some (- 1, o1, [])
     else map_option (\<lambda>(outs, pk). (0, o1 @ outs, pk)) (client_loop sends 0 client_buf inp))"

section \<open>The server\<close>

definition SERVER_BUF_SIZE :: nat where "SERVER_BUF_SIZE = 64"

text \<open>The loop over what \<open>recv\<close> delivers; nothing, and an error, are the same to it.\<close>

fun server_loop :: "byte list list \<Rightarrow> token list" where
  "server_loop [] = []"
| "server_loop (p # ps) =
     (let p = take SERVER_BUF_SIZE p in
      if p = [] then Perror ''recv'' # server_loop ps else Receiving (length p) # dump p @ server_loop ps)"

definition server_main :: "raw_env \<Rightarrow> byte list list \<Rightarrow> int \<times> token list \<times> bool" where
  "server_main e ps = (case open_raw False e of (o1, go) \<Rightarrow>
     if \<not> go then (- 1, o1, False) else (0, o1 @ server_loop ps, True))"

section \<open>Sending and receiving in turns\<close>

definition send_recv_buf :: "byte list" where
  "send_recv_buf = [0, 1, 2, 3, 4, 5, 6, 7, 8, 9, 10, 11, 12, 13, 14, 15]"

text \<open>What arrives is put into a buffer of zeros. \<open>recvs i buf\<close> is what arrives after the \<open>i\<close>-th packet was sent.\<close>

definition fill :: "byte list \<Rightarrow> byte list" where
  "fill p = take BUF_SIZE p @ replicate (BUF_SIZE - length p) 0"

fun send_recv_loop :: "(nat \<Rightarrow> int) \<Rightarrow> (nat \<Rightarrow> byte list \<Rightarrow> byte list) \<Rightarrow> nat \<Rightarrow> byte list \<Rightarrow> string \<Rightarrow>
    (token list \<times> byte list list) option" where
  "send_recv_loop sends recvs i buf [] = None"
| "send_recv_loop sends recvs i buf (c # cs) =
     (if c = CHR 0x00 then Some ([], [])
      else if sends i \<le> 0
      then map_option (\<lambda>(outs, pk). (Perror ''send'' # outs, pk)) (send_recv_loop sends recvs (i + 1) buf cs)
      else if sends i > int (length buf) then None
      else
        let o1 = Sending (nat (sends i)) # dump (take (nat (sends i)) buf);
            p = take BUF_SIZE (recvs i buf);
            o2 = (if p = [] then [Perror ''recv''] else Receiving (length p) # dump p) in
        map_option (\<lambda>(outs, pk). (o1 @ o2 @ outs, buf # pk)) (send_recv_loop sends recvs (i + 1) (fill p) cs))"

definition send_recv_main :: "raw_env \<Rightarrow> (nat \<Rightarrow> int) \<Rightarrow> (nat \<Rightarrow> byte list \<Rightarrow> byte list) \<Rightarrow> string \<Rightarrow>
    (int \<times> token list \<times> byte list list) option" where
  "send_recv_main e sends recvs inp = (case open_raw True e of (o1, go) \<Rightarrow>
     if \<not> go then Some (- 1, o1, [])
     else map_option (\<lambda>(outs, pk). (0, o1 @ outs, pk)) (send_recv_loop sends recvs 0 send_recv_buf inp))"

section \<open>Which packets are sent\<close>

text \<open>The positions of the keys whose packet was sent.\<close>

definition sent_at :: "(nat \<Rightarrow> int) \<Rightarrow> nat \<Rightarrow> nat \<Rightarrow> nat list" where
  "sent_at sends i n = filter (\<lambda>j. 0 < sends j) [i..<i + n]"

lemma sent_at_Suc: "sent_at sends i (Suc n) = (if 0 < sends i then [i] else []) @ sent_at sends (i + 1) n"
proof -
  have "[i..<i + Suc n] = i # [i + 1..<i + 1 + n]" by (subst upt_conv_Cons) simp_all
  then show ?thesis by (simp add: sent_at_def)
qed

lemma client_packets:
  assumes "\<forall>i. sends i \<le> 16" and "CHR 0x00 \<notin> set ks"
  shows "length buf = 16 \<Longrightarrow> \<exists>outs. client_loop sends i buf (ks @ CHR 0x00 # rest) =
    Some (outs, map (\<lambda>k. map (\<lambda>b. b + of_nat k) buf) [0..<length (sent_at sends i (length ks))])"
  using assms(2)
proof (induction ks arbitrary: i buf)
  case Nil
  then show ?case by (simp add: sent_at_def)
next
  case (Cons c ks)
  have shift: "map f [0..<Suc n] = f 0 # map (\<lambda>k. f (k + 1)) [0..<n]" for f :: "nat \<Rightarrow> byte list" and n
    by (simp add: upt_conv_Cons flip: map_Suc_upt del: upt_Suc)
  show ?case
  proof (cases "0 < sends i")
    case True
    from Cons.IH [of "map (\<lambda>b. b + 1) buf" "i + 1"] Cons.prems obtain outs where
      "client_loop sends (i + 1) (map (\<lambda>b. b + 1) buf) (ks @ CHR 0x00 # rest) =
        Some (outs, map (\<lambda>k. map (\<lambda>b. b + of_nat k) (map (\<lambda>b. b + 1) buf)) [0..<length (sent_at sends (i + 1) (length ks))])" by auto
    moreover have "map (\<lambda>b. b + of_nat k) (map (\<lambda>b. b + 1) buf) = map (\<lambda>b. b + of_nat (k + 1)) buf" for k by simp
    ultimately show ?thesis using True Cons.prems spec [OF assms(1), of i]
      by (auto simp: sent_at_Suc shift simp del: upt_Suc map_map)
  next
    case False
    from Cons.IH [of buf "i + 1"] Cons.prems obtain outs where
      "client_loop sends (i + 1) buf (ks @ CHR 0x00 # rest) =
        Some (outs, map (\<lambda>k. map (\<lambda>b. b + of_nat k) buf) [0..<length (sent_at sends (i + 1) (length ks))])" by auto
    then show ?thesis using False Cons.prems by (auto simp: sent_at_Suc)
  qed
qed

text \<open>When nothing comes back the buffer is empty from then on: a failing receive leaves zeros to send.\<close>

lemma send_recv_zeros:
  assumes "\<forall>i. 0 < sends i \<and> sends i \<le> 16" and "recvs i buf = []" and "CHR 0x00 \<notin> set (c # ks)" and "length buf = 16"
    and "\<forall>j>i. recvs j (replicate 16 0) = replicate 16 0"
  shows "\<exists>outs. send_recv_loop sends recvs i buf (c # ks @ CHR 0x00 # rest) = Some (outs, buf # replicate (length ks) (replicate 16 0))"
proof -
  have "i < j \<Longrightarrow> CHR 0x00 \<notin> set ks \<Longrightarrow> \<exists>outs. send_recv_loop sends recvs j (replicate 16 0) (ks @ CHR 0x00 # rest) =
      Some (outs, replicate (length ks) (replicate 16 0))" for j
  proof (induction ks arbitrary: j)
    case (Cons k ks)
    then obtain outs where "send_recv_loop sends recvs (j + 1) (replicate 16 0) (ks @ CHR 0x00 # rest) =
        Some (outs, replicate (length ks) (replicate 16 0))" by force
    moreover have "\<not> sends j \<le> 0" "sends j \<le> 16" using assms(1) by (auto simp: not_le)
    moreover have "recvs j (replicate 16 0) = replicate 16 0" using Cons.prems(1) assms(5) by blast
    moreover have "fill (replicate 16 0) = replicate 16 0" by (simp add: fill_def BUF_SIZE_def)
    ultimately show ?case using Cons.prems(2) by (auto simp: BUF_SIZE_def Let_def)
  qed simp
  from this [of "i + 1"] assms(3) obtain outs where "send_recv_loop sends recvs (i + 1) (replicate 16 0) (ks @ CHR 0x00 # rest) =
      Some (outs, replicate (length ks) (replicate 16 0))" by auto
  moreover have "\<not> sends i \<le> 0" "sends i \<le> 16" using assms(1) by (auto simp: not_le)
  moreover have "fill [] = replicate 16 0" by (simp add: fill_def BUF_SIZE_def)
  ultimately show ?thesis using assms(2,3,4) by (auto simp: Let_def)
qed

text \<open>
  The client sends a packet for every key, up to a zero byte. The \<open>k\<close>-th packet that is sent is the first one
  with \<open>k\<close> added to every byte, which wraps at 256; a call that fails is reported and sends nothing, and does not count.
  At the end of the input the client does not stop.
\<close>

theorem raw_client_counts:
  assumes "sock_ok e" and "index_ok e" and "bind_ok e" and "\<forall>i. sends i \<le> 16" and "CHR 0x00 \<notin> set ks"
  shows "(\<exists>outs. client_main e sends (ks @ CHR 0x00 # rest) =
      Some (0, outs, map (\<lambda>k. map (\<lambda>b. b + of_nat k) client_buf) [0..<length (filter (\<lambda>j. 0 < sends j) [0..<length ks])])) \<and>
    client_main e sends ks = None"
proof
  from client_packets [OF assms(4,5), of client_buf 0 rest] obtain outs where
    "client_loop sends 0 client_buf (ks @ CHR 0x00 # rest) =
      Some (outs, map (\<lambda>k. map (\<lambda>b. b + of_nat k) client_buf) [0..<length (sent_at sends 0 (length ks))])"
    by (auto simp: client_buf_def)
  then show "\<exists>outs. client_main e sends (ks @ CHR 0x00 # rest) =
      Some (0, outs, map (\<lambda>k. map (\<lambda>b. b + of_nat k) client_buf) [0..<length (filter (\<lambda>j. 0 < sends j) [0..<length ks])])"
    using assms(1-3) by (simp add: client_main_def open_raw_def sent_at_def)
  have "client_loop sends i buf ks = None" for i buf
    using assms(5) by (induction ks arbitrary: i buf) auto
  then show "client_main e sends ks = None" using assms(1-3) by (simp add: client_main_def open_raw_def)
qed

theorem raw_client_counts_witness:
  "\<exists>outs. client_main \<lparr>sock_ok = True, getflags_ok = True, setflags_ok = True, index_ok = True, bind_ok = True, nonblock = False\<rparr>
      (\<lambda>i. if i = 0 then - 1 else 16) (''abc'' @ [CHR 0x00]) =
    Some (0, outs, [[0, 1, 2, 3, 4, 5, 6, 7, 8, 9, 10, 0, 0, 0, 0, 0], [1, 2, 3, 4, 5, 6, 7, 8, 9, 10, 11, 1, 1, 1, 1, 1]])"
proof -
  let ?e = "\<lparr>sock_ok = True, getflags_ok = True, setflags_ok = True, index_ok = True, bind_ok = True, nonblock = False\<rparr>"
  have "sock_ok ?e" "index_ok ?e" "bind_ok ?e" "\<forall>i. (if i = (0::nat) then - 1 else 16) \<le> (16::int)" "CHR 0x00 \<notin> set ''abc''"
    by simp_all
  from raw_client_counts [OF this, of "[]"] show ?thesis
    by (simp add: client_buf_def upt_conv_Cons eval_nat_numeral)
qed

end
