(* ===== verification/Probes.thy ===== *)
theory Probes
  imports RetProbe
begin

text \<open>
  Three small modules that look at the machine: \<open>backtrace/probe_backtrace.c\<close> measures a function of the kernel
  with a return probe, \<open>hw_breakpoint/hw_breakpoint.c\<close> sets a breakpoint on every processor, and
  \<open>regrw_single\<close> with \<open>regrw_multi\<close> read and change registers of a device.
\<close>

section \<open>The return probe\<close>

text \<open>
  The entry handler: the result, 1 to skip the activation, and the time it notes. Kernel threads have
  no memory of their own. The handler at the return prints the function, its value and the duration, 64 bits.
\<close>

definition entry_handler :: "bool \<Rightarrow> 64 word \<Rightarrow> int \<times> 64 word option" where
  "entry_handler has_mm now = (if \<not> has_mm then (1, None) else (0, Some now))"

record report =
  func_name :: string
  retval :: "64 word"
  delta :: int

definition ret_handler :: "string \<Rightarrow> 64 word \<Rightarrow> 64 word \<Rightarrow> 64 word \<Rightarrow> report" where
  "ret_handler func entry_stamp now r = \<lparr>func_name = func, retval = r, delta = sint (now - entry_stamp)\<rparr>"

text \<open>Loading: any error of the registration becomes \<open>- 1\<close>. The result and whether the probe is planted.\<close>

definition kretprobe_init :: "int \<Rightarrow> int \<times> bool" where
  "kretprobe_init ret = (if ret < 0 then (- 1, False) else (0, True))"

definition kretprobe_exit :: "bool \<Rightarrow> bool option" where
  "kretprobe_exit planted = (if planted then Some False else None)"

text \<open>
  An activation of the function, from entry to return: what is reported of it. The instance that the kernel
  hands to both handlers carries the time in between; an activation the entry handler skips has no report.
\<close>

definition activation :: "string \<Rightarrow> bool \<Rightarrow> 64 word \<Rightarrow> 64 word \<Rightarrow> 64 word \<Rightarrow> report option" where
  "activation f has_mm t t' r = map_option (\<lambda>d. ret_handler f d t' r) (snd (entry_handler has_mm t))"

lemma activation_delta:
  assumes "uint t \<le> uint t'" and "uint t' < 2 ^ 63"
  shows "activation f has_mm t t' r =
    (if has_mm then Some \<lparr>func_name = f, retval = r, delta = uint t' - uint t\<rparr> else None)"
proof -
  have "uint (t' - t) = uint t' - uint t" using assms(1) by (simp add: uint_sub_if')
  moreover have "- (2 ^ 63) \<le> uint t' - uint t" "uint t' - uint t < 2 ^ 63"
    using assms uint_ge_0 [of t] by linarith+
  ultimately have "sint (t' - t) = uint t' - uint t"
    by (simp add: sint_uint signed_take_bit_int_eq_self)
  then show ?thesis by (simp add: activation_def entry_handler_def ret_handler_def)
qed

text \<open>
  As a return probe: the time is kept in 64 bits, and the durations are exact as long as the clock needs 63 of them. The
  function is named by a parameter.
\<close>

definition probed_function :: string where
  "probed_function = ''_do_fork''"

definition my_kretprobe :: "(bool, 64 word) kretprobe" where
  "my_kretprobe = \<lparr>symbol_name = probed_function,
     handler = \<lambda>d r now. (let rep = ret_handler probed_function d (word_of_int now) r in (retval rep, delta rep)),
     entry_fn = \<lambda>has_mm now. (snd (entry_handler has_mm (word_of_int now)), 0), data_size = 8, maxactive = 20\<rparr>"

lemma word_clock: "0 \<le> t \<Longrightarrow> t \<le> t' \<Longrightarrow> t' < 2 ^ 63 \<Longrightarrow> sint (word_of_int t' - word_of_int t :: 64 word) = t' - t"
proof -
  assume t: "0 \<le> t" "t \<le> t'" "t' < 2 ^ 63"
  then have "uint (word_of_int t :: 64 word) = t" "uint (word_of_int t' :: 64 word) = t'"
    by (simp_all add: uint_word_of_int)
  with t activation_delta [of "word_of_int t" "word_of_int t'" "[]" True 0] show ?thesis
    by (simp add: activation_def entry_handler_def ret_handler_def)
qed

interpretation backtrace: return_probe my_kretprobe 0
  by unfold_locales (auto simp: my_kretprobe_def entry_handler_def ret_handler_def word_clock Let_def split: if_splits)

section \<open>Breakpoints\<close>

text \<open>
  \<open>test_bps\<close> of every processor; the kernel's events that are held. \<open>create_ok\<close> says on which processors an event can
  be created.
\<close>

record bps =
  test_bps :: "nat \<Rightarrow> bool"
  held :: "nat multiset"

fun create_on :: "(nat \<Rightarrow> bool) \<Rightarrow> nat list \<Rightarrow> bps \<Rightarrow> bps" where
  "create_on create_ok [] s = s"
| "create_on create_ok (c # cs) s =
     create_on create_ok cs
       (if create_ok c then s\<lparr>test_bps := (test_bps s)(c := True), held := acquire c (held s)\<rparr>
        else s\<lparr>test_bps := (test_bps s)(c := False)\<rparr>)"

definition hw_breakpoint_test_init :: "(nat \<Rightarrow> bool) \<Rightarrow> nat list \<Rightarrow> bps \<Rightarrow> int \<times> bps" where
  "hw_breakpoint_test_init create_ok online s = (0, create_on create_ok online s)"

fun release_on :: "nat list \<Rightarrow> bps \<Rightarrow> bps option" where
  "release_on [] s = Some s"
| "release_on (c # cs) s =
     (if test_bps s c then do { m \<leftarrow> release c (held s); release_on cs (s\<lparr>held := m\<rparr>) }
      else release_on cs s)"

definition hw_breakpoint_test_exit :: "nat list \<Rightarrow> bps \<Rightarrow> bps option" where
  "hw_breakpoint_test_exit online s = release_on online s"

text \<open>The handler continues four bytes behind the instruction that was stopped.\<close>

definition test_watch_handler :: "64 word \<Rightarrow> 64 word" where
  "test_watch_handler ip = ip + 4"

lemma create_on_eq:
  "distinct cs \<Longrightarrow> create_on ok cs s = s\<lparr>test_bps := (\<lambda>c. if c \<in> set cs then ok c else test_bps s c), held := held s + mset (filter ok cs)\<rparr>"
proof (induction cs arbitrary: s)
  case (Cons c cs)
  then show ?case
    by (auto simp: acquire_def fun_eq_iff intro!: arg_cong [where f = "\<lambda>f. \<lparr>test_bps = f, held = _\<rparr>"] bps.equality)
qed simp

lemma release_on_eq:
  "distinct cs \<Longrightarrow> \<forall>c\<in>set cs. test_bps s c \<longrightarrow> c \<in># held s \<Longrightarrow>
   release_on cs s = Some (s\<lparr>held := held s - mset (filter (test_bps s) cs)\<rparr>)"
proof (induction cs arbitrary: s)
  case (Cons c cs)
  show ?case
  proof (cases "test_bps s c")
    case True
    let ?s = "s\<lparr>held := held s - {#c#}\<rparr>"
    have "release_on cs ?s = Some (?s\<lparr>held := held ?s - mset (filter (test_bps ?s) cs)\<rparr>)"
      using Cons.prems by (intro Cons.IH) (auto simp: in_diff_count)
    with True Cons.prems show ?thesis by (simp add: release_def)
  qed (use Cons in simp)
qed simp

text \<open>
  Loading the module always succeeds, whatever breakpoints the kernel refuses. Unloading releases the events of the
  processors that are online then: an event of a processor that has gone offline since stays, with the handler of the
  module that is gone. Nothing is released twice or without having been created.
\<close>

theorem breakpoints_released:
  assumes "distinct online" and "distinct online'"
  defines "s0 \<equiv> \<lparr>test_bps = \<lambda>_. False, held = {#}\<rparr>"
  shows "\<exists>s s'. hw_breakpoint_test_init create_ok online s0 = (0, s) \<and> held s = mset (filter create_ok online) \<and>
    hw_breakpoint_test_exit online' s = Some s' \<and> held s' = mset (filter (\<lambda>c. create_ok c \<and> c \<notin> set online') online)"
proof -
  define s where "s = create_on create_ok online s0"
  have s: "test_bps s c = (c \<in> set online \<and> create_ok c)" "held s = mset (filter create_ok online)" for c
    using create_on_eq [OF assms(1), of create_ok s0] by (simp_all add: s_def s0_def)
  have "release_on online' s = Some (s\<lparr>held := held s - mset (filter (test_bps s) online')\<rparr>)"
    by (rule release_on_eq [OF assms(2)]) (simp add: s)
  moreover have "held s - mset (filter (test_bps s) online') = mset (filter (\<lambda>c. create_ok c \<and> c \<notin> set online') online)"
  proof (rule multiset_eqI)
    fix c :: nat
    have "count (mset xs) c = (if c \<in> set xs then 1 else 0)" if "distinct xs" for xs :: "nat list" using that
      by (simp add: distinct_count_atmost_1)
    then show "count (held s - mset (filter (test_bps s) online')) c =
        count (mset (filter (\<lambda>c. create_ok c \<and> c \<notin> set online') online)) c"
      using assms(1,2) by (simp add: s del: mset_filter)
  qed
  ultimately show ?thesis using s(2) by (simp add: hw_breakpoint_test_init_def hw_breakpoint_test_exit_def flip: s_def)
qed

theorem breakpoints_released_witness:
  "\<exists>s s'. hw_breakpoint_test_init (\<lambda>c. c \<noteq> 1) [0, 1, 2] \<lparr>test_bps = \<lambda>_. False, held = {#}\<rparr> = (0, s) \<and>
    hw_breakpoint_test_exit [0, 1] s = Some s' \<and> held s' = {#2#}"
proof -
  have "distinct [0, 1, 2 :: nat]" "distinct [0, 1 :: nat]" by simp_all
  from breakpoints_released [OF this, of "\<lambda>c. c \<noteq> 1"] show ?thesis by auto
qed

section \<open>Registers\<close>

text \<open>
  The registers are mapped from eight bytes on; beyond the page of the mapping an access is undefined,
  and so it is when nothing could be mapped. The device is a parameter: what a read of a register
  returns, and what a write does.
\<close>

definition ADDR_BASE :: nat where "ADDR_BASE = 0x28180200"
definition ADDR_SIZE :: nat where "ADDR_SIZE = 8"

record 'd device =
  reg_read :: "nat \<Rightarrow> 'd \<Rightarrow> 32 word \<times> 'd"
  reg_write :: "nat \<Rightarrow> 32 word \<Rightarrow> 'd \<Rightarrow> 'd"

text \<open>The number of bytes that can be accessed behind a mapping: the mapping is made of whole pages.\<close>

definition reachable_bytes :: "nat \<Rightarrow> nat \<Rightarrow> nat" where
  "reachable_bytes base n = (let first = base mod 4096 in (first + n + 4095) div 4096 * 4096 - first)"

definition rd32 :: "'d device \<Rightarrow> bool \<Rightarrow> nat \<Rightarrow> 'd \<Rightarrow> (32 word \<times> 'd) option" where
  "rd32 dev mapped i d =
     (if mapped \<and> 4 * i + 4 \<le> reachable_bytes ADDR_BASE ADDR_SIZE then Some (reg_read dev (ADDR_BASE + 4 * i) d) else None)"

definition wr32 :: "'d device \<Rightarrow> bool \<Rightarrow> nat \<Rightarrow> 32 word \<Rightarrow> 'd \<Rightarrow> 'd option" where
  "wr32 dev mapped i w d =
     (if mapped \<and> 4 * i + 4 \<le> reachable_bytes ADDR_BASE ADDR_SIZE then Some (reg_write dev (ADDR_BASE + 4 * i) w d) else None)"

text \<open>Loading, with the lines that are printed; \<open>mapped\<close> tells whether \<open>ioremap\<close> succeeds, which the code does not ask.\<close>

definition regrw_init :: "'d device \<Rightarrow> bool \<Rightarrow> 'd \<Rightarrow> (int \<times> (nat \<times> 32 word) list \<times> 'd) option" where
  "regrw_init dev mapped d = do {
     (a, d) \<leftarrow> rd32 dev mapped 0 d;
     (b, d) \<leftarrow> rd32 dev mapped 0 d;
     d \<leftarrow> wr32 dev mapped 0 (b OR 0x22000000) d;
     (c, d) \<leftarrow> rd32 dev mapped 0 d;
     (e, d) \<leftarrow> rd32 dev mapped 4 d;
     Some (0, [(0, a), (0, c), (4, e)], d) }"

definition regrw_exit :: "bool \<Rightarrow> bool option" where
  "regrw_exit mapped = (if mapped then Some False else None)"

text \<open>The module of two files is the same.\<close>

definition multi_regrw_init :: "'d device \<Rightarrow> bool \<Rightarrow> 'd \<Rightarrow> (int \<times> (nat \<times> 32 word) list \<times> 'd) option" where
  "multi_regrw_init dev mapped d = regrw_init dev mapped d"

definition multi_regrw_exit :: "bool \<Rightarrow> bool option" where
  "multi_regrw_exit mapped = regrw_exit mapped"

text \<open>A device whose registers are memory.\<close>

definition memory_device :: "(nat \<Rightarrow> 32 word) device" where
  "memory_device = \<lparr>reg_read = \<lambda>a m. (m a, m), reg_write = \<lambda>a w m. m(a := w)\<rparr>"

text \<open>
  On such a device the two bits are set in the first register and nothing else changes. The last
  line reads 16 bytes beyond the eight that were asked for, which only works because a mapping is made of
  whole pages; without a mapping the load crashes.
\<close>

lemma regrw_sets_bits:
  "regrw_init memory_device True m = Some (0, [(0, m ADDR_BASE), (0, m ADDR_BASE OR 0x22000000), (4, m (ADDR_BASE + 16))],
     m(ADDR_BASE := m ADDR_BASE OR 0x22000000)) \<and> \<not> 4 * 4 + 4 \<le> ADDR_SIZE \<and> regrw_init memory_device False m = None"
  by (simp add: regrw_init_def rd32_def wr32_def memory_device_def reachable_bytes_def ADDR_BASE_def ADDR_SIZE_def)

end
