(* ===== verification/Monitor.thy ===== *)
theory Monitor
  imports Kernel CString
begin

text \<open>
  Two programs that wait for something to happen: \<open>system_manager/service_monitor.c\<close> starts a service again
  whenever it ends, and \<open>socket/netlink.c\<close> prints the hotplug events of the kernel. What the system calls
  deliver is a parameter; a null byte is \<open>CHR 0x00\<close>.
\<close>

section \<open>Is a service running?\<close>

definition BUF_SIZE :: nat where "BUF_SIZE = 512"

text \<open>
  \<open>basename\<close> may change its argument: slashes at the end are cut off, unless there is nothing else.
\<close>

definition basename_effect :: "string \<Rightarrow> string" where
  "basename_effect s = (let t = rev (dropWhile (\<lambda>c. c = CHR ''/'') (rev s)) in if t = [] then s else t)"

text \<open>The loop over the lines of the listing; the buffer itself, not the name in it, is compared.\<close>

function is_running_loop :: "string \<Rightarrow> string \<Rightarrow> int" where
  "is_running_loop service inp = (case fgets BUF_SIZE inp of
     None \<Rightarrow> 0
   | Some (buf, inp') \<Rightarrow> if basename_effect (cstr buf) = service then 1 else is_running_loop service inp')"
  by auto
termination
  by (relation "measure (\<lambda>(_, inp). length inp)") (auto simp: BUF_SIZE_def dest: fgets_shorter)

declare is_running_loop.simps [simp del]

definition cmd :: "string \<Rightarrow> string" where
  "cmd service = ''ps -ef | grep '' @ service @ '' | grep -v grep | awk '' @ [CHR 0x27] @ ''{print $8}'' @ [CHR 0x27]"

text \<open>The command is written to a buffer of 512 bytes; \<open>popen\<close> delivers what the command prints.\<close>

definition is_running :: "(string \<Rightarrow> string option) \<Rightarrow> string \<Rightarrow> int option" where
  "is_running popen service =
     (if BUF_SIZE \<le> length (cmd service) then None
      else (case popen (cmd service) of None \<Rightarrow> Some (- 1) | Some inp \<Rightarrow> Some (is_running_loop service inp)))"

section \<open>The supervisor\<close>

datatype log = Started | Child_start | Child_exit int nat | Perror string | Countdown nat | Ignored string

definition WEXITSTATUS :: "nat \<Rightarrow> nat" where
  "WEXITSTATUS status = status div 256 mod 256"

text \<open>The handler of the three signals.\<close>

datatype signal = SIGINT | SIGTERM | SIGQUIT | Other

definition fun_handler :: "signal \<Rightarrow> log list" where
  "fun_handler sig =
     (if sig = SIGINT then [Ignored ''SIGINT''] else if sig = SIGTERM then [Ignored ''SIGTERM'']
      else if sig = SIGQUIT then [Ignored ''SIGQUIT''] else [])"

text \<open>The child: it becomes the service, or ends with 21.\<close>

definition child :: "bool \<Rightarrow> log list \<times> nat option" where
  "child exec_ok = (if exec_ok then ([Child_start], None) else ([Child_start, Perror ''execl failed''], Some 21))"

text \<open>
  A turn of the loop of the parent: the result of \<open>fork\<close>, and what \<open>wait\<close> returns and stores; on an error it stores
  nothing, and the status of an earlier turn is printed.
\<close>

record round =
  pid :: int
  waited :: int
  new_status :: "nat option"

fun monitor_loop :: "nat \<Rightarrow> round list \<Rightarrow> log list \<times> int option" where
  "monitor_loop status [] = ([], None)"
| "monitor_loop status (r # rs) =
     (if pid r < 0 then ([Perror ''fork failed''], Some 1)
      else
        let status = (case new_status r of None \<Rightarrow> status | Some st \<Rightarrow> st);
            o1 = (if waited r \<noteq> pid r then [Perror ''wait error''] else []);
            (outs, e) = monitor_loop status rs in
        (o1 @ [Child_exit (pid r) (WEXITSTATUS status)] @ map Countdown [5, 4, 3, 2, 1] @ outs, e))"

definition monitor_main :: "round list \<Rightarrow> log list \<times> int option" where
  "monitor_main rs = (case monitor_loop 0 rs of (outs, e) \<Rightarrow> (Started # outs, e))"

section \<open>What the monitor does\<close>

lemma dropWhile_id: "(\<And>c. xs \<noteq> [] \<Longrightarrow> \<not> P (hd xs)) \<Longrightarrow> dropWhile P xs = xs"
  by (cases xs) auto

lemma is_running_lines:
  assumes "newline \<notin> set service"
  shows "\<forall>l\<in>set ls. newline \<notin> set l \<and> CHR 0x00 \<notin> set l \<and> length l + 1 < BUF_SIZE \<Longrightarrow>
    is_running_loop service (concat (map (\<lambda>l. l @ [newline]) ls)) = 0"
proof (induction ls)
  case Nil
  then show ?case by (subst is_running_loop.simps) (simp add: fgets_def)
next
  case (Cons l ls)
  then have "fgets BUF_SIZE (concat (map (\<lambda>l. l @ [newline]) (l # ls))) = Some (l @ [newline], concat (map (\<lambda>l. l @ [newline]) ls))"
    "cstr (l @ [newline]) = l @ [newline]"
    by (auto simp: fgets_line intro: cstr_id)
  moreover have "basename_effect (l @ [newline]) = l @ [newline]" by (simp add: basename_effect_def)
  moreover have "l @ [newline] \<noteq> service" using assms by auto
  ultimately show ?case using Cons by (subst is_running_loop.simps) simp
qed

text \<open>
  The test whether a service is running always says no: it compares the line it has read, which still has its
  newline, with the name. So for every listing of lines of at most 510 characters, also one that
  holds exactly the name of the service, the answer is 0.
\<close>

theorem service_never_running:
  assumes "newline \<notin> set service" and "length (cmd service) < BUF_SIZE"
    and "\<forall>l\<in>set ls. newline \<notin> set l \<and> CHR 0x00 \<notin> set l \<and> length l + 1 < BUF_SIZE"
    and "popen (cmd service) = Some (concat (map (\<lambda>l. l @ [newline]) ls))"
  shows "is_running popen service = Some 0"
  using assms is_running_lines [OF assms(1,3)] by (simp add: is_running_def)

theorem service_never_running_witness:
  "is_running (\<lambda>_. Some (''/sda2/DCCU/dru'' @ [newline] @ ''dru'' @ [newline])) ''dru'' = Some 0"
proof -
  have "newline \<notin> set ''dru''" "length (cmd ''dru'') < BUF_SIZE"
    "\<forall>l\<in>set [''/sda2/DCCU/dru'', ''dru'']. newline \<notin> set l \<and> CHR 0x00 \<notin> set l \<and> length l + 1 < BUF_SIZE"
    by (simp_all add: cmd_def BUF_SIZE_def)
  from service_never_running [OF this, of "\<lambda>_. Some (''/sda2/DCCU/dru'' @ [newline] @ ''dru'' @ [newline])"]
  show ?thesis by simp
qed

text \<open>The supervisor starts the service again after every end, however it ended; only a failing \<open>fork\<close> stops it.\<close>

lemma monitor_restarts:
  "\<forall>r\<in>set rs. 0 < pid r \<and> waited r = pid r \<and> new_status r \<noteq> None \<Longrightarrow>
   monitor_main rs = (Started # concat (map (\<lambda>r. Child_exit (pid r) (WEXITSTATUS (the (new_status r))) # map Countdown [5, 4, 3, 2, 1]) rs), None)"
proof -
  assume a: "\<forall>r\<in>set rs. 0 < pid r \<and> waited r = pid r \<and> new_status r \<noteq> None"
  have "monitor_loop st rs = (concat (map (\<lambda>r. Child_exit (pid r) (WEXITSTATUS (the (new_status r))) # map Countdown [5, 4, 3, 2, 1]) rs), None)" for st
    using a by (induction rs arbitrary: st) auto
  then show ?thesis by (simp add: monitor_main_def)
qed

section \<open>Hotplug events\<close>

text \<open>
  The datagram in a zeroed buffer of 512 bytes; its strings are printed one after the other. A string that does not
  end in the buffer is read beyond it.
\<close>

definition netlink_buf :: "string \<Rightarrow> string" where
  "netlink_buf d = take 512 d @ replicate (512 - length d) (CHR 0x00)"

function print_strings :: "string \<Rightarrow> nat \<Rightarrow> nat \<Rightarrow> string list option" where
  "print_strings buf i len =
     (if i < len then
        (if CHR 0x00 \<in> set (drop i buf) then
           let s = cstr (drop i buf) in map_option ((#) s) (print_strings buf (i + length s + 1) len)
         else None)
      else Some [])"
  by auto
termination
  by (relation "measure (\<lambda>(_, i, len). len - i)") auto

declare print_strings.simps [simp del]

text \<open>
  The turns of the loop: what \<open>recv\<close> delivers, \<open>None\<close> for an error, which ends the program; it also
  ends when \<open>poll\<close> fails, here after the last turn.
\<close>

fun netlink_loop :: "string option list \<Rightarrow> (string list \<times> int) option" where
  "netlink_loop [] = Some ([''Poll''], 1)"
| "netlink_loop (None # ds) = Some ([''Recv''], 1)"
| "netlink_loop (Some d # ds) = do {
     ls \<leftarrow> print_strings (netlink_buf d) 0 (min 512 (length d));
     (outs, r) \<leftarrow> netlink_loop ds;
     Some (ls @ outs, r) }"

definition netlink_main :: "bool \<Rightarrow> bool \<Rightarrow> string option list \<Rightarrow> (string list \<times> int) option" where
  "netlink_main sock_ok bind_ok ds =
     (if \<not> sock_ok then Some ([''Not root''], 1) else if \<not> bind_ok then Some ([''Bind failed''], 1) else netlink_loop ds)"

text \<open>The kernel's events are strings that each end with a zero.\<close>

definition uevent :: "string list \<Rightarrow> string" where
  "uevent ss = concat (map (\<lambda>s. s @ [CHR 0x00]) ss)"

lemma print_uevent:
  "\<forall>s\<in>set ss. CHR 0x00 \<notin> set s \<Longrightarrow> drop i buf = uevent ss @ rest \<Longrightarrow> i \<le> length buf \<Longrightarrow> len = i + length (uevent ss) \<Longrightarrow>
   print_strings buf i len = Some ss"
proof (induction ss arbitrary: i)
  case Nil
  then show ?case by (subst print_strings.simps) (simp add: uevent_def)
next
  case (Cons s ss)
  have d: "drop i buf = s @ CHR 0x00 # uevent ss @ rest" using Cons.prems(2) by (simp add: uevent_def)
  then have "drop (i + length s + 1) buf = uevent ss @ rest"
    using drop_drop [of "length s + 1" i buf] by (simp add: add.commute add.left_commute)
  moreover have "i + length s + 1 \<le> length buf" using arg_cong [OF d, of length] Cons.prems(3) by simp
  moreover have "len = i + length s + 1 + length (uevent ss)" using Cons.prems(4) by (simp add: uevent_def)
  ultimately have "print_strings buf (i + length s + 1) len = Some ss" using Cons.IH [of "i + length s + 1"] Cons.prems(1) by simp
  moreover have "cstr (drop i buf) = s" using d cstr_append [of s "CHR 0x00 # uevent ss @ rest"] Cons.prems(1) by (simp add: cstr_def)
  ultimately show ?case using d Cons.prems(4)
    by (subst print_strings.simps) (simp add: uevent_def)
qed

lemma print_overrun:
  "i \<le> length buf \<Longrightarrow> buf \<noteq> [] \<Longrightarrow> last buf \<noteq> CHR 0x00 \<Longrightarrow> i < length buf \<Longrightarrow> print_strings buf i (length buf) = None"
proof (induction "length buf - i" arbitrary: i rule: less_induct)
  case less
  show ?case
  proof (cases "CHR 0x00 \<in> set (drop i buf)")
    case True
    from split_list_first [OF True] obtain s b where b: "drop i buf = s @ CHR 0x00 # b" "CHR 0x00 \<notin> set s" by blast
    then have s: "cstr (drop i buf) = s" using cstr_append [of s "CHR 0x00 # b"] by (simp add: cstr_def)
    have "b \<noteq> []"
    proof
      assume "b = []"
      then have "last (drop i buf) = CHR 0x00" using b(1) by simp
      with less.prems show False by simp
    qed
    moreover have "length buf = i + length s + 1 + length b" using arg_cong [OF b(1), of length] less.prems(4) by simp
    ultimately have "print_strings buf (i + length s + 1) (length buf) = None"
      using less.prems by (intro less.hyps) auto
    then show ?thesis using True less.prems(4) by (subst print_strings.simps) (simp add: s)
  qed (use less.prems in \<open>subst print_strings.simps, simp\<close>)
qed

text \<open>
  The program prints exactly the strings of every event that fits its buffer of 512 bytes, one event after the other, and
  ends with status 1 when the socket fails. But the events of the kernel may be longer, and one that is cut inside a string
  makes the program read beyond its buffer.
\<close>

theorem netlink_prints:
  assumes "\<forall>ss\<in>set evs. (\<forall>s\<in>set ss. CHR 0x00 \<notin> set s) \<and> length (uevent ss) \<le> 512"
    and "512 < length d" and "d ! 511 \<noteq> CHR 0x00"
  shows "netlink_main True True (map (\<lambda>ss. Some (uevent ss)) evs @ [None]) = Some (concat evs @ [''Recv''], 1) \<and>
    netlink_main True True (map (\<lambda>ss. Some (uevent ss)) evs @ Some d # ds) = None"
proof -
  have p: "netlink_loop (Some (uevent ss) # ds) = map_option (\<lambda>(outs, r). (ss @ outs, r)) (netlink_loop ds)"
    if "\<forall>s\<in>set ss. CHR 0x00 \<notin> set s" "length (uevent ss) \<le> 512" for ss ds
  proof -
    have "print_strings (netlink_buf (uevent ss)) 0 (length (uevent ss)) = Some ss"
      by (rule print_uevent [OF that(1), of 0 _ "replicate (512 - length (uevent ss)) (CHR 0x00)"])
        (use that(2) in \<open>simp_all add: netlink_buf_def\<close>)
    then show ?thesis using that(2) by (cases "netlink_loop ds") (auto simp: min_def)
  qed
  have "netlink_loop (Some d # ds) = None"
  proof -
    have b: "netlink_buf d = take 512 d" "length (netlink_buf d) = 512" using assms(2) by (simp_all add: netlink_buf_def)
    have "last (netlink_buf d) = d ! 511" using b(1) assms(2) by (subst last_conv_nth) auto
    then have "print_strings (netlink_buf d) 0 512 = None"
      using print_overrun [of 0 "netlink_buf d"] assms(3) b(2) by (cases "netlink_buf d") simp_all
    then show ?thesis using assms(2) by (simp add: min_def)
  qed
  then have "netlink_loop (map (\<lambda>ss. Some (uevent ss)) evs @ [None]) = Some (concat evs @ [''Recv''], 1) \<and>
    netlink_loop (map (\<lambda>ss. Some (uevent ss)) evs @ Some d # ds) = None"
    using assms(1) by (induction evs) (simp_all add: p del: netlink_loop.simps(3))
  then show ?thesis by (simp add: netlink_main_def)
qed

theorem netlink_prints_witness:
  "netlink_main True True [Some (uevent [''add@/devices/x'', ''ACTION=add'']), None] = Some ([''add@/devices/x'', ''ACTION=add'', ''Recv''], 1) \<and>
    netlink_main True True [Some (replicate 513 (CHR ''a''))] = None"
proof -
  have "length (uevent [''add@/devices/x'', ''ACTION=add'']) \<le> 512" by (simp add: uevent_def)
  then have 1: "\<forall>ss\<in>set [[''add@/devices/x'', ''ACTION=add'']]. (\<forall>s\<in>set ss. CHR 0x00 \<notin> set s) \<and> length (uevent ss) \<le> 512" by simp
  have 2: "512 < length (replicate 513 (CHR ''a''))" by simp
  have 3: "replicate 513 (CHR ''a'') ! 511 \<noteq> CHR 0x00" by (subst nth_replicate) simp_all
  from netlink_prints [OF 1 2 3, of "[]"] netlink_prints [OF _ 2 3, of "[]" "[]"] show ?thesis by simp
qed

end
