(* ===== verification/LinuxApp.thy ===== *)
theory LinuxApp
  imports Kernel CString
begin

text \<open>
  The short programs of \<open>linux_app\<close>, with \<open>hardware/watchdot_test.c\<close>, \<open>init_example\<close> and \<open>log/log.c\<close>. Several of
  them are about the buffer of the standard output: whether it is written out at the end of a program depends on
  how the program ends, and \<open>fork\<close> copies it. The outcomes of the system calls are parameters.
\<close>

section \<open>The standard output\<close>

text \<open>
  A terminal is written to at the end of every line; anything else only when the buffer, which is never full
  here, is flushed.
\<close>

record stdio =
  tty :: bool
  pending :: string
  shown :: string

definition fresh_out :: "bool \<Rightarrow> stdio" where
  "fresh_out t = \<lparr>tty = t, pending = [], shown = []\<rparr>"

definition full_lines :: "string \<Rightarrow> string" where
  "full_lines s = rev (dropWhile (\<lambda>c. c \<noteq> newline) (rev s))"

definition last_line :: "string \<Rightarrow> string" where
  "last_line s = rev (takeWhile (\<lambda>c. c \<noteq> newline) (rev s))"

definition put :: "string \<Rightarrow> stdio \<Rightarrow> stdio" where
  "put s st = (let p = pending st @ s in
     if tty st then st\<lparr>shown := shown st @ full_lines p, pending := last_line p\<rparr> else st\<lparr>pending := p\<rparr>)"

text \<open>What is seen when a program ends with \<open>exit\<close>, and when it ends without flushing.\<close>

definition at_exit :: "stdio \<Rightarrow> string" where
  "at_exit st = shown st @ pending st"

definition at_kill :: "stdio \<Rightarrow> string" where
  "at_kill st = shown st"

text \<open>A child starts with a copy of the buffer, and has shown nothing.\<close>

definition forked :: "stdio \<Rightarrow> stdio" where
  "forked st = st\<lparr>shown := []\<rparr>"

definition show_int :: "int \<Rightarrow> string" where
  "show_int i = (if i < 0 then ''-'' else []) @ digits_in 10 (nat \<bar>i\<bar>)"

lemma full_last: "full_lines s @ last_line s = s"
  by (simp add: full_lines_def last_line_def flip: rev_append)

lemma at_exit_put: "at_exit (put s st) = at_exit st @ s"
  by (simp add: put_def at_exit_def Let_def full_last)

lemma forked_line: "at_exit (forked (put (s @ [newline]) (fresh_out t))) = (if t then [] else s @ [newline])"
  by (simp add: at_exit_def forked_def put_def fresh_out_def last_line_def)

lemma killed_line: "at_kill (put s (put (a @ [newline]) (fresh_out t))) = (if t then a @ [newline] @ full_lines s else [])"
  by (simp add: at_kill_def put_def fresh_out_def full_lines_def last_line_def)

section \<open>Processes\<close>

text \<open>
  \<open>fork.c\<close>: what \<open>fork\<close> returns to the parent, and the two process numbers. The result is what the parent shows, its exit
  status, and what the child shows, if there is one.
\<close>

definition fork_line :: "int \<Rightarrow> int \<Rightarrow> int \<Rightarrow> string" where
  "fork_line pid glob var = ''pid = '' @ show_int pid @ '', glob = '' @ show_int glob @ '', var = '' @ show_int var @ [newline]"

definition fork_main :: "bool \<Rightarrow> int \<Rightarrow> int \<Rightarrow> string \<times> nat \<times> string option" where
  "fork_main t me ret =
     (let st = put (''before fork, getpid()='' @ show_int me @ [newline]) (fresh_out t) in
      if ret < 0 then (at_exit (put ''fork error'' st), 1, None)
      else
        let child = put (''After fork, in child process getpid()='' @ show_int ret @ '', pid='' @ show_int 0 @ [newline]) (forked st);
            parent = put (''After fork, in parent process getpid()='' @ show_int me @ '', pid='' @ show_int ret @ [newline]) st in
        (at_exit (put (fork_line me 6 88) parent), 0, Some (at_exit (put (fork_line ret (6 + 1) (88 + 1)) child))))"

text \<open>
  \<open>fork_exec_exit_wait.c\<close>: a child that becomes \<open>ls\<close> loses what it has not written; \<open>status\<close> is what \<open>wait\<close>
  stores, if it waits for the child.
\<close>

definition fork_exec_main :: "bool \<Rightarrow> int \<Rightarrow> bool \<Rightarrow> int \<Rightarrow> nat option \<Rightarrow> string \<times> nat \<times> (string \<times> nat option) option" where
  "fork_exec_main t ret exec_ok waited status =
     (if ret < 0 then ([], 1, None)
      else
        let ch = put ([newline] @ ''Child Process: execute '' @ [CHR 0x27] @ ''ls'' @ [CHR 0x27] @ '' command'' @ [newline] @ [newline]) (fresh_out t);
            st = (case status of None \<Rightarrow> 0 | Some s \<Rightarrow> s) in
        (at_exit (put ([newline] @ ''Parent Process: Child '' @ [CHR 0x27] @ ''ls'' @ [CHR 0x27] @ '' completed, exit with '' @
            show_int (int (st div 256 mod 256)) @ [newline] @ [newline]) (fresh_out t)), 0,
          Some (if exec_ok then (at_kill ch, None) else (at_exit ch, Some 21))))"

text \<open>\<open>exit.c\<close>: \<open>_exit\<close> neither flushes nor calls \<open>myexit\<close>.\<close>

definition exit_main :: "bool \<Rightarrow> string" where
  "exit_main t = at_kill (put ''Hello main 2nd.'' (put (''Hello main 1st.'' @ [newline]) (fresh_out t)))"

text \<open>\<open>singal.c\<close>: one signal is ignored, one keeps its default, which ends the program, three are printed.\<close>

datatype signal = SIGINT | SIGTERM | SIGQUIT | SIGUSR1 | SIGUSR2

definition fun_handler :: "signal \<Rightarrow> stdio \<Rightarrow> stdio" where
  "fun_handler sig st =
     (if sig = SIGQUIT then put (''Received SIGQUIT signal.'' @ [newline]) st
      else if sig = SIGUSR1 then put (''Received SIGUSR1 signal.'' @ [newline]) st
      else if sig = SIGUSR2 then put (''Received SIGUSR2 signal.'' @ [newline]) st
      else st)"

fun deliver :: "signal list \<Rightarrow> stdio \<Rightarrow> stdio \<times> bool" where
  "deliver [] st = (st, True)"
| "deliver (sig # sigs) st =
     (if sig = SIGINT then deliver sigs st
      else if sig = SIGTERM then (st, False)
      else deliver sigs (fun_handler sig st))"

definition signal_main :: "bool \<Rightarrow> signal list \<Rightarrow> string \<times> bool" where
  "signal_main t sigs = (case deliver sigs (put (''Main start.'' @ [newline]) (fresh_out t)) of (st, alive) \<Rightarrow> (at_kill st, alive))"

text \<open>
  \<open>daemon.c\<close>: a process ends with a status, or goes on; the daemon goes on for ever, in a state whose calls
  may have failed, which the code does not ask.
\<close>

record process =
  leader :: bool
  cwd :: string
  umask :: nat
  fds :: "nat list"

datatype fate = Exits nat | Runs process

definition daemon_main :: "int \<Rightarrow> bool \<Rightarrow> bool \<Rightarrow> nat \<Rightarrow> process \<Rightarrow> fate" where
  "daemon_main fork_ret setsid_ok chdir_ok dtablesize p =
     (if fork_ret < 0 then Exits 255
      else if fork_ret > 0 then Exits 0
      else
        let p = (if setsid_ok then p\<lparr>leader := True\<rparr> else p);
            p = (if chdir_ok then p\<lparr>cwd := ''/''\<rparr> else p);
            p = p\<lparr>umask := 0\<rparr> in
        Runs (p\<lparr>fds := filter (\<lambda>i. \<not> i < dtablesize) (fds p)\<rparr>))"

section \<open>Arguments, the environment and files\<close>

datatype line = Argc nat | Argv nat string | Env nat string | Opt char string | Usage string
  | File string string | Lstat_error string

definition arg_main :: "string list \<Rightarrow> line list" where
  "arg_main argv = Argc (length argv) # map (\<lambda>i. Argv i (argv ! i)) [0..<length argv]"

text \<open>The environment is walked up to its null pointer, here the end of the list.\<close>

fun env_from :: "nat \<Rightarrow> string list \<Rightarrow> line list" where
  "env_from i [] = []"
| "env_from i (e # es) = Env i e # env_from (i + 1) es"

definition env_main :: "string list \<Rightarrow> line list" where
  "env_main environ = env_from 0 environ"

text \<open>\<open>getopt.c\<close>, over what the calls of \<open>getopt\<close> return up to the end of the options, each with its argument.\<close>

fun getopt_main :: "string \<Rightarrow> (char \<times> string) list \<Rightarrow> line list \<times> int" where
  "getopt_main app [] = ([], 0)"
| "getopt_main app ((c, optarg) # os) =
     (if c = CHR ''g'' \<or> c = CHR ''s'' then (case getopt_main app os of (outs, r) \<Rightarrow> (Opt c optarg # outs, r))
      else ([Usage app], 0))"

text \<open>The type of a file in its mode.\<close>

definition S_IFMT :: "32 word" where "S_IFMT = 0xF000"

definition file_type :: "32 word \<Rightarrow> string" where
  "file_type mode =
     (if mode AND S_IFMT = 0x8000 then ''Regular file''
      else if mode AND S_IFMT = 0x4000 then ''Directory''
      else if mode AND S_IFMT = 0x2000 then ''Character device''
      else if mode AND S_IFMT = 0x6000 then ''Block device''
      else if mode AND S_IFMT = 0x1000 then ''Fifo''
      else if mode AND S_IFMT = 0xA000 then ''Symbolic link''
      else if mode AND S_IFMT = 0xC000 then ''Socket''
      else ''** unknown **'')"

definition stat_main :: "(string \<Rightarrow> 32 word option) \<Rightarrow> string list \<Rightarrow> line list \<times> int" where
  "stat_main lstat argv =
     (if length argv < 2 then ([Usage (concat (take 1 argv))], - 1)
      else (map (\<lambda>f. case lstat f of None \<Rightarrow> Lstat_error f | Some mode \<Rightarrow> File f (file_type mode)) (drop 1 argv), 0))"

section \<open>The watchdog, initialisation by sections, and logging\<close>

text \<open>
  \<open>watchdot_test.c\<close>: the loop over what the calls of \<open>write\<close> return. The result: how often the watchdog was fed, and
  the status if the program has ended.
\<close>

fun feed :: "nat \<Rightarrow> int list \<Rightarrow> nat \<times> int option" where
  "feed n [] = (n, None)"
| "feed n (r # rs) = (if r \<noteq> 1 then (n, Some (- 1)) else feed (n + 1) rs)"

definition watchdog_main :: "bool \<Rightarrow> int list \<Rightarrow> nat \<times> int option" where
  "watchdog_main open_ok rs = (if \<not> open_ok then (0, Some 1) else feed 0 rs)"

text \<open>
  \<open>init_example\<close>: the linker puts the pointers to the functions that are declared into one section, in the order of the
  objects, and \<open>callinit\<close> calls them from the first to the last.
\<close>

type_synonym init_fn = "string \<Rightarrow> string"

definition a_init :: init_fn where "a_init s = s @ ''a init is called.'' @ [newline]"
definition b_init :: init_fn where "b_init s = s @ ''b init is called.'' @ [newline]"

fun callinit :: "init_fn list \<Rightarrow> init_fn" where
  "callinit [] s = s"
| "callinit (f # fs) s = callinit fs (f s)"

definition init_main :: "init_fn list \<Rightarrow> string \<times> int" where
  "init_main init_sec = (callinit init_sec [], 0)"

text \<open>\<open>log/log.c\<close>: three ways to compile it. The place of the last call is its line of the file.\<close>

datatype mode = Debug | Daemon | Plain

datatype entry = Stderr string | Syslog_info string | Syslog_err string

definition log_main :: "mode \<Rightarrow> string \<Rightarrow> entry list" where
  "log_main m errno = (case m of
     Debug \<Rightarrow> [Stderr ''hello 1'', Stderr (''hello 2: '' @ errno), Stderr ''[main:31] hello 3'']
   | Daemon \<Rightarrow> [Syslog_info ''hello 1'', Syslog_err (''hello 2 : '' @ errno), Syslog_info ''[main:31] hello 3'']
   | Plain \<Rightarrow> [])"

section \<open>What they show\<close>

definition before_line :: "int \<Rightarrow> string" where
  "before_line me = ''before fork, getpid()='' @ show_int me @ [newline]"

definition child_line :: "int \<Rightarrow> string" where
  "child_line ret = ''After fork, in child process getpid()='' @ show_int ret @ '', pid='' @ show_int 0 @ [newline]"

definition parent_line :: "int \<Rightarrow> int \<Rightarrow> string" where
  "parent_line me ret = ''After fork, in parent process getpid()='' @ show_int me @ '', pid='' @ show_int ret @ [newline]"

text \<open>
  Before the \<open>fork\<close> a line is printed once: but when the output is no terminal it is still in the
  buffer, so the child has a copy and the line appears twice. The child changes its own copies of the
  variables: it prints 7 and 89 where the parent prints 6 and 88. When the output is no terminal, a child that
  becomes another program and a program that ends with \<open>_exit\<close> show nothing at all.
\<close>

theorem buffers_and_fork:
  assumes "0 < ret"
  shows "fork_main t me ret = (before_line me @ parent_line me ret @ fork_line me 6 88, 0,
      Some ((if t then [] else before_line me) @ child_line ret @ fork_line ret 7 89)) \<and>
    (\<exists>p. fork_exec_main False ret True ret st = (p, 0, Some ([], None))) \<and>
    exit_main t = (if t then ''Hello main 1st.'' @ [newline] else [])"
proof (intro conjI)
  show "exit_main t = (if t then ''Hello main 1st.'' @ [newline] else [])"
    by (simp only: exit_main_def killed_line) (simp add: full_lines_def)
  show "\<exists>p. fork_exec_main False ret True ret st = (p, 0, Some ([], None))"
    using assms(1) by (auto simp: fork_exec_main_def put_def fresh_out_def at_kill_def Let_def)
  have "at_exit (forked (put (before_line me) (fresh_out t))) = (if t then [] else before_line me)"
    using forked_line [of "''before fork, getpid()='' @ show_int me" t] by (simp add: before_line_def)
  moreover have "at_exit (fresh_out t) = []" by (simp add: at_exit_def fresh_out_def)
  ultimately show "fork_main t me ret = (before_line me @ parent_line me ret @ fork_line me 6 88, 0,
      Some ((if t then [] else before_line me) @ child_line ret @ fork_line ret 7 89))"
    using assms(1) by (simp add: fork_main_def at_exit_put child_line_def parent_line_def before_line_def Let_def)
qed

theorem buffers_and_fork_witness:
  "\<exists>out. fork_main False 10 11 = (out, 0, Some (''before fork, getpid()=10'' @ [newline] @
    ''After fork, in child process getpid()=11, pid=0'' @ [newline] @ ''pid = 11, glob = 7, var = 89'' @ [newline]))"
proof -
  have "show_int 10 = ''10''" "show_int 11 = ''11''" "show_int 0 = ''0''" "show_int 7 = ''7''" "show_int 89 = ''89''" by code_simp+
  moreover have "0 < (11::int)" by simp
  ultimately show ?thesis using buffers_and_fork [of 11 False 10] by (simp add: fork_line_def before_line_def child_line_def)
qed

text \<open>Every file is reported, with one of the seven types of its mode or as unknown.\<close>

lemma file_type_known:
  "list_all2 (\<lambda>m t. file_type (m * 0x1000 OR (perm AND 0xFFF)) = t) [0x8, 0x4, 0x2, 0x6, 0x1, 0xA, 0xC]
    [''Regular file'', ''Directory'', ''Character device'', ''Block device'', ''Fifo'', ''Symbolic link'', ''Socket'']"
proof -
  have "(x OR (perm AND 0xFFF)) AND S_IFMT = x AND S_IFMT" for x :: "32 word"
    by (simp add: word_ao_dist and.assoc S_IFMT_def)
  then have t: "file_type (x OR (perm AND 0xFFF)) = file_type (x AND S_IFMT)" for x
    by (simp add: file_type_def and.assoc)
  show ?thesis unfolding t by (simp add: file_type_def S_IFMT_def)
qed

text \<open>Signals: what is shown on a terminal, and that a program that is killed shows nothing elsewhere.\<close>

lemma signal_killed: "signal_main False (sigs @ [SIGTERM]) = ([], False)"
proof -
  have k: "\<not> tty st \<Longrightarrow> shown st = [] \<Longrightarrow>
      shown (fst (deliver (sigs @ [SIGTERM]) st)) = [] \<and> snd (deliver (sigs @ [SIGTERM]) st) = False" for st
    by (induction sigs arbitrary: st) (auto simp: fun_handler_def put_def Let_def)
  let ?st = "put (''Main start.'' @ [newline]) (fresh_out False)"
  from k [of ?st] show ?thesis
    by (cases "deliver (sigs @ [SIGTERM]) ?st") (simp add: signal_main_def at_kill_def put_def fresh_out_def)
qed

lemma init_order: "init_main [a_init, b_init] = (''a init is called.'' @ [newline] @ ''b init is called.'' @ [newline], 0)"
  by (simp add: init_main_def a_init_def b_init_def)

lemma watchdog_fed: "watchdog_main True (replicate n 1 @ r # rs) = (if r = 1 then feed (n + 1) rs else (n, Some (- 1)))"
proof -
  have "feed k (replicate n 1 @ r # rs) = (if r = 1 then feed (k + n + 1) rs else (k + n, Some (- 1)))" for k
    by (induction n arbitrary: k) simp_all
  then show ?thesis by (simp add: watchdog_main_def)
qed

end
