(* ===== verification/QuotaTest.thy ===== *)
theory QuotaTest
  imports WorkTest
begin

text \<open>
  Two modules that do not compile as they are: \<open>kernel_module/rt-cfs-quota/rt_cfs_quota.c\<close>, a copy of parts of the work
  queue test without the declarations of \<open>struct test_work\<close>, \<open>test_work_idr\<close>, \<open>test_work_lock\<close> and of the
  variable \<open>cpu\<close>, and \<open>kernel_module/bh_test/bh_test.c\<close>, whose timer uses a counter, its maximum and a register that are declared
  nowhere. The first is modelled with the declarations of the work queue test, theory \<open>WorkTest\<close>, the second with
  what is missing as parameters.
\<close>

section \<open>The quota test: listing, timers and threads\<close>

definition mdelay_with_yield :: "(nat \<Rightarrow> nat) \<Rightarrow> (nat \<Rightarrow> nat) \<Rightarrow> nat \<Rightarrow> nat option" where
  "mdelay_with_yield msecs clock timeout_ms = yield_from msecs clock timeout_ms 0"

definition c_show :: "test_work \<Rightarrow> line" where
  "c_show e = Row (wid e) (timer_cpu e) (last_run_cpu e) (kthread_cpu e) (delay_time e)"

definition c_next :: "idr \<Rightarrow> nat \<Rightarrow> test_work option \<times> nat" where
  "c_next x pos = (case idr_get_next x pos of Some (j, e) \<Rightarrow> (Some e, j + 1) | None \<Rightarrow> (None, pos + 1))"

definition c_start :: "idr \<Rightarrow> nat \<Rightarrow> line list \<times> test_work option \<times> nat" where
  "c_start x pos = (case idr_get_next x pos of
     Some (j, e) \<Rightarrow> ([Header], Some e, j + 1) | None \<Rightarrow> ([Header], None, pos + 1))"

text \<open>The file, over the state and the lock of the work queue test.\<close>

definition c_start_locked :: "work_file \<Rightarrow> nat \<Rightarrow> (line list \<times> test_work option \<times> nat \<times> work_file) option" where
  "c_start_locked f pos = do {
     l \<leftarrow> mutex_lock (test_work_lock f);
     let (head, e, pos) = c_start (file_idr f) pos;
     Some (head, e, pos, f\<lparr>test_work_lock := l\<rparr>) }"

definition c_stop :: "work_file \<Rightarrow> work_file option" where
  "c_stop f = do { l \<leftarrow> mutex_unlock (test_work_lock f); Some (f\<lparr>test_work_lock := l\<rparr>) }"

definition work_test_op :: "(work_file, test_work, line) seq_operations" where
  "work_test_op = \<lparr>seq_start = c_start_locked, seq_next = \<lambda>f. c_next (file_idr f), seq_stop = c_stop, seq_show = c_show\<rparr>"

definition work_test_open :: "((work_file, test_work, line) seq_operations \<Rightarrow> int) \<Rightarrow> int" where
  "work_test_open seq_open = seq_open work_test_op"

definition rt_test_proc_ops :: "(((work_file, test_work, line) seq_operations \<Rightarrow> int) \<Rightarrow> int) proc_ops" where
  "rt_test_proc_ops = \<lparr>permanent = True, proc_open = work_test_open\<rparr>"

definition hrtimer_func :: "nat \<Rightarrow> test_work \<Rightarrow> test_work \<times> nat" where
  "hrtimer_func cpu e = (e\<lparr>timer_cpu := cpu\<rparr>, delay_time e)"

definition test_work_func :: "nat \<Rightarrow> nat \<Rightarrow> nat \<Rightarrow> bool \<Rightarrow> test_work \<Rightarrow> test_work \<times> nat" where
  "test_work_func cpu r1 r2 online e =
     (e\<lparr>last_run_cpu := cpu, delay_time := r2 mod 2 + 5\<rparr>, r1 mod 3 + (if online then 0 else 200))"

text \<open>
  The thread, over its turns: the processor, the random numbers, what is left of an interrupted sleep, and whether
  it is told to stop before and after the sleep. The result is the work and the delays it made.
\<close>

record turn =
  on_cpu :: nat
  stop_before :: bool
  timeleft :: nat
  stop_after :: bool
  r_delay :: nat

fun test_kthread_func :: "turn list \<Rightarrow> test_work \<Rightarrow> test_work \<times> nat list" where
  "test_kthread_func [] e = (e, [])"
| "test_kthread_func (t # ts) e =
     (if stop_before t then (e, [])
      else if stop_after t \<or> timeleft t \<noteq> 0 then (e, [])
      else case test_kthread_func ts (e\<lparr>kthread_cpu := on_cpu t\<rparr>) of (e, ds) \<Rightarrow> (e, r_delay t mod 500 # ds))"

text \<open>The handlers of a probe that is never registered.\<close>

definition entry_handler :: "int \<Rightarrow> int \<times> nat" where
  "entry_handler now = (now, 50)"

definition ret_handler :: "int \<Rightarrow> 64 word \<Rightarrow> int \<Rightarrow> 64 word \<times> int" where
  "ret_handler entry_stamp retval now = (retval, now - entry_stamp)"

definition func_name :: string where
  "func_name = ''worker_thread''"

definition my_kretprobe :: "(unit, int) kretprobe" where
  "my_kretprobe = \<lparr>symbol_name = func_name, handler = ret_handler,
     entry_fn = \<lambda>_ now. (Some (fst (entry_handler now)), snd (entry_handler now)), data_size = 8, maxactive = 512\<rparr>"

interpretation quota: return_probe my_kretprobe 50
  by unfold_locales (auto simp: my_kretprobe_def entry_handler_def ret_handler_def)

section \<open>The quota test: loading and unloading\<close>

record quota_env =
  alloc_err :: "nat \<Rightarrow> int option"
  zalloc_ok :: "nat \<Rightarrow> bool"
  run_ok :: "nat \<Rightarrow> bool"

text \<open>One work for every processor that is online; its number has to be at most that of the processor.\<close>

fun works_on :: "quota_env \<Rightarrow> nat list \<Rightarrow> work_mod \<Rightarrow> (int \<times> work_mod) option" where
  "works_on e [] s = Some (0, s)"
| "works_on e (cpu # cpus) s = (case idr_alloc (alloc_err e cpu) (int cpu + 1) (test_work_idr s) of
     Inl r \<Rightarrow> Some (r, s)
   | Inr (rc, x) \<Rightarrow>
       if \<not> zalloc_ok e cpu then None
       else
         let s = WorkTest.take_res (Timer rc) (WorkTest.take_res (Entry rc) s);
             entry = \<lparr>last_run_cpu = 0, timer_cpu = 0, kthread_cpu = 0, delay_time = 0,
               timer_on = Some cpu, kthread_ok = run_ok e cpu, wid = rc\<rparr>;
             s = (if run_ok e cpu then WorkTest.take_res (Thread rc) s else s)
         in works_on e cpus (s\<lparr>test_work_idr := x[rc := Some entry]\<rparr>))"

definition rt_cfs_quota_init :: "quota_env \<Rightarrow> nat list \<Rightarrow> work_mod \<Rightarrow> (int \<times> work_mod) option" where
  "rt_cfs_quota_init e online s = do {
     (r, s) \<leftarrow> works_on e online s;
     if r < 0 then Some (r, s) else Some (0, WorkTest.take_res Proc_file s) }"

definition rt_cfs_quota_exit :: "work_mod \<Rightarrow> work_mod option" where
  "rt_cfs_quota_exit s = do { m \<leftarrow> release Proc_file (held s); Some (s\<lparr>held := m\<rparr>) }"

text \<open>What the works made so far hold.\<close>

definition work_res :: "quota_env \<Rightarrow> nat list \<Rightarrow> nat \<Rightarrow> res multiset" where
  "work_res e cpus n = (\<Sum>(i, c)\<leftarrow>zip [n..<n + length cpus] cpus. {#Entry i, Timer i#} + (if run_ok e c then {#Thread i#} else {#}))"

lemma work_res_Cons: "work_res e (c # cpus) n =
  {#Entry n, Timer n#} + (if run_ok e c then {#Thread n#} else {#}) + work_res e cpus (n + 1)"
proof -
  have "[n..<n + length (c # cpus)] = n # [n + 1..<n + 1 + length cpus]" by (subst upt_conv_Cons) simp_all
  then show ?thesis by (simp add: work_res_def)
qed

lemma works_on_ok:
  assumes "\<forall>c\<in>set cpus. alloc_err e c = None \<and> zalloc_ok e c"
  shows "sorted_wrt (<) cpus \<Longrightarrow> \<forall>c\<in>set cpus. length (test_work_idr s) \<le> c \<Longrightarrow>
    \<exists>s'. works_on e cpus s = Some (0, s') \<and> length (test_work_idr s') = length (test_work_idr s) + length cpus \<and>
      held s' = held s + work_res e cpus (length (test_work_idr s))"
  using assms
proof (induction cpus arbitrary: s)
  case Nil
  then show ?case by (simp add: work_res_def)
next
  case (Cons c cs)
  let ?n = "length (test_work_idr s)"
  define s1 where "s1 = (let t = WorkTest.take_res (Timer ?n) (WorkTest.take_res (Entry ?n) s);
      t = (if run_ok e c then WorkTest.take_res (Thread ?n) t else t) in
    t\<lparr>test_work_idr := (test_work_idr s @ [None])[?n := Some \<lparr>last_run_cpu = 0, timer_cpu = 0, kthread_cpu = 0, delay_time = 0,
               timer_on = Some c, kthread_ok = run_ok e c, wid = ?n\<rparr>]\<rparr>)"
  have len: "length (test_work_idr s1) = ?n + 1" by (simp add: s1_def Let_def)
  have held: "held s1 = held s + ({#Entry ?n, Timer ?n#} + (if run_ok e c then {#Thread ?n#} else {#}))"
    by (simp add: s1_def Let_def WorkTest.take_res_def acquire_def add_mset_commute)
  have "\<forall>c'\<in>set cs. length (test_work_idr s1) \<le> c'" using Cons.prems(1,2) by (auto simp: len)
  with Cons.IH [of s1] Cons.prems obtain s' where
    "works_on e cs s1 = Some (0, s')" "length (test_work_idr s') = ?n + 1 + length cs" "held s' = held s1 + work_res e cs (?n + 1)"
    by (auto simp: len)
  moreover have "works_on e (c # cs) s = works_on e cs s1"
    using Cons.prems by (simp add: idr_alloc_def s1_def Let_def)
  ultimately show ?case by (simp add: work_res_Cons held add.assoc)
qed

text \<open>
  When nothing fails the load makes one work for every processor. Unloading removes the
  file and nothing else: all works stay, with their timers running into the code of the module that is gone, and so do their threads.
\<close>

lemma quota_unload_keeps_works:
  assumes "\<forall>c\<in>set online. alloc_err e c = None \<and> zalloc_ok e c" and "sorted_wrt (<) online"
    and "s = \<lparr>test_work_idr = [], g_cpuhp_state = - 1, held = {#}\<rparr>"
  shows "\<exists>s1 s2. rt_cfs_quota_init e online s = Some (0, s1) \<and> length (test_work_idr s1) = length online \<and>
    rt_cfs_quota_exit s1 = Some s2 \<and> held s2 = work_res e online 0"
proof -
  from works_on_ok [OF assms(1,2), of s] assms(3) obtain s' where
    "works_on e online s = Some (0, s')" "length (test_work_idr s') = length online" "held s' = work_res e online 0" by auto
  then show ?thesis
    by (simp add: rt_cfs_quota_init_def rt_cfs_quota_exit_def WorkTest.take_res_def acquire_def)
qed

text \<open>The copies are the functions of the work queue test.\<close>

lemma quota_copies: "my_kretprobe = WorkTest.my_kretprobe" "c_show = WorkTest.c_show" "c_next = WorkTest.c_next"
  "c_start = WorkTest.c_start" "hrtimer_func = WorkTest.hrtimer_func" "test_work_func = WorkTest.test_work_func"
  by (auto simp: fun_eq_iff my_kretprobe_def WorkTest.probe_defs func_name_def WorkTest.func_name_def entry_handler_def
    ret_handler_def c_show_def WorkTest.c_show_def c_next_def WorkTest.c_next_def c_start_def WorkTest.c_start_def
    hrtimer_func_def WorkTest.hrtimer_func_def test_work_func_def WorkTest.test_work_func_def Let_def split: option.splits)

lemma quota_file: "work_test_op = WorkTest.work_test_op" "rt_test_proc_ops = WorkTest.cpuinfo_proc_ops"
proof -
  have "c_start_locked = WorkTest.c_start_locked" "c_stop = WorkTest.c_stop"
    by (simp_all add: fun_eq_iff c_start_locked_def WorkTest.c_start_locked_def c_stop_def WorkTest.c_stop_def quota_copies)
  then show op: "work_test_op = WorkTest.work_test_op"
    by (simp add: work_test_op_def WorkTest.work_test_op_def quota_copies)
  then show "rt_test_proc_ops = WorkTest.cpuinfo_proc_ops"
    by (simp add: rt_test_proc_ops_def WorkTest.cpuinfo_proc_ops_def fun_eq_iff work_test_open_def WorkTest.work_test_open_def)
qed

text \<open>So its reads leave the lock free, as those of the work queue test do.\<close>

lemma quota_reads: "seq_file_law seq_read \<Longrightarrow> \<not> test_work_lock f \<Longrightarrow> \<exists>ls pos'. seq_reads seq_read work_test_op ks (pos, f) = Some (ls, pos', f)"
  unfolding quota_file by (rule listing.reads_balanced)

section \<open>The bottom half test\<close>

text \<open>
  The timer counts up to a maximum and writes the counter to a register; the parameters are the maximum, and the
  interval in milliseconds, which becomes seconds and nanoseconds. Reading the file makes a work queue, runs the work on processor
  1, which holds a lock for 100 seconds, and waits for it when the queue is destroyed.
\<close>

definition heartbeat_func :: "nat \<Rightarrow> nat \<Rightarrow> nat \<Rightarrow> nat \<times> nat \<times> nat" where
  "heartbeat_func max_heartbeat interval core0_heartbeat =
     (let h = core0_heartbeat + 1; h = (if max_heartbeat \<le> h then 0 else h) in
      (h, interval div 1000, interval mod 1000 * 1000000))"

record bh_mod =
  test_proc :: bool
  lock_held :: bool
  locked_ms :: nat

definition test_work_fn :: "bh_mod \<Rightarrow> bh_mod option" where
  "test_work_fn s =
     (if lock_held s then None
      else
        let s = s\<lparr>lock_held := True\<rparr>;
            s = s\<lparr>locked_ms := locked_ms s + 100 * 1000\<rparr> in
        Some (s\<lparr>lock_held := False\<rparr>))"

definition bh_test_show :: "bool \<Rightarrow> bh_mod \<Rightarrow> (string list \<times> int \<times> bh_mod) option" where
  "bh_test_show alloc_ok s =
     (if \<not> alloc_ok then None
      else do { s \<leftarrow> test_work_fn s; Some ([''bh_test_show''], 0, s) })"

definition proc_bh_test_init :: "bool \<Rightarrow> bh_mod \<Rightarrow> int \<times> bh_mod" where
  "proc_bh_test_init proc_ok s = (0, s\<lparr>test_proc := proc_ok\<rparr>)"

definition proc_bh_test_remove :: "bh_mod \<Rightarrow> bh_mod" where
  "proc_bh_test_remove s = s\<lparr>test_proc := False\<rparr>"

text \<open>The counter stays below its maximum and goes round; a read with memory leaves the lock free, one without crashes.\<close>

lemma heartbeat_wraps:
  "h < m \<Longrightarrow> fst ((heartbeat_func m i) h) = (h + 1) mod m"
  by (auto simp: heartbeat_func_def Let_def mod_if)

lemma bh_read: "\<not> lock_held s \<Longrightarrow> bh_test_show ok s = (if ok then Some ([''bh_test_show''], 0, s\<lparr>locked_ms := locked_ms s + 100000\<rparr>) else None)"
  by (simp add: bh_test_show_def test_work_fn_def Let_def)

end
