(* ===== verification/RpcMain.thy ===== *)
theory RpcMain
  imports Rpc Kernel CString
begin

text \<open>
  The rest of \<open>rpc_intf\<close>: host names (\<open>sock_htoa\<close>, \<open>sock_atoh\<close>), what is printed of a message, the client
  program from opening to closing, the server program, and what the receiver makes of arbitrary bytes from the network.
\<close>

section \<open>Host names\<close>

text \<open>
  \<open>inet_ntoa\<close> writes the four bytes of an address in network order in decimal; \<open>inet_addr\<close> reads this notation,
  with \<open>None\<close> for everything else, which the programs do not use: the other notations it knows (fewer parts, octal,
  hexadecimal) and what is no address.
\<close>

definition inet_ntoa :: "32 word \<Rightarrow> string" where
  "inet_ntoa a = (case map (\<lambda>b. digits_in 10 (unat b)) (le_bytes a) of
     [a, b, c, d] \<Rightarrow> a @ ''.'' @ b @ ''.'' @ c @ ''.'' @ d | _ \<Rightarrow> [])"

definition octet :: "string \<Rightarrow> Rpc.byte option" where
  "octet cs = do {
     vs \<leftarrow> those (map hexval cs);
     let n = fold (\<lambda>v n. 10 * n + v) vs 0;
     if list_all (\<lambda>v. v < 10) vs \<and> cs \<noteq> [] \<and> (vs = [0] \<or> hd vs \<noteq> 0) \<and> n \<le> 255 then Some (of_nat n) else None }"

definition inet_addr :: "string \<Rightarrow> 32 word option" where
  "inet_addr cs = do {
     (a, cs) \<leftarrow> split_at (CHR ''.'') cs;
     (b, cs) \<leftarrow> split_at (CHR ''.'') cs;
     (c, d) \<leftarrow> split_at (CHR ''.'') cs;
     a \<leftarrow> octet a; b \<leftarrow> octet b; c \<leftarrow> octet c; d \<leftarrow> octet d;
     Some (le_word a b c d) }"

definition sock_htoa :: "32 word \<Rightarrow> string" where
  "sock_htoa host = inet_ntoa (htonl host)"

definition sock_atoh :: "string \<Rightarrow> 32 word option" where
  "sock_atoh host_name = map_option htonl (inet_addr host_name)"

text \<open>The values \<open>print_msg\<close> prints.\<close>

definition print_msg :: "rpc_msg \<Rightarrow> nat list" where
  "print_msg msg = [unat (cmd msg), unat (rqrs msg), unat (data_len msg)]"

text \<open>What \<open>%d\<close> prints of a number is read back: its digits, without a leading zero.\<close>

lemma those_snoc: "those (map f (xs @ [x])) = do { ys \<leftarrow> those (map f xs); y \<leftarrow> f x; Some (ys @ [y]) }"
  by (induction xs) (auto split: option.splits Option.bind_splits)

lemma digit_table: "list_all (\<lambda>v. hexval (''0123456789abcdef'' ! v) = Some v \<and> ''0123456789abcdef'' ! v \<noteq> CHR ''.'') [0..<10]"
  by code_simp

lemma digit: "v < 10 \<Longrightarrow> hexval (''0123456789abcdef'' ! v) = Some v \<and> ''0123456789abcdef'' ! v \<noteq> CHR ''.'' \<and> CHR ''.'' \<noteq> ''0123456789abcdef'' ! v"
proof -
  assume "v < 10"
  then have "v \<in> set [0..<10]" by simp
  with digit_table have "hexval (''0123456789abcdef'' ! v) = Some v \<and> ''0123456789abcdef'' ! v \<noteq> CHR ''.''"
    unfolding list_all_iff by (rule bspec)
  then show ?thesis by metis
qed

lemma decimal_digits:
  "\<exists>vs. those (map hexval (digits_in 10 n)) = Some vs \<and> list_all (\<lambda>v. v < 10) vs \<and> fold (\<lambda>v n. 10 * n + v) vs 0 = n \<and>
    vs \<noteq> [] \<and> (vs = [0] \<or> hd vs \<noteq> 0) \<and> (0 < n \<longrightarrow> hd vs \<noteq> 0) \<and> CHR ''.'' \<notin> set (digits_in 10 n)"
proof (induction n rule: less_induct)
  case (less n)
  show ?case
  proof (cases "n < 10")
    case True
    then have "digits_in 10 n = [''0123456789abcdef'' ! n]" by (simp add: digits_in.simps)
    with digit [OF True] True show ?thesis by (intro exI [of _ "[n]"]) auto
  next
    case False
    from less.IH [of "n div 10"] False obtain vs where vs: "those (map hexval (digits_in 10 (n div 10))) = Some vs"
      "list_all (\<lambda>v. v < 10) vs" "fold (\<lambda>v n. 10 * n + v) vs 0 = n div 10" "vs \<noteq> []" "hd vs \<noteq> 0"
      "CHR ''.'' \<notin> set (digits_in 10 (n div 10))" by auto
    have "n mod 10 < 10" by simp
    note c = digit [OF this]
    have "digits_in 10 n = digits_in 10 (n div 10) @ [''0123456789abcdef'' ! (n mod 10)]"
      using False by (subst digits_in.simps) simp
    with vs c show ?thesis
      by (intro exI [of _ "vs @ [n mod 10]"]) (simp add: those_snoc del: map_append)
  qed
qed

lemma octet_digits: "octet (digits_in 10 (unat b)) = Some b" and no_dot: "CHR ''.'' \<notin> set (digits_in 10 (unat (b :: Rpc.byte)))"
proof -
  have "unat b < 256" by (rule less_le_trans [OF unsigned_less]) simp
  moreover from decimal_digits [of "unat b"] obtain vs where
    vs: "those (map hexval (digits_in 10 (unat b))) = Some vs" "list_all (\<lambda>v. v < 10) vs" "fold (\<lambda>v n. 10 * n + v) vs 0 = unat b"
    "vs \<noteq> []" "vs = [0] \<or> hd vs \<noteq> 0" "CHR ''.'' \<notin> set (digits_in 10 (unat b))" by blast
  moreover have "digits_in 10 (unat b) \<noteq> []" using vs(1,4) by auto
  ultimately show "octet (digits_in 10 (unat b)) = Some b" "CHR ''.'' \<notin> set (digits_in 10 (unat b))"
    by (simp_all add: octet_def Let_def)
qed

lemma inet_roundtrip: "inet_addr (inet_ntoa a) = Some a"
  by (simp add: inet_addr_def inet_ntoa_def le_bytes_def split_at_first no_dot octet_digits le_word_bytes)

section \<open>The client program\<close>

text \<open>
  \<open>main\<close> of \<open>client.c\<close>: it packs the address of the server, opens the interface, makes its sixteen requests and
  closes. The network is that behind the address the socket was connected to. The result is what the requests returned, the network
  and the number of interfaces still allocated.
\<close>

definition RPC_SERVER_PORT :: "16 word" where
  "RPC_SERVER_PORT = 8088"

definition client_main ::
    "(rpc_addr \<Rightarrow> 'w \<Rightarrow> Rpc.byte list \<Rightarrow> ((Rpc.byte list \<times> rpc_addr) option \<times> 'w) option) \<Rightarrow> bool \<Rightarrow> int \<Rightarrow> rpc_msg \<Rightarrow> 'w \<Rightarrow>
     ((int \<times> rpc_msg) list \<times> 'w \<times> nat) option" where
  "client_main net malloc_ok sock msg w = do {
     host \<leftarrow> sock_atoh ''172.21.73.36'';
     let servaddr = snd (rpc_addr_pack host RPC_SERVER_PORT);
     let (intf, live) = rpc_intf_open malloc_ok sock OFLAG_CLIENT 0;
     (rs, w) \<leftarrow> client_loop (net servaddr) intf msg (replicate RPC_BUFFER_SIZE 0) (replicate RPC_BUFFER_SIZE 0) w 0;
     (_, live) \<leftarrow> rpc_intf_close intf live;
     Some (rs, w, live) }"

lemma client_address: "sock_atoh ''172.21.73.36'' = Some 0xAC154924"
  by code_simp

section \<open>The server program\<close>

text \<open>
  \<open>main\<close> of \<open>server.c\<close>, with the receives and the sends of the turns it lives to take: whether the interface
  could be opened is not tested, nor is the result of \<open>bind\<close>.
\<close>

fun server_loop :: "server \<Rightarrow> ((Rpc.byte list \<times> rpc_addr) option \<times> int) list \<Rightarrow>
    (((32 word \<times> 16 word) \<times> handler option \<times> Rpc.byte list) list \<times> server) option" where
  "server_loop s [] = Some ([], s)"
| "server_loop s ((rx, sent) # evs) = do {
     (s, turn) \<leftarrow> server_step s rx sent;
     (turns, s) \<leftarrow> server_loop s evs;
     Some (turn # turns, s) }"

definition server_main :: "bool \<Rightarrow> int \<Rightarrow> rpc_msg \<Rightarrow> rpc_addr \<Rightarrow> ((Rpc.byte list \<times> rpc_addr) option \<times> int) list \<Rightarrow>
    (((32 word \<times> 16 word) \<times> handler option \<times> Rpc.byte list) list \<times> server) option" where
  "server_main malloc_ok sock rq clientaddr evs = do {
     let servaddr = snd (rpc_addr_pack 0 RPC_SERVER_PORT);
     let (intf, live) = rpc_intf_open malloc_ok sock OFLAG_SERVER 0;
     server_loop \<lparr>s_intf = intf, s_rq = rq, s_client = clientaddr, s_rbuf = replicate RPC_BUFFER_SIZE 0,
       s_sbuf = replicate RPC_BUFFER_SIZE 0\<rparr> evs }"

text \<open>
  Whoever sends requests without data, in whatever order and however the sends end, gets for each of them its handler called and the
  response; the port of the peer is printed with its bytes swapped.
\<close>

definition served :: "rpc_msg \<times> rpc_addr \<Rightarrow> (32 word \<times> 16 word) \<times> handler option \<times> Rpc.byte list" where
  "served r = ((htonl (s_addr (snd r)), htons (htons (sin_port (snd r)))), handler_of (cmd (fst r)),
     frame ((fst r)\<lparr>rqrs := RQRS_RESPONSE\<rparr>))"

lemma server_loop_serves:
  "server_ok s \<Longrightarrow> \<forall>(r, sent)\<in>set rs. data_len (fst r) = 0 \<Longrightarrow>
    \<exists>s'. server_loop s (map (\<lambda>((rq, a), sent). (Some (frame rq, a), sent)) rs) = Some (map (served \<circ> fst) rs, s') \<and> server_ok s'"
proof (induction rs arbitrary: s)
  case (Cons x rs)
  obtain rq a sent where x: "x = ((rq, a), sent)" by (metis prod.exhaust)
  with Cons.prems have d: "data_len rq = 0" by simp
  from server_reply [OF Cons.prems(1) d, of a sent] obtain s1 where
    "server_step s (Some (frame rq, a)) sent = Some (s1, served (rq, a))" "server_ok s1"
    by (auto simp: served_def)
  with Cons.IH [of s1] Cons.prems(2) x show ?case by auto
qed simp

lemma server_main_serves:
  assumes "0 \<le> sock" and "\<forall>(r, sent)\<in>set rs. data_len (fst r) = 0"
  shows "\<exists>s'. server_main True sock rq c (map (\<lambda>((rq, a), sent). (Some (frame rq, a), sent)) rs) = Some (map (served \<circ> fst) rs, s')"
proof -
  have "server_ok \<lparr>s_intf = Some \<lparr>fd = sock, oflag = OFLAG_SERVER\<rparr>, s_rq = rq, s_client = c,
      s_rbuf = replicate RPC_BUFFER_SIZE 0, s_sbuf = replicate RPC_BUFFER_SIZE 0\<rparr>"
    by (simp add: server_ok_def)
  from server_loop_serves [OF this assms(2)] assms(1) show ?thesis
    by (auto simp: server_main_def rpc_intf_open_def Let_def)
qed

lemma server_main_no_interface:
  "\<not> mem \<or> sock < 0 \<Longrightarrow> server_main mem sock rq c (ev # evs) = None"
  by (cases ev) (auto simp: server_main_def rpc_intf_open_def Let_def server_step_def rpc_intf_recvfrom_def)

section \<open>Arbitrary datagrams\<close>

text \<open>
  The length a receiver takes from a buffer, and what a datagram leaves in the static buffer: behind its end stands
  what earlier datagrams left.
\<close>

definition claimed :: "Rpc.byte list \<Rightarrow> nat" where
  "claimed buf = 256 * unat (buf ! 2) + unat (buf ! 1)"

definition buffer_after :: "Rpc.byte list \<Rightarrow> Rpc.byte list \<Rightarrow> Rpc.byte list" where
  "buffer_after buf bytes = take RPC_BUFFER_SIZE bytes @ drop (length bytes) buf"

lemma length_buffer_after: "length buf = RPC_BUFFER_SIZE \<Longrightarrow> length (buffer_after buf bytes) = RPC_BUFFER_SIZE"
  by (simp add: buffer_after_def)

lemma claimed_length: "unat (ucast (push_bit 8 (ucast (b2 :: Rpc.byte) :: 32 word) OR ucast b1) :: 16 word) = 256 * unat b2 + unat (b1 :: Rpc.byte)"
proof -
  have d: "push_bit 8 (ucast b2 :: 32 word) OR ucast b1 = push_bit 8 (ucast b2) + ucast b1"
    by (rule disjunctive_add [symmetric]) (auto simp: bit_simps dest: bit_imp_le_length)
  have b: "unat b < 256" for b :: Rpc.byte by (rule less_le_trans [OF unsigned_less]) simp
  show ?thesis using b [of b1] b [of b2] unfolding d
    by (simp add: push_bit_eq_mult unat_word_ariths unsigned_ucast_eq take_bit_eq_mod)
qed

lemma deserialize_bounds:
  assumes "length buf = RPC_BUFFER_SIZE" and "k \<le> RPC_BUFFER_SIZE"
  shows "rpc_msg_deserialize msg buf k =
    (if sum_list (take k buf) \<noteq> 0 then Some (E_CHECKSUM, msg)
     else if claimed buf = 0 \<or> claimed buf \<le> RPC_BUFFER_SIZE - 3 \<and> claimed buf \<le> length (msg_data msg) then
       Some (E_OK, msg\<lparr>cmd := ucast (drop_bit 1 (buf ! 0)), rqrs := ucast (buf ! 0 AND 1), data_len := of_nat (claimed buf),
         msg_data := take (claimed buf) (drop 3 buf) @ drop (claimed buf) (msg_data msg)\<rparr>)
     else None)"
proof -
  let ?w = "ucast (push_bit 8 (ucast (buf ! 2) :: 32 word) OR ucast (buf ! 1)) :: 16 word"
  have r: "rd buf 0 = Some (buf ! 0)" "rd buf 1 = Some (buf ! 1)" "rd buf 2 = Some (buf ! 2)"
    using assms(1) by (simp_all add: rd_def RPC_BUFFER_SIZE_def)
  have n: "unat ?w = claimed buf" by (simp add: claimed_length claimed_def)
  then have w: "?w = of_nat (claimed buf)" by (rule word_of_unat)
  have u: "unat (of_nat (claimed buf) :: 16 word) = claimed buf" using n w by simp
  have m: "memcpy (msg_data msg) 0 (drop 3 buf) (claimed buf) =
      (if claimed buf = 0 \<or> claimed buf \<le> RPC_BUFFER_SIZE - 3 \<and> claimed buf \<le> length (msg_data msg)
       then Some (take (claimed buf) (drop 3 buf) @ drop (claimed buf) (msg_data msg)) else None)"
    using assms(1) by (auto simp: memcpy_def)
  have c: "calculate_checksum buf k = Some (sum_list (take k buf))" using assms by (simp add: calculate_checksum_eq)
  show ?thesis
    by (simp only: rpc_msg_deserialize_def c r Option.bind.simps Let_def w) (simp add: u m)
qed

section \<open>Properties\<close>

text \<open>
  C17. Receiving arbitrary bytes: whatever datagram arrives and whatever the buffer held, exactly this happens. When the bytes do
  not add up to 0 the message is left alone. Else the length is taken from the buffer, and the call has a defined result
  exactly when that many bytes fit the 512 bytes of the buffer behind the header and the
  memory of the message: the length is compared with neither, and not with that of the datagram, so a
  message may carry bytes of earlier datagrams.
\<close>

theorem rpc_recv_bounds:
  assumes "length buf = RPC_BUFFER_SIZE" and "oflag i AND OFLAG_SERVER = 0 \<or> src \<noteq> None"
  shows "rpc_intf_recvfrom (Some i) msg src buf (Some (bytes, a)) =
    (let dg = take RPC_BUFFER_SIZE bytes; buf' = buffer_after buf bytes; n = claimed buf' in
     if sum_list dg \<noteq> 0 then Some (E_CHECKSUM, msg, sender i a src, buf')
     else if n = 0 \<or> n \<le> RPC_BUFFER_SIZE - 3 \<and> n \<le> length (msg_data msg) then
       Some (int (length dg), msg\<lparr>cmd := ucast (drop_bit 1 (buf' ! 0)), rqrs := ucast (buf' ! 0 AND 1), data_len := of_nat n,
         msg_data := take n (drop 3 buf') @ drop n (msg_data msg)\<rparr>, sender i a src, buf')
     else None) \<and>
    length (buffer_after buf bytes) = RPC_BUFFER_SIZE"
proof -
  let ?dg = "take RPC_BUFFER_SIZE bytes"
  have b: "?dg @ drop (length ?dg) buf = buffer_after buf bytes"
    using assms(1) by (cases "length bytes \<le> RPC_BUFFER_SIZE") (simp_all add: buffer_after_def)
  have len: "length (buffer_after buf bytes) = RPC_BUFFER_SIZE" by (rule length_buffer_after [OF assms(1)])
  have t: "take (length ?dg) (buffer_after buf bytes) = ?dg" unfolding b [symmetric] by (cases "length bytes \<le> RPC_BUFFER_SIZE") simp_all
  have k: "length ?dg \<le> RPC_BUFFER_SIZE" by simp
  have "rpc_intf_recvfrom (Some i) msg src buf (Some (bytes, a)) =
      map_option (\<lambda>(r, q). (if r \<noteq> E_OK then E_CHECKSUM else int (length ?dg), q, sender i a src, buffer_after buf bytes))
        (rpc_msg_deserialize msg (buffer_after buf bytes) (length ?dg))"
    using assms(2) by (auto simp: rpc_intf_recvfrom_def sender_def Let_def b simp del: length_take split: Option.bind_splits)
  then show ?thesis
    unfolding deserialize_bounds [OF len k] t Let_def using len by (auto simp: E_OK_def E_CHECKSUM_def)
qed

text \<open>An empty datagram is accepted; one byte that adds up to 0 claims 300 bytes it does not have.\<close>

theorem rpc_recv_bounds_witness:
  "rpc_intf_recvfrom (Some \<lparr>fd = 5, oflag = OFLAG_CLIENT\<rparr>) hello None ([4, 44, 1] @ replicate 509 7) (Some ([], nobody)) = None"
proof -
  have "length ([4, 44, 1] @ replicate 509 7 :: Rpc.byte list) = RPC_BUFFER_SIZE"
    "oflag \<lparr>fd = 5, oflag = OFLAG_CLIENT\<rparr> AND OFLAG_SERVER = 0 \<or> None \<noteq> None"
    by (simp_all add: RPC_BUFFER_SIZE_def OFLAG_CLIENT_def)
  from rpc_recv_bounds [OF this, of hello "[]" nobody] show ?thesis
    by (simp add: buffer_after_def claimed_def hello_def)
qed

text \<open>
  Host names: the address that is written is the address that is read; and the whole client program, against the
  server of the repository behind the address it names, makes its sixteen requests, gets every response, and frees its interface;
  without memory or a socket it follows a null pointer.
\<close>

theorem rpc_client_program:
  shows "sock_atoh (sock_htoa host) = Some host"
    and "server_ok s \<Longrightarrow> 0 \<le> sock \<Longrightarrow> \<exists>rs s'.
      client_main (\<lambda>a. if rpc_addr_unpack a = (E_OK, 0xAC154924, 8088) then loopback ca a sent else (\<lambda>_ _. None)) True sock msg s
        = Some (rs, s', 0) \<and> server_ok s' \<and> map reply_of rs = map (\<lambda>i. (4, i, RQRS_RESPONSE, 0)) [0..<16]"
    and "\<not> mem \<or> sock < 0 \<Longrightarrow> client_main net mem sock msg w = None"
proof -
  show "sock_atoh (sock_htoa host) = Some host"
    by (simp add: sock_atoh_def sock_htoa_def inet_roundtrip htonl_htonl)
  have a: "rpc_addr_unpack (snd (rpc_addr_pack 0xAC154924 8088)) = (E_OK, 0xAC154924, 8088)"
    by (rule rpc_addr_roundtrip)
  let ?c = "\<lparr>fd = sock, oflag = OFLAG_CLIENT\<rparr>" and ?b = "replicate RPC_BUFFER_SIZE (0 :: Rpc.byte)"
  let ?addr = "snd (rpc_addr_pack 0xAC154924 8088)"
  show "\<exists>rs s'. client_main (\<lambda>a. if rpc_addr_unpack a = (E_OK, 0xAC154924, 8088) then loopback ca a sent else (\<lambda>_ _. None)) True sock msg s
        = Some (rs, s', 0) \<and> server_ok s' \<and> map reply_of rs = map (\<lambda>i. (4, i, RQRS_RESPONSE, 0)) [0..<16]"
    if "server_ok s" "0 \<le> sock"
  proof -
    from client_loop_eq [OF that(1), of ?b ?b 0 ?c ca ?addr sent msg] obtain rs s' where
      "client_loop (loopback ca ?addr sent) (Some ?c) msg ?b ?b s 0 = Some (rs, s')" "server_ok s'"
      "map reply_of rs = map (\<lambda>i. (4, i, RQRS_RESPONSE, 0)) [0..<16]" by (auto simp: OFLAG_CLIENT_def)
    with that(2) a show ?thesis
      by (simp add: client_main_def client_address RPC_SERVER_PORT_def Let_def rpc_intf_open_def rpc_intf_close_def)
  qed
  show "client_main net mem sock msg w = None" if "\<not> mem \<or> sock < 0"
  proof -
    have "client_loop n None msg b b' w 0 = None" for n and b b' :: "Rpc.byte list"
      by (subst client_loop.simps) (simp add: rpc_intf_sendto_def Let_def)
    with that show ?thesis
      by (auto simp: client_main_def client_address Let_def rpc_intf_open_def)
  qed
qed

end
