(* ===== verification/Spec2Isabelle.thy ===== *)
theory Spec2Isabelle
  imports SeqList SingleLinkList SeqStack LinkStack HeapTypes Sort HaierBracket PowerExpr FindSort Postfix ExprTree
    ExprConvert ArrayExam ProcessTask MatrixExam Rpc Completion CpuHp CpuFreq
    DevFreq QosFiles SmcClient WorkTest Fpga
    Config Pcie Rtc UnboundTest CharDrv Log TimerTest Rsa
    UdpEcho TcpEcho Sdei Lockdep Regulator Hook Can Raw Probes Monitor LinuxApp QuotaTest RetProbe SeqFile RpcMain
begin

text \<open>
  A verification development for a repository of C programs: data structures and the
  exercises and applications built on them, command line programs, clients and servers, programs for
  hardware devices, and Linux kernel modules. Every program is small; what they share is modelled once.

  \<^bold>\<open>How C is modelled.\<close> A C function is a HOL function into an option: \<open>Some\<close> of the returned value and
  the new state, or \<open>None\<close> for undefined behaviour (an access out of range, a null or dangling pointer, a
  signed overflow, releasing what is not held) and for a loop that does not end. An equation
  with \<open>Some\<close> is therefore total correctness. Error codes are ordinary values. Theory \<open>Prelude\<close> has the machine
  integers (\<open>int\<close> with checked range; \<open>w word\<close> where the code is unsigned or wraps) and arrays with
  checked indices; \<open>CHeap\<close> the heap of linked objects, with failing allocations, whose addresses are never handed out twice (a modelling choice, by
  which every use of freed memory shows); \<open>CString\<close> and
  \<open>Lexer\<close> strings and input; \<open>Kernel\<close> what the kernel modules share: error numbers, numbers in user memory, the
  ledger of held kernel objects, delays, and machines with their reachable states. Loops over an index are
  functions with a measure, loops along pointers or without a bound are partial functions, and that they
  end is part of the theorems; no fuel is used anywhere. System calls, library functions
  and the functions of the kernel are parameters, mostly their outcomes (which call fails, what a
  read delivers), so the theorems hold for every combination of failures. Where no documentation says what happens, both
  answers are covered: \<open>unregister\<close> of \<open>Kernel\<close> takes as an argument whether the kernel ignores it when something that is not
  registered is unregistered.

  \<^bold>\<open>Data structures\<close> (\<open>algorithm/list\<close>, \<open>algorithm/stack\<close>, \<open>algorithm/tree/bitree\<close>, \<open>algorithm/sort\<close>).
  \<open>ListSpec\<close> is the contract of the two bounded lists, a locale whose client lemma runs
  whole programs of calls, with two extensions, \<open>reporting_list\<close> and \<open>unchecked_list\<close>, that differ in the deletion of an absent element; \<open>SeqList\<close> (\<open>seqlist.c\<close>) interprets the
  first and \<open>SingleLinkList\<close> (\<open>single_linklist.c\<close>, on the heap) the second, and this theory compares the two. \<open>HeapTypes\<close> types the heap under calls with arbitrary pointers. \<open>StackSpec\<close> is the contract of the stacks,
  interpreted by \<open>SeqStack\<close>, \<open>LinkStack\<close> and the stacks of the exercises. \<open>BiTree\<close> has \<open>bitree.c\<close>, \<open>Sort\<close> the three
  sorts of \<open>sort.c\<close>.

  \<^bold>\<open>Applications and exercises\<close> (\<open>algorithm/*/app\<close>, \<open>exam\<close>). \<open>BracketMatch\<close>, \<open>HaierBracket\<close> and \<open>PowerExpr\<close> use the stack
  contract. \<open>Lexer\<close> and \<open>Expr\<close> (expressions, their value and their two notations) carry the three
  expression programs: \<open>Postfix\<close> evaluates, \<open>ExprConvert\<close> converts from infix, \<open>ExprTree\<close> builds, prints,
  evaluates and frees trees. \<open>FindSort\<close> is the search tree program. \<open>ArrayExam\<close>, \<open>MatrixExam\<close> and \<open>ProcessTask\<close>
  hold the exercises; the last is compared with every schedule of its tasks.

  \<^bold>\<open>Programs and protocols.\<close> \<open>Rpc\<close> is \<open>rpc_intf\<close>: framing, checksum, send and receive, the command table, the
  server's turn and the client's loop, composed into a session; \<open>RpcMain\<close> has the two programs from opening on, host names, and what a receiver makes of arbitrary bytes. \<open>Fpga\<close> is \<open>socket/fpga_socket\<close>. \<open>Config\<close> has both parsers of
  \<open>config_file\<close>, \<open>Log\<close> the log service with the specification it refines, for every outcome of its allocations. \<open>Rtc\<close> and \<open>Pcie\<close> are the programs of \<open>hardware\<close>,
  over an arbitrary device. \<open>Rsa\<close> is \<open>openssl_demo\<close>, over an arbitrary library. \<open>UdpEcho\<close> and \<open>TcpEcho\<close> are the clients and servers of
  \<open>socket/udp\<close> and \<open>socket/tcp\<close>, \<open>Can\<close> and \<open>Raw\<close> the programs of \<open>socket/can\<close> and \<open>socket/raw\<close>. \<open>Hook\<close> is the library that stands in for
  \<open>ioctl\<close>, composed with \<open>socket/get_mac_address.c\<close>, the hooks of it that are disabled, and the reading and taking over of its configuration. \<open>Monitor\<close> has the service monitor and the
  printer of hotplug events, \<open>LinuxApp\<close> the demonstrations of \<open>linux_app\<close>, over a model of the buffer of the standard
  output, with the other short programs (watchdog, initialisation by sections, log macros).

  \<^bold>\<open>Kernel modules\<close> (\<open>kernel_module\<close>). For each the file operations, the callbacks, and loading and unloading with every
  failing call: \<open>CpuHp\<close>, \<open>CpuFreq\<close>, \<open>DevFreq\<close> are the three limit files of \<open>qos\<close> (the locale \<open>limits_file\<close> of \<open>Kernel\<close> is the
  contract of the first and the last; \<open>QosFiles\<close> puts them side by side), \<open>Smc\<close> with \<open>SmcClient\<close> the driver and the program for secure
  monitor calls, composed, \<open>WorkTest\<close> and \<open>UnboundTest\<close> the two work queue tests, \<open>TimerTest\<close> the timer test, \<open>CharDrv\<close> the driver
  skeleton and the smallest module, \<open>Sdei\<close> the delegated exception test over arbitrary firmware, \<open>Regulator\<close> the regulator test on top of \<open>Smc\<close>, \<open>Probes\<close> the return
  probe, the breakpoints and the register access, \<open>QuotaTest\<close> the quota and the bottom half test. \<open>RetProbe\<close> is the contract of return probes, a
  locale over every legal sequence of calls that five modules interpret with their handlers, \<open>SeqFile\<close> that of the listings, whose lock every
  read gives back; the \<open>read\<close> of the kernel is a parameter there, with its documented behaviour, \<open>seq_file_law\<close>, as the hypothesis. \<open>Lockdep\<close> interleaves the initialisation
  of the lock validator test with its interrupt handler. \<open>Completion\<close> interleaves the reader and the thread of the completion demonstration step by step.
  The lifecycle theorems say what is still held after unloading, object by object.

  \<^bold>\<open>Lemma groups.\<close> Of each component: the invariant and its preservation by every operation, the
  functional description of every operation on every branch, errors included, then the theorems that
  put operations together (programs of calls, sessions, lifecycles). Theorems that name a defect describe exactly when it shows.

  \<^bold>\<open>Not modelled.\<close> Four files do not compile, because they use names that are declared nowhere: \<open>hook/lib/config_data.c\<close>,
  \<open>socket/tcp/server_fork.c\<close> (in \<open>TcpEcho\<close>), \<open>rt_cfs_quota.c\<close> and \<open>bh_test.c\<close> are modelled with
  what the missing names must mean, which their theories state. Code that is disabled (\<open>#if 0\<close>) is modelled where it has functions of its own
  (the hooks, the key generator of \<open>encrypt_decrypt.c\<close>). Left out are the disabled lines of \<open>socket/raw\<close>, the tables and declarations of the modules that only name functions, the texts around printed values, sleeping, and
  what only the operating system does: scheduling beyond the interleavings above, the network, the secure monitor and
  the firmware are parameters. Buffers of the standard library never fill, and counters that would need more than \<open>2 ^ 31\<close> turns of
  an endless loop to overflow are natural numbers.
\<close>

section \<open>Properties across components\<close>

text \<open>
  C1. The array list and the linked list, run side by side on new lists of one capacity, with memory for every node. Every
  program of insertions, deletions and modifications runs to its end on the array list. If it deletes only elements that are present, the linked
  list runs it to its end as well, both return the same codes and answer every later search alike, although they keep their
  elements in different orders. If it deletes an element that is absent, the array list reports -1 and goes on, and the linked list
  is undefined: there the two are not interchangeable, and nowhere else.
\<close>

theorem lists_interchangeable:
  assumes "heap_ok h" and "\<forall>k. \<not> oom h k" and "0 \<le> m" and "m \<le> INT_MAX"
  shows "\<exists>lp la h1. list_run SeqList.list_insert SeqList.list_delete SeqList.list_modify
      (SeqList.list_init True True m) cs = Some (op_codes m {#} cs, lp) \<and>
    SingleLinkList.list_init h m = Some (Some la, h1) \<and>
    (if admissible m {#} cs
     then \<exists>st. list_run ins_st del_st mod_st (h1, Some la) cs = Some (op_codes m {#} cs, st) \<and>
       (\<forall>x. map_option (\<lambda>r. r \<noteq> 0) (SeqList.list_search lp x) = has_st st x)
     else list_run ins_st del_st mod_st (h1, Some la) cs = None)"
proof -
  from sl.run_every_program [OF seq_rep_init [OF assms(3)], of cs] obtain lp xs where
    lp: "list_run SeqList.list_insert SeqList.list_delete SeqList.list_modify (SeqList.list_init True True m) cs =
      Some (op_codes m {#} cs, lp)" "seq_rep lp m xs" "mset xs = bag_run m {#} cs" by auto
  have seq: "map_option (\<lambda>r. r \<noteq> 0) (SeqList.list_search lp x) = Some (x \<in># bag_run m {#} cs)" for x
    using sl.has_iff [OF lp(2), of x] by (simp add: lp(3) [symmetric])
  from owns_init [OF assms(1-4)] obtain h1 where h1:
    "SingleLinkList.list_init h m = Some (Some (brk h), h1)" "link_rep (h1, Some (brk h)) m []"
    by (auto simp: owns_def link_rep_def)
  show ?thesis
  proof (cases "admissible m {#} cs")
    case True
    with ll.run_has [OF h1(2), of cs] obtain st where
      "list_run ins_st del_st mod_st (h1, Some (brk h)) cs = Some (op_codes m {#} cs, st)"
      "\<forall>x. has_st st x = Some (x \<in># bag_run m {#} cs)" by auto
    with True lp(1) h1(1) seq show ?thesis by (auto simp del: split_paired_Ex)
  next
    case False
    with ll.run_stuck [OF h1(2), of cs] lp(1) h1(1) show ?thesis by simp
  qed
qed

theorem lists_interchangeable_witness:
  "\<exists>lp la h1. list_run SeqList.list_insert SeqList.list_delete SeqList.list_modify
      (SeqList.list_init True True 2) [Ins 1, Ins 2, Ins 3, Mod 1 5, Del 5] = Some ([0, 0, - 1, 0, 0], lp) \<and>
    SingleLinkList.list_init (empty_heap (\<lambda>_. False)) 2 = Some (Some la, h1) \<and>
    (\<exists>st. list_run ins_st del_st mod_st (h1, Some la) [Ins 1, Ins 2, Ins 3, Mod 1 5, Del 5] = Some ([0, 0, - 1, 0, 0], st) \<and>
      (\<forall>x. map_option (\<lambda>r. r \<noteq> 0) (SeqList.list_search lp x) = has_st st x))"
proof -
  have "heap_ok (empty_heap (\<lambda>_. False))" "\<forall>k. \<not> oom (empty_heap (\<lambda>_. False)) k" "(0::int) \<le> 2" "2 \<le> INT_MAX"
    by (simp_all add: empty_heap_def heap_ok_def INT_MAX_def)
  from lists_interchangeable [OF this, of "[Ins 1, Ins 2, Ins 3, Mod 1 5, Del 5]"] show ?thesis by simp
qed

end
